(* ===== verification/Prelude.thy ===== *)
theory Prelude
  imports Main "HOL-Library.Monad_Syntax" "HOL-Library.Signed_Division"
begin

text \<open>
  Shared vocabulary of the development: the theorem collections the component proofs
  use, the C library's string-to-integer conversions, finite sums over the worker
  threads, and generic facts on lists and maps that more than one component needs.
\<close>

named_theorems layout_simps \<open>equations that unfold the layout and PTT operations\<close>
named_theorems sched_simps \<open>equations that unfold one scheduler operation\<close>

section \<open>Strings to integers\<close>

text \<open>
  C's \<open>isspace\<close> and \<open>isdigit\<close> in the default locale, and the common part of
  \<open>atoi\<close> and \<open>std::stoi\<close>: skip white space, read an optional sign, read digits.
\<close>

definition is_space :: "char \<Rightarrow> bool" where
  "is_space c \<longleftrightarrow> c \<in> {CHR '' '', CHR 0x09, CHR 0x0A, CHR 0x0B, CHR 0x0C, CHR 0x0D}"

definition is_digit :: "char \<Rightarrow> bool" where
  "is_digit c \<longleftrightarrow> 48 \<le> (of_char c :: nat) \<and> (of_char c :: nat) \<le> 57"

definition digit_val :: "char \<Rightarrow> int" where
  "digit_val c = int (of_char c) - 48"

fun read_digits :: "int \<Rightarrow> string \<Rightarrow> int" where
  "read_digits acc [] = acc"
| "read_digits acc (c # cs) =
     (if is_digit c then read_digits (10 * acc + digit_val c) cs else acc)"

definition after_space :: "string \<Rightarrow> string" where
  "after_space s = dropWhile is_space s"

definition split_sign :: "string \<Rightarrow> int \<times> string" where
  "split_sign s = (case s of [] \<Rightarrow> (1, [])
     | c # cs \<Rightarrow> if c = CHR ''-'' then (-1, cs) else if c = CHR ''+'' then (1, cs) else (1, s))"

text \<open>\<open>atoi\<close>: a string with no digits is 0.\<close>

definition atoi :: "string \<Rightarrow> int" where
  "atoi s = (case split_sign (after_space s) of (sg, r) \<Rightarrow> sg * read_digits 0 r)"

text \<open>
  \<open>std::stoi\<close> throws \<open>invalid_argument\<close> when there is no digit and \<open>out_of_range\<close>
  when the value does not fit an \<open>int\<close>; both are \<open>None\<close> here.
\<close>

definition stoi :: "string \<Rightarrow> int option" where
  "stoi s = (case split_sign (after_space s) of (sg, r) \<Rightarrow>
     (case r of [] \<Rightarrow> None
      | c # _ \<Rightarrow> if \<not> is_digit c then None
                else let v = sg * read_digits 0 r in
                     if - (2 ^ 31) \<le> v \<and> v < 2 ^ 31 then Some v else None))"

text \<open>Decimal output of a natural number, as \<open>operator<<\<close> and \<open>printf\<close> write it.\<close>

definition digit_char :: "nat \<Rightarrow> char" where
  "digit_char d = char_of (48 + d)"

fun show_nat :: "nat \<Rightarrow> string" where
  "show_nat n = (if n < 10 then [digit_char n] else show_nat (n div 10) @ [digit_char (n mod 10)])"

declare show_nat.simps [simp del]

lemma of_char_digit_char: "d < 10 \<Longrightarrow> (of_char (digit_char d) :: nat) = 48 + d"
  by (simp add: digit_char_def)

lemma is_digit_digit_char [simp]: "d < 10 \<Longrightarrow> is_digit (digit_char d)"
  by (simp add: is_digit_def of_char_digit_char)

lemma digit_val_digit_char [simp]: "d < 10 \<Longrightarrow> digit_val (digit_char d) = int d"
  by (simp add: digit_val_def of_char_digit_char)

lemma read_digits_append:
  "(\<forall>c\<in>set xs. is_digit c) \<Longrightarrow> read_digits acc (xs @ ys) = read_digits (read_digits acc xs) ys"
  by (induction xs arbitrary: acc) auto

lemma show_nat_digits: "\<forall>c\<in>set (show_nat n). is_digit c"
proof (induction n rule: show_nat.induct)
  case (1 n)
  then show ?case by (subst show_nat.simps) auto
qed

lemma show_nat_nonempty [simp]: "show_nat n \<noteq> []"
  by (subst show_nat.simps) auto

lemma read_digits_show_nat: "read_digits 0 (show_nat n) = int n"
proof (induction n rule: show_nat.induct)
  case (1 n)
  show ?case
  proof (cases "n < 10")
    case True
    then show ?thesis by (subst show_nat.simps) simp
  next
    case False
    have "read_digits 0 (show_nat (n div 10) @ [digit_char (n mod 10)])
        = 10 * int (n div 10) + int (n mod 10)"
      using 1 [OF False] by (simp add: read_digits_append show_nat_digits)
    moreover have "10 * int (n div 10) + int (n mod 10) = int n"
      using div_mult_mod_eq [of n 10] by linarith
    ultimately show ?thesis using False by (subst show_nat.simps) simp
  qed
qed

lemma is_digit_not_space: "is_digit c \<Longrightarrow> \<not> is_space c"
  by (auto simp: is_digit_def is_space_def)

lemma is_digit_not_sign: "is_digit c \<Longrightarrow> c \<noteq> CHR ''-'' \<and> c \<noteq> CHR ''+'' \<and> c \<noteq> CHR '',''"
  by (auto simp: is_digit_def)

lemma split_sign_digits:
  assumes "xs \<noteq> []" and "\<forall>c\<in>set xs. is_digit c"
  shows "split_sign (after_space xs) = (1, xs)"
proof -
  obtain c cs where xs: "xs = c # cs" using assms(1) by (cases xs) auto
  with assms(2) have "is_digit c" by simp
  then show ?thesis
    using is_digit_not_space [of c] is_digit_not_sign [of c]
    by (simp add: xs split_sign_def after_space_def)
qed

lemma stoi_show_nat: "n < 2 ^ 31 \<Longrightarrow> stoi (show_nat n) = Some (int n)"
proof -
  assume n: "n < 2 ^ 31"
  obtain c cs where s: "show_nat n = c # cs" using show_nat_nonempty by (cases "show_nat n") auto
  have d: "is_digit c" using show_nat_digits [of n] s by simp
  have "split_sign (after_space (c # cs)) = (1, c # cs)"
    using split_sign_digits [OF show_nat_nonempty show_nat_digits, of n] s by simp
  moreover have "read_digits 0 (c # cs) = int n" using read_digits_show_nat [of n] s by simp
  ultimately show ?thesis using n d by (simp add: stoi_def s Let_def del: read_digits.simps)
qed

lemma atoi_show_nat: "atoi (show_nat n) = int n"
  by (simp add: atoi_def split_sign_digits show_nat_digits read_digits_show_nat)

section \<open>Sums over the worker threads\<close>

text \<open>
  \<open>tsum N g p\<close> adds \<open>g (p i)\<close> over the threads \<open>i < N\<close>. It is an \<open>int\<close>, so that
  the change made by one thread's step is a plain difference.
\<close>

definition tsum :: "nat \<Rightarrow> ('a \<Rightarrow> int) \<Rightarrow> (nat \<Rightarrow> 'a) \<Rightarrow> int" where
  "tsum N g p = (\<Sum>i<N. g (p i))"

lemma tsum_upd [simp]: "i < N \<Longrightarrow> tsum N g (p(i := x)) = tsum N g p - g (p i) + g x"
proof -
  assume i: "i < N"
  have "(\<Sum>j<N. g ((p(i := x)) j)) = g x + (\<Sum>j\<in>{..<N} - {i}. g ((p(i := x)) j))"
    using i by (subst sum.remove [of _ i]) auto
  also have "(\<Sum>j\<in>{..<N} - {i}. g ((p(i := x)) j)) = (\<Sum>j\<in>{..<N} - {i}. g (p j))"
    by (rule sum.cong) auto
  also have "(\<Sum>j\<in>{..<N} - {i}. g (p j)) = (\<Sum>j<N. g (p j)) - g (p i)"
    using i by (subst sum.remove [of "{..<N}" i]) auto
  finally show ?thesis by (simp add: tsum_def)
qed

lemma tsum_nonneg: "(\<And>i. i < N \<Longrightarrow> 0 \<le> g (p i)) \<Longrightarrow> 0 \<le> tsum N g p"
  by (auto simp: tsum_def intro: sum_nonneg)

lemma tsum_member_le: "i < N \<Longrightarrow> (\<And>j. j < N \<Longrightarrow> 0 \<le> g (p j)) \<Longrightarrow> g (p i) \<le> tsum N g p"
  unfolding tsum_def by (rule member_le_sum) auto

lemma tsum_zero_iff:
  "(\<And>j. j < N \<Longrightarrow> 0 \<le> g (p j)) \<Longrightarrow> tsum N g p = 0 \<longleftrightarrow> (\<forall>i<N. g (p i) = 0)"
  unfolding tsum_def by (subst sum_nonneg_eq_0_iff) auto

lemma tsum_cong: "(\<And>i. i < N \<Longrightarrow> g (p i) = h (q i)) \<Longrightarrow> tsum N g p = tsum N h q"
  by (auto simp: tsum_def)

lemma tsum_add: "tsum N (\<lambda>x. g x + h x) p = tsum N g p + tsum N h p"
  by (simp add: tsum_def sum.distrib)

lemma tsum_0 [simp]: "tsum N (\<lambda>_. 0) p = 0"
  by (simp add: tsum_def)

lemma tsum_le: "(\<And>i. i < N \<Longrightarrow> g (p i) \<le> 1) \<Longrightarrow> tsum N g p \<le> int N"
  using sum_mono [of "{..<N}" "\<lambda>i. g (p i)" "\<lambda>_. 1"] by (simp add: tsum_def)

section \<open>The type int of C\<close>

text \<open>
  Overflow of \<open>int\<close> arithmetic is undefined, so the models that compute on \<open>int\<close> values check
  that results fit; an atomic \<open>int\<close> wraps around.
\<close>

definition fits_int :: "int \<Rightarrow> bool" where
  "fits_int x \<longleftrightarrow> - (2 ^ 31) \<le> x \<and> x < 2 ^ 31"

definition wrap_int :: "int \<Rightarrow> int" where
  "wrap_int x = (x + 2 ^ 31) mod 2 ^ 32 - 2 ^ 31"

lemma wrap_int_fits: "fits_int x \<Longrightarrow> wrap_int x = x"
  by (simp add: wrap_int_def fits_int_def)

section \<open>Lists\<close>

text \<open>\<open>count_list\<close> as an integer, for the token counting of the scheduler.\<close>

abbreviation occ :: "'a \<Rightarrow> 'a list \<Rightarrow> int" where
  "occ x xs \<equiv> int (count_list xs x)"

lemma count_list_pos_iff: "0 < count_list xs x \<longleftrightarrow> x \<in> set xs"
  using count_list_0_iff [of xs x] by auto

lemma count_list_butlast:
  "xs \<noteq> [] \<Longrightarrow> count_list xs x = count_list (butlast xs) x + (if last xs = x then 1 else 0)"
  by (induction xs) auto

lemma last_butlast_snoc: "xs \<noteq> [] \<Longrightarrow> xs = butlast xs @ [last xs]"
  by simp

lemma occ_singleton [simp]: "occ x [y] = (if x = y then 1 else 0)"
  by auto

lemma bind_eq_Some [simp]: "(Option.bind m f = Some y) \<longleftrightarrow> (\<exists>x. m = Some x \<and> f x = Some y)"
  by (cases m) auto

end
