(* ===== verification/Config.thy ===== *)
theory Config
  imports Prelude
begin

text \<open>
  The runtime's configuration (\<open>include/config.h\<close>, \<open>src/config.cpp\<close>): the static
  members of \<open>config\<close> and \<open>perf_model\<close> as one record, their defaults, the command-line
  options, and the calls that change them. \<open>getopt_long\<close> belongs to the C library: its
  results for an argument vector are a parameter of the model.
\<close>

section \<open>State\<close>

record config =
  thread_base :: int
  affinity :: int
  steal_attempts :: int
  task_pool_size :: int
  sta :: int
  hw_contexts :: int
  enable_workstealing :: bool
  enable_local_workstealing :: bool
  use_performance_modeling :: bool
  delete_executed_taos :: bool
  cfg_nthreads :: int
  stats_file :: string
  print_stats :: bool
  verbose :: bool
  minimize_parallel_cost :: bool
  refresh_frequency :: int
  old_tick_weight :: int
  cfg_mold :: bool

definition TASK_POOL :: int where "TASK_POOL = 100"
definition STEAL_ATTEMPTS :: int where "STEAL_ATTEMPTS = 100"
definition XITAO_MAXTHREADS :: nat where "XITAO_MAXTHREADS = 64"

text \<open>The initial values; \<open>hardware_concurrency\<close> is what the C++ library reports.\<close>

definition default_config :: "int \<Rightarrow> config" where
  "default_config hardware_concurrency = \<lparr>
     thread_base = 0, affinity = 1, steal_attempts = STEAL_ATTEMPTS, task_pool_size = TASK_POOL,
     sta = 1, hw_contexts = 1, enable_workstealing = True, enable_local_workstealing = False,
     use_performance_modeling = True, delete_executed_taos = True,
     cfg_nthreads = hardware_concurrency, stats_file = ''stats.txt'', print_stats = False,
     verbose = True, minimize_parallel_cost = True, refresh_frequency = 10, old_tick_weight = 4,
     cfg_mold = True\<rparr>"

section \<open>The command line\<close>

definition xitao_args_prefix :: string where
  "xitao_args_prefix = ''--xitao_args=''"

text \<open>
  The arguments after \<open>argv[0]\<close> are searched for the first that starts with the prefix;
  what follows the prefix is split at white space, as \<open>iss >> token\<close> does.
\<close>

definition starts_with :: "string \<Rightarrow> string \<Rightarrow> bool" where
  "starts_with p s \<longleftrightarrow> take (length p) s = p"

fun find_xitao_args :: "string list \<Rightarrow> string" where
  "find_xitao_args [] = []"
| "find_xitao_args (a # as) =
     (if starts_with xitao_args_prefix a then drop (length xitao_args_prefix) a else find_xitao_args as)"

fun words_from :: "string \<Rightarrow> string \<Rightarrow> string list" where
  "words_from cur [] = (if cur = [] then [] else [cur])"
| "words_from cur (c # cs) =
     (if is_space c then (if cur = [] then words_from [] cs else cur # words_from [] cs)
      else words_from (cur @ [c]) cs)"

definition extract_args :: "string list \<Rightarrow> string list" where
  "extract_args argv = xitao_args_prefix # words_from [] (find_xitao_args (tl argv))"

text \<open>
  One result of \<open>getopt_long\<close>: the option character, \<open>optarg\<close>, and the arguments from
  \<open>optind\<close> on. The end of the options (\<open>-1\<close>) is the end of the list of results.
\<close>

datatype opt_result = Opt (opt_char: char) (opt_arg: "string option") (opt_rest: "string list")

datatype config_error = Usage_abort | Null_optarg

text \<open>The long names and the character each stands for.\<close>

definition long_options :: "(string \<times> char) list" where
  "long_options = [(''wstealing'', CHR ''w''), (''lwstealing'', CHR ''l''), (''perfmodel'', CHR ''p''),
     (''nthreads'', CHR ''t''), (''idletries'', CHR ''i''), (''minparcost'', CHR ''c''),
     (''sta'', CHR ''s''), (''oldtickweight'', CHR ''o''), (''refreshtablefreq'', CHR ''f''),
     (''dealloctaos'', CHR ''d''), (''stats'', CHR ''u''), (''mold'', CHR ''m''), (''help'', CHR ''h'')]"

definition with_arg :: "string option \<Rightarrow> (int \<Rightarrow> config) \<Rightarrow> config_error + config" where
  "with_arg a f = (case a of None \<Rightarrow> Inl Null_optarg | Some s \<Rightarrow> Inr (f (atoi s)))"

text \<open>The \<open>switch\<close> of \<open>init_config\<close>, in the order of the source.\<close>

definition apply_option :: "config \<Rightarrow> opt_result \<Rightarrow> config_error + config" where
  "apply_option g r = (case r of Opt c a rest \<Rightarrow>
     if c = CHR ''w'' then with_arg a (\<lambda>v. g\<lparr>enable_workstealing := v \<noteq> 0\<rparr>)
     else if c = CHR ''s'' then with_arg a (\<lambda>v. g\<lparr>sta := v\<rparr>)
     else if c = CHR ''l'' then with_arg a (\<lambda>v. g\<lparr>enable_local_workstealing := v \<noteq> 0\<rparr>)
     else if c = CHR ''m'' then with_arg a (\<lambda>v. g\<lparr>cfg_mold := v \<noteq> 0\<rparr>)
     else if c = CHR ''p'' then with_arg a (\<lambda>v. g\<lparr>use_performance_modeling := v \<noteq> 0\<rparr>)
     else if c = CHR ''c'' then with_arg a (\<lambda>v. g\<lparr>minimize_parallel_cost := v \<noteq> 0\<rparr>)
     else if c = CHR ''t'' then with_arg a (\<lambda>v. g\<lparr>cfg_nthreads := v\<rparr>)
     else if c = CHR ''i'' then with_arg a (\<lambda>v. g\<lparr>steal_attempts := v\<rparr>)
     else if c = CHR ''u'' then
       (let g' = g\<lparr>print_stats := True\<rparr> in
        case (a, rest) of
          (None, f # _) \<Rightarrow> if take 1 f \<noteq> ''-'' then Inr (g'\<lparr>stats_file := f\<rparr>) else Inr g'
        | _ \<Rightarrow> Inr g')
     else if c = CHR ''h'' then Inl Usage_abort
     else if c = CHR ''o'' then with_arg a (\<lambda>v. g\<lparr>old_tick_weight := v\<rparr>)
     else if c = CHR ''f'' then with_arg a (\<lambda>v. g\<lparr>refresh_frequency := v\<rparr>)
     else if c = CHR ''d'' then with_arg a (\<lambda>v. g\<lparr>delete_executed_taos := v \<noteq> 0\<rparr>)
     else Inl Usage_abort)"

fun apply_options :: "config \<Rightarrow> opt_result list \<Rightarrow> config_error + config" where
  "apply_options g [] = Inr g"
| "apply_options g (r # rs) = (case apply_option g r of Inl e \<Rightarrow> Inl e | Inr g' \<Rightarrow> apply_options g' rs)"

text \<open>
  \<open>init_config\<close>: the loop is entered only when there is an argument besides \<open>argv[0]\<close>.
\<close>

definition init_config ::
  "(string list \<Rightarrow> opt_result list) \<Rightarrow> string list \<Rightarrow> bool \<Rightarrow> config \<Rightarrow> config_error + config" where
  "init_config getopt argv read_all_args g =
     (let args = (if read_all_args then argv else extract_args argv)
      in if length args > 1 then apply_options g (getopt args) else Inr g)"

section \<open>Calls that change the configuration\<close>

definition enable_stealing :: "int \<Rightarrow> config \<Rightarrow> config" where
  "enable_stealing n g = g\<lparr>enable_workstealing := True, steal_attempts := n\<rparr>"

definition disable_stealing :: "config \<Rightarrow> config" where
  "disable_stealing g = g\<lparr>enable_workstealing := False\<rparr>"

definition enable_performance_modeling :: "config \<Rightarrow> config" where
  "enable_performance_modeling g = g\<lparr>use_performance_modeling := True\<rparr>"

definition disable_performance_modeling :: "config \<Rightarrow> config" where
  "disable_performance_modeling g = g\<lparr>use_performance_modeling := False\<rparr>"

definition enable_performance_modeling_with :: "bool \<Rightarrow> int \<Rightarrow> int \<Rightarrow> config \<Rightarrow> config" where
  "enable_performance_modeling_with min_par_cost table_refresh_rate old_tck_weight g =
     g\<lparr>use_performance_modeling := True, minimize_parallel_cost := min_par_cost,
       refresh_frequency := table_refresh_rate, old_tick_weight := old_tck_weight\<rparr>"

definition xitao_set_num_threads :: "int \<Rightarrow> config \<Rightarrow> config" where
  "xitao_set_num_threads n g = g\<lparr>cfg_nthreads := n\<rparr>"

text \<open>
  The values \<open>print_configs\<close> reports, in its order; the lines that depend on a switch are
  present only when the switch is on.
\<close>

definition on_off :: "bool \<Rightarrow> string" where
  "on_off b = (if b then ''enabled'' else ''disabled'')"

definition show_int :: "int \<Rightarrow> string" where
  "show_int i = (if i < 0 then CHR ''-'' # show_nat (nat (- i)) else show_nat (nat i))"

definition print_configs :: "config \<Rightarrow> (string \<times> string) list" where
  "print_configs g =
    (if \<not> verbose g then [] else
     [(''Number of threads'', show_int (cfg_nthreads g)),
      (''Work stealing'', on_off (enable_workstealing g)),
      (''Cluster w-stealing'', on_off (enable_local_workstealing g)),
      (''Performance model'', on_off (use_performance_modeling g)),
      (''Capturing STA'', on_off (sta g = 1)),
      (''Auto TAO dealloc'', on_off (delete_executed_taos g)),
      (''Print stats'', on_off (print_stats g))]
     @ (if print_stats g then [(''Stats file'', stats_file g)] else [])
     @ (if enable_workstealing g then [(''Idle tries before steal'', show_int (steal_attempts g))] else [])
     @ (if use_performance_modeling g then
          [(''Min parallel cost'', on_off (minimize_parallel_cost g)),
           (''Refresh ptt entries'', show_int (refresh_frequency g)),
           (''Old tick weights'', show_int (old_tick_weight g)),
           (''Dynamic moldability'', if cfg_mold g then ''1'' else ''0'')] else []))"

text \<open>The help text as its lines: long option, short option, current value.\<close>

definition show_bool :: "bool \<Rightarrow> string" where
  "show_bool b = (if b then ''1'' else ''0'')"

definition usage :: "string \<Rightarrow> config \<Rightarrow> string \<times> (string \<times> char \<times> string option) list" where
  "usage name g = (name,
     [(''wstealing'', CHR ''w'', Some (show_bool (enable_workstealing g))),
      (''lwstealing'', CHR ''l'', Some (show_bool (enable_local_workstealing g))),
      (''perfmodel'', CHR ''p'', Some (show_bool (use_performance_modeling g))),
      (''sta'', CHR ''s'', Some (show_int (sta g))),
      (''nthreads'', CHR ''t'', Some (show_int (cfg_nthreads g))),
      (''idletries'', CHR ''i'', Some (show_int (steal_attempts g))),
      (''minparcost'', CHR ''c'', Some (show_bool (minimize_parallel_cost g))),
      (''oldtickweight'', CHR ''o'', Some (show_int (old_tick_weight g))),
      (''refreshtablefreq'', CHR ''f'', Some (show_int (refresh_frequency g))),
      (''dealloctaos'', CHR ''d'', Some (show_bool (delete_executed_taos g))),
      (''stats'', CHR ''u'', Some (stats_file g)),
      (''mold'', CHR ''m'', Some (show_bool (cfg_mold g))),
      (''help'', CHR ''h'', None)])"

section \<open>Lemmas\<close>

text \<open>The help text has a line for each option, and no other.\<close>

lemma usage_is_complete: "set (map (\<lambda>(l, c, v). (l, c)) (snd (usage name g))) = set long_options"
  by (auto simp: usage_def long_options_def)

lemma words_from_word:
  "(\<forall>c\<in>set w. \<not> is_space c) \<Longrightarrow> words_from cur (w @ rest) = words_from (cur @ w) rest"
  by (induction w arbitrary: cur) auto

fun join_spaces :: "string list \<Rightarrow> string" where
  "join_spaces [] = []"
| "join_spaces [w] = w"
| "join_spaces (w # ws) = w @ '' '' @ join_spaces ws"

lemma words_join:
  "(\<forall>w\<in>set ws. w \<noteq> [] \<and> (\<forall>c\<in>set w. \<not> is_space c)) \<Longrightarrow> words_from [] (join_spaces ws) = ws"
proof (induction ws rule: join_spaces.induct)
  case (2 w)
  then show ?case using words_from_word [of w "[]" "[]"] by simp
next
  case (3 w v vs)
  have "is_space CHR '' ''" by (simp add: is_space_def)
  with 3 show ?case using words_from_word [of w "[]" "'' '' @ join_spaces (v # vs)"] by simp
qed simp

lemma find_xitao_args_append:
  "(\<forall>a\<in>set pre. \<not> starts_with xitao_args_prefix a) \<Longrightarrow> find_xitao_args (pre @ rest) = find_xitao_args rest"
  by (induction pre) auto

lemma apply_options_append:
  "apply_options g (xs @ ys) = (case apply_options g xs of Inl e \<Rightarrow> Inl e | Inr g' \<Rightarrow> apply_options g' ys)"
  by (induction xs arbitrary: g) (auto split: sum.splits)

section \<open>Properties\<close>

text \<open>The configuration passed as one command-line argument survives the trip: whatever the
  arguments before it (none of which has the prefix) and after it, the words joined by
  single blanks behind \<open>--xitao_args=\<close> are the option words \<open>getopt_long\<close> is given, in
  order, with the prefix itself in the place of the program name.
\<close>

theorem extract_args_roundtrip:
  assumes "\<forall>a\<in>set pre. \<not> starts_with xitao_args_prefix a"
    and "\<forall>w\<in>set ws. w \<noteq> [] \<and> (\<forall>c\<in>set w. \<not> is_space c)"
  shows "extract_args (prog # pre @ (xitao_args_prefix @ join_spaces ws) # post) = xitao_args_prefix # ws"
  using assms by (simp add: extract_args_def find_xitao_args_append words_join starts_with_def)

theorem extract_args_roundtrip_witness:
  "extract_args [''./fib'', ''20'', ''--xitao_args=-t 4 -w 0'', ''x''] = [''--xitao_args='', ''-t'', ''4'', ''-w'', ''0'']"
proof -
  have "\<forall>a\<in>set [''20'']. \<not> starts_with xitao_args_prefix a"
    by (simp add: starts_with_def xitao_args_prefix_def)
  moreover have "\<forall>w\<in>set [''-t'', ''4'', ''-w'', ''0'']. w \<noteq> [] \<and> (\<forall>c\<in>set w. \<not> is_space c)"
    by (simp add: is_space_def)
  ultimately show ?thesis
    using extract_args_roundtrip [of "[''20'']" "[''-t'', ''4'', ''-w'', ''0'']" "''./fib''" "[''x'']"]
    by (simp add: xitao_args_prefix_def)
qed

lemma with_arg_Inr: "with_arg a f = Inr g \<longleftrightarrow> (\<exists>v. a = Some v \<and> g = f (atoi v))"
  by (auto simp: with_arg_def split: option.splits)

lemma apply_option_stats:
  "apply_option g r = Inr g' \<Longrightarrow> (opt_char r = CHR ''u'' \<longrightarrow> opt_arg r \<noteq> None) \<Longrightarrow>
   stats_file g' = stats_file g \<and> (print_stats g' \<longleftrightarrow> print_stats g \<or> opt_char r = CHR ''u'')"
  by (cases r) (auto simp: apply_option_def with_arg_Inr Let_def split: if_splits)

text \<open>The file name given with \<open>--stats=FILE\<close> is lost. The option takes its argument inline,
  and then, whatever else is on the command line, the configuration prints statistics but
  keeps the file name it had: only a word after an option without argument would be stored.
\<close>

theorem stats_file_argument_ignored:
  assumes "apply_options g rs = Inr g'" and "\<forall>r\<in>set rs. opt_char r = CHR ''u'' \<longrightarrow> opt_arg r \<noteq> None"
  shows "stats_file g' = stats_file g \<and> (print_stats g' \<longleftrightarrow> print_stats g \<or> (\<exists>r\<in>set rs. opt_char r = CHR ''u''))"
  using assms
proof (induction rs arbitrary: g)
  case (Cons r rs)
  then obtain g1 where g1: "apply_option g r = Inr g1" "apply_options g1 rs = Inr g'" by (auto split: sum.splits)
  with Cons.IH [OF g1(2)] Cons.prems(2) apply_option_stats [OF g1(1)] show ?case by auto
qed simp

theorem stats_file_argument_ignored_witness:
  "\<exists>g. apply_options (default_config 4) [Opt CHR ''t'' (Some ''2'') [], Opt CHR ''u'' (Some ''run.txt'') []] = Inr g
     \<and> stats_file g = ''stats.txt'' \<and> print_stats g"
proof -
  obtain g where g: "apply_options (default_config 4)
      [Opt CHR ''t'' (Some ''2'') [], Opt CHR ''u'' (Some ''run.txt'') []] = Inr g"
    by (simp add: apply_option_def with_arg_def Let_def)
  from stats_file_argument_ignored [OF this] g show ?thesis by (auto simp: default_config_def)
qed

end
