(* ===== verification/Layout.thy ===== *)
theory Layout
  imports Config
begin

text \<open>
  The hardware layout of \<open>src/xitao_ptt.cpp\<close>: which resource partitions (places) exist.
  \<open>ptt_layout[l]\<close> lists the widths thread \<open>l\<close> may lead, \<open>inclusive_partitions[t]\<close> the
  (leader, width) pairs whose threads include \<open>t\<close>. The tables are built from the number
  of threads (\<open>prepare_default_layout\<close>) or from a file (\<open>read_layout_table\<close>).
\<close>

section \<open>State\<close>

type_synonym place = "int \<times> int"

record layout =
  ptt_layout :: "int list list"
  inclusive_partitions :: "place list list"
  static_resource_mapper :: "int list"
  xitao_nthreads :: int

text \<open>
  What can go wrong: a message and \<open>exit(0)\<close>, an exception from \<open>stoi\<close>, or an access
  outside a vector, which is undefined behaviour.
\<close>

datatype layout_error = Fatal_exit | Invalid_number | Out_of_bounds

definition init_layout :: layout where
  "init_layout = \<lparr>ptt_layout = replicate XITAO_MAXTHREADS [], inclusive_partitions = replicate XITAO_MAXTHREADS [],
     static_resource_mapper = replicate XITAO_MAXTHREADS 0, xitao_nthreads = 0\<rparr>"

text \<open>\<open>clear_layout_partitions\<close> empties both tables for every thread.\<close>

definition clear_layout_partitions :: "layout \<Rightarrow> layout" where
  "clear_layout_partitions L = L\<lparr>ptt_layout := map (\<lambda>_. []) (ptt_layout L),
                                inclusive_partitions := map (\<lambda>_. []) (inclusive_partitions L)\<rparr>"

text \<open>\<open>v[i].push_back(x)\<close>, undefined outside the vector; and a sequence of them.\<close>

definition push_back_at :: "int \<Rightarrow> 'a \<Rightarrow> 'a list list \<Rightarrow> 'a list list option" where
  "push_back_at i x v = (if 0 \<le> i \<and> i < int (length v) then Some (v[nat i := v ! nat i @ [x]]) else None)"

fun push_back_all :: "(int \<times> 'a) list \<Rightarrow> 'a list list \<Rightarrow> 'a list list option" where
  "push_back_all [] v = Some v"
| "push_back_all ((i, x) # ps) v = do { v' \<leftarrow> push_back_at i x v; push_back_all ps v' }"

section \<open>The default layout\<close>

text \<open>
  The loop over the divisors: \<open>i < sqrt(nthreads)\<close> is \<open>i * i < nthreads\<close> on the integers
  that occur. It collects the small divisors in \<open>widths\<close> and their cofactors in \<open>temp\<close>.
\<close>

lemma int_le_square: "0 < (i::int) \<Longrightarrow> i \<le> i * i"
  using mult_right_mono [of 1 i i] by simp

function divisor_loop :: "int \<Rightarrow> int \<Rightarrow> int list \<Rightarrow> int list \<Rightarrow> int list \<times> int list" where
  "divisor_loop n i widths temp =
     (if 0 < i \<and> i * i < n then
        if n mod i = 0 then divisor_loop n (i + 1) (widths @ [i]) (temp @ [n div i])
        else divisor_loop n (i + 1) widths temp
      else (widths, temp))"
  by pat_completeness auto
termination
proof (relation "measure (\<lambda>(n, i, _, _). nat (n - i))", goal_cases)
  case (2 n i)
  then have "i \<le> i * i" by (intro int_le_square) simp
  with 2 have "i < n" by linarith
  then show ?case by simp
next
  case (3 n i)
  then have "i \<le> i * i" by (intro int_le_square) simp
  with 3 have "i < n" by linarith
  then show ?case by simp
qed auto

declare divisor_loop.simps [simp del]

definition default_widths :: "int \<Rightarrow> int list" where
  "default_widths n = (case divisor_loop n 1 [] [] of (widths, temp) \<Rightarrow> widths @ rev temp)"

text \<open>\<open>for(j = 0; j < n; j += w)\<close>; the widths are positive, so the loop ends.\<close>

function stride :: "int \<Rightarrow> int \<Rightarrow> int \<Rightarrow> int list" where
  "stride j w n = (if j < n \<and> 0 < w then j # stride (j + w) w n else [])"
  by pat_completeness auto
termination by (relation "measure (\<lambda>(j, w, n). nat (n - j))") auto

declare stride.simps [simp del]

definition layout_pushes :: "int \<Rightarrow> int list \<Rightarrow> (int \<times> int) list" where
  "layout_pushes n widths = concat (map (\<lambda>w. map (\<lambda>j. (j, w)) (stride 0 w n)) widths)"

definition partition_pushes :: "int \<Rightarrow> int list list \<Rightarrow> (int \<times> place) list" where
  "partition_pushes n lay =
     concat (map (\<lambda>i. concat (map (\<lambda>w. map (\<lambda>j. (i + j, (i, w))) [0..w - 1]) (lay ! nat i))) [0..n - 1])"

definition prepare_default_layout :: "int \<Rightarrow> layout \<Rightarrow> layout option" where
  "prepare_default_layout n L = do {
     lay \<leftarrow> push_back_all (layout_pushes n (default_widths n)) (ptt_layout L);
     inc \<leftarrow> push_back_all (partition_pushes n lay) (inclusive_partitions L);
     Some (L\<lparr>ptt_layout := lay, inclusive_partitions := inc\<rparr>) }"

section \<open>The layout file\<close>

text \<open>
  The inner loop of \<open>read_layout_table\<close> cuts a line at each comma. \<open>split_commas\<close> returns
  the tokens that were followed by a comma and the rest of the line.
\<close>

fun split_commas :: "string \<Rightarrow> string \<Rightarrow> string list \<times> string" where
  "split_commas cur [] = ([], cur)"
| "split_commas cur (c # cs) =
     (if c = CHR '','' then (case split_commas [] cs of (ts, r) \<Rightarrow> (cur # ts, r))
      else split_commas (cur @ [c]) cs)"

record reader =
  current_thread_id :: int
  init_affinity :: bool
  thread_count :: int
  rlayout :: layout

text \<open>\<open>static_resource_mapper[thread_count++] = val\<close>.\<close>

definition read_affinity :: "int \<Rightarrow> reader \<Rightarrow> layout_error + reader" where
  "read_affinity val r =
     (if thread_count r < int (length (static_resource_mapper (rlayout r)))
      then Inr (r\<lparr>thread_count := thread_count r + 1,
                  rlayout := (rlayout r)\<lparr>static_resource_mapper :=
                    (static_resource_mapper (rlayout r))[nat (thread_count r) := val]\<rparr>\<rparr>)
      else Inl Out_of_bounds)"

text \<open>The loop that enters the place led by \<open>cur\<close> with width \<open>val\<close> for each of its threads.\<close>

fun include_members :: "nat \<Rightarrow> int \<Rightarrow> int \<Rightarrow> int \<Rightarrow> place list list \<Rightarrow> layout_error + place list list" where
  "include_members 0 i cur val inc = Inr inc"
| "include_members (Suc k) i cur val inc =
     (if cur + i \<ge> int XITAO_MAXTHREADS then Inl Fatal_exit
      else case push_back_at (cur + i) (cur, val) inc of
             None \<Rightarrow> Inl Out_of_bounds
           | Some inc' \<Rightarrow> include_members k (i + 1) cur val inc')"

definition read_width :: "int \<Rightarrow> reader \<Rightarrow> layout_error + reader" where
  "read_width val r =
     (let L = rlayout r; cur = current_thread_id r in
      case push_back_at cur val (ptt_layout L) of
        None \<Rightarrow> Inl Out_of_bounds
      | Some lay \<Rightarrow>
         (case include_members (nat val) 0 cur val (inclusive_partitions L) of
            Inl e \<Rightarrow> Inl e
          | Inr inc \<Rightarrow> Inr (r\<lparr>rlayout := L\<lparr>ptt_layout := lay, inclusive_partitions := inc\<rparr>\<rparr>)))"

text \<open>A token that ends in a comma; the thread check comes before the width is stored.\<close>

definition read_comma_token :: "string \<Rightarrow> reader \<Rightarrow> layout_error + reader" where
  "read_comma_token tok r =
     (case stoi tok of None \<Rightarrow> Inl Invalid_number
      | Some val \<Rightarrow>
         if \<not> init_affinity r then read_affinity val r
         else if current_thread_id r + 1 \<ge> xitao_nthreads (rlayout r) then Inl Fatal_exit
         else read_width val r)"

definition read_last_token :: "string \<Rightarrow> reader \<Rightarrow> layout_error + reader" where
  "read_last_token tok r =
     (if tok = [] then Inr r
      else case stoi tok of None \<Rightarrow> Inl Invalid_number
      | Some val \<Rightarrow> if \<not> init_affinity r then read_affinity val r else read_width val r)"

fun read_tokens :: "string list \<Rightarrow> reader \<Rightarrow> layout_error + reader" where
  "read_tokens [] r = Inr r"
| "read_tokens (t # ts) r = (case read_comma_token t r of Inl e \<Rightarrow> Inl e | Inr r' \<Rightarrow> read_tokens ts r')"

definition end_line :: "reader \<Rightarrow> reader" where
  "end_line r =
     (let r' = (if \<not> init_affinity r
                then r\<lparr>rlayout := (rlayout r)\<lparr>xitao_nthreads := thread_count r\<rparr>, init_affinity := True\<rparr>
                else r)
      in r'\<lparr>current_thread_id := current_thread_id r' + 1\<rparr>)"

definition read_line :: "string \<Rightarrow> reader \<Rightarrow> layout_error + reader" where
  "read_line line r =
     (if current_thread_id r \<ge> int XITAO_MAXTHREADS then Inl Fatal_exit
      else case split_commas [] line of (ts, lst) \<Rightarrow>
        (case read_tokens ts (r\<lparr>thread_count := 0\<rparr>) of
           Inl e \<Rightarrow> Inl e
         | Inr r1 \<Rightarrow> (case read_last_token lst r1 of Inl e \<Rightarrow> Inl e | Inr r2 \<Rightarrow> Inr (end_line r2))))"

fun read_lines :: "string list \<Rightarrow> reader \<Rightarrow> layout_error + reader" where
  "read_lines [] r = Inr r"
| "read_lines (l # ls) r = (case read_line l r of Inl e \<Rightarrow> Inl e | Inr r' \<Rightarrow> read_lines ls r')"

text \<open>The whole function: the file is its lines, or \<open>None\<close> if it cannot be opened.\<close>

definition read_layout_table :: "string list option \<Rightarrow> layout \<Rightarrow> layout_error + layout" where
  "read_layout_table file L =
     (case file of None \<Rightarrow> Inl Fatal_exit
      | Some ls \<Rightarrow>
         (case read_lines ls \<lparr>current_thread_id = -1, init_affinity = False, thread_count = 0, rlayout = L\<rparr> of
            Inl e \<Rightarrow> Inl e
          | Inr r \<Rightarrow> Inr (rlayout r)))"

section \<open>Lemmas\<close>

subsection \<open>Sequences of insertions\<close>

lemma push_back_all_spec:
  "(\<forall>(i, x)\<in>set ps. 0 \<le> i \<and> i < int (length v)) \<Longrightarrow>
   \<exists>v'. push_back_all ps v = Some v' \<and> length v' = length v
      \<and> (\<forall>t<length v. v' ! t = v ! t @ map snd (filter (\<lambda>p. fst p = int t) ps))"
proof (induction ps arbitrary: v)
  case Nil
  then show ?case by simp
next
  case (Cons p ps)
  obtain i x where p: "p = (i, x)" by (cases p)
  let ?v = "v[nat i := v ! nat i @ [x]]"
  from Cons.prems p have i: "0 \<le> i" "i < int (length v)" by auto
  from Cons.prems have "\<forall>(i, x)\<in>set ps. 0 \<le> i \<and> i < int (length ?v)" by simp
  from Cons.IH [OF this] obtain v' where v': "push_back_all ps ?v = Some v'" "length v' = length v"
    "\<forall>t<length v. v' ! t = ?v ! t @ map snd (filter (\<lambda>p. fst p = int t) ps)"
    by auto
  have "v' ! t = v ! t @ map snd (filter (\<lambda>p. fst p = int t) (p # ps))" if "t < length v" for t
    using v'(3) that i p by (cases "t = nat i") auto
  with v' i p show ?case by (auto simp: push_back_at_def)
qed

lemma push_back_all_append:
  "push_back_all (ps @ qs) v = do { v' \<leftarrow> push_back_all ps v; push_back_all qs v' }"
  by (induction ps arbitrary: v) (auto split: Option.bind_splits)

subsection \<open>Divisors and strides\<close>

lemma divisor_loop_spec:
  "0 < i \<Longrightarrow> divisor_loop n i ws ts = (ws', ts') \<Longrightarrow>
   ws' = ws @ filter (\<lambda>d. n mod d = 0 \<and> d * d < n) [i..n] \<and>
   ts' = ts @ map (\<lambda>d. n div d) (filter (\<lambda>d. n mod d = 0 \<and> d * d < n) [i..n])"
proof (induction n i ws ts arbitrary: ws' ts' rule: divisor_loop.induct)
  case (1 n i ws ts)
  show ?case
  proof (cases "i * i < n")
    case True
    have "i \<le> i * i" using "1.prems" by (intro int_le_square)
    with True have "i \<le> n" by simp
    then have up: "[i..n] = i # [i + 1..n]" by (simp add: upto.simps)
    show ?thesis
      using "1.IH" [of ws' ts'] "1.prems" True
      by (cases "n mod i = 0") (auto simp: up divisor_loop.simps [of n i])
  next
    case False
    have "\<not> d * d < n" if "d \<in> set [i..n]" for d
    proof -
      have "i * i \<le> d * d" using that "1.prems"(1) by (intro mult_mono) auto
      with False show ?thesis by simp
    qed
    then have "filter (\<lambda>d. n mod d = 0 \<and> d * d < n) [i..n] = []" by (auto simp: filter_empty_conv)
    with False "1.prems" show ?thesis by (auto simp: divisor_loop.simps [of n i])
  qed
qed

lemma set_default_widths: "set (default_widths n) = {w. 0 < w \<and> w dvd n \<and> w * w \<noteq> n \<and> 0 < n}"
proof -
  obtain ws ts where d: "divisor_loop n 1 [] [] = (ws, ts)" by force
  from divisor_loop_spec [OF _ d] have
    ws: "ws = filter (\<lambda>d. n mod d = 0 \<and> d * d < n) [1..n]" and
    ts: "ts = map (\<lambda>d. n div d) (filter (\<lambda>d. n mod d = 0 \<and> d * d < n) [1..n])" by auto
  have "w \<in> set ws \<union> set ts \<longleftrightarrow> 0 < w \<and> w dvd n \<and> w * w \<noteq> n \<and> 0 < n" for w
  proof
    assume "w \<in> set ws \<union> set ts"
    then obtain d where d: "1 \<le> d" "d \<le> n" "n mod d = 0" "d * d < n" "w = d \<or> w = n div d"
      by (auto simp: ws ts)
    then obtain k where k: "n = d * k" by (auto simp: mod_eq_0_iff_dvd elim: dvdE)
    with d have "0 < k" "n div d = k" "d < k"
      by (auto simp: zero_less_mult_iff mult_less_cancel_left_pos)
    with d k show "0 < w \<and> w dvd n \<and> w * w \<noteq> n \<and> 0 < n" by auto
  next
    assume w: "0 < w \<and> w dvd n \<and> w * w \<noteq> n \<and> 0 < n"
    then obtain k where k: "n = w * k" by (auto elim: dvdE)
    with w have k0: "0 < k" by (auto simp: zero_less_mult_iff)
    show "w \<in> set ws \<union> set ts"
    proof (cases "w * w < n")
      case True
      have "w \<le> n" using w by (simp add: zdvd_imp_le)
      with True w k show ?thesis by (auto simp: ws)
    next
      case False
      with w have "n < w * w" by simp
      with k w have kw: "k < w" by (simp add: mult_less_cancel_left_pos)
      then have "k * k < n" using k k0 by (simp add: mult_strict_right_mono mult.commute)
      moreover have "k \<le> n" "n mod k = 0" "n div k = w" using k k0 w by (auto simp: mult_le_cancel_right1)
      ultimately have "n div k \<in> set ts" unfolding ts using k0 by auto
      with \<open>n div k = w\<close> show ?thesis by simp
    qed
  qed
  then show ?thesis by (auto simp: default_widths_def d)
qed

lemma set_stride: "0 < w \<Longrightarrow> 0 \<le> j \<Longrightarrow> set (stride j w n) = {k. j \<le> k \<and> k < n \<and> w dvd (k - j)}"
proof (induction j w n rule: stride.induct)
  case (1 j w n)
  show ?case
  proof (cases "j < n")
    case True
    have IH: "set (stride (j + w) w n) = {k. j + w \<le> k \<and> k < n \<and> w dvd (k - (j + w))}"
      using 1 True by simp
    have "k = j \<or> j + w \<le> k \<and> w dvd (k - (j + w)) \<longleftrightarrow> j \<le> k \<and> w dvd (k - j)" for k
    proof -
      have "w dvd (k - (j + w)) \<longleftrightarrow> w dvd (k - j)"
        by (metis diff_diff_add dvd_diff_right_iff dvd_refl dvd_minus_iff minus_diff_eq)
      moreover have "j < k \<Longrightarrow> w dvd (k - j) \<Longrightarrow> j + w \<le> k"
        using zdvd_imp_le [of w "k - j"] by simp
      ultimately show ?thesis using "1.prems" by force
    qed
    with True IH "1.prems" show ?thesis by (subst stride.simps) auto
  next
    case False
    then show ?thesis by (subst stride.simps) auto
  qed
qed

subsection \<open>What the default layout is\<close>

lemma dvd_block_fits: "0 < w \<Longrightarrow> w dvd i \<Longrightarrow> w dvd n \<Longrightarrow> i < n \<Longrightarrow> i + w \<le> (n::int)"
  using zdvd_imp_le [of w "n - i"] by simp

lemma aligned_block_iff:
  assumes "0 < (w::int)"
  shows "w dvd i \<and> i \<le> t \<and> t < i + w \<longleftrightarrow> i = t - t mod w"
proof
  assume a: "w dvd i \<and> i \<le> t \<and> t < i + w"
  then have "t mod w = (t - i) mod w" by (metis dvd_eq_mod_eq_0 diff_zero mod_diff_right_eq)
  with a show "i = t - t mod w" by simp
next
  assume i: "i = t - t mod w"
  then have "w dvd i" by (simp add: minus_mod_eq_mult_div)
  with i assms pos_mod_bound [of w t] pos_mod_sign [of w t]
  show "w dvd i \<and> i \<le> t \<and> t < i + w" by auto
qed

lemma set_layout_pushes:
  "set (layout_pushes n ws) = {(j, w). w \<in> set ws \<and> j \<in> set (stride 0 w n)}"
  by (auto simp: layout_pushes_def)

lemma set_partition_pushes:
  "(k, (i, w)) \<in> set (partition_pushes n lay) \<longleftrightarrow>
     0 \<le> i \<and> i < n \<and> w \<in> set (lay ! nat i) \<and> i \<le> k \<and> k < i + w"
proof
  assume "0 \<le> i \<and> i < n \<and> w \<in> set (lay ! nat i) \<and> i \<le> k \<and> k < i + w"
  moreover from this have "(k, (i, w)) \<in> (\<lambda>j. (i + j, (i, w))) ` {0..w - 1}"
    by (intro image_eqI [of _ _ "k - i"]) auto
  ultimately show "(k, (i, w)) \<in> set (partition_pushes n lay)"
    unfolding partition_pushes_def set_concat set_map set_upto by (simp only: image_image) force
qed (auto simp: partition_pushes_def)

lemma set_filter_fst: "set (map snd (filter (\<lambda>p. fst p = k) ps)) = {x. (k, x) \<in> set ps}"
  by force

lemma default_layout_spec:
  assumes n: "n \<le> int XITAO_MAXTHREADS"
    and L: "ptt_layout L = replicate XITAO_MAXTHREADS []" "inclusive_partitions L = replicate XITAO_MAXTHREADS []"
  shows "\<exists>L'. prepare_default_layout n L = Some L'
    \<and> static_resource_mapper L' = static_resource_mapper L \<and> xitao_nthreads L' = xitao_nthreads L
    \<and> length (ptt_layout L') = XITAO_MAXTHREADS \<and> length (inclusive_partitions L') = XITAO_MAXTHREADS
    \<and> (\<forall>t<XITAO_MAXTHREADS. set (ptt_layout L' ! t) = {w \<in> set (default_widths n). w dvd int t \<and> int t < n})
    \<and> (\<forall>t<XITAO_MAXTHREADS. set (inclusive_partitions L' ! t)
         = {(l, w). w \<in> set (default_widths n) \<and> l = int t - int t mod w \<and> int t < n})"
proof -
  let ?W = "set (default_widths n)" and ?M = XITAO_MAXTHREADS
  have W: "w \<in> ?W \<Longrightarrow> 0 < w \<and> w dvd n" for w by (simp add: set_default_widths)
  have lp: "(j, w) \<in> set (layout_pushes n (default_widths n)) \<longleftrightarrow> w \<in> ?W \<and> 0 \<le> j \<and> j < n \<and> w dvd j" for j w
    using W by (auto simp: set_layout_pushes set_stride)
  have "\<forall>(i, x)\<in>set (layout_pushes n (default_widths n)). 0 \<le> i \<and> i < int (length (ptt_layout L))"
    using lp n L by auto
  from push_back_all_spec [OF this] obtain lay where
    lay: "push_back_all (layout_pushes n (default_widths n)) (ptt_layout L) = Some lay" "length lay = ?M"
    and lay_t: "\<forall>t<?M. lay ! t = map snd (filter (\<lambda>p. fst p = int t) (layout_pushes n (default_widths n)))"
    using L by auto
  have lay_set: "set (lay ! t) = {w \<in> ?W. w dvd int t \<and> int t < n}" if "t < ?M" for t
  proof -
    have "set (lay ! t) = {w. (int t, w) \<in> set (layout_pushes n (default_widths n))}"
      using lay_t that by (simp only: set_filter_fst)
    then show ?thesis by (auto simp: lp)
  qed
  have pp: "(k, (i, w)) \<in> set (partition_pushes n lay) \<longleftrightarrow>
      w \<in> ?W \<and> 0 \<le> i \<and> i < n \<and> w dvd i \<and> i \<le> k \<and> k < i + w" for k i w
  proof -
    have "(k, (i, w)) \<in> set (partition_pushes n lay) \<longleftrightarrow>
        (0 \<le> i \<and> i < n \<and> w \<in> set (lay ! nat i) \<and> i \<le> k \<and> k < i + w)"
      by (rule set_partition_pushes)
    moreover have "0 \<le> i \<and> i < n \<Longrightarrow> w \<in> set (lay ! nat i) \<longleftrightarrow> w \<in> ?W \<and> w dvd i"
      using lay_set [of "nat i"] n by auto
    ultimately show ?thesis by blast
  qed
  have "\<forall>(k, x)\<in>set (partition_pushes n lay). 0 \<le> k \<and> k < int (length (inclusive_partitions L))"
  proof clarify
    fix k i w assume "(k, (i, w)) \<in> set (partition_pushes n lay)"
    with pp have *: "w \<in> ?W" "0 \<le> i" "i < n" "w dvd i" "i \<le> k" "k < i + w" by auto
    with dvd_block_fits [of w i n] W n L show "0 \<le> k \<and> k < int (length (inclusive_partitions L))" by auto
  qed
  from push_back_all_spec [OF this] obtain inc where
    inc: "push_back_all (partition_pushes n lay) (inclusive_partitions L) = Some inc" "length inc = ?M"
    and inc_t: "\<forall>t<?M. inc ! t = map snd (filter (\<lambda>p. fst p = int t) (partition_pushes n lay))"
    using L by auto
  have inc_set: "set (inc ! t) = {(l, w). w \<in> ?W \<and> l = int t - int t mod w \<and> int t < n}" if t: "t < ?M" for t
  proof -
    have "set (inc ! t) = {x. (int t, x) \<in> set (partition_pushes n lay)}"
      using inc_t t by (simp only: set_filter_fst)
    also have "\<dots> = {(l, w). w \<in> ?W \<and> l = int t - int t mod w \<and> int t < n}"
    proof -
      have "(w \<in> ?W \<and> 0 \<le> i \<and> i < n \<and> w dvd i \<and> i \<le> int t \<and> int t < i + w)
          \<longleftrightarrow> (w \<in> ?W \<and> i = int t - int t mod w \<and> int t < n)" for i w
      proof (cases "w \<in> ?W")
        case True
        with W have w: "0 < w" "w dvd n" by auto
        have "i = int t - int t mod w \<Longrightarrow> 0 \<le> i"
          using w zmod_le_nonneg_dividend [of "int t" w] by simp
        moreover have "w dvd i \<Longrightarrow> i < n \<Longrightarrow> i + w \<le> n" using dvd_block_fits w by blast
        ultimately show ?thesis using aligned_block_iff [OF w(1), of i "int t"] True by auto
      qed simp
      then have "(int t, x) \<in> set (partition_pushes n lay)
          \<longleftrightarrow> x \<in> {(l, w). w \<in> ?W \<and> l = int t - int t mod w \<and> int t < n}" for x
        by (cases x) (simp only: pp mem_Collect_eq case_prod_conv)
      then show ?thesis by (simp only: Collect_mem_eq)
    qed
    finally show ?thesis .
  qed
  show ?thesis
    using lay inc lay_set inc_set by (auto simp: prepare_default_layout_def)
qed

subsection \<open>Reading back a layout file\<close>

text \<open>The file that describes an affinity vector and the widths of each leader.\<close>

fun join_commas :: "string list \<Rightarrow> string" where
  "join_commas [] = []"
| "join_commas [w] = w"
| "join_commas (w # ws) = w @ '','' @ join_commas ws"

definition render_line :: "nat list \<Rightarrow> string" where
  "render_line xs = join_commas (map show_nat xs)"

definition layout_file :: "nat list \<Rightarrow> nat list list \<Rightarrow> string list" where
  "layout_file aff ws = render_line aff # map render_line ws"

lemma split_commas_word:
  "CHR '','' \<notin> set w \<Longrightarrow> split_commas cur (w @ rest) = split_commas (cur @ w) rest"
  by (induction w arbitrary: cur) auto

lemma show_nat_no_comma: "CHR '','' \<notin> set (show_nat n)"
  using show_nat_digits [of n] is_digit_not_sign by blast

lemma split_render:
  "xs \<noteq> [] \<Longrightarrow> split_commas [] (render_line xs) = (map show_nat (butlast xs), show_nat (last xs))"
proof (induction xs rule: induct_list012)
  case (2 x)
  then show ?case using split_commas_word [OF show_nat_no_comma, of "[]" x "[]"] by (simp add: render_line_def)
next
  case (3 x y zs)
  have "split_commas [] (render_line (x # y # zs)) = split_commas [] (show_nat x @ '','' @ render_line (y # zs))"
    by (simp add: render_line_def)
  also have "\<dots> = (show_nat x # map show_nat (butlast (y # zs)), show_nat (last (y # zs)))"
    using 3 by (simp add: split_commas_word [OF show_nat_no_comma])
  finally show ?case by simp
qed simp

text \<open>What one width adds to the tables, and what one value adds to the affinity vector.\<close>

definition add_width :: "nat \<Rightarrow> nat \<Rightarrow> layout \<Rightarrow> layout" where
  "add_width cur val L = L\<lparr>ptt_layout := (ptt_layout L)[cur := ptt_layout L ! cur @ [int val]],
     inclusive_partitions := map (\<lambda>t. if cur \<le> t \<and> t < cur + val
        then inclusive_partitions L ! t @ [(int cur, int val)] else inclusive_partitions L ! t)
        [0..<length (inclusive_partitions L)]\<rparr>"

definition tables_ok :: "layout \<Rightarrow> bool" where
  "tables_ok L \<longleftrightarrow> length (ptt_layout L) = XITAO_MAXTHREADS \<and> length (inclusive_partitions L) = XITAO_MAXTHREADS
     \<and> length (static_resource_mapper L) = XITAO_MAXTHREADS"

lemma tables_ok_add_width [simp]: "tables_ok (add_width cur val L) = tables_ok L"
  by (simp add: tables_ok_def add_width_def)

lemma include_members_ok:
  "0 \<le> i \<Longrightarrow> cur + nat i + k \<le> XITAO_MAXTHREADS \<Longrightarrow> length inc = XITAO_MAXTHREADS \<Longrightarrow>
   include_members k i (int cur) val inc = Inr (map (\<lambda>t. if cur + nat i \<le> t \<and> t < cur + nat i + k
      then inc ! t @ [(int cur, val)] else inc ! t) [0..<length inc])"
proof (induction k arbitrary: i inc)
  case 0
  then show ?case by (auto intro!: nth_equalityI)
next
  case (Suc k)
  let ?c = "cur + nat i"
  let ?inc = "inc[?c := inc ! ?c @ [(int cur, val)]]"
  have c: "nat (int cur + i) = ?c" "?c < length inc" "nat (i + 1) = Suc (nat i)"
    "0 \<le> int cur + i" "int cur + i < int (length inc)"
    using Suc.prems by auto
  then have "push_back_at (int cur + i) (int cur, val) inc = Some ?inc"
    unfolding push_back_at_def by (simp only: c if_True simp_thms)
  moreover have "int cur + i < int XITAO_MAXTHREADS" using Suc.prems by simp
  moreover have "include_members k (i + 1) (int cur) val ?inc = Inr (map (\<lambda>t. if cur + nat (i + 1) \<le> t \<and>
      t < cur + nat (i + 1) + k then ?inc ! t @ [(int cur, val)] else ?inc ! t) [0..<length ?inc])"
    using Suc.prems c by (intro Suc.IH) auto
  moreover have "map (\<lambda>t. if cur + nat (i + 1) \<le> t \<and> t < cur + nat (i + 1) + k
        then ?inc ! t @ [(int cur, val)] else ?inc ! t) [0..<length ?inc]
      = map (\<lambda>t. if ?c \<le> t \<and> t < ?c + Suc k then inc ! t @ [(int cur, val)] else inc ! t) [0..<length inc]"
    using c by (intro nth_equalityI) (auto simp: nth_list_update)
  ultimately show ?case by simp
qed

lemma read_width_ok:
  assumes "tables_ok (rlayout r)" and "current_thread_id r = int cur" and "cur < XITAO_MAXTHREADS"
    and "cur + val \<le> XITAO_MAXTHREADS"
  shows "read_width (int val) r = Inr (r\<lparr>rlayout := add_width cur val (rlayout r)\<rparr>)"
  using assms by (simp add: read_width_def Let_def push_back_at_def tables_ok_def include_members_ok add_width_def)

lemma add_width_nthreads [simp]: "xitao_nthreads (add_width cur val L) = xitao_nthreads L"
  "static_resource_mapper (add_width cur val L) = static_resource_mapper L"
  by (simp_all add: add_width_def)

lemma small_fits: "n \<le> XITAO_MAXTHREADS \<Longrightarrow> n < 2 ^ 31"
  by (simp add: XITAO_MAXTHREADS_def)

lemma read_tokens_widths:
  "tables_ok (rlayout r) \<Longrightarrow> current_thread_id r = int cur \<Longrightarrow> init_affinity r \<Longrightarrow>
   int cur + 1 < xitao_nthreads (rlayout r) \<or> xs = [] \<Longrightarrow> cur < XITAO_MAXTHREADS \<Longrightarrow>
   (\<forall>w\<in>set xs. cur + w \<le> XITAO_MAXTHREADS) \<Longrightarrow>
   read_tokens (map show_nat xs) r = Inr (r\<lparr>rlayout := fold (add_width cur) xs (rlayout r)\<rparr>)"
proof (induction xs arbitrary: r)
  case Nil
  then show ?case by simp
next
  case (Cons x xs)
  then have "x < 2 ^ 31" using small_fits [of x] by simp
  with Cons show ?case by (simp add: read_comma_token_def stoi_show_nat read_width_ok)
qed

lemma tables_ok_fold [simp]: "tables_ok (fold (add_width cur) xs L) = tables_ok L"
  by (induction xs arbitrary: L) auto

lemma nthreads_fold [simp]: "xitao_nthreads (fold (add_width cur) xs L) = xitao_nthreads L"
  "static_resource_mapper (fold (add_width cur) xs L) = static_resource_mapper L"
  by (induction xs arbitrary: L) auto

lemma read_line_widths:
  assumes "tables_ok (rlayout r)" and "current_thread_id r = int cur" and "init_affinity r"
    and "cur < XITAO_MAXTHREADS" and "\<forall>w\<in>set xs. cur + w \<le> XITAO_MAXTHREADS"
    and "int cur + 1 < xitao_nthreads (rlayout r) \<or> length xs \<le> 1"
  shows "read_line (render_line xs) r
    = Inr (r\<lparr>rlayout := fold (add_width cur) xs (rlayout r), current_thread_id := int cur + 1, thread_count := 0\<rparr>)"
proof (cases "xs = []")
  case True
  with assms show ?thesis
    by (simp add: read_line_def render_line_def read_last_token_def end_line_def)
next
  case False
  let ?r = "r\<lparr>thread_count := 0\<rparr>"
  let ?L = "fold (add_width cur) (butlast xs) (rlayout r)"
  have b: "int cur + 1 < xitao_nthreads (rlayout r) \<or> butlast xs = []"
    using assms(6) by (cases xs) auto
  have "read_tokens (map show_nat (butlast xs)) ?r = Inr (?r\<lparr>rlayout := ?L\<rparr>)"
    using assms b by (subst read_tokens_widths) (auto dest: in_set_butlastD)
  moreover have "read_last_token (show_nat (last xs)) (?r\<lparr>rlayout := ?L\<rparr>)
      = Inr (?r\<lparr>rlayout := add_width cur (last xs) ?L\<rparr>)"
  proof -
    have l: "cur + last xs \<le> XITAO_MAXTHREADS" using assms(5) False by auto
    then have "last xs < 2 ^ 31" using small_fits [of "last xs"] by simp
    then show ?thesis using assms l by (simp add: read_last_token_def stoi_show_nat read_width_ok)
  qed
  moreover have "add_width cur (last xs) ?L = fold (add_width cur) xs (rlayout r)"
    using fold_append [of "add_width cur" "butlast xs" "[last xs]"] False by simp
  ultimately show ?thesis
    using assms False by (simp add: read_line_def split_render end_line_def)
qed

fun add_rows :: "nat \<Rightarrow> nat list list \<Rightarrow> layout \<Rightarrow> layout" where
  "add_rows cur [] L = L"
| "add_rows cur (xs # ws) L = add_rows (Suc cur) ws (fold (add_width cur) xs L)"

lemma read_lines_rows:
  "tables_ok (rlayout r) \<Longrightarrow> current_thread_id r = int cur \<Longrightarrow> init_affinity r \<Longrightarrow>
   cur + length ws \<le> XITAO_MAXTHREADS \<Longrightarrow>
   (\<forall>i<length ws. (\<forall>w\<in>set (ws ! i). cur + i + w \<le> XITAO_MAXTHREADS)
      \<and> (int (cur + i) + 1 < xitao_nthreads (rlayout r) \<or> length (ws ! i) \<le> 1)) \<Longrightarrow>
   \<exists>r'. read_lines (map render_line ws) r = Inr r' \<and> rlayout r' = add_rows cur ws (rlayout r)"
proof (induction ws arbitrary: r cur)
  case Nil
  then show ?case by simp
next
  case (Cons xs ws)
  from Cons.prems(5) have z: "(\<forall>w\<in>set xs. cur + w \<le> XITAO_MAXTHREADS)
      \<and> (int cur + 1 < xitao_nthreads (rlayout r) \<or> length xs \<le> 1)"
    by (auto dest!: spec [of _ 0])
  let ?r = "r\<lparr>rlayout := fold (add_width cur) xs (rlayout r), current_thread_id := int cur + 1, thread_count := 0\<rparr>"
  have "read_line (render_line xs) r = Inr ?r"
    using Cons.prems z by (intro read_line_widths) auto
  moreover have "\<exists>r'. read_lines (map render_line ws) ?r = Inr r' \<and> rlayout r' = add_rows (Suc cur) ws (rlayout ?r)"
  proof (rule Cons.IH)
    show "\<forall>i<length ws. (\<forall>w\<in>set (ws ! i). Suc cur + i + w \<le> XITAO_MAXTHREADS)
        \<and> (int (Suc cur + i) + 1 < xitao_nthreads (rlayout ?r) \<or> length (ws ! i) \<le> 1)"
    proof (intro allI impI)
      fix i assume "i < length ws"
      with Cons.prems(5) [rule_format, of "Suc i"]
      show "(\<forall>w\<in>set (ws ! i). Suc cur + i + w \<le> XITAO_MAXTHREADS)
        \<and> (int (Suc cur + i) + 1 < xitao_nthreads (rlayout ?r) \<or> length (ws ! i) \<le> 1)" by simp
    qed
  qed (use Cons.prems in auto)
  ultimately show ?case by auto
qed

lemma fold_add_width_nth:
  assumes "tables_ok L" and "cur < XITAO_MAXTHREADS" and "t < XITAO_MAXTHREADS"
  shows "ptt_layout (fold (add_width cur) xs L) ! t
      = (if t = cur then ptt_layout L ! t @ map int xs else ptt_layout L ! t)"
    and "set (inclusive_partitions (fold (add_width cur) xs L) ! t)
      = set (inclusive_partitions L ! t) \<union> {(int cur, int w) |w. w \<in> set xs \<and> cur \<le> t \<and> t < cur + w}"
  using assms(1)
proof (induction xs arbitrary: L)
  case (Cons x xs)
  {
    case 1
    with Cons.IH(1) [of "add_width cur x L"] assms(2,3) show ?case
      by (auto simp: add_width_def tables_ok_def)
  next
    case 2
    with Cons.IH(2) [of "add_width cur x L"] assms(2,3) show ?case
      by (auto simp: add_width_def tables_ok_def)
  }
qed auto

lemma add_rows_nth:
  assumes "tables_ok L" and "cur + length ws \<le> XITAO_MAXTHREADS" and "t < XITAO_MAXTHREADS"
  shows "ptt_layout (add_rows cur ws L) ! t
      = (if cur \<le> t \<and> t < cur + length ws then ptt_layout L ! t @ map int (ws ! (t - cur)) else ptt_layout L ! t)
    \<and> set (inclusive_partitions (add_rows cur ws L) ! t) = set (inclusive_partitions L ! t) \<union>
        {(int l, int w) |l w. cur \<le> l \<and> l < cur + length ws \<and> w \<in> set (ws ! (l - cur)) \<and> l \<le> t \<and> t < l + w}"
  using assms
proof (induction ws arbitrary: L cur)
  case Nil
  have "\<not> (cur \<le> t \<and> t < cur + length [])" by simp
  then show ?case by auto
next
  case (Cons xs ws)
  let ?L = "fold (add_width cur) xs L"
  have c: "cur < XITAO_MAXTHREADS" using Cons.prems by simp
  have IH: "ptt_layout (add_rows (Suc cur) ws ?L) ! t
      = (if Suc cur \<le> t \<and> t < Suc cur + length ws then ptt_layout ?L ! t @ map int (ws ! (t - Suc cur))
         else ptt_layout ?L ! t)
    \<and> set (inclusive_partitions (add_rows (Suc cur) ws ?L) ! t) = set (inclusive_partitions ?L ! t) \<union>
        {(int l, int w) |l w. Suc cur \<le> l \<and> l < Suc cur + length ws \<and> w \<in> set (ws ! (l - Suc cur)) \<and> l \<le> t \<and> t < l + w}"
    using Cons.prems by (intro Cons.IH) auto
  have eq: "{(int l, int w) |l w. cur \<le> l \<and> l < cur + length (xs # ws) \<and> w \<in> set ((xs # ws) ! (l - cur)) \<and> l \<le> t \<and> t < l + w}
     = {(int cur, int w) |w. w \<in> set xs \<and> cur \<le> t \<and> t < cur + w} \<union>
       {(int l, int w) |l w. Suc cur \<le> l \<and> l < Suc cur + length ws \<and> w \<in> set (ws ! (l - Suc cur)) \<and> l \<le> t \<and> t < l + w}"
    (is "?A = ?B \<union> ?C")
  proof (intro set_eqI iffI)
    fix p assume "p \<in> ?A"
    then obtain l w where l: "p = (int l, int w)" "cur \<le> l" "l < cur + length (xs # ws)"
      "w \<in> set ((xs # ws) ! (l - cur))" "l \<le> t" "t < l + w" by blast
    then show "p \<in> ?B \<union> ?C" by (cases "l = cur") (auto simp: nth_Cons')
  next
    fix p assume "p \<in> ?B \<union> ?C"
    then show "p \<in> ?A" by (fastforce simp: nth_Cons')
  qed
  have "ptt_layout (add_rows cur (xs # ws) L) ! t
      = (if cur \<le> t \<and> t < cur + length (xs # ws) then ptt_layout L ! t @ map int ((xs # ws) ! (t - cur)) else ptt_layout L ! t)"
    using IH fold_add_width_nth(1) [OF Cons.prems(1) c Cons.prems(3), of xs] by (auto simp: nth_Cons')
  moreover have "set (inclusive_partitions (add_rows cur (xs # ws) L) ! t) = set (inclusive_partitions L ! t) \<union> ?A"
    using IH fold_add_width_nth(2) [OF Cons.prems(1) c Cons.prems(3), of xs] unfolding eq by auto
  ultimately show ?case by blast
qed

lemma read_tokens_affinity:
  "\<not> init_affinity r \<Longrightarrow> 0 \<le> thread_count r \<Longrightarrow>
   nat (thread_count r) + length xs \<le> length (static_resource_mapper (rlayout r)) \<Longrightarrow> (\<forall>x\<in>set xs. x < 2 ^ 31) \<Longrightarrow>
   read_tokens (map show_nat xs) r = Inr (r\<lparr>thread_count := thread_count r + int (length xs),
     rlayout := (rlayout r)\<lparr>static_resource_mapper := take (nat (thread_count r)) (static_resource_mapper (rlayout r))
        @ map int xs @ drop (nat (thread_count r) + length xs) (static_resource_mapper (rlayout r))\<rparr>\<rparr>)"
proof (induction xs arbitrary: r)
  case Nil
  then show ?case by simp
next
  case (Cons x xs)
  let ?k = "nat (thread_count r)" and ?s = "static_resource_mapper (rlayout r)"
  let ?r = "r\<lparr>thread_count := thread_count r + 1, rlayout := (rlayout r)\<lparr>static_resource_mapper := ?s[?k := int x]\<rparr>\<rparr>"
  have "read_comma_token (show_nat x) r = Inr ?r"
    using Cons.prems by (auto simp: read_comma_token_def stoi_show_nat read_affinity_def)
  moreover have "nat (thread_count r + 1) = Suc ?k" using Cons.prems by simp
  moreover have "take (Suc ?k) (?s[?k := int x]) = take ?k ?s @ [int x]"
    using Cons.prems by (simp add: take_Suc_conv_app_nth)
  ultimately show ?case using Cons.prems Cons.IH [of ?r] by (simp add: drop_update_cancel)
qed

lemma read_line_affinity:
  assumes "\<not> init_affinity r" and "current_thread_id r = -1" and "xs \<noteq> []"
    and "length xs \<le> length (static_resource_mapper (rlayout r))" and "\<forall>x\<in>set xs. x < 2 ^ 31"
  shows "\<exists>r'. read_line (render_line xs) r = Inr r' \<and> current_thread_id r' = 0 \<and> init_affinity r'
    \<and> rlayout r' = (rlayout r)\<lparr>xitao_nthreads := int (length xs),
        static_resource_mapper := map int xs @ drop (length xs) (static_resource_mapper (rlayout r))\<rparr>"
proof -
  let ?r = "r\<lparr>thread_count := 0\<rparr>" and ?s = "static_resource_mapper (rlayout r)"
  let ?n = "length xs - 1"
  let ?r1 = "?r\<lparr>thread_count := int ?n, rlayout := (rlayout r)\<lparr>static_resource_mapper :=
     map int (butlast xs) @ drop ?n ?s\<rparr>\<rparr>"
  have n: "length xs = Suc ?n" using assms(3) by (cases xs) auto
  have t: "read_tokens (map show_nat (butlast xs)) ?r = Inr ?r1"
    using assms by (subst read_tokens_affinity) (auto dest: in_set_butlastD)
  have d: "drop ?n ?s = ?s ! ?n # drop (Suc ?n) ?s" using assms(4) n by (intro Cons_nth_drop_Suc [symmetric]) simp
  have l: "read_last_token (show_nat (last xs)) ?r1 = Inr (?r1\<lparr>thread_count := int ?n + 1,
      rlayout := (rlayout r)\<lparr>static_resource_mapper := map int xs @ drop (length xs) ?s\<rparr>\<rparr>)"
  proof -
    have "map int xs = map int (butlast xs) @ [int (last xs)]" using assms(3)
      by (metis append_butlast_last_id list.simps(8) list.simps(9) map_append)
    moreover have "(map int (butlast xs) @ drop ?n ?s)[?n := int (last xs)]
        = map int (butlast xs) @ int (last xs) # drop (Suc ?n) ?s"
      by (simp add: list_update_append) (simp add: d [simplified])
    moreover have "length xs - Suc 0 < length ?s" using assms(4) n by linarith
    ultimately show ?thesis
      using assms n by (auto simp: read_last_token_def stoi_show_nat read_affinity_def)
  qed
  show ?thesis
    using assms t l n by (simp add: read_line_def split_render end_line_def Let_def)
qed

section \<open>Properties\<close>

text \<open>
  The widths the default layout offers: the divisors of the number of threads, without its
  integer square root.
\<close>

definition offered_width :: "int \<Rightarrow> int \<Rightarrow> bool" where
  "offered_width n w \<longleftrightarrow> 0 < w \<and> w dvd n \<and> w * w \<noteq> n"

text \<open>C24.
  From cleared tables and for every number of threads the tables can hold, the default
  layout is built without leaving the vectors. The leaders of a width are exactly the
  multiples of it, and each thread is included in exactly one place of every offered
  width: the aligned block that contains it. The affinity vector is left alone.
\<close>

theorem default_layout_places:
  assumes "0 \<le> n" and "n \<le> 64" and "L = clear_layout_partitions init_layout"
  shows "\<exists>L'. prepare_default_layout n L = Some L'
    \<and> (\<forall>t<64. set (ptt_layout L' ! t) = {w. offered_width n w \<and> w dvd int t \<and> int t < n})
    \<and> (\<forall>t<64. set (inclusive_partitions L' ! t)
         = {(l, w). offered_width n w \<and> l = int t - int t mod w \<and> int t < n})
    \<and> static_resource_mapper L' = static_resource_mapper L"
proof -
  have L: "ptt_layout L = replicate XITAO_MAXTHREADS []" "inclusive_partitions L = replicate XITAO_MAXTHREADS []"
    by (simp_all add: assms(3) clear_layout_partitions_def init_layout_def)
  have n: "n \<le> int XITAO_MAXTHREADS" using assms(2) by (simp add: XITAO_MAXTHREADS_def)
  have w: "w \<in> set (default_widths n) \<and> int t < n \<longleftrightarrow> offered_width n w \<and> int t < n" for w t
    by (auto simp: set_default_widths offered_width_def)
  have M: "XITAO_MAXTHREADS = 64" by (simp add: XITAO_MAXTHREADS_def)
  from default_layout_spec [OF n L] obtain L' where L': "prepare_default_layout n L = Some L'"
    "static_resource_mapper L' = static_resource_mapper L"
    "\<forall>t<64. set (ptt_layout L' ! t) = {w \<in> set (default_widths n). w dvd int t \<and> int t < n}"
    "\<forall>t<64. set (inclusive_partitions L' ! t)
         = {(l, w). w \<in> set (default_widths n) \<and> l = int t - int t mod w \<and> int t < n}"
    unfolding M by blast
  have "{v \<in> set (default_widths n). v dvd int t \<and> int t < n} = {v. offered_width n v \<and> v dvd int t \<and> int t < n}" for t
    using w by blast
  moreover have "{(l, v). v \<in> set (default_widths n) \<and> l = int t - int t mod v \<and> int t < n}
     = {(l, v). offered_width n v \<and> l = int t - int t mod v \<and> int t < n}" for t
    using w by blast
  ultimately show ?thesis using L' by auto
qed

theorem default_layout_places_witness:
  "\<exists>L'. prepare_default_layout 6 (clear_layout_partitions init_layout) = Some L'
    \<and> set (inclusive_partitions L' ! 4) = {(l, w). offered_width 6 w \<and> l = 4 - 4 mod w}"
  using default_layout_places [of 6 "clear_layout_partitions init_layout"] by force

text \<open>The loop bound \<open>i < sqrt(nthreads)\<close> skips the square root of a perfect square: with
  \<open>k * k\<close> threads no thread is in a place of width \<open>k\<close>, although \<open>k\<close> divides the number
  of threads. With a single thread (\<open>k = 1\<close>) there is no place at all, and the worker's
  list of partitions is empty.
\<close>

theorem default_layout_misses_square_root:
  assumes "1 \<le> k" and "k \<le> 8" and "t < 64"
  shows "\<exists>L'. prepare_default_layout (k * k) (clear_layout_partitions init_layout) = Some L'
    \<and> k \<notin> set (ptt_layout L' ! t) \<and> (\<forall>l. (l, k) \<notin> set (inclusive_partitions L' ! t))
    \<and> (k = 1 \<longrightarrow> inclusive_partitions L' ! t = [])"
proof -
  let ?L = "clear_layout_partitions init_layout"
  have L: "ptt_layout ?L = replicate XITAO_MAXTHREADS []" "inclusive_partitions ?L = replicate XITAO_MAXTHREADS []"
    by (simp_all add: clear_layout_partitions_def init_layout_def)
  have "k * k \<le> 8 * 8" using assms by (intro mult_mono) auto
  then have n: "k * k \<le> int XITAO_MAXTHREADS" by (simp add: XITAO_MAXTHREADS_def)
  have t: "t < XITAO_MAXTHREADS" using assms(3) by (simp add: XITAO_MAXTHREADS_def)
  from default_layout_spec [OF n L] obtain L' where L': "prepare_default_layout (k * k) ?L = Some L'"
    "set (ptt_layout L' ! t) = {w \<in> set (default_widths (k * k)). w dvd int t \<and> int t < k * k}"
    "set (inclusive_partitions L' ! t)
       = {(l, w). w \<in> set (default_widths (k * k)) \<and> l = int t - int t mod w \<and> int t < k * k}"
    using t by blast
  have no: "k \<notin> set (default_widths (k * k))" by (simp add: set_default_widths)
  have "default_widths 1 = []"
  proof -
    have "set (default_widths 1) = {}" by (auto simp: set_default_widths zdvd1_eq)
    then show ?thesis by simp
  qed
  then have "k = 1 \<Longrightarrow> set (inclusive_partitions L' ! t) = {}" using L'(3) by simp
  with no L' show ?thesis by auto
qed

theorem default_layout_misses_square_root_witness:
  "\<exists>L'. prepare_default_layout 4 (clear_layout_partitions init_layout) = Some L' \<and> 2 \<notin> set (ptt_layout L' ! 0)"
  using default_layout_misses_square_root [of 2 0] by auto

text \<open>C25.
  Reading a layout file restores what was written to it: for at most 64 threads, positive
  widths that stay inside the table, and at most one width for the last thread, the file
  with the affinities in its first line and the widths of each leader in the following
  lines, separated by commas, sets the number of threads, the affinity vector and the
  leaders' widths to what the file says, and enters each place for exactly the threads it
  spans.
\<close>

theorem layout_file_roundtrip:
  assumes "aff \<noteq> []" and "length ws = length aff" and "length aff \<le> 64" and "\<forall>x\<in>set aff. x < 2 ^ 31"
    and "\<forall>i<length ws. \<forall>w\<in>set (ws ! i). i + w \<le> 64" and "length (last ws) \<le> 1"
  shows "\<exists>L. read_layout_table (Some (layout_file aff ws)) init_layout = Inr L
    \<and> xitao_nthreads L = int (length aff)
    \<and> take (length aff) (static_resource_mapper L) = map int aff
    \<and> (\<forall>t<64. ptt_layout L ! t = (if t < length ws then map int (ws ! t) else []))
    \<and> (\<forall>t<64. set (inclusive_partitions L ! t)
         = {(int l, int w) |l w. l < length ws \<and> w \<in> set (ws ! l) \<and> l \<le> t \<and> t < l + w})"
proof -
  have M: "XITAO_MAXTHREADS = 64" by (simp add: XITAO_MAXTHREADS_def)
  let ?r0 = "\<lparr>current_thread_id = -1, init_affinity = False, thread_count = 0, rlayout = init_layout\<rparr>"
  from read_line_affinity [of ?r0 aff] assms obtain r1 where
    r1: "read_line (render_line aff) ?r0 = Inr r1" "current_thread_id r1 = 0" "init_affinity r1"
    "rlayout r1 = init_layout\<lparr>xitao_nthreads := int (length aff),
        static_resource_mapper := map int aff @ drop (length aff) (static_resource_mapper init_layout)\<rparr>"
    by (auto simp: init_layout_def M)
  have ok: "tables_ok (rlayout r1)" using assms(3) r1 by (simp add: tables_ok_def init_layout_def M)
  have rows: "\<forall>i<length ws. (\<forall>w\<in>set (ws ! i). 0 + i + w \<le> XITAO_MAXTHREADS)
      \<and> (int (0 + i) + 1 < xitao_nthreads (rlayout r1) \<or> length (ws ! i) \<le> 1)"
  proof (intro allI impI conjI)
    fix i assume i: "i < length ws"
    show "\<forall>w\<in>set (ws ! i). 0 + i + w \<le> XITAO_MAXTHREADS" using assms(5) i M by simp
    show "int (0 + i) + 1 < xitao_nthreads (rlayout r1) \<or> length (ws ! i) \<le> 1"
    proof (cases "i + 1 = length ws")
      case True
      then have k: "length ws - 1 = i" by simp
      have "ws \<noteq> []" using i by auto
      from last_conv_nth [OF this] assms(6) show ?thesis by (simp only: k simp_thms)
    next
      case False
      with i assms(2) r1 show ?thesis by simp
    qed
  qed
  have "\<exists>r'. read_lines (map render_line ws) r1 = Inr r' \<and> rlayout r' = add_rows 0 ws (rlayout r1)"
    by (rule read_lines_rows [OF ok _ _ _ rows]) (use r1 assms M in auto)
  then obtain r' where r': "read_lines (map render_line ws) r1 = Inr r'" "rlayout r' = add_rows 0 ws (rlayout r1)"
    by blast
  let ?L = "add_rows 0 ws (rlayout r1)"
  have read: "read_layout_table (Some (layout_file aff ws)) init_layout = Inr ?L"
    using r1(1) r' by (simp add: read_layout_table_def layout_file_def)
  have frame: "xitao_nthreads (add_rows c vs K) = xitao_nthreads K
      \<and> static_resource_mapper (add_rows c vs K) = static_resource_mapper K" for c vs K
    by (induction vs arbitrary: c K) auto
  have nth: "ptt_layout ?L ! t = (if t < length ws then map int (ws ! t) else [])
      \<and> set (inclusive_partitions ?L ! t)
         = {(int l, int w) |l w. l < length ws \<and> w \<in> set (ws ! l) \<and> l \<le> t \<and> t < l + w}" if "t < 64" for t
    using add_rows_nth [OF ok, of 0 ws t] that assms(2,3) r1(4) by (auto simp: M init_layout_def)
  show ?thesis
    using read frame [of 0 ws "rlayout r1"] nth r1(4) by auto
qed

theorem layout_file_roundtrip_witness:
  "\<exists>L. read_layout_table (Some (layout_file [0, 1] [[1, 2], [1]])) init_layout = Inr L
    \<and> xitao_nthreads L = 2 \<and> ptt_layout L ! 0 = [1, 2]"
  using layout_file_roundtrip [of "[0, 1]" "[[1, 2], [1]]"] by (auto simp: nth_Cons' less_Suc_eq)

lemma readme_numbers:
  "stoi ''0 1 2 3 4 5'' = Some 0" "stoi ''1 2'' = Some 1" "stoi ''1'' = Some 1"
  by (simp_all add: stoi_def split_sign_def after_space_def is_space_def is_digit_def digit_val_def Let_def)

lemma readme_lines:
  "split_commas [] ''0 1 2 3 4 5'' = ([], ''0 1 2 3 4 5'')" "split_commas [] ''1 2'' = ([], ''1 2'')"
  "split_commas [] ''1'' = ([], ''1'')"
  by simp_all

lemma read_width_one:
  assumes "tables_ok (rlayout r)" and "current_thread_id r = int cur" and "cur < XITAO_MAXTHREADS"
  shows "read_width 1 r = Inr (r\<lparr>rlayout := add_width cur 1 (rlayout r)\<rparr>)"
  using read_width_ok [OF assms, of 1] assms(3) by simp

text \<open>A line of one number below the affinity line enters width 1, whatever the number of threads.\<close>

lemma read_line_one:
  assumes "tables_ok (rlayout r)" and "current_thread_id r = int cur" and "init_affinity r" and "cur < 64"
    and "line = ''1 2'' \<or> line = ''1''"
  shows "read_line line r = Inr (r\<lparr>rlayout := add_width cur 1 (rlayout r), current_thread_id := int cur + 1, thread_count := 0\<rparr>)"
  using assms read_width_one [of "r\<lparr>thread_count := 0\<rparr>" cur]
  by (auto simp: read_line_def read_last_token_def readme_lines readme_numbers end_line_def XITAO_MAXTHREADS_def
      simp del: split_commas.simps)

text \<open>The layout file shown in the README separates the numbers by blanks. The reader splits
  at commas only, so that file is read as an affinity vector with a single entry: the
  runtime ends up with one thread instead of six, without any error.
\<close>

theorem readme_layout_is_one_thread:
  "\<exists>L. read_layout_table (Some [''0 1 2 3 4 5'', ''1 2'', ''1'', ''1 2'', ''1'', ''1 2'', ''1'']) init_layout = Inr L
    \<and> xitao_nthreads L = 1"
proof -
  define L1 where "L1 = init_layout\<lparr>xitao_nthreads := 1\<rparr>"
  have ok: "tables_ok L1" by (simp add: L1_def tables_ok_def init_layout_def)
  have M: "XITAO_MAXTHREADS = 64" by (simp add: XITAO_MAXTHREADS_def)
  have z: "(static_resource_mapper init_layout)[0 := 0] = static_resource_mapper init_layout"
    by (simp add: init_layout_def list_update_same_conv M)
  have "read_line ''0 1 2 3 4 5'' \<lparr>current_thread_id = -1, init_affinity = False, thread_count = 0, rlayout = init_layout\<rparr>
     = Inr \<lparr>current_thread_id = 0, init_affinity = True, thread_count = 1, rlayout = L1\<rparr>"
    using z by (simp add: read_line_def read_last_token_def readme_lines readme_numbers read_affinity_def
        end_line_def L1_def M init_layout_def del: split_commas.simps)
  with ok show ?thesis
    by (simp add: read_layout_table_def read_line_one [where cur = 0] read_line_one [where cur = 1]
        read_line_one [where cur = 2] read_line_one [where cur = 3] read_line_one [where cur = 4]
        read_line_one [where cur = 5] L1_def)
qed

end
