(* ===== verification/Ptt.thy ===== *)
theory Ptt
  imports Config "HOL-Library.Word" Complex_Main
begin

unbundle bit_operations_syntax

text \<open>
  The performance trace tables (\<open>src/xitao_ptt.cpp\<close>, \<open>src/xitao_ptt_key.cpp\<close>): one
  table per task type and workload hint, shared by all tasks of that type through
  \<open>shared_ptr\<close> handles. The store keeps the map of active tables apart from the heap of
  tables, so that a task's handle outlives the removal of the table from the map.
\<close>

section \<open>Keys and their hash\<close>

record ptt_key =
  key_hint :: "64 word"
  key_type :: nat

definition key_eq :: "ptt_key \<Rightarrow> ptt_key \<Rightarrow> bool" where
  "key_eq a b \<longleftrightarrow> key_hint a = key_hint b \<and> key_type a = key_type b"

text \<open>
  \<open>hash_combine\<close> on 64-bit words. The hashes of a \<open>size_t\<close> and of a \<open>type_index\<close> are the
  C++ library's and parameters here.
\<close>

definition hash_combine :: "('a \<Rightarrow> 64 word) \<Rightarrow> 64 word \<Rightarrow> 'a \<Rightarrow> 64 word" where
  "hash_combine hasher seed v = seed XOR (hasher v + 0x9e3779b9 + push_bit 6 seed + drop_bit 2 seed)"

definition ptt_hash :: "(64 word \<Rightarrow> 64 word) \<Rightarrow> (nat \<Rightarrow> 64 word) \<Rightarrow> ptt_key \<Rightarrow> 64 word" where
  "ptt_hash hash_size hash_type p = hash_combine hash_type (hash_size (key_hint p)) (key_type p)"

section \<open>Tables\<close>

definition ptt_row_size :: nat where "ptt_row_size = XITAO_MAXTHREADS"
definition ptt_col_size :: nat where "ptt_col_size = XITAO_MAXTHREADS + 1"
definition ptt_table_size :: nat where "ptt_table_size = ptt_col_size * ptt_row_size"

text \<open>
  Times are C++ \<open>float\<close>s. They are real numbers here; every arithmetic operation on them is
  followed by the rounding \<open>rnd\<close>, a parameter of the functions that compute with times.
\<close>

record perf_data =
  pdata :: "real list"
  last_leader :: int
  last_width :: int
  cont_choices :: int
  resource_place_freq :: "int \<times> int \<Rightarrow> int option"

definition new_perf_data :: "nat \<Rightarrow> perf_data" where
  "new_perf_data table_size = \<lparr>pdata = replicate table_size 0, last_leader = -1, last_width = -1,
     cont_choices = 0, resource_place_freq = Map.empty\<rparr>"

record ptt_store =
  ptables :: "ptt_key \<Rightarrow> nat option"
  pheap :: "nat \<Rightarrow> perf_data option"
  pfresh :: nat

definition empty_store :: ptt_store where
  "empty_store = \<lparr>ptables = Map.empty, pheap = Map.empty, pfresh = 0\<rparr>"

definition try_insert_table :: "ptt_key \<Rightarrow> ptt_store \<Rightarrow> nat \<times> ptt_store" where
  "try_insert_table k st =
     (case ptables st k of
        None \<Rightarrow> (pfresh st, st\<lparr>ptables := (ptables st)(k \<mapsto> pfresh st),
                               pheap := (pheap st)(pfresh st \<mapsto> new_perf_data ptt_table_size),
                               pfresh := Suc (pfresh st)\<rparr>)
      | Some r \<Rightarrow> (r, st))"

text \<open>\<open>clear_tables\<close> drops the map's handles; tasks may still hold theirs.\<close>

definition clear_tables :: "ptt_store \<Rightarrow> ptt_store" where
  "clear_tables st = st\<lparr>ptables := Map.empty\<rparr>"

definition reset_table :: "ptt_key \<Rightarrow> ptt_store \<Rightarrow> ptt_store" where
  "reset_table k st =
     (case ptables st k of
        None \<Rightarrow> st
      | Some r \<Rightarrow> st\<lparr>pheap := (pheap st)(r := map_option
                     (\<lambda>d. d\<lparr>pdata := replicate (length (pdata d)) 0\<rparr>) (pheap st r))\<rparr>)"

text \<open>
  The entry of (leader, width), \<open>data[width * ptt_row_size + leader]\<close>. The index is an
  unchecked \<open>vector::operator[]\<close>; \<open>ptt_index_valid\<close> is the range in which it is defined.
\<close>

definition ptt_index :: "int \<Rightarrow> int \<Rightarrow> int" where
  "ptt_index thread index = index * int ptt_row_size + thread"

definition get_timetable :: "perf_data \<Rightarrow> int \<Rightarrow> int \<Rightarrow> real" where
  "get_timetable d thread index = pdata d ! nat (ptt_index thread index)"

definition set_timetable :: "perf_data \<Rightarrow> int \<Rightarrow> real \<Rightarrow> int \<Rightarrow> perf_data" where
  "set_timetable d thread ticks index = d\<lparr>pdata := (pdata d)[nat (ptt_index thread index) := ticks]\<rparr>"

definition ptt_index_valid :: "int \<Rightarrow> int \<Rightarrow> bool" where
  "ptt_index_valid thread index \<longleftrightarrow> 0 \<le> ptt_index thread index \<and> ptt_index thread index < int ptt_table_size"

section \<open>Lemmas\<close>

lemma table_sizes [simp]: "ptt_row_size = 64" "ptt_col_size = 65" "ptt_table_size = 4160"
  by (simp_all add: ptt_row_size_def ptt_col_size_def ptt_table_size_def XITAO_MAXTHREADS_def)

lemma key_eq_iff: "key_eq a b \<longleftrightarrow> a = b"
  by (cases a; cases b) (simp add: key_eq_def)

definition store_ok :: "ptt_store \<Rightarrow> bool" where
  "store_ok st \<longleftrightarrow> inj_on (ptables st) (dom (ptables st))
     \<and> (\<forall>k r. ptables st k = Some r \<longrightarrow> r < pfresh st \<and> pheap st r \<noteq> None)
     \<and> (\<forall>r. pheap st r \<noteq> None \<longrightarrow> r < pfresh st)
     \<and> (\<forall>r d. pheap st r = Some d \<longrightarrow> length (pdata d) = ptt_table_size)"

lemma store_ok_empty: "store_ok empty_store"
  by (simp add: store_ok_def empty_store_def)

lemma try_insert_ok: "store_ok st \<Longrightarrow> try_insert_table k st = (r, st') \<Longrightarrow>
  store_ok st' \<and> ptables st' k = Some r"
proof (cases "ptables st k")
  case None
  assume ok: "store_ok st" and ins: "try_insert_table k st = (r, st')"
  from ins None have r: "r = pfresh st" and st': "st' = st\<lparr>ptables := (ptables st)(k \<mapsto> pfresh st),
    pheap := (pheap st)(pfresh st \<mapsto> new_perf_data ptt_table_size), pfresh := Suc (pfresh st)\<rparr>"
    by (auto simp: try_insert_table_def)
  have "inj_on ((ptables st)(k \<mapsto> pfresh st)) (insert k (dom (ptables st)))"
    using ok None unfolding store_ok_def inj_on_def
    by (auto simp: dom_def) (metis less_irrefl option.sel)+
  with ok r st' show ?thesis
    by (auto simp: store_ok_def new_perf_data_def less_Suc_eq)
next
  case (Some q)
  assume "store_ok st" and "try_insert_table k st = (r, st')"
  with Some show ?thesis by (auto simp: try_insert_table_def)
qed

lemma try_insert_keeps:
  "store_ok st \<Longrightarrow> try_insert_table k st = (r, st') \<Longrightarrow>
   (\<forall>k'. ptables st k' \<noteq> None \<longrightarrow> ptables st' k' = ptables st k') \<and>
   (\<forall>q d. pheap st q = Some d \<longrightarrow> pheap st' q = Some d)"
  by (auto simp: try_insert_table_def store_ok_def split: option.splits)

lemma store_ok_reset: "store_ok st \<Longrightarrow> store_ok (reset_table k st)"
  by (auto simp: reset_table_def store_ok_def split: option.splits if_splits)

lemma store_ok_clear: "store_ok st \<Longrightarrow> store_ok (clear_tables st)"
  by (auto simp: clear_tables_def store_ok_def)

lemma get_set_timetable:
  assumes "length (pdata d) = ptt_table_size" and "ptt_index_valid t i" and "ptt_index_valid t' i'"
  shows "get_timetable (set_timetable d t x i) t' i' = (if ptt_index t i = ptt_index t' i' then x else get_timetable d t' i')"
  using assms by (auto simp: get_timetable_def set_timetable_def ptt_index_valid_def nth_list_update)

lemma ptt_index_inj:
  assumes "0 \<le> l" "l < 64" "0 \<le> l'" "l' < 64"
  shows "ptt_index l w = ptt_index l' w' \<longleftrightarrow> l = l' \<and> w = w'"
proof -
  have split: "0 \<le> k \<Longrightarrow> k < 64 \<Longrightarrow> ptt_index k v mod 64 = k \<and> ptt_index k v div 64 = v" for k v
    by (simp add: ptt_index_def)
  show ?thesis using split [of l w] split [of l' w'] assms by metis
qed

section \<open>Properties\<close>

text \<open>Task types and workload hints partition the tasks into tables: inserting for two tasks,
  one after the other and with other insertions and resets in between, gives both the same
  table exactly when their keys are equal under \<open>operator==\<close>, equal keys have equal hashes
  whatever the library's hash functions are, and an insertion never changes an existing
  table.
\<close>

theorem ptt_shared_per_key:
  assumes "store_ok st" and "try_insert_table a st = (r, st1)" and "st2 = snd (try_insert_table c (reset_table c' st1))"
    and "try_insert_table b st2 = (q, st3)"
  shows "(r = q \<longleftrightarrow> key_eq a b) \<and> (key_eq a b \<longrightarrow> ptt_hash h g a = ptt_hash h g b)
    \<and> (\<forall>p d. pheap st p = Some d \<longrightarrow> pheap st1 p = Some d) \<and> store_ok st3"
proof -
  have 1: "store_ok st1" "ptables st1 a = Some r" using try_insert_ok [OF assms(1,2)] by auto
  then have 11: "store_ok (reset_table c' st1)" "ptables (reset_table c' st1) a = Some r"
    using store_ok_reset by (auto simp: reset_table_def split: option.splits)
  then obtain p where p: "try_insert_table c (reset_table c' st1) = (p, st2)" using assms(3) by (metis prod.collapse)
  have 2: "store_ok st2" "ptables st2 a = Some r"
    using try_insert_ok [OF 11(1) p] try_insert_keeps [OF 11(1) p] 11(2) by auto
  have 3: "store_ok st3" "ptables st3 b = Some q" "ptables st3 a = Some r"
    using try_insert_ok [OF 2(1) assms(4)] try_insert_keeps [OF 2(1) assms(4)] 2(2) by auto
  then have "r = q \<longleftrightarrow> a = b" unfolding store_ok_def inj_on_def by (auto simp: dom_def)
  with 3 try_insert_keeps [OF assms(1,2)] show ?thesis by (auto simp: key_eq_iff)
qed

theorem ptt_shared_per_key_witness:
  "\<exists>r st1 q st3. try_insert_table \<lparr>key_hint = 1, key_type = 0\<rparr> empty_store = (r, st1)
    \<and> try_insert_table \<lparr>key_hint = 2, key_type = 0\<rparr> (snd (try_insert_table \<lparr>key_hint = 1, key_type = 0\<rparr> (reset_table \<lparr>key_hint = 1, key_type = 0\<rparr> st1))) = (q, st3) \<and> r \<noteq> q"
proof -
  let ?a = "\<lparr>key_hint = 1, key_type = 0\<rparr>" and ?b = "\<lparr>key_hint = 2, key_type = 0\<rparr>"
  obtain r st1 where i: "try_insert_table ?a empty_store = (r, st1)" by fastforce
  obtain q st3 where j: "try_insert_table ?b (snd (try_insert_table ?a (reset_table ?a st1))) = (q, st3)" by fastforce
  from ptt_shared_per_key [OF store_ok_empty i refl j, of "\<lambda>x. x" "\<lambda>x. 0"] i j show ?thesis
    by (auto simp: key_eq_def)
qed

text \<open>Every place a layout can name (a leader below 64 and a width of at most 64) has an entry
  inside the table, and no two places share one: writing the time of a place is read back
  for that place and changes no other.
\<close>

theorem ptt_places_do_not_alias:
  assumes "length (pdata d) = ptt_table_size" and "0 \<le> l" and "l < 64" and "0 \<le> w" and "w \<le> 64"
    and "0 \<le> l'" and "l' < 64" and "0 \<le> w'" and "w' \<le> 64"
  shows "ptt_index_valid l w \<and>
    get_timetable (set_timetable d l x w) l' w' = (if (l, w) = (l', w') then x else get_timetable d l' w')"
proof -
  have v: "0 \<le> k \<Longrightarrow> k < 64 \<Longrightarrow> 0 \<le> v \<Longrightarrow> v \<le> 64 \<Longrightarrow> ptt_index_valid k v" for k v
    by (simp add: ptt_index_valid_def ptt_index_def)
  show ?thesis
    using get_set_timetable [OF assms(1) v v, of l w l' w' x] assms ptt_index_inj [of l l' w w'] v [of l w] by auto
qed

theorem ptt_places_do_not_alias_witness:
  "get_timetable (set_timetable (new_perf_data ptt_table_size) 2 5 4) 2 4 = 5"
  using ptt_places_do_not_alias [of "new_perf_data ptt_table_size" 2 4 2 4 5] by (simp add: new_perf_data_def)

end
