(* ===== verification/Tasks.thy ===== *)
theory Tasks
  imports Layout Ptt
begin

text \<open>
  Tasks and the shared state of the runtime (\<open>src/poly_task.cpp\<close>, \<open>include/poly_task.h\<close>,
  \<open>include/tao.h\<close>, \<open>src/xitao_workspace.cpp\<close>): the \<open>PolyTask\<close> object, its constructors
  with the accounting of \<open>pending_tasks\<close> and the per-thread task pools, the affinity
  operations, and \<open>make_edge\<close>. A task is named by a number, the order of its construction.
\<close>

section \<open>State\<close>

type_synonym tid = nat

datatype task_kind = TASK_SIMPLE | TASK_ASSEMBLY

record poly_task =
  affinity_relative_index :: real
  affinity_queue :: int
  marker :: int
  ptt_handle :: "nat option"
  workload_hint :: "64 word"
  tao_type :: nat
  kind :: task_kind
  leader :: int
  criticality :: int
  refcount :: int
  out :: "tid list"
  threads_out_tao :: int
  threads_in_tao :: int
  width :: int
  mold :: bool

text \<open>
  The workspace: the objects constructed so far are those below \<open>next_task\<close>. A ready queue
  is a \<open>vector\<close> used as a stack, an assembly queue a FIFO (\<open>Lfq.thy\<close>).
\<close>

record rt =
  tasks :: "tid \<Rightarrow> poly_task"
  next_task :: tid
  ready_q :: "nat \<Rightarrow> tid list"
  assembly_q :: "nat \<Rightarrow> tid list"
  task_completions :: "nat \<Rightarrow> int"
  task_pool :: "nat \<Rightarrow> int"
  pending_tasks :: int
  ptts :: ptt_store
  lay :: layout
  conf :: config

definition upd_task :: "tid \<Rightarrow> (poly_task \<Rightarrow> poly_task) \<Rightarrow> rt \<Rightarrow> rt" where
  "upd_task t f s = s\<lparr>tasks := (tasks s)(t := f (tasks s t))\<rparr>"

definition GOTAO_NO_AFFINITY :: real where "GOTAO_NO_AFFINITY = 1"

definition init_rt :: "config \<Rightarrow> layout \<Rightarrow> poly_task \<Rightarrow> rt" where
  "init_rt c l blank = \<lparr>tasks = (\<lambda>_. blank), next_task = 0, ready_q = (\<lambda>_. []), assembly_q = (\<lambda>_. []),
     task_completions = (\<lambda>_. 0), task_pool = (\<lambda>_. 0), pending_tasks = 0, ptts = empty_store, lay = l, conf = c\<rparr>"

section \<open>Constructors\<close>

text \<open>
  Counting a new task: a thread whose pool is empty requests \<open>TASK_POOL\<close> virtual tasks at
  once and uses one of them.
\<close>

definition count_new_task :: "nat \<Rightarrow> rt \<Rightarrow> rt" where
  "count_new_task n s =
     (if task_pool s n = 0
      then s\<lparr>pending_tasks := pending_tasks s + TASK_POOL, task_pool := (task_pool s)(n := TASK_POOL - 1)\<rparr>
      else s\<lparr>task_pool := (task_pool s)(n := task_pool s n - 1)\<rparr>)"

text \<open>
  \<open>PolyTask(t, _nthread)\<close>. The members it leaves uninitialised (\<open>leader\<close> and \<open>width\<close>) are
  the values \<open>l\<close> and \<open>w\<close> that the constructor of the subclass stores or the memory holds.
\<close>

definition PolyTask :: "task_kind \<Rightarrow> nat \<Rightarrow> int \<Rightarrow> int \<Rightarrow> nat \<Rightarrow> rt \<Rightarrow> tid \<times> rt" where
  "PolyTask k ty l w n s =
     (next_task s,
      (count_new_task n s)\<lparr>next_task := Suc (next_task s),
         tasks := (tasks s)(next_task s := \<lparr>affinity_relative_index = GOTAO_NO_AFFINITY, affinity_queue = -1,
           marker = 0, ptt_handle = None, workload_hint = 0, tao_type = ty, kind = k, leader = l, criticality = 0,
           refcount = 0, out = [], threads_out_tao = 0, threads_in_tao = 0, width = w, mold = True\<rparr>)\<rparr>)"

definition AssemblyTask :: "nat \<Rightarrow> int \<Rightarrow> nat \<Rightarrow> rt \<Rightarrow> tid \<times> rt" where
  "AssemblyTask ty w n s = PolyTask TASK_ASSEMBLY ty (-1) w n s"

definition SimpleTask :: "nat \<Rightarrow> int \<Rightarrow> nat \<Rightarrow> rt \<Rightarrow> tid \<times> rt" where
  "SimpleTask ty uninitialised n s = PolyTask TASK_SIMPLE ty uninitialised 1 n s"

section \<open>Affinity\<close>

text \<open>
  A software topology address \<open>x\<close> in [0, 1) becomes a queue number. The product is a
  \<open>float\<close> product, rounded by \<open>rnd\<close>; the conversion to \<open>int\<close> truncates, which is \<open>floor\<close>
  here because the product is not negative.
\<close>

definition sta_to_queue :: "(real \<Rightarrow> real) \<Rightarrow> int \<Rightarrow> real \<Rightarrow> poly_task \<Rightarrow> poly_task" where
  "sta_to_queue rnd nthreads x t =
     (if x \<ge> GOTAO_NO_AFFINITY \<or> x < 0 then t\<lparr>affinity_queue := -1\<rparr>
      else t\<lparr>affinity_queue := \<lfloor>rnd (x * of_int nthreads)\<rfloor>\<rparr>)"

definition set_sta :: "(real \<Rightarrow> real) \<Rightarrow> tid \<Rightarrow> real \<Rightarrow> rt \<Rightarrow> rt" where
  "set_sta rnd t x s =
     (if sta (conf s) = 1
      then upd_task t (\<lambda>p. sta_to_queue rnd (xitao_nthreads (lay s)) x (p\<lparr>affinity_relative_index := x\<rparr>)) s
      else s)"

definition get_sta :: "tid \<Rightarrow> rt \<Rightarrow> real" where
  "get_sta t s = affinity_relative_index (tasks s t)"

definition clone_sta :: "tid \<Rightarrow> tid \<Rightarrow> rt \<Rightarrow> rt" where
  "clone_sta t pt s = upd_task t (\<lambda>p. p\<lparr>affinity_relative_index := affinity_relative_index (tasks s pt),
     affinity_queue := affinity_queue (tasks s pt)\<rparr>) s"

definition if_prio :: "tid \<Rightarrow> rt \<Rightarrow> int" where
  "if_prio t s = criticality (tasks s t)"

section \<open>Dependencies\<close>

definition task_key :: "poly_task \<Rightarrow> ptt_key" where
  "task_key p = \<lparr>key_hint = workload_hint p, key_type = tao_type p\<rparr>"

text \<open>\<open>pt->_ptt = xitao_ptt::try_insert_table(pt, pt->workload_hint)\<close>.\<close>

definition attach_ptt :: "tid \<Rightarrow> rt \<Rightarrow> rt" where
  "attach_ptt t s = (case try_insert_table (task_key (tasks s t)) (ptts s) of
     (r, st) \<Rightarrow> upd_task t (\<lambda>p. p\<lparr>ptt_handle := Some r\<rparr>) (s\<lparr>ptts := st\<rparr>))"

definition make_edge :: "tid \<Rightarrow> tid \<Rightarrow> rt \<Rightarrow> rt" where
  "make_edge a t s =
     (let s1 = upd_task a (\<lambda>p. p\<lparr>out := out p @ [t]\<rparr>) s;
          s2 = upd_task t (\<lambda>p. p\<lparr>refcount := refcount p + 1\<rparr>) s1
      in if use_performance_modeling (conf s) then attach_ptt t s2 else s2)"

text \<open>The entry of a task's own table, and a table that is missing.\<close>

definition task_table :: "tid \<Rightarrow> rt \<Rightarrow> perf_data option" where
  "task_table t s = (case ptt_handle (tasks s t) of None \<Rightarrow> None | Some r \<Rightarrow> pheap (ptts s) r)"

definition task_get_timetable :: "tid \<Rightarrow> int \<Rightarrow> int \<Rightarrow> rt \<Rightarrow> real option" where
  "task_get_timetable t thread index s = (case task_table t s of None \<Rightarrow> None
     | Some d \<Rightarrow> if ptt_index_valid thread index then Some (get_timetable d thread index) else None)"

definition upd_table :: "nat \<Rightarrow> perf_data \<Rightarrow> rt \<Rightarrow> rt" where
  "upd_table r d s = s\<lparr>ptts := (ptts s)\<lparr>pheap := (pheap (ptts s))(r \<mapsto> d)\<rparr>\<rparr>"

definition task_set_timetable :: "tid \<Rightarrow> int \<Rightarrow> real \<Rightarrow> int \<Rightarrow> rt \<Rightarrow> rt option" where
  "task_set_timetable t thread ticks index s =
     (case ptt_handle (tasks s t) of None \<Rightarrow> None
      | Some r \<Rightarrow> (case pheap (ptts s) r of None \<Rightarrow> None
        | Some d \<Rightarrow> if ptt_index_valid thread index then Some (upd_table r (set_timetable d thread ticks index) s)
                    else None))"

section \<open>Building a task graph\<close>

text \<open>
  What a program does before it starts the workers: construct tasks, connect them, and set
  their affinities, priorities and workload hints. Edges between tasks that do not exist are refused.
\<close>

datatype build_op =
    New_assembly nat int nat
  | New_simple nat int nat
  | Edge tid tid
  | Sta tid real
  | Clone tid tid
  | Critical tid int
  | Hint tid "64 word"

fun build_step :: "(real \<Rightarrow> real) \<Rightarrow> build_op \<Rightarrow> rt \<Rightarrow> rt option" where
  "build_step rnd (New_assembly ty w n) s = (if n < XITAO_MAXTHREADS then Some (snd (AssemblyTask ty w n s)) else None)"
| "build_step rnd (New_simple ty w n) s = (if n < XITAO_MAXTHREADS then Some (snd (SimpleTask ty w n s)) else None)"
| "build_step rnd (Edge a t) s = (if a < next_task s \<and> t < next_task s then Some (make_edge a t s) else None)"
| "build_step rnd (Sta t x) s = (if t < next_task s then Some (set_sta rnd t x s) else None)"
| "build_step rnd (Clone t u) s = (if t < next_task s \<and> u < next_task s then Some (clone_sta t u s) else None)"
| "build_step rnd (Critical t c) s = (if t < next_task s then Some (upd_task t (\<lambda>p. p\<lparr>criticality := c\<rparr>) s) else None)"
| "build_step rnd (Hint t h) s = (if t < next_task s then Some (upd_task t (\<lambda>p. p\<lparr>workload_hint := h\<rparr>) s) else None)"

fun build :: "(real \<Rightarrow> real) \<Rightarrow> build_op list \<Rightarrow> rt \<Rightarrow> rt option" where
  "build rnd [] s = Some s"
| "build rnd (x # xs) s = do { s' \<leftarrow> build_step rnd x s; build rnd xs s' }"

text \<open>
  The invariant of a graph under construction: a task's reference count is the number of
  its incoming edges, nothing has run, and the pending count covers the tasks and the pools.
\<close>

definition in_edges :: "rt \<Rightarrow> tid \<Rightarrow> int" where
  "in_edges s b = (\<Sum>a<next_task s. occ b (out (tasks s a)))"

definition pool_total :: "(nat \<Rightarrow> int) \<Rightarrow> int" where
  "pool_total p = tsum XITAO_MAXTHREADS (\<lambda>x. x) p"

definition graph_ok :: "rt \<Rightarrow> bool" where
  "graph_ok s \<longleftrightarrow> (\<forall>a<next_task s. set (out (tasks s a)) \<subseteq> {..<next_task s})
     \<and> (\<forall>b<next_task s. refcount (tasks s b) = in_edges s b \<and> threads_out_tao (tasks s b) = 0
          \<and> threads_in_tao (tasks s b) = 0)
     \<and> (\<forall>n<XITAO_MAXTHREADS. 0 \<le> task_pool s n)
     \<and> pending_tasks s = pool_total (task_pool s) + int (next_task s)"

lemma upd_task_sel [simp]:
  "next_task (upd_task t f s) = next_task s" "task_pool (upd_task t f s) = task_pool s"
  "pending_tasks (upd_task t f s) = pending_tasks s" "conf (upd_task t f s) = conf s" "lay (upd_task t f s) = lay s"
  "ready_q (upd_task t f s) = ready_q s" "assembly_q (upd_task t f s) = assembly_q s"
  "task_completions (upd_task t f s) = task_completions s" "ptts (upd_task t f s) = ptts s"
  "tasks (upd_task t f s) = (tasks s)(t := f (tasks s t))"
  by (simp_all add: upd_task_def)

lemma sum_upd_task: "t < k \<Longrightarrow> (\<Sum>a<k. f (((g::nat \<Rightarrow> 'a)(t := x)) a)) = (\<Sum>a<k. f (g a)) - f (g t) + (f x :: int)"
  using tsum_upd [of t k f g x] by (simp add: tsum_def)

lemma sum_beyond: "(\<Sum>a<k. f (((g::nat \<Rightarrow> 'a)(k := x)) a)) = (\<Sum>a<k. f (g a) :: int)"
  by (rule sum.cong) auto

lemma count_list_snoc: "count_list (xs @ [y]) x = count_list xs x + (if y = x then 1 else 0)"
  by (induction xs) auto

lemma occ_none: "set xs \<subseteq> {..<k::nat} \<Longrightarrow> k \<le> b \<Longrightarrow> occ b xs = (0::int)"
  by (auto simp: count_list_0_iff subset_iff)

lemma in_edges_upd_task: "t < next_task s \<Longrightarrow> in_edges (upd_task t f s) b
    = in_edges s b - occ b (out (tasks s t)) + occ b (out (f (tasks s t)))"
  unfolding in_edges_def upd_task_def
  using sum_upd_task [of t "next_task s" "\<lambda>p. occ b (out p)" "tasks s"] by simp

lemma count_new_task_sel [simp]:
  "next_task (count_new_task n s) = next_task s" "tasks (count_new_task n s) = tasks s"
  "conf (count_new_task n s) = conf s" "lay (count_new_task n s) = lay s"
  by (simp_all add: count_new_task_def)

lemma count_new_task_pool:
  "n < XITAO_MAXTHREADS \<Longrightarrow> \<forall>i<XITAO_MAXTHREADS. 0 \<le> task_pool s i \<Longrightarrow>
   pending_tasks (count_new_task n s) - pool_total (task_pool (count_new_task n s))
     = pending_tasks s - pool_total (task_pool s) + 1
   \<and> (\<forall>i<XITAO_MAXTHREADS. 0 \<le> task_pool (count_new_task n s) i)"
  by (auto simp: count_new_task_def pool_total_def TASK_POOL_def less_le)

lemma graph_ok_ctor:
  assumes "graph_ok s" and "n < XITAO_MAXTHREADS"
  shows "graph_ok (snd (PolyTask k ty l w n s))"
proof -
  have none: "in_edges s (next_task s) = 0"
    unfolding in_edges_def using assms(1) by (intro sum.neutral ballI occ_none) (auto simp: graph_ok_def)
  have "in_edges (snd (PolyTask k ty l w n s)) b = in_edges s b" for b
    by (simp add: PolyTask_def in_edges_def sum_beyond [where f = "\<lambda>p. occ b (out p)"])
  with assms none count_new_task_pool [OF assms(2), of s] show ?thesis
    by (auto simp: graph_ok_def PolyTask_def less_Suc_eq subset_iff)
qed

lemma attach_ptt_sel [simp]:
  "next_task (attach_ptt t s) = next_task s" "task_pool (attach_ptt t s) = task_pool s"
  "pending_tasks (attach_ptt t s) = pending_tasks s" "conf (attach_ptt t s) = conf s"
  "out (tasks (attach_ptt t s) u) = out (tasks s u)" "refcount (tasks (attach_ptt t s) u) = refcount (tasks s u)"
  "threads_out_tao (tasks (attach_ptt t s) u) = threads_out_tao (tasks s u)"
  "threads_in_tao (tasks (attach_ptt t s) u) = threads_in_tao (tasks s u)"
  by (auto simp: attach_ptt_def split: prod.splits)

lemma graph_ok_cong:
  assumes "graph_ok s" and "next_task s' = next_task s" and "task_pool s' = task_pool s"
    and "pending_tasks s' = pending_tasks s"
    and "\<And>u. out (tasks s' u) = out (tasks s u) \<and> refcount (tasks s' u) = refcount (tasks s u)
           \<and> threads_out_tao (tasks s' u) = threads_out_tao (tasks s u)
           \<and> threads_in_tao (tasks s' u) = threads_in_tao (tasks s u)"
  shows "graph_ok s'"
  using assms by (simp add: graph_ok_def in_edges_def)

lemma graph_ok_edge:
  assumes "graph_ok s" and "a < next_task s" and "t < next_task s"
  shows "graph_ok (make_edge a t s)"
proof -
  let ?s = "upd_task t (\<lambda>p. p\<lparr>refcount := refcount p + 1\<rparr>) (upd_task a (\<lambda>p. p\<lparr>out := out p @ [t]\<rparr>) s)"
  have edges: "in_edges ?s b = in_edges s b + (if b = t then 1 else 0)" for b
    using assms by (simp add: in_edges_upd_task)
  then have "graph_ok ?s" using assms unfolding graph_ok_def by (auto simp: subset_iff)
  then have "graph_ok (if use_performance_modeling (conf s) then attach_ptt t ?s else ?s)"
    by (auto elim!: graph_ok_cong)
  then show ?thesis by (simp add: make_edge_def Let_def)
qed

lemma graph_ok_step: "graph_ok s \<Longrightarrow> build_step rnd x s = Some s' \<Longrightarrow> graph_ok s'"
proof (cases x)
  case (Sta t y)
  assume "graph_ok s" and "build_step rnd x s = Some s'"
  with Sta show ?thesis
    by (auto simp: set_sta_def sta_to_queue_def split: if_splits elim!: graph_ok_cong)
next
  case (Clone t u)
  assume "graph_ok s" and "build_step rnd x s = Some s'"
  with Clone show ?thesis by (auto simp: clone_sta_def split: if_splits elim!: graph_ok_cong)
next
  case (Critical t c)
  assume "graph_ok s" and "build_step rnd x s = Some s'"
  with Critical show ?thesis by (auto split: if_splits elim!: graph_ok_cong)
next
  case (Hint t h)
  assume "graph_ok s" and "build_step rnd x s = Some s'"
  with Hint show ?thesis by (auto split: if_splits elim!: graph_ok_cong)
qed (auto simp: AssemblyTask_def SimpleTask_def intro: graph_ok_ctor graph_ok_edge split: if_splits)

lemma graph_ok_build: "graph_ok s \<Longrightarrow> build rnd xs s = Some s' \<Longrightarrow> graph_ok s'"
  by (induction xs arbitrary: s) (auto intro: graph_ok_step)

lemma graph_ok_init: "graph_ok (init_rt c l blank)"
  by (simp add: graph_ok_def init_rt_def pool_total_def in_edges_def tsum_def)

section \<open>Properties\<close>

text \<open>Building a graph. Whatever tasks a program constructs on whatever threads' pools and
  whatever edges it makes, every task's reference count is exactly the number of edges
  into it (counted with multiplicity), every edge leads to a constructed task, and
  \<open>pending_tasks\<close> is the number of tasks plus what is left in the 64 pools.
\<close>

theorem build_counts_edges:
  assumes "build rnd ops (init_rt c l blank) = Some s"
  shows "(\<forall>b<next_task s. refcount (tasks s b) = (\<Sum>a<next_task s. occ b (out (tasks s a))))
    \<and> (\<forall>a<next_task s. set (out (tasks s a)) \<subseteq> {..<next_task s})
    \<and> pending_tasks s = (\<Sum>i<64. task_pool s i) + int (next_task s)"
  using graph_ok_build [OF graph_ok_init assms]
  by (auto simp: graph_ok_def in_edges_def pool_total_def tsum_def XITAO_MAXTHREADS_def)

text \<open>The memory of a task before its constructor runs, and a small graph, for the examples.\<close>

definition blank_task :: poly_task where
  "blank_task = \<lparr>affinity_relative_index = 1, affinity_queue = -1, marker = 0, ptt_handle = None, workload_hint = 0,
     tao_type = 0, kind = TASK_ASSEMBLY, leader = 0, criticality = 0, refcount = 0, out = [], threads_out_tao = 0,
     threads_in_tao = 0, width = 0, mold = True\<rparr>"

definition demo_ops :: "build_op list" where
  "demo_ops = [New_assembly 0 1 0, New_assembly 0 2 3, Edge 0 1, Edge 0 1]"

theorem build_counts_edges_witness:
  "\<exists>s. build (\<lambda>x. x) demo_ops (init_rt (default_config 4) init_layout blank_task) = Some s
     \<and> refcount (tasks s 1) = 2 \<and> pending_tasks s = 200"
proof -
  obtain s where s: "build (\<lambda>x. x) demo_ops (init_rt (default_config 4) init_layout blank_task) = Some s"
    and n: "next_task s = 2" "out (tasks s 0) = [1, 1]" "out (tasks s 1) = []" "pending_tasks s = 200"
    by (simp add: demo_ops_def AssemblyTask_def PolyTask_def make_edge_def count_new_task_def init_rt_def
        XITAO_MAXTHREADS_def TASK_POOL_def default_config_def Let_def numeral_2_eq_2)
  from build_counts_edges [OF s] n have "refcount (tasks s 1) = 2"
    by (auto simp: numeral_2_eq_2 lessThan_Suc)
  with s n show ?thesis by blast
qed

section \<open>Affinity queues\<close>

text \<open>
  The finite 24-bit binary floating-point numbers (subnormals and the exponent bounds left
  aside), and what the hardware's default rounding gives: a nearest one.
\<close>

definition is_f24 :: "real \<Rightarrow> bool" where
  "is_f24 z \<longleftrightarrow> (\<exists>m j. \<bar>m\<bar> < 2 ^ 24 \<and> z = of_int m / 2 ^ j)"

definition nearest_f24 :: "(real \<Rightarrow> real) \<Rightarrow> real \<Rightarrow> bool" where
  "nearest_f24 rnd v \<longleftrightarrow> is_f24 (rnd v) \<and> (\<forall>z. is_f24 z \<longrightarrow> \<bar>rnd v - v\<bar> \<le> \<bar>z - v\<bar>)"

lemma nearest_below_int:
  assumes near: "nearest_f24 rnd (x * of_int n)" and x: "is_f24 x" "0 \<le> x" "x \<le> 1 - 1 / 2 ^ 24"
    and n: "2 ^ k < 2 * n" "n \<le> 2 ^ k" "k \<le> 6"
  shows "0 \<le> rnd (x * of_int n) \<and> rnd (x * of_int n) < of_int n"
proof -
  define v where "v = x * of_int n"
  define p where "p = (of_int (n * 2 ^ (24 - k) - 1) :: real) / 2 ^ (24 - k)"
  have n0: "0 < n" using n(1) by (smt (verit) zero_less_power)
  have e: "(2::int) ^ (24 - k) * 2 ^ k = 2 ^ 24" using n(3) by (simp flip: power_add)
  have "n * 2 ^ (24 - k) \<le> 2 ^ k * 2 ^ (24 - k)" using n(2) by (intro mult_right_mono) auto
  then have "n * 2 ^ (24 - k) \<le> 2 ^ 24" using e by (simp only: mult.commute)
  then have "n * 2 ^ (24 - k) - 1 < 2 ^ 24" by linarith
  moreover have "0 \<le> n * 2 ^ (24 - k) - 1" using n0 by (simp add: int_one_le_iff_zero_less)
  ultimately have p: "is_f24 p" unfolding is_f24_def p_def by (intro exI [of _ "n * 2 ^ (24 - k) - 1"] exI [of _ "24 - k"]) simp
  have z: "is_f24 0" unfolding is_f24_def by (intro exI [of _ 0] exI [of _ 0]) simp
  have v0: "0 \<le> v" using x n0 by (simp add: v_def)
  have "\<bar>rnd v - v\<bar> \<le> \<bar>0 - v\<bar>" using near z by (auto simp: nearest_f24_def v_def)
  then have lower: "0 \<le> rnd v" using v0 by linarith
  have pe: "p = of_int n - 1 / 2 ^ (24 - k)" by (simp add: p_def field_simps)
  have "v \<le> (1 - 1 / 2 ^ 24) * of_int n" unfolding v_def using x n0 by (intro mult_right_mono) auto
  then have vn: "v \<le> of_int n - of_int n / 2 ^ 24" by (simp add: algebra_simps)
  have r: "(2::real) ^ 24 = 2 ^ (24 - k) * 2 ^ k" using n(3) by (simp flip: power_add)
  have "(2::real) ^ k < 2 * of_int n" using n(1) by (metis of_int_less_iff of_int_mult of_int_numeral of_int_power)
  then have half: "1 / 2 ^ (24 - k) < 2 * (of_int n / (2::real) ^ 24)" unfolding r by (simp add: field_simps)
  have "\<bar>rnd v - v\<bar> \<le> \<bar>p - v\<bar>" using near p by (auto simp: nearest_f24_def v_def)
  moreover have "of_int n - v > \<bar>p - v\<bar>"
    using pe vn half by (smt (verit) divide_pos_pos zero_less_power)
  ultimately have "rnd v < of_int n" by linarith
  with lower show ?thesis by (simp add: v_def)
qed

lemma f24_below_one: "is_f24 x \<Longrightarrow> x < 1 \<Longrightarrow> x \<le> 1 - 1 / 2 ^ 24"
proof -
  assume "is_f24 x" and x1: "x < 1"
  then obtain m j where m: "\<bar>m\<bar> < 2 ^ 24" and x: "x = of_int m / 2 ^ j" unfolding is_f24_def by auto
  show ?thesis
  proof (cases "j \<le> 24")
    case True
    have "of_int m < (of_int (2 ^ j) :: real)" using x1 x by (simp add: field_simps)
    then have "m + 1 \<le> 2 ^ j" by linarith
    then have "(of_int (m + 1) :: real) \<le> of_int (2 ^ j)" by linarith
    then have "x \<le> 1 - 1 / 2 ^ j" using x by (simp add: field_simps)
    moreover have "(1::real) / 2 ^ 24 \<le> 1 / 2 ^ j" using True by (intro divide_left_mono power_increasing) auto
    ultimately show ?thesis by linarith
  next
    case False
    have "(2::real) ^ 25 \<le> 2 ^ j" using False by (intro power_increasing) auto
    moreover have "m < 2 ^ 24" using m by simp
    then have "of_int m < (of_int (2 ^ 24) :: real)" by (simp only: of_int_less_iff)
    then have "of_int m < (2::real) ^ 24" by simp
    ultimately have "of_int m \<le> (1 / 2) * (2::real) ^ j" by simp
    then have "x \<le> 1 / 2" unfolding x by (subst pos_divide_le_eq) auto
    then show ?thesis by simp
  qed
qed

lemma power_above: "1 \<le> n \<Longrightarrow> n \<le> (64::int) \<Longrightarrow> \<exists>k::nat. 2 ^ k < 2 * n \<and> n \<le> 2 ^ k \<and> k \<le> 6"
proof -
  assume "1 \<le> n" and "n \<le> (64::int)"
  then consider "n \<le> 1" | "1 < n" "n \<le> 2" | "2 < n" "n \<le> 4" | "4 < n" "n \<le> 8" | "8 < n" "n \<le> 16"
    | "16 < n" "n \<le> 32" | "32 < n" "n \<le> 64" by linarith
  then show ?thesis
    using \<open>1 \<le> n\<close>
    by cases (intro exI [of _ 0] exI [of _ 1] exI [of _ 2] exI [of _ 3] exI [of _ 4] exI [of _ 5] exI [of _ 6]; simp; fail)+
qed

text \<open>Affinity. With the hardware's rounding to nearest, a topology address \<open>x\<close> that is a
  \<open>float\<close> in [0, 1) always becomes the queue of an existing worker, for every number of
  threads from 1 to 64: the rounding of \<open>x * nthreads\<close> never reaches \<open>nthreads\<close>. An
  address outside [0, 1) becomes -1, no affinity, and \<open>get_sta\<close> returns the address set.
\<close>

theorem set_sta_names_a_worker:
  assumes "sta (conf s) = 1" and "xitao_nthreads (lay s) = n" and "1 \<le> n" and "n \<le> 64"
    and "is_f24 x" and "nearest_f24 rnd (x * of_int n)"
  shows "get_sta t (set_sta rnd t x s) = x \<and>
    (if 0 \<le> x \<and> x < 1
     then 0 \<le> affinity_queue (tasks (set_sta rnd t x s) t) \<and> affinity_queue (tasks (set_sta rnd t x s) t) < n
     else affinity_queue (tasks (set_sta rnd t x s) t) = -1)"
proof -
  have "0 \<le> x \<Longrightarrow> x < 1 \<Longrightarrow> 0 \<le> rnd (x * of_int n) \<and> rnd (x * of_int n) < of_int n"
  proof -
    assume x: "0 \<le> x" "x < 1"
    obtain k where k: "2 ^ k < 2 * n" "n \<le> 2 ^ k" "k \<le> 6" using power_above assms(3,4) by blast
    from nearest_below_int [OF assms(6,5) x(1) f24_below_one [OF assms(5) x(2)] k] show ?thesis .
  qed
  with assms(1,2) show ?thesis
    by (auto simp: set_sta_def get_sta_def sta_to_queue_def GOTAO_NO_AFFINITY_def floor_less_iff)
qed

theorem set_sta_names_a_worker_witness:
  "0 \<le> affinity_queue (tasks (set_sta (\<lambda>x. x) 0 (1 / 2)
     (init_rt (default_config 8) (init_layout\<lparr>xitao_nthreads := 8\<rparr>) blank_task)) 0)"
proof -
  have f: "is_f24 (1 / 2)" "is_f24 4"
    unfolding is_f24_def by (rule exI [of _ 1], rule exI [of _ 1], simp) (rule exI [of _ 4], rule exI [of _ 0], simp)
  show ?thesis
    using set_sta_names_a_worker [of "init_rt (default_config 8) (init_layout\<lparr>xitao_nthreads := 8\<rparr>) blank_task"
        8 "1 / 2" "\<lambda>x. x" 0] f
    by (auto simp: init_rt_def default_config_def nearest_f24_def)
qed

end
