(* ===== verification/Perf_Model.thy ===== *)
theory Perf_Model
  imports Tasks
begin

text \<open>
  The performance-based choice of places (\<open>include/perf_model.h\<close>): the global search over
  all places for critical tasks, the local search over the places that include a thread,
  with its shortcut for settled task types, and the update of the performance table.
  Random numbers are arguments; \<open>rnd\<close> is the rounding of \<open>float\<close> arithmetic.
\<close>

section \<open>The search loop\<close>

definition FLT_MAX :: real where "FLT_MAX = (2 - 1 / 2 ^ 23) * 2 ^ 127"

text \<open>\<open>comp_perf\<close>: the parallel cost or the plain time of a place.\<close>

definition comp_perf :: "(real \<Rightarrow> real) \<Rightarrow> bool \<Rightarrow> int \<Rightarrow> real \<Rightarrow> real" where
  "comp_perf rnd parallel_cost w v = (if parallel_cost then rnd (of_int w * v) else v)"

text \<open>
  The loop body of both searches over the places still to visit: an untrained place ends
  the search, a cheaper one is remembered. Reading outside the table is \<open>None\<close>.
\<close>

fun search_places :: "(real \<Rightarrow> real) \<Rightarrow> bool \<Rightarrow> (int \<Rightarrow> int \<Rightarrow> real option) \<Rightarrow> place list
    \<Rightarrow> real \<Rightarrow> place \<Rightarrow> place option" where
  "search_places rnd pc tab [] shortest best = Some best"
| "search_places rnd pc tab ((l, w) # ps) shortest best =
     (case tab l w of None \<Rightarrow> None
      | Some v \<Rightarrow> if v = 0 then Some (l, w)
                  else if comp_perf rnd pc w v < shortest
                  then search_places rnd pc tab ps (comp_perf rnd pc w v) (l, w)
                  else search_places rnd pc tab ps shortest best)"

definition mold_task :: "tid \<Rightarrow> rt \<Rightarrow> bool" where
  "mold_task t s \<longleftrightarrow> cfg_mold (conf s) \<and> mold (tasks s t)"

text \<open>The places the global search visits, leader by leader, after its \<open>continue\<close>.\<close>

definition row_places :: "bool \<Rightarrow> int \<Rightarrow> int list \<Rightarrow> place list" where
  "row_places md l row = map (\<lambda>w. (l, w)) (filter (\<lambda>w. \<not> (w \<le> 0 \<or> (\<not> md \<and> 1 < w))) row)"

definition all_places :: "bool \<Rightarrow> int list list \<Rightarrow> place list" where
  "all_places md rows = concat (map (\<lambda>l. row_places md (int l) (rows ! l)) [0..<length rows])"

definition set_place :: "tid \<Rightarrow> place \<Rightarrow> rt \<Rightarrow> rt" where
  "set_place t p s = upd_task t (\<lambda>x. x\<lparr>leader := fst p, width := snd p\<rparr>) s"

definition global_search_ptt :: "(real \<Rightarrow> real) \<Rightarrow> tid \<Rightarrow> rt \<Rightarrow> rt option" where
  "global_search_ptt rnd t s = do {
     p \<leftarrow> search_places rnd (minimize_parallel_cost (conf s)) (\<lambda>l w. task_get_timetable t l w s)
            (all_places (mold_task t s) (ptt_layout (lay s))) FLT_MAX (-1, 1);
     Some (set_place t p s) }"

section \<open>The local search\<close>

definition count_choice :: "int \<Rightarrow> perf_data \<Rightarrow> perf_data" where
  "count_choice new_width d =
     (let c = (if last_width d \<ge> 0 then if last_width d = new_width then cont_choices d + 1 else 0
               else cont_choices d)
      in d\<lparr>cont_choices := c, last_width := new_width\<rparr>)"

definition local_places :: "bool \<Rightarrow> place list \<Rightarrow> place list" where
  "local_places md parts = filter (\<lambda>(l, w). \<not> (\<not> md \<and> 1 < w)) parts"

text \<open>
  \<open>history_mold_locally(n, t)\<close> with the two results of \<open>rand()\<close>. \<open>None\<close> is undefined
  behaviour: a task without a table, a division by zero, or a read outside a vector.
\<close>

definition history_mold_locally :: "(real \<Rightarrow> real) \<Rightarrow> nat \<Rightarrow> nat \<Rightarrow> nat \<Rightarrow> tid \<Rightarrow> rt \<Rightarrow> rt option" where
  "history_mold_locally rnd n r1 r2 t s =
     (case ptt_handle (tasks s t) of None \<Rightarrow> None | Some h \<Rightarrow>
      (case pheap (ptts s) h of None \<Rightarrow> None | Some d \<Rightarrow>
        if cont_choices d \<ge> 10 then
          if last_width d = 0 then None
          else Some (set_place t (int n - int n smod last_width d, last_width d) s)
        else if length (inclusive_partitions (lay s)) \<le> n \<or> refresh_frequency (conf s) = 0 then None
        else
          let parts = inclusive_partitions (lay s) ! n; md = mold_task t s in
          if int r1 smod refresh_frequency (conf s) \<noteq> 0 then
            (case search_places rnd (minimize_parallel_cost (conf s)) (\<lambda>l w. task_get_timetable t l w s)
                    (local_places md parts) FLT_MAX (-1, 1) of
               None \<Rightarrow> None
             | Some p \<Rightarrow> let s' = upd_table h (count_choice (snd p) d) s in
                 Some (if fst p \<noteq> -1 then set_place t p s' else s'))
          else if md then
            if parts = [] then None
            else let p = parts ! (r2 mod length parts) in
                 Some (if fst p \<noteq> -1 then set_place t p s else s)
          else Some (set_place t (int n, 1) s)))"

section \<open>Updating the table\<close>

text \<open>
  The weight is an \<open>int\<close>: \<open>old_tick_weight + 1\<close> must be one too (\<open>None\<close> otherwise), and both are
  converted to \<open>float\<close>.
\<close>

definition averaged :: "(real \<Rightarrow> real) \<Rightarrow> int \<Rightarrow> real \<Rightarrow> real \<Rightarrow> real option" where
  "averaged rnd weight oldticks ticks =
     (if oldticks \<noteq> 0
      then if weight + 1 < 2 ^ 31
           then Some (rnd (rnd (rnd (rnd (of_int weight) * oldticks) + ticks) / rnd (of_int (weight + 1))))
           else None
      else Some ticks)"

definition update_performance_model :: "(real \<Rightarrow> real) \<Rightarrow> tid \<Rightarrow> int \<Rightarrow> real \<Rightarrow> int \<Rightarrow> rt \<Rightarrow> rt option" where
  "update_performance_model rnd t thread ticks w s = do {
     oldticks \<leftarrow> task_get_timetable t thread w s;
     ticks \<leftarrow> averaged rnd (old_tick_weight (conf s)) oldticks ticks;
     task_set_timetable t thread ticks w s }"

section \<open>The search finds the cheapest place\<close>

text \<open>
  What the search promises of its result \<open>p\<close>: an untrained place comes first, the first of
  them in the order of the list; otherwise \<open>p\<close> has the least cost, and of the places with
  that cost it is the first.
\<close>

definition first_untrained :: "(int \<Rightarrow> int \<Rightarrow> real option) \<Rightarrow> place list \<Rightarrow> place option" where
  "first_untrained tab ps = find (\<lambda>(l, w). tab l w = Some 0) ps"

definition place_cost :: "(real \<Rightarrow> real) \<Rightarrow> bool \<Rightarrow> (int \<Rightarrow> int \<Rightarrow> real option) \<Rightarrow> place \<Rightarrow> real" where
  "place_cost rnd pc tab p = comp_perf rnd pc (snd p) (the (tab (fst p) (snd p)))"

definition readable :: "(int \<Rightarrow> int \<Rightarrow> real option) \<Rightarrow> place list \<Rightarrow> bool" where
  "readable tab ps \<longleftrightarrow> (\<forall>p\<in>set ps. tab (fst p) (snd p) \<noteq> None)"

lemma readable_Cons [simp]: "readable tab ((l, w) # ps) \<longleftrightarrow> tab l w \<noteq> None \<and> readable tab ps"
  by (auto simp: readable_def)

lemma search_untrained:
  "readable tab ps \<Longrightarrow> first_untrained tab ps = Some q \<Longrightarrow> search_places rnd pc tab ps b p = Some q"
  by (induction rnd pc tab ps b p rule: search_places.induct)
    (auto simp: first_untrained_def split: option.splits if_splits)

lemma first_untrained_split:
  "first_untrained tab ps = Some q \<Longrightarrow>
   \<exists>xs ys. ps = xs @ q # ys \<and> tab (fst q) (snd q) = Some 0 \<and> (\<forall>x\<in>set xs. tab (fst x) (snd x) \<noteq> Some 0)"
proof (induction ps)
  case (Cons p ps)
  show ?case
  proof (cases "tab (fst p) (snd p) = Some 0")
    case True
    with Cons(2) show ?thesis
      by (intro exI [of _ "[]"] exI [of _ ps]) (auto simp: first_untrained_def split: prod.splits)
  next
    case False
    with Cons obtain xs ys where "ps = xs @ q # ys" "tab (fst q) (snd q) = Some 0" "\<forall>x\<in>set xs. tab (fst x) (snd x) \<noteq> Some 0"
      by (auto simp: first_untrained_def split: prod.splits)
    with False show ?thesis by (intro exI [of _ "p # xs"] exI [of _ ys]) auto
  qed
qed (simp add: first_untrained_def)

lemma first_untrained_None:
  "first_untrained tab ps = None \<longleftrightarrow> (\<forall>x\<in>set ps. tab (fst x) (snd x) \<noteq> Some 0)"
  by (auto simp: first_untrained_def find_None_iff)

lemma search_trained:
  "readable tab ps \<Longrightarrow> first_untrained tab ps = None \<Longrightarrow>
   \<exists>q. search_places rnd pc tab ps b p = Some q \<and>
     ((q = p \<and> (\<forall>x\<in>set ps. b \<le> place_cost rnd pc tab x)) \<or>
      (\<exists>xs ys. ps = xs @ q # ys \<and> place_cost rnd pc tab q < b
         \<and> (\<forall>x\<in>set xs. place_cost rnd pc tab q < place_cost rnd pc tab x)
         \<and> (\<forall>y\<in>set ys. place_cost rnd pc tab q \<le> place_cost rnd pc tab y)))"
proof (induction rnd pc tab ps b p rule: search_places.induct)
  case (1 rnd pc tab b p)
  then show ?case by simp
next
  case (2 rnd pc tab l w ps b p)
  obtain v where v: "tab l w = Some v" using 2(3) by auto
  have nz: "v \<noteq> 0" and rest: "first_untrained tab ps = None"
    using 2(4) v by (auto simp: first_untrained_def split: if_splits)
  let ?c = "place_cost rnd pc tab" and ?p = "(l, w)"
  have cost: "?c ?p = comp_perf rnd pc w v" using v by (simp add: place_cost_def)
  show ?case
  proof (cases "comp_perf rnd pc w v < b")
    case True
    from 2(1) [OF v nz True] 2(3) rest obtain q where
      q: "search_places rnd pc tab ps (comp_perf rnd pc w v) ?p = Some q" and
      d: "(q = ?p \<and> (\<forall>x\<in>set ps. ?c ?p \<le> ?c x)) \<or> (\<exists>xs ys. ps = xs @ q # ys \<and> ?c q < ?c ?p
         \<and> (\<forall>x\<in>set xs. ?c q < ?c x) \<and> (\<forall>y\<in>set ys. ?c q \<le> ?c y))"
      unfolding cost by auto
    from d have "\<exists>xs ys. ?p # ps = xs @ q # ys \<and> ?c q < b \<and> (\<forall>x\<in>set xs. ?c q < ?c x) \<and> (\<forall>y\<in>set ys. ?c q \<le> ?c y)"
    proof (elim disjE exE conjE)
      assume "q = ?p" and "\<forall>x\<in>set ps. ?c ?p \<le> ?c x"
      then show ?thesis using True cost by (intro exI [of _ "[]"] exI [of _ ps]) simp
    next
      fix xs ys assume "ps = xs @ q # ys" "?c q < ?c ?p" "\<forall>x\<in>set xs. ?c q < ?c x" "\<forall>y\<in>set ys. ?c q \<le> ?c y"
      then show ?thesis using True cost by (intro exI [of _ "?p # xs"] exI [of _ ys]) auto
    qed
    with q v nz True show ?thesis by auto
  next
    case False
    from 2(2) [OF v nz False] 2(3) rest obtain q where
      q: "search_places rnd pc tab ps b p = Some q" and
      d: "(q = p \<and> (\<forall>x\<in>set ps. b \<le> ?c x)) \<or> (\<exists>xs ys. ps = xs @ q # ys \<and> ?c q < b
         \<and> (\<forall>x\<in>set xs. ?c q < ?c x) \<and> (\<forall>y\<in>set ys. ?c q \<le> ?c y))"
      by auto
    from d have "(q = p \<and> (\<forall>x\<in>set (?p # ps). b \<le> ?c x)) \<or> (\<exists>xs ys. ?p # ps = xs @ q # ys \<and> ?c q < b
        \<and> (\<forall>x\<in>set xs. ?c q < ?c x) \<and> (\<forall>y\<in>set ys. ?c q \<le> ?c y))"
    proof (elim disjE exE conjE)
      assume "q = p" and "\<forall>x\<in>set ps. b \<le> ?c x"
      then show ?thesis using False cost by auto
    next
      fix xs ys assume "ps = xs @ q # ys" "?c q < b" "\<forall>x\<in>set xs. ?c q < ?c x" "\<forall>y\<in>set ys. ?c q \<le> ?c y"
      then show ?thesis using False cost by (intro disjI2 exI [of _ "?p # xs"] exI [of _ ys]) auto
    qed
    with q v nz False show ?thesis by auto
  qed
qed

text \<open>The result is a place of the list or the initial value.\<close>

lemma search_places_member: "search_places rnd pc tab ps b p = Some q \<Longrightarrow> q \<in> set ps \<or> q = p"
  by (induction rnd pc tab ps b p rule: search_places.induct) (auto split: option.splits if_splits)

lemma all_places_iff:
  "(l, w) \<in> set (all_places md rows) \<longleftrightarrow>
     0 \<le> l \<and> l < int (length rows) \<and> w \<in> set (rows ! nat l) \<and> 0 < w \<and> (md \<or> w \<le> 1)"
proof
  assume "0 \<le> l \<and> l < int (length rows) \<and> w \<in> set (rows ! nat l) \<and> 0 < w \<and> (md \<or> w \<le> 1)"
  then show "(l, w) \<in> set (all_places md rows)"
    by (auto simp: all_places_def row_places_def intro!: bexI [of _ "nat l"])
qed (auto simp: all_places_def row_places_def)

text \<open>
  Both searches on a readable table whose costs are below the initial value find a place
  of the list, and the right one.
\<close>

definition best_place :: "(real \<Rightarrow> real) \<Rightarrow> bool \<Rightarrow> (int \<Rightarrow> int \<Rightarrow> real option) \<Rightarrow> place list \<Rightarrow> place \<Rightarrow> bool" where
  "best_place rnd pc tab ps p \<longleftrightarrow> (\<exists>xs ys. ps = xs @ p # ys \<and>
     (if \<exists>x\<in>set ps. tab (fst x) (snd x) = Some 0
      then tab (fst p) (snd p) = Some 0 \<and> (\<forall>x\<in>set xs. tab (fst x) (snd x) \<noteq> Some 0)
      else (\<forall>x\<in>set xs. place_cost rnd pc tab p < place_cost rnd pc tab x)
         \<and> (\<forall>y\<in>set ys. place_cost rnd pc tab p \<le> place_cost rnd pc tab y)))"

lemma search_best:
  assumes "readable tab ps" and "ps \<noteq> []" and "\<forall>p\<in>set ps. place_cost rnd pc tab p < FLT_MAX"
  shows "\<exists>q. search_places rnd pc tab ps FLT_MAX p0 = Some q \<and> best_place rnd pc tab ps q"
proof (cases "first_untrained tab ps")
  case None
  have "hd ps \<in> set ps" using assms(2) by simp
  then have some: "\<not> (\<forall>x\<in>set ps. FLT_MAX \<le> place_cost rnd pc tab x)" using assms(3) by force
  from search_trained [OF assms(1) None, of rnd pc FLT_MAX p0] some obtain q xs ys where
    q: "search_places rnd pc tab ps FLT_MAX p0 = Some q" "ps = xs @ q # ys"
    "\<forall>x\<in>set xs. place_cost rnd pc tab q < place_cost rnd pc tab x"
    "\<forall>y\<in>set ys. place_cost rnd pc tab q \<le> place_cost rnd pc tab y"
    by blast
  have "\<not> (\<exists>x\<in>set ps. tab (fst x) (snd x) = Some 0)" using None by (simp add: first_untrained_None)
  with q show ?thesis unfolding best_place_def by auto
next
  case (Some q)
  from first_untrained_split [OF this] search_untrained [OF assms(1) Some]
  show ?thesis unfolding best_place_def by (metis in_set_conv_decomp)
qed

lemma best_place_member: "best_place rnd pc tab ps p \<Longrightarrow> p \<in> set ps"
  by (auto simp: best_place_def)

section \<open>The local search on the default layout\<close>

text \<open>
  What is known of a table whose choices were made on the default layout of \<open>N\<close> threads: a
  width chosen twice in a row is an offered one.
\<close>

definition settled_ok :: "int \<Rightarrow> perf_data \<Rightarrow> bool" where
  "settled_ok N d \<longleftrightarrow> (1 \<le> cont_choices d \<longrightarrow> offered_width N (last_width d))"

definition covers :: "int \<Rightarrow> int \<Rightarrow> place \<Rightarrow> bool" where
  "covers N n p \<longleftrightarrow> offered_width N (snd p) \<and> snd p dvd fst p \<and> 0 \<le> fst p \<and> fst p \<le> n \<and> n < fst p + snd p
     \<and> fst p + snd p \<le> N"

definition default_partitions :: "int \<Rightarrow> layout \<Rightarrow> bool" where
  "default_partitions N L \<longleftrightarrow> (\<exists>L'. prepare_default_layout N (clear_layout_partitions init_layout) = Some L'
     \<and> inclusive_partitions L = inclusive_partitions L' \<and> ptt_layout L = ptt_layout L')"

lemma default_partitions_iff:
  assumes "default_partitions N L" and "N \<le> 64" and "n < nat N"
  shows "length (inclusive_partitions L) = 64"
    and "p \<in> set (inclusive_partitions L ! n) \<longleftrightarrow> offered_width N (snd p) \<and> fst p = int n - int n mod snd p"
proof -
  have M: "XITAO_MAXTHREADS = 64" by (simp add: XITAO_MAXTHREADS_def)
  have "N \<le> int XITAO_MAXTHREADS" using assms(2) M by simp
  from default_layout_spec [OF this, of "clear_layout_partitions init_layout"] obtain L' where
    "prepare_default_layout N (clear_layout_partitions init_layout) = Some L'"
    and L': "length (inclusive_partitions L') = 64" "\<forall>t<64. set (inclusive_partitions L' ! t)
      = {(l, w). w \<in> set (default_widths N) \<and> l = int t - int t mod w \<and> int t < N}"
    by (auto simp: M clear_layout_partitions_def init_layout_def)
  with assms(1) have eq: "inclusive_partitions L = inclusive_partitions L'" by (auto simp: default_partitions_def)
  show "length (inclusive_partitions L) = 64" using eq L'(1) by simp
  have "n < 64" "int n < N" using assms(2,3) by linarith+
  with L'(2) eq show "p \<in> set (inclusive_partitions L ! n) \<longleftrightarrow> offered_width N (snd p) \<and> fst p = int n - int n mod snd p"
    by (cases p) (auto simp: set_default_widths offered_width_def)
qed

lemma aligned_covers:
  assumes "offered_width N w" and "0 \<le> n" and "n < N"
  shows "covers N n (n - n mod w, w)"
proof -
  have w: "0 < w" "w dvd N" using assms(1) by (auto simp: offered_width_def)
  from aligned_block_iff [OF w(1), of "n - n mod w" n]
  have a: "w dvd n - n mod w" "n - n mod w \<le> n" "n < n - n mod w + w" by auto
  have "n mod w \<le> n" using assms(2) w(1) by (intro zmod_le_nonneg_dividend)
  moreover have "n - n mod w + w \<le> N" using dvd_block_fits [OF w(1) a(1) w(2)] a(2) assms(3) by linarith
  ultimately show ?thesis using a assms(1) by (simp add: covers_def)
qed

lemma offered_le: "offered_width N w \<Longrightarrow> 0 < N \<Longrightarrow> w \<le> N"
  by (simp add: offered_width_def zdvd_imp_le)

lemma task_get_timetable_ok:
  assumes "task_table t s = Some d" and "0 \<le> l" and "l < 64" and "0 \<le> w" and "w \<le> 64"
  shows "task_get_timetable t l w s = Some (get_timetable d l w)"
  using assms by (simp add: task_get_timetable_def ptt_index_valid_def ptt_index_def)

lemma smod_nonneg: "0 < w \<Longrightarrow> int n smod w = int n mod w"
  by (cases "n = 0") (auto simp: signed_modulo_int_def sgn_if)

lemma set_place_sel [simp]:
  "leader (tasks (set_place t p s) t) = fst p" "width (tasks (set_place t p s) t) = snd p"
  "ptts (set_place t p s) = ptts s" "lay (set_place t p s) = lay s" "conf (set_place t p s) = conf s"
  by (simp_all add: set_place_def)

lemma upd_table_sel [simp]:
  "tasks (upd_table h d s) = tasks s" "lay (upd_table h d s) = lay s" "conf (upd_table h d s) = conf s"
  "pheap (ptts (upd_table h d s)) = (pheap (ptts s))(h \<mapsto> d)"
  by (simp_all add: upd_table_def)

lemma settled_count_choice: "settled_ok N d \<Longrightarrow> offered_width N w \<Longrightarrow> settled_ok N (count_choice w d)"
  by (auto simp: settled_ok_def count_choice_def Let_def)

text \<open>The thread itself, with width 1, is a local place whatever the mold flags say.\<close>

lemma local_places_default:
  assumes "default_partitions N L" and "2 \<le> N" and "N \<le> 64" and "n < nat N"
  shows "(int n, 1) \<in> set (local_places md (inclusive_partitions L ! n))"
    and "p \<in> set (local_places md (inclusive_partitions L ! n)) \<Longrightarrow>
      covers N (int n) p \<and> p \<in> set (inclusive_partitions L ! n) \<and> fst p < 64 \<and> 0 \<le> snd p \<and> snd p \<le> 64"
proof -
  have "offered_width N 1" using assms(2) by (simp add: offered_width_def)
  with default_partitions_iff(2) [OF assms(1,3,4), of "(int n, 1)"]
  show "(int n, 1) \<in> set (local_places md (inclusive_partitions L ! n))"
    by (simp add: local_places_def)
  assume "p \<in> set (local_places md (inclusive_partitions L ! n))"
  then have i: "p \<in> set (inclusive_partitions L ! n)" by (auto simp: local_places_def)
  with default_partitions_iff(2) [OF assms(1,3,4), of p]
  have p: "offered_width N (snd p)" "p = (int n - int n mod snd p, snd p)" by (auto simp: prod_eq_iff)
  have "int n < N" using assms(4) by linarith
  then have "covers N (int n) p" using aligned_covers [OF p(1), of "int n"] p(2) by simp
  with i offered_le [OF p(1)] assms(2,3) show
    "covers N (int n) p \<and> p \<in> set (inclusive_partitions L ! n) \<and> fst p < 64 \<and> 0 \<le> snd p \<and> snd p \<le> 64"
    by (auto simp: covers_def offered_width_def)
qed

section \<open>Properties\<close>

text \<open>C26.
  A critical task gets the best place there is. When the task's table can be read at every
  place of the layout, there is a place, and no cost reaches \<open>FLT_MAX\<close>, the global search
  returns: the first place without a measurement if there is one; otherwise the place of
  least cost (time, or time times width), the first of equal ones. Only widths above 0 are
  considered, and only width 1 when molding is off, globally or for the task.
\<close>

theorem global_search_cheapest:
  assumes "ps = all_places (cfg_mold (conf s) \<and> mold (tasks s t)) (ptt_layout (lay s))" and "ps \<noteq> []"
    and "\<forall>p\<in>set ps. task_get_timetable t (fst p) (snd p) s \<noteq> None"
    and "cost = place_cost rnd (minimize_parallel_cost (conf s)) (\<lambda>l w. task_get_timetable t l w s)"
    and "\<forall>p\<in>set ps. cost p < FLT_MAX"
  shows "\<exists>s' l w xs ys. global_search_ptt rnd t s = Some s' \<and> ps = xs @ (l, w) # ys
    \<and> leader (tasks s' t) = l \<and> width (tasks s' t) = w \<and> w \<in> set (ptt_layout (lay s) ! nat l) \<and> 0 < w
    \<and> (mold (tasks s t) \<and> cfg_mold (conf s) \<or> w = 1)
    \<and> (if \<exists>p\<in>set ps. task_get_timetable t (fst p) (snd p) s = Some 0
       then task_get_timetable t l w s = Some 0 \<and> (\<forall>p\<in>set xs. task_get_timetable t (fst p) (snd p) s \<noteq> Some 0)
       else (\<forall>p\<in>set xs. cost (l, w) < cost p) \<and> (\<forall>p\<in>set ys. cost (l, w) \<le> cost p))"
proof -
  let ?tab = "\<lambda>l w. task_get_timetable t l w s" and ?pc = "minimize_parallel_cost (conf s)"
  have r: "readable ?tab ps" using assms(3) by (simp add: readable_def)
  from search_best [OF r assms(2), of rnd ?pc "(-1, 1)"] assms(4,5) obtain q where
    q: "search_places rnd ?pc ?tab ps FLT_MAX (-1, 1) = Some q" "best_place rnd ?pc ?tab ps q" by auto
  obtain l w where lw: "q = (l, w)" by (cases q)
  have g: "global_search_ptt rnd t s = Some (set_place t (l, w) s)"
    using q(1) assms(1) lw by (simp add: global_search_ptt_def mold_task_def)
  have "(l, w) \<in> set ps" using best_place_member [OF q(2)] lw by simp
  then have m: "w \<in> set (ptt_layout (lay s) ! nat l)" "0 < w" "mold (tasks s t) \<and> cfg_mold (conf s) \<or> w = 1"
    unfolding assms(1) all_places_iff by auto
  from q(2) obtain xs ys where "ps = xs @ (l, w) # ys" and
    "if \<exists>p\<in>set ps. task_get_timetable t (fst p) (snd p) s = Some 0
     then task_get_timetable t l w s = Some 0 \<and> (\<forall>p\<in>set xs. task_get_timetable t (fst p) (snd p) s \<noteq> Some 0)
     else (\<forall>p\<in>set xs. cost (l, w) < cost p) \<and> (\<forall>p\<in>set ys. cost (l, w) \<le> cost p)"
    unfolding best_place_def lw assms(4) fst_conv snd_conv by blast
  then show ?thesis
    using g m by (intro exI [of _ "set_place t (l, w) s"] exI [of _ l] exI [of _ w] exI [of _ xs] exI [of _ ys])
      (simp only: set_place_sel fst_conv snd_conv simp_thms)
qed

text \<open>A runtime with one task and its table, for the examples.\<close>

definition one_table :: "(int \<times> int \<Rightarrow> real) \<Rightarrow> perf_data" where
  "one_table f = (new_perf_data ptt_table_size)\<lparr>pdata := map (\<lambda>i. f (int i mod 64, int i div 64)) [0..<ptt_table_size]\<rparr>"

definition two_tasks :: "layout \<Rightarrow> perf_data \<Rightarrow> rt" where
  "two_tasks L d =
     (let blank = tasks (snd (AssemblyTask 0 1 0 (init_rt (default_config 4) L blank_task))) 0;
          s = init_rt (default_config 4) L (blank\<lparr>ptt_handle := Some 0\<rparr>)
      in s\<lparr>next_task := 2, tasks := (tasks s)(1 := (tasks s 1)\<lparr>mold := False\<rparr>), ptts := (ptts s)\<lparr>pheap := [0 \<mapsto> d]\<rparr>\<rparr>)"

lemma get_one_table:
  "0 \<le> l \<Longrightarrow> l < 64 \<Longrightarrow> 0 \<le> w \<Longrightarrow> w \<le> 64 \<Longrightarrow> get_timetable (one_table f) l w = f (l, w)"
proof -
  assume a: "0 \<le> l" "l < 64" "0 \<le> w" "w \<le> 64"
  then have "nat (w * 64 + l) < 4160" by linarith
  moreover have "int (nat (w * 64 + l)) = w * 64 + l" using a by simp
  ultimately show ?thesis using a by (simp add: one_table_def get_timetable_def ptt_index_def)
qed

lemma two_tasks_sel [simp]:
  "lay (two_tasks L d) = L" "conf (two_tasks L d) = default_config 4"
  "ptt_handle (tasks (two_tasks L d) t) = Some 0" "pheap (ptts (two_tasks L d)) = [0 \<mapsto> d]"
  "mold (tasks (two_tasks L d) t) = (t \<noteq> 1)"
  by (simp_all add: two_tasks_def Let_def init_rt_def AssemblyTask_def PolyTask_def)

lemma two_tasks_get:
  "0 \<le> l \<Longrightarrow> l < 64 \<Longrightarrow> 0 \<le> w \<Longrightarrow> w \<le> 64 \<Longrightarrow> task_get_timetable t l w (two_tasks L d) = Some (get_timetable d l w)"
  by (rule task_get_timetable_ok) (simp_all add: task_table_def)

definition small_layout :: layout where
  "small_layout = init_layout\<lparr>ptt_layout := [[1], [1, 2], [1]],
     inclusive_partitions := [[(0, 1)], [(1, 1), (1, 2)], [(1, 2), (2, 1)]], xitao_nthreads := 3\<rparr>"

theorem global_search_cheapest_witness:
  "\<exists>s'. global_search_ptt (\<lambda>x. x) 0 (two_tasks small_layout (one_table (\<lambda>(l, w). real_of_int (8 - l)))) = Some s'
     \<and> leader (tasks s' 0) = 2 \<and> width (tasks s' 0) = 1"
proof -
  let ?s = "two_tasks small_layout (one_table (\<lambda>(l, w). real_of_int (8 - l)))"
  let ?c = "place_cost (\<lambda>x. x) True (\<lambda>l w. task_get_timetable 0 l w ?s)"
  have ps: "all_places (cfg_mold (conf ?s) \<and> mold (tasks ?s 0)) (ptt_layout (lay ?s)) = [(0, 1), (1, 1), (1, 2), (2, 1)]"
    by (simp add: all_places_def row_places_def small_layout_def default_config_def)
  have c: "?c (0, 1) = 8" "?c (1, 1) = 7" "?c (1, 2) = 14" "?c (2, 1) = 6"
    by (simp_all add: place_cost_def comp_perf_def two_tasks_get get_one_table)
  have big: "14 < FLT_MAX" by (simp add: FLT_MAX_def)
  have k: "minimize_parallel_cost (conf ?s) = True" by (simp add: default_config_def)
  have n: "\<forall>p\<in>{(0, 1), (1, 1), (1, 2), (2, 1)}. task_get_timetable 0 (fst p) (snd p) ?s \<noteq> None \<and>
      task_get_timetable 0 (fst p) (snd p) ?s \<noteq> Some 0"
    by (simp add: two_tasks_get get_one_table)
  from global_search_cheapest [of _ ?s 0, OF ps [symmetric] _ _ refl, of "\<lambda>x. x"] n c big k obtain s' l w xs ys where
    g: "global_search_ptt (\<lambda>x. x) 0 ?s = Some s'" "[(0, 1), (1, 1), (1, 2), (2, 1)] = xs @ (l, w) # ys"
    "leader (tasks s' 0) = l" "width (tasks s' 0) = w" "\<forall>p\<in>set xs. ?c (l, w) < ?c p" "\<forall>p\<in>set ys. ?c (l, w) \<le> ?c p"
    by (auto split: if_splits)
  have "(2, 1) \<in> set (xs @ (l, w) # ys)" "(l, w) \<in> {(0, 1), (1, 1), (1, 2), (2, 1)}"
    using g(2) [symmetric] by (simp, metis in_set_conv_decomp list.set(1) list.set(2))
  with g(5,6) c have "(l, w) = (2, 1)" by auto
  with g show ?thesis by auto
qed

lemma settled_place:
  assumes "settled_ok N d" and "10 \<le> cont_choices d" and "int n < N"
  shows "last_width d \<noteq> 0" and "covers N (int n) (int n - int n smod last_width d, last_width d)"
proof -
  have o: "offered_width N (last_width d)" using assms(1,2) by (simp add: settled_ok_def)
  then show "last_width d \<noteq> 0" by (simp add: offered_width_def)
  have "0 < last_width d" using o by (simp add: offered_width_def)
  with aligned_covers [OF o, of "int n"] assms(3)
  show "covers N (int n) (int n - int n smod last_width d, last_width d)" by (simp add: smod_nonneg)
qed

text \<open>A task type that is not settled.\<close>

lemma molds_unsettled:
  assumes "default_partitions N (lay s)" and "2 \<le> N" and "N \<le> 64" and "n < nat N"
    and "ptt_handle (tasks s t) = Some h" and "pheap (ptts s) h = Some d" and "settled_ok N d"
    and "refresh_frequency (conf s) \<noteq> 0" and False: "\<not> 10 \<le> cont_choices d"
    and costs: "\<forall>l w. 0 \<le> l \<and> l < 64 \<and> 0 < w \<and> w \<le> 64 \<longrightarrow>
           comp_perf rnd (minimize_parallel_cost (conf s)) w (get_timetable d l w) < FLT_MAX"
  shows "\<exists>s' d'. history_mold_locally rnd n r1 r2 t s = Some s' \<and> covers N (int n) (leader (tasks s' t), width (tasks s' t))
    \<and> pheap (ptts s') h = Some d' \<and> settled_ok N d'"
proof -
  let ?parts = "inclusive_partitions (lay s) ! n" and ?md = "mold_task t s" and ?pc = "minimize_parallel_cost (conf s)"
  let ?tab = "\<lambda>l w. task_get_timetable t l w s" and ?ps = "local_places (mold_task t s) (inclusive_partitions (lay s) ! n)"
  have n: "int n < N" "n < 64" using assms(3,4) by linarith+
  have len: "length (inclusive_partitions (lay s)) = 64" by (rule default_partitions_iff(1) [OF assms(1,3,4)])
  have self: "(int n, 1) \<in> set ?ps" by (rule local_places_default(1) [OF assms(1-4)])
  have local: "p \<in> set ?ps \<Longrightarrow> covers N (int n) p \<and> 0 \<le> fst p \<and> fst p < 64 \<and> 0 < snd p \<and> snd p \<le> 64" for p
    using local_places_default(2) [OF assms(1-4)] by (auto simp: covers_def offered_width_def)
  have tt: "task_table t s = Some d" using assms(5,6) by (simp add: task_table_def)
  have get: "p \<in> set ?ps \<Longrightarrow> ?tab (fst p) (snd p) = Some (get_timetable d (fst p) (snd p))" for p
    using local [of p] tt by (intro task_get_timetable_ok) (auto simp: covers_def)
  have "readable ?tab ?ps" using get by (simp add: readable_def)
  moreover have "?ps \<noteq> []" using self by auto
  moreover have "\<forall>p\<in>set ?ps. place_cost rnd ?pc ?tab p < FLT_MAX"
    using get costs local by (simp add: place_cost_def)
  ultimately obtain q where q: "search_places rnd ?pc ?tab ?ps FLT_MAX (-1, 1) = Some q" "best_place rnd ?pc ?tab ?ps q"
    using search_best by blast
  then have cq: "covers N (int n) q" using best_place_member local by blast
  then have "fst q \<noteq> -1" and "offered_width N (snd q)" by (auto simp: covers_def)
  with q(1) cq settled_count_choice [OF assms(7)]
  have search: "int r1 smod refresh_frequency (conf s) \<noteq> 0 \<Longrightarrow> ?thesis"
    using False assms(5,6,8) len n by (cases q) (simp add: history_mold_locally_def Let_def)
  have c1: "covers N (int n) (int n, 1)" using local [OF self] by simp
  have random: "\<exists>p. p = ?parts ! (r2 mod length ?parts) \<and> covers N (int n) p" if "?md" "?parts \<noteq> []"
  proof -
    have "?parts ! (r2 mod length ?parts) \<in> set ?ps" using that by (simp add: local_places_def)
    with local show ?thesis by blast
  qed
  have ne: "?parts \<noteq> []" using self by (auto simp: local_places_def)
  show ?thesis
  proof (cases "int r1 smod refresh_frequency (conf s) = 0")
    case True
    show ?thesis
    proof (cases ?md)
      case md: True
      from random [OF md ne] obtain p where "p = ?parts ! (r2 mod length ?parts)" "covers N (int n) p" by blast
      moreover from this have "fst p \<noteq> -1" by (auto simp: covers_def)
      ultimately show ?thesis
        using True md ne False assms(5-8) len n by (cases p) (auto simp: history_mold_locally_def Let_def)
    next
      case md: False
      then show ?thesis using True c1 False assms(5-8) len n by (auto simp: history_mold_locally_def Let_def)
    qed
  qed (rule search)
qed

text \<open>C27.
  A ready task is molded to a place of the thread that pops it. On the default layout of
  \<open>N\<close> threads (2 to 64), whatever the random numbers, the costs below \<open>FLT_MAX\<close> and
  the history of the task type: \<open>history_mold_locally\<close> returns and leaves the task with an
  offered width and an aligned leader such that the place lies inside the machine and
  contains the thread, with one exception. If \<open>refresh_frequency\<close> is 0, which the option \<open>-f 0\<close>
  sets, a task type that is not settled (fewer than ten equal choices in a row) divides by zero.
  The shortcut for settled types keeps to the rule because the widths it may repeat were
  offered ones, which every call preserves.
\<close>

theorem history_mold_default_layout:
  assumes "default_partitions N (lay s)" and "2 \<le> N" and "N \<le> 64" and "n < nat N"
    and "ptt_handle (tasks s t) = Some h" and "pheap (ptts s) h = Some d" and "settled_ok N d"
    and "\<forall>l w. 0 \<le> l \<and> l < 64 \<and> 0 < w \<and> w \<le> 64 \<longrightarrow>
           comp_perf rnd (minimize_parallel_cost (conf s)) w (get_timetable d l w) < FLT_MAX"
  shows "if refresh_frequency (conf s) = 0 \<and> cont_choices d < 10 then history_mold_locally rnd n r1 r2 t s = None
    else \<exists>s' d'. history_mold_locally rnd n r1 r2 t s = Some s' \<and> covers N (int n) (leader (tasks s' t), width (tasks s' t))
      \<and> pheap (ptts s') h = Some d' \<and> settled_ok N d'"
proof (cases "10 \<le> cont_choices d")
  case True
  have n: "int n < N" using assms(4) by linarith
  show ?thesis
    using settled_place [OF assms(7) True n] assms(5-7) True by (simp add: history_mold_locally_def)
next
  case zero: False
  show ?thesis
  proof (cases "refresh_frequency (conf s) = 0")
    case True
    then show ?thesis using zero assms(5,6) by (simp add: history_mold_locally_def)
  next
    case False
    with zero molds_unsettled [OF assms(1-7) _ _ assms(8)] show ?thesis by simp
  qed
qed

lemma default_partitions_exists: "N \<le> 64 \<Longrightarrow> \<exists>L. default_partitions N L"
proof -
  assume "N \<le> 64"
  then have "N \<le> int XITAO_MAXTHREADS" by (simp add: XITAO_MAXTHREADS_def)
  from default_layout_spec [OF this, of "clear_layout_partitions init_layout"]
  show ?thesis by (auto simp: default_partitions_def clear_layout_partitions_def init_layout_def)
qed

theorem history_mold_default_layout_witness:
  "\<exists>L s'. default_partitions 4 L
     \<and> history_mold_locally (\<lambda>x. x) 3 1 0 0 (two_tasks L (one_table (\<lambda>_. 1))) = Some s'
     \<and> covers 4 3 (leader (tasks s' 0), width (tasks s' 0))"
proof -
  obtain L where L: "default_partitions 4 L" using default_partitions_exists [of 4] by auto
  let ?d = "one_table (\<lambda>_. 1)" and ?s = "two_tasks L (one_table (\<lambda>_. 1))"
  have "comp_perf (\<lambda>x. x) b w (get_timetable ?d l w) < FLT_MAX" if "0 \<le> l" "l < 64" "0 < w" "w \<le> 64" for b l w
  proof -
    have "real_of_int w \<le> 64" using that by linarith
    moreover have "64 < FLT_MAX" by (simp add: FLT_MAX_def)
    ultimately show ?thesis using that by (simp add: comp_perf_def get_one_table)
  qed
  then have cost: "\<forall>l w. 0 \<le> l \<and> l < 64 \<and> 0 < w \<and> w \<le> 64 \<longrightarrow>
      comp_perf (\<lambda>x. x) (minimize_parallel_cost (conf ?s)) w (get_timetable ?d l w) < FLT_MAX" by blast
  have "settled_ok 4 ?d" by (simp add: settled_ok_def one_table_def new_perf_data_def)
  with history_mold_default_layout [OF _ _ _ _ _ _ _ cost, of 4 3 0 0 1 0] L show ?thesis
    by (auto simp: default_config_def)
qed

text \<open>On a layout read from a file the shortcut leaves the layout: after a task type has chosen
  the place (1, 2) eleven times on thread 1, a task popped by thread 2 of three threads is
  sent to threads 2 and 3 although the layout has no place (2, 2) and there is no thread 3,
  and a task that must not be molded, popped by thread 1, gets the width 2.
\<close>

fun mold_times :: "nat \<Rightarrow> tid \<Rightarrow> nat \<Rightarrow> rt \<Rightarrow> rt option" where
  "mold_times n t 0 s = Some s"
| "mold_times n t (Suc k) s = do { s' \<leftarrow> history_mold_locally (\<lambda>x. x) n 1 0 t s; mold_times n t k s' }"

definition wide_is_fast :: perf_data where
  "wide_is_fast = one_table (\<lambda>(l, w). if w = 1 then 3 else 1)"

definition chosen_wide :: "rt \<Rightarrow> int \<Rightarrow> int \<Rightarrow> bool" where
  "chosen_wide s lw c \<longleftrightarrow> lay s = small_layout \<and> conf s = default_config 4 \<and> (\<forall>t. ptt_handle (tasks s t) = Some 0)
     \<and> mold (tasks s 0) \<and> \<not> mold (tasks s 1) \<and> (\<exists>d. pheap (ptts s) 0 = Some d \<and> pdata d = pdata wide_is_fast
          \<and> last_width d = lw \<and> cont_choices d = c)"

lemma mold_once:
  assumes "chosen_wide s lw c" and "c < 10"
  shows "\<exists>s'. history_mold_locally (\<lambda>x. x) 1 1 0 0 s = Some s'
    \<and> chosen_wide s' 2 (if 0 \<le> lw then if lw = 2 then c + 1 else 0 else c)"
proof -
  from assms(1) obtain d where d: "pheap (ptts s) 0 = Some d" "pdata d = pdata wide_is_fast" "last_width d = lw"
    "cont_choices d = c" by (auto simp: chosen_wide_def)
  have tt: "task_table 0 s = Some d" using assms(1) d by (simp add: chosen_wide_def task_table_def)
  have g: "get_timetable d l w = (if w = 1 then 3 else 1)" if "0 \<le> l" "l < 64" "0 \<le> w" "w \<le> 64" for l w
    using get_one_table [OF that, of "\<lambda>(l, w). if w = 1 then 3 else 1"] d(2)
    by (simp add: get_timetable_def wide_is_fast_def)
  have tab: "task_get_timetable 0 1 1 s = Some 3" "task_get_timetable 0 1 2 s = Some 1"
    using task_get_timetable_ok [OF tt, of 1 1] task_get_timetable_ok [OF tt, of 1 2] g [of 1 1] g [of 1 2] by auto
  have big: "3 < FLT_MAX" by (simp add: FLT_MAX_def)
  have f: "minimize_parallel_cost (conf s)" "refresh_frequency (conf s) = 10" "mold_task 0 s"
    "length (inclusive_partitions (lay s)) = 3" "inclusive_partitions (lay s) ! 1 = [(1, 1), (1, 2)]"
    using assms(1) by (auto simp: chosen_wide_def default_config_def small_layout_def mold_task_def)
  have r: "int 1 smod 10 = 1" by (simp add: signed_modulo_int_def)
  have search: "search_places (\<lambda>x. x) True (\<lambda>l w. task_get_timetable 0 l w s) (local_places True [(1, 1), (1, 2)])
      FLT_MAX (-1, 1) = Some (1, 2)"
    using tab big by (simp add: local_places_def comp_perf_def)
  have "history_mold_locally (\<lambda>x. x) 1 1 0 0 s = Some (set_place 0 (1, 2) (upd_table 0 (count_choice 2 d) s))"
    using assms d(1,4) f r search by (simp add: history_mold_locally_def chosen_wide_def Let_def)
  moreover have "chosen_wide (set_place 0 (1, 2) (upd_table 0 (count_choice 2 d) s)) 2
      (if 0 \<le> lw then if lw = 2 then c + 1 else 0 else c)"
    using assms(1) d by (auto simp: chosen_wide_def set_place_def count_choice_def Let_def)
  ultimately show ?thesis by blast
qed

lemma mold_repeat:
  "chosen_wide s 2 c \<Longrightarrow> 0 \<le> c \<Longrightarrow> c + int k \<le> 10 \<Longrightarrow> \<exists>s'. mold_times 1 0 k s = Some s' \<and> chosen_wide s' 2 (c + int k)"
proof (induction k arbitrary: s c)
  case (Suc k)
  from mold_once [OF Suc.prems(1)] Suc.prems obtain s1 where
    "history_mold_locally (\<lambda>x. x) 1 1 0 0 s = Some s1" "chosen_wide s1 2 (c + 1)" by auto
  with Suc.IH [of s1 "c + 1"] Suc.prems show ?case by (auto simp: algebra_simps)
qed simp

theorem settled_width_ignores_layout:
  "\<exists>s s2 s1. mold_times 1 0 11 (two_tasks small_layout wide_is_fast) = Some s
     \<and> history_mold_locally (\<lambda>x. x) 2 1 0 0 s = Some s2 \<and> leader (tasks s2 0) = 2 \<and> width (tasks s2 0) = 2
     \<and> (2, 2) \<notin> set (concat (inclusive_partitions small_layout)) \<and> xitao_nthreads small_layout = 3
     \<and> history_mold_locally (\<lambda>x. x) 1 1 0 1 s = Some s1 \<and> \<not> mold (tasks s 1) \<and> width (tasks s1 1) = 2"
proof -
  let ?s = "two_tasks small_layout wide_is_fast"
  have "chosen_wide ?s (-1) 0"
    by (simp add: chosen_wide_def wide_is_fast_def one_table_def new_perf_data_def)
  from mold_once [OF this] obtain s1 where s1: "history_mold_locally (\<lambda>x. x) 1 1 0 0 ?s = Some s1" "chosen_wide s1 2 0"
    by auto
  from mold_repeat [OF s1(2), of 10] obtain s where s: "mold_times 1 0 10 s1 = Some s" "chosen_wide s 2 10" by auto
  have "mold_times 1 0 (Suc 10) ?s = Some s" by (simp only: mold_times.simps s1(1) s(1) bind.bind_lunit)
  moreover have "Suc 10 = 11" by simp
  ultimately have m: "mold_times 1 0 11 ?s = Some s" by (simp only:)
  have h: "history_mold_locally (\<lambda>x. x) n 1 0 t s = Some (set_place t (int n - int n mod 2, 2) s)" for n t
    using s(2) by (auto simp: history_mold_locally_def chosen_wide_def smod_nonneg)
  have "(2, 2) \<notin> set (concat (inclusive_partitions small_layout))" "xitao_nthreads small_layout = 3"
    by (simp_all add: small_layout_def)
  moreover have "\<not> mold (tasks s 1)" using s(2) by (simp add: chosen_wide_def)
  ultimately show ?thesis using m h [of 2 0] h [of 1 1] by (auto simp: set_place_def)
qed

text \<open>
  What is used of \<open>float\<close>: a result between \<open>2 ^ -126\<close> and \<open>2 ^ 127\<close> is rounded with a relative
  error of at most \<open>2 ^ -24\<close>, and integers up to \<open>2 ^ 24\<close> are exact. Nothing is said of underflow
  and overflow.
\<close>

definition float_rounding :: "(real \<Rightarrow> real) \<Rightarrow> bool" where
  "float_rounding rnd \<longleftrightarrow> (\<forall>v. 1 / 2 ^ 126 \<le> v \<and> v \<le> 2 ^ 127 \<longrightarrow> \<bar>rnd v - v\<bar> \<le> v / 2 ^ 24)
     \<and> (\<forall>k::int. 0 \<le> k \<and> k \<le> 2 ^ 24 \<longrightarrow> rnd (of_int k) = of_int k)"

definition feps :: real where "feps = 1 / 2 ^ 24"

lemma rounds_between:
  assumes "float_rounding rnd" and "1 / 2 ^ 126 \<le> v" and "v \<le> 2 ^ 127" and "0 \<le> a" and "a \<le> v" and "v \<le> b"
  shows "a * (1 - feps) \<le> rnd v \<and> rnd v \<le> b * (1 + feps)"
proof -
  have "\<bar>rnd v - v\<bar> \<le> v * feps" using assms(1-3) by (simp add: float_rounding_def feps_def)
  then have "v * (1 - feps) \<le> rnd v" "rnd v \<le> v * (1 + feps)" by (auto simp: algebra_simps abs_le_iff)
  moreover have "a * (1 - feps) \<le> v * (1 - feps)" "v * (1 + feps) \<le> b * (1 + feps)"
    using assms(5,6) by (auto intro!: mult_right_mono simp: feps_def)
  ultimately show ?thesis by linarith
qed

lemma averaged_bounds:
  assumes r: "float_rounding rnd" and oldt: "1 / 2 ^ 100 \<le> oldt" "oldt \<le> 2 ^ 100" and ticks: "1 / 2 ^ 100 \<le> ticks" "ticks \<le> 2 ^ 100"
    and weight: "0 \<le> weight" "weight < 2 ^ 24"
  shows "\<exists>v. averaged rnd weight oldt ticks = Some v
    \<and> min oldt ticks * (1 - feps) ^ 3 \<le> v \<and> v \<le> max oldt ticks * (1 + feps) ^ 3"
proof -
  define lo where "lo = min oldt ticks" define hi where "hi = max oldt ticks" define w where "w = real_of_int weight"
  have e: "0 < feps" "feps \<le> 1 / 2" "1 / 2 \<le> 1 - feps" "1 + feps \<le> 2" by (simp_all add: feps_def)
  have w: "0 \<le> w" "w + 1 \<le> 2 ^ 24" using weight by (auto simp: w_def)
  have small: "(1::real) / 2 ^ 126 \<le> 1 / 2 ^ 102" "(1::real) / 2 ^ 102 * 4 = 1 / 2 ^ 100" "(2::real) ^ 24 * 2 ^ 100 * 4 \<le> 2 ^ 127"
    "(0::real) < 1 / 2 ^ 102" "(2::real) ^ 100 * 4 \<le> 2 ^ 127" by simp_all
  have lo: "1 / 2 ^ 100 \<le> lo" "lo \<le> oldt" "lo \<le> ticks" and hi: "oldt \<le> hi" "ticks \<le> hi" "hi \<le> 2 ^ 100" "0 < lo" "0 < hi"
    using oldt ticks by (auto simp: lo_def hi_def min_def max_def intro: less_le_trans [of 0 "1 / 2 ^ 100"])
  have whi: "(w + 1) * hi * 4 \<le> 2 ^ 127"
  proof -
    have "(w + 1) * hi \<le> 2 ^ 24 * 2 ^ 100" using w hi by (intro mult_mono) auto
    then show ?thesis using small(3) by linarith
  qed
  define a where "a = rnd (w * oldt)"
  have wold: "w * lo \<le> w * oldt" "w * oldt \<le> w * hi" using w lo hi by (auto intro: mult_left_mono)
  have a: "w * lo * (1 - feps) \<le> a \<and> a \<le> w * hi * (1 + feps)"
  proof (cases "weight = 0")
    case True
    have "rnd (of_int 0) = of_int 0" using r by (auto simp: float_rounding_def)
    then show ?thesis using True by (simp add: a_def w_def)
  next
    case False
    then have "1 \<le> w" using weight by (simp add: w_def)
    then have "1 * oldt \<le> w * oldt" using oldt lo hi by (intro mult_right_mono) auto
    then have "1 / 2 ^ 126 \<le> w * oldt" using oldt small by linarith
    moreover have "w * hi \<le> (w + 1) * hi" using hi(5) by (simp add: algebra_simps)
    then have "w * oldt \<le> 2 ^ 127" using wold whi hi w mult_nonneg_nonneg [of "w + 1" hi] by linarith
    ultimately show ?thesis using rounds_between [OF r _ _ _ wold] w hi unfolding a_def by simp
  qed
  define b where "b = rnd (a + ticks)"
  have t: "lo * (1 - feps) \<le> ticks" "ticks \<le> hi * (1 + feps)"
    using lo hi e mult_left_mono [of "1 - feps" 1 lo] mult_left_mono [of 1 "1 + feps" hi] by linarith+
  have at: "(w + 1) * lo * (1 - feps) \<le> a + ticks" "a + ticks \<le> (w + 1) * hi * (1 + feps)"
    using a t by (auto simp: algebra_simps)
  have "0 \<le> w * lo * (1 - feps)" using w hi e by (intro mult_nonneg_nonneg) auto
  then have a0: "1 / 2 ^ 126 \<le> a + ticks" using a ticks small by linarith
  have top: "(w + 1) * hi * (1 + feps) \<le> (w + 1) * hi * 2" using w hi e by (intro mult_left_mono mult_nonneg_nonneg) auto
  have pos: "0 \<le> (w + 1) * hi" "0 \<le> (w + 1) * lo * (1 - feps)" using w hi e by (auto intro!: mult_nonneg_nonneg)
  have "a + ticks \<le> 2 ^ 127" using at(2) top whi pos by linarith
  from rounds_between [OF r a0 this pos(2) at] have b: "(w + 1) * (lo * (1 - feps) * (1 - feps)) \<le> b" "b \<le> (w + 1) * (hi * (1 + feps) * (1 + feps))"
    by (simp_all add: b_def mult.assoc)
  then have q: "lo * (1 - feps) * (1 - feps) \<le> b / (w + 1)" "b / (w + 1) \<le> hi * (1 + feps) * (1 + feps)"
    using w(1) by (simp_all add: pos_le_divide_eq pos_divide_le_eq mult.commute)
  have "lo * (1 / 2) * (1 / 2) \<le> lo * (1 - feps) * (1 - feps)" using hi(4) e by (intro mult_mono) auto
  then have "1 / 2 ^ 126 \<le> b / (w + 1)" using q(1) lo(1) small by linarith
  moreover have "hi * (1 + feps) * (1 + feps) \<le> hi * 2 * 2" using hi(5) e by (intro mult_mono) auto
  then have "b / (w + 1) \<le> 2 ^ 127" using q(2) hi(3) small(5) by linarith
  moreover have "0 \<le> lo * (1 - feps) * (1 - feps)" using hi(4) e by simp
  ultimately have c: "lo * (1 - feps) * (1 - feps) * (1 - feps) \<le> rnd (b / (w + 1))
      \<and> rnd (b / (w + 1)) \<le> hi * (1 + feps) * (1 + feps) * (1 + feps)"
    using rounds_between [OF r _ _ _ q] by simp
  have "rnd (of_int weight) = w" "rnd (of_int (weight + 1)) = w + 1"
    using r weight unfolding float_rounding_def w_def by (metis less_imp_le, smt (verit) of_int_add of_int_1)
  moreover have "weight + 1 < 2 ^ 31" using weight by simp
  ultimately have "averaged rnd weight oldt ticks = Some (rnd (b / (w + 1)))"
    using lo(2) hi(4) by (simp add: averaged_def a_def b_def)
  with c show ?thesis by (simp add: lo_def hi_def power3_eq_cube mult.assoc)
qed

text \<open>C28.
  Training. A measured time never makes a trained place untrained again: the new entry lies
  between the smaller and the larger of the old entry and the measurement, up to three
  roundings of \<open>float\<close>, so it stays positive. This holds for times between \<open>2 ^ -100\<close> and
  \<open>2 ^ 100\<close> seconds and a weight from 0 up to \<open>2 ^ 24\<close>, where no result underflows or overflows; a
  weight of \<open>2 ^ 31 - 1\<close> or more overflows \<open>old_tick_weight + 1\<close> in every update of a trained place.
  The first measurement is stored as it is, and the entries of other places do not change.
\<close>

theorem update_keeps_places_trained:
  assumes "task_table t s = Some d" and "length (pdata d) = ptt_table_size" and "0 \<le> l" and "l < 64" and "0 \<le> w" and "w \<le> 64"
    and "float_rounding rnd" and "0 \<le> old_tick_weight (conf s)"
    and "1 / 2 ^ 100 \<le> ticks" and "ticks \<le> 2 ^ 100"
    and "get_timetable d l w = 0 \<or> 1 / 2 ^ 100 \<le> get_timetable d l w \<and> get_timetable d l w \<le> 2 ^ 100"
  shows "(old_tick_weight (conf s) < 2 ^ 24 \<or> get_timetable d l w = 0 \<longrightarrow>
      (\<exists>s' d'. update_performance_model rnd t l ticks w s = Some s' \<and> task_table t s' = Some d'
        \<and> 0 < get_timetable d' l w
        \<and> (if get_timetable d l w = 0 then get_timetable d' l w = ticks
           else min (get_timetable d l w) ticks * (1 - 1 / 2 ^ 24) ^ 3 \<le> get_timetable d' l w
              \<and> get_timetable d' l w \<le> max (get_timetable d l w) ticks * (1 + 1 / 2 ^ 24) ^ 3)
        \<and> (\<forall>l' w'. 0 \<le> l' \<and> l' < 64 \<and> 0 \<le> w' \<and> w' \<le> 64 \<and> (l', w') \<noteq> (l, w) \<longrightarrow>
              get_timetable d' l' w' = get_timetable d l' w')))
    \<and> (2 ^ 31 - 1 \<le> old_tick_weight (conf s) \<and> get_timetable d l w \<noteq> 0 \<longrightarrow> update_performance_model rnd t l ticks w s = None)"
proof -
  let ?old = "get_timetable d l w" and ?wt = "old_tick_weight (conf s)"
  obtain h where h: "ptt_handle (tasks s t) = Some h" "pheap (ptts s) h = Some d"
    using assms(1) by (auto simp: task_table_def split: option.splits)
  have v: "0 \<le> k \<Longrightarrow> k < 64 \<Longrightarrow> 0 \<le> j \<Longrightarrow> j \<le> 64 \<Longrightarrow> ptt_index_valid k j" for k j
    by (simp add: ptt_index_valid_def ptt_index_def)
  have upd: "update_performance_model rnd t l ticks w s
      = map_option (\<lambda>x. upd_table h (set_timetable d l x w) s) (averaged rnd ?wt ?old ticks)"
    using task_get_timetable_ok [OF assms(1,3-6)] h v [OF assms(3-6)]
    by (cases "averaged rnd ?wt ?old ticks") (simp_all add: update_performance_model_def task_set_timetable_def)
  have tab: "task_table t (upd_table h (set_timetable d l x w) s) = Some (set_timetable d l x w)"
    "get_timetable (set_timetable d l x w) l w = x"
    "\<forall>l' w'. 0 \<le> l' \<and> l' < 64 \<and> 0 \<le> w' \<and> w' \<le> 64 \<and> (l', w') \<noteq> (l, w) \<longrightarrow>
       get_timetable (set_timetable d l x w) l' w' = get_timetable d l' w'" for x
    using h get_set_timetable [OF assms(2) v v, of l w _ _ x] ptt_index_inj [of l] assms
    by (simp add: task_table_def, simp, metis prod.inject)
  have avg: "\<exists>x. averaged rnd ?wt ?old ticks = Some x \<and> 0 < x \<and> (if ?old = 0 then x = ticks
      else min ?old ticks * (1 - 1 / 2 ^ 24) ^ 3 \<le> x \<and> x \<le> max ?old ticks * (1 + 1 / 2 ^ 24) ^ 3)"
    if small: "?wt < 2 ^ 24 \<or> ?old = 0"
  proof (cases "?old = 0")
    case True
    then show ?thesis using assms(9) by (auto simp: averaged_def intro: less_le_trans [of 0 "1 / 2 ^ 100"])
  next
    case False
    with assms(8-11) small averaged_bounds [OF assms(7), of ?old ticks ?wt] obtain x where
      x: "averaged rnd ?wt ?old ticks = Some x" "min ?old ticks * (1 - feps) ^ 3 \<le> x" "x \<le> max ?old ticks * (1 + feps) ^ 3" by auto
    have "0 < min ?old ticks" using assms(9,11) False by (auto intro: less_le_trans [of 0 "1 / 2 ^ 100"])
    then have "0 < min ?old ticks * (1 - feps) ^ 3" by (intro mult_pos_pos) (simp_all add: feps_def)
    with x False show ?thesis unfolding feps_def by (intro exI [of _ x]) simp
  qed
  show ?thesis
  proof (intro conjI impI)
    assume "?wt < 2 ^ 24 \<or> ?old = 0"
    from avg [OF this] obtain x where "averaged rnd ?wt ?old ticks = Some x" "0 < x" "if ?old = 0 then x = ticks
      else min ?old ticks * (1 - 1 / 2 ^ 24) ^ 3 \<le> x \<and> x \<le> max ?old ticks * (1 + 1 / 2 ^ 24) ^ 3" by blast
    then show "\<exists>s' d'. update_performance_model rnd t l ticks w s = Some s' \<and> task_table t s' = Some d'
        \<and> 0 < get_timetable d' l w
        \<and> (if ?old = 0 then get_timetable d' l w = ticks
           else min ?old ticks * (1 - 1 / 2 ^ 24) ^ 3 \<le> get_timetable d' l w
              \<and> get_timetable d' l w \<le> max ?old ticks * (1 + 1 / 2 ^ 24) ^ 3)
        \<and> (\<forall>l' w'. 0 \<le> l' \<and> l' < 64 \<and> 0 \<le> w' \<and> w' \<le> 64 \<and> (l', w') \<noteq> (l, w) \<longrightarrow>
              get_timetable d' l' w' = get_timetable d l' w')"
      using upd tab [of x]
      by (intro exI [of _ "upd_table h (set_timetable d l x w) s"] exI [of _ "set_timetable d l x w"]) (cases "?old = 0"; simp)
  next
    assume "2 ^ 31 - 1 \<le> ?wt \<and> ?old \<noteq> 0"
    then show "update_performance_model rnd t l ticks w s = None" by (simp add: upd averaged_def)
  qed
qed

text \<open>A rounding that is not exact: to the multiples of \<open>2 ^ -150\<close>.\<close>

definition grid_rounding :: "real \<Rightarrow> real" where
  "grid_rounding v = of_int \<lfloor>v * 2 ^ 150\<rfloor> / 2 ^ 150"

lemma grid_float_rounding: "float_rounding grid_rounding"
proof -
  have "\<bar>grid_rounding v - v\<bar> \<le> v / 2 ^ 24" if "1 / 2 ^ 126 \<le> v" for v
  proof -
    have "of_int \<lfloor>v * 2 ^ 150\<rfloor> \<le> v * 2 ^ 150" "v * 2 ^ 150 - 1 \<le> of_int \<lfloor>v * 2 ^ 150\<rfloor>" by linarith+
    then have "grid_rounding v \<le> v" "v - 1 / 2 ^ 150 \<le> grid_rounding v"
      unfolding grid_rounding_def by (simp_all add: field_simps)
    moreover have "1 / 2 ^ 150 \<le> v / 2 ^ 24" using divide_right_mono [OF that, of "2 ^ 24"] by simp
    ultimately show ?thesis by linarith
  qed
  moreover have "grid_rounding (of_int k) = of_int k" for k
  proof -
    have "of_int k * 2 ^ 150 = real_of_int (k * 2 ^ 150)" by simp
    then have "\<lfloor>of_int k * 2 ^ 150 :: real\<rfloor> = k * 2 ^ 150" by (simp only: floor_of_int)
    then show ?thesis by (simp add: grid_rounding_def)
  qed
  ultimately show ?thesis by (simp add: float_rounding_def)
qed

theorem update_keeps_places_trained_witness:
  "\<exists>s' d'. update_performance_model grid_rounding 0 2 5 1 (two_tasks small_layout (one_table (\<lambda>_. 10))) = Some s'
     \<and> task_table 0 s' = Some d' \<and> 4 \<le> get_timetable d' 2 1 \<and> get_timetable d' 2 1 \<le> 11"
proof -
  let ?s = "two_tasks small_layout (one_table (\<lambda>_. 10))"
  have t: "task_table 0 ?s = Some (one_table (\<lambda>_. 10))" by (simp add: task_table_def)
  have g: "get_timetable (one_table (\<lambda>_. 10)) 2 1 = 10" by (simp add: get_one_table)
  have len: "length (pdata (one_table (\<lambda>_. 10))) = ptt_table_size" by (simp add: one_table_def)
  have wt: "old_tick_weight (conf ?s) = 4" by (simp add: default_config_def)
  have e: "4 \<le> (5::real) * (1 - 1 / 2 ^ 24) ^ 3" "(10::real) * (1 + 1 / 2 ^ 24) ^ 3 \<le> 11" by (simp_all add: power3_eq_cube)
  from update_keeps_places_trained [OF t len _ _ _ _ grid_float_rounding, of 2 1 5] g wt obtain s' d' where
    "update_performance_model grid_rounding 0 2 5 1 ?s = Some s'" "task_table 0 s' = Some d'"
    "5 * (1 - 1 / 2 ^ 24) ^ 3 \<le> get_timetable d' 2 1" "get_timetable d' 2 1 \<le> 10 * (1 + 1 / 2 ^ 24) ^ 3" by auto
  with e show ?thesis by (intro exI conjI) (assumption, assumption, linarith+)
qed

end
