(* ===== verification/Queue_Manager.thy ===== *)
theory Queue_Manager
  imports Perf_Model
begin

text \<open>
  The queues of the runtime (\<open>include/queue_manager.h\<close>): the four operations on the ready
  queues and the assembly queues as functions on the workspace, and, for the insertion into
  several assembly queues, the locking protocol of concurrent inserters as a step relation.
\<close>

section \<open>The operations\<close>

text \<open>
  \<open>insert_task_in_assembly_queues\<close>: the first loop, over the \<open>k\<close> indices from \<open>i\<close>. The
  failing \<open>assert\<close> is \<open>None\<close>. The second loop releases the locks and changes no queue.
\<close>

fun push_assembly :: "tid \<Rightarrow> int \<Rightarrow> nat \<Rightarrow> rt \<Rightarrow> rt option" where
  "push_assembly t i 0 s = Some s"
| "push_assembly t i (Suc k) s =
     (if i < cfg_nthreads (conf s) \<and> 0 \<le> i
      then push_assembly t (i + 1) k (s\<lparr>assembly_q := (assembly_q s)(nat i := assembly_q s (nat i) @ [t])\<rparr>)
      else None)"

definition insert_task_in_assembly_queues :: "tid \<Rightarrow> rt \<Rightarrow> rt option" where
  "insert_task_in_assembly_queues t s = push_assembly t (leader (tasks s t)) (nat (width (tasks s t))) s"

definition insert_in_ready_queue :: "tid \<Rightarrow> nat \<Rightarrow> rt \<Rightarrow> rt" where
  "insert_in_ready_queue t n s = s\<lparr>ready_q := (ready_q s)(n := ready_q s n @ [t])\<rparr>"

definition try_pop_assembly_task :: "nat \<Rightarrow> rt \<Rightarrow> (tid \<times> rt) option" where
  "try_pop_assembly_task n s = (case assembly_q s n of [] \<Rightarrow> None
     | t # ts \<Rightarrow> Some (t, s\<lparr>assembly_q := (assembly_q s)(n := ts)\<rparr>))"

text \<open>
  \<open>try_pop_ready_task\<close> takes the youngest task of the queue and molds it for the thread
  that asked. The result \<open>None\<close> is undefined behaviour in the molding; \<open>Some (None, s)\<close> is
  the code's \<open>false\<close>.
\<close>

definition try_pop_ready_task ::
    "(real \<Rightarrow> real) \<Rightarrow> nat \<Rightarrow> nat \<Rightarrow> nat \<Rightarrow> nat \<Rightarrow> rt \<Rightarrow> (tid option \<times> rt) option" where
  "try_pop_ready_task rnd n requesting_thread r1 r2 s =
     (if ready_q s n = [] then Some (None, s)
      else let t = last (ready_q s n);
               s' = s\<lparr>ready_q := (ready_q s)(n := butlast (ready_q s n))\<rparr>
           in if use_performance_modeling (conf s)
              then map_option (\<lambda>s''. (Some t, s'')) (history_mold_locally rnd requesting_thread r1 r2 t s')
              else Some (Some t, s'))"

text \<open>What the insertion does when no assertion fails: one copy for each thread of the place.\<close>

lemma push_assembly_ok:
  "0 \<le> i \<Longrightarrow> i + int k \<le> cfg_nthreads (conf s) \<Longrightarrow>
   push_assembly t i k s = Some (s\<lparr>assembly_q := \<lambda>n. if i \<le> int n \<and> int n < i + int k
     then assembly_q s n @ [t] else assembly_q s n\<rparr>)"
proof (induction k arbitrary: i s)
  case 0
  have "(\<lambda>n. if i \<le> int n \<and> int n < i then assembly_q s n @ [t] else assembly_q s n) = assembly_q s" by auto
  then show ?case by simp
next
  case (Suc k)
  let ?s = "s\<lparr>assembly_q := (assembly_q s)(nat i := assembly_q s (nat i) @ [t])\<rparr>"
  have eq: "(\<lambda>n. if i + 1 \<le> int n \<and> int n < i + 1 + int k then assembly_q ?s n @ [t] else assembly_q ?s n)
      = (\<lambda>n. if i \<le> int n \<and> int n < i + int (Suc k) then assembly_q s n @ [t] else assembly_q s n)"
    using Suc.prems(1) by (auto simp: fun_eq_iff)
  have "push_assembly t (i + 1) k ?s = Some (?s\<lparr>assembly_q := \<lambda>n. if i + 1 \<le> int n \<and> int n < i + 1 + int k
     then assembly_q ?s n @ [t] else assembly_q ?s n\<rparr>)"
    using Suc.prems by (intro Suc.IH) auto
  with Suc.prems show ?case by (simp add: eq)
qed

lemma push_assembly_fails:
  "0 < k \<Longrightarrow> i < 0 \<or> cfg_nthreads (conf s) < i + int k \<Longrightarrow> push_assembly t i k s = None"
proof (induction k arbitrary: i s)
  case (Suc k)
  let ?s = "s\<lparr>assembly_q := (assembly_q s)(nat i := assembly_q s (nat i) @ [t])\<rparr>"
  show ?case
  proof (cases "i < cfg_nthreads (conf s) \<and> 0 \<le> i")
    case True
    with Suc.prems have "0 < k" "cfg_nthreads (conf ?s) < i + 1 + int k" by (auto intro: gr0I)
    from Suc.IH [of "i + 1" ?s, OF this(1) disjI2, OF this(2)] True show ?thesis by simp
  next
    case False
    then show ?thesis by (simp only: push_assembly.simps if_False)
  qed
qed simp

section \<open>Concurrent insertion\<close>

text \<open>
  Several threads insert tasks, each into the queues of the task's place, and each thread
  pops its own queue. \<open>qlock i\<close> is the owner of \<open>worker_assembly_lock[i]\<close>. Histories that
  are no part of the code: all that was pushed to and popped from each queue, the tasks in
  the order in which their insertions were completed (\<open>serial\<close>), and the tasks started.
\<close>

datatype qm_pc = QIdle | QAcquire tid int | QPush tid int | QRelease tid int

record qm =
  qlock :: "nat \<Rightarrow> nat option"
  queue :: "nat \<Rightarrow> tid list"
  qpc :: "nat \<Rightarrow> qm_pc"
  pushed :: "nat \<Rightarrow> tid list"
  popped :: "nat \<Rightarrow> tid list"
  serial :: "tid list"
  begun :: "tid list"
  failed :: bool

definition qm_init :: qm where
  "qm_init = \<lparr>qlock = (\<lambda>_. None), queue = (\<lambda>_. []), qpc = (\<lambda>_. QIdle), pushed = (\<lambda>_. []), popped = (\<lambda>_. []),
              serial = [], begun = [], failed = False\<rparr>"

text \<open>
  One rule per atomic action: the start of an insertion, the failing \<open>assert\<close>, taking a
  lock (a thread that finds it taken spins), the push, the change to the second loop, a
  release, the return, and the pop of the own queue by a thread outside an insertion.
\<close>

inductive qm_step :: "nat \<Rightarrow> (tid \<Rightarrow> place) \<Rightarrow> qm \<Rightarrow> qm \<Rightarrow> bool" for N :: nat and pl :: "tid \<Rightarrow> place" where
  qm_start: "n < N \<Longrightarrow> \<not> failed s \<Longrightarrow> qpc s n = QIdle \<Longrightarrow> t \<notin> set (begun s) \<Longrightarrow>
    qm_step N pl s (s\<lparr>qpc := (qpc s)(n := QAcquire t (fst (pl t))), begun := begun s @ [t]\<rparr>)"
| qm_assert: "n < N \<Longrightarrow> \<not> failed s \<Longrightarrow> qpc s n = QAcquire t i \<Longrightarrow> i < fst (pl t) + snd (pl t) \<Longrightarrow> \<not> (i < int N \<and> 0 \<le> i) \<Longrightarrow>
    qm_step N pl s (s\<lparr>failed := True\<rparr>)"
| qm_lock: "n < N \<Longrightarrow> \<not> failed s \<Longrightarrow> qpc s n = QAcquire t i \<Longrightarrow> i < fst (pl t) + snd (pl t) \<Longrightarrow> i < int N \<Longrightarrow> 0 \<le> i \<Longrightarrow>
    qlock s (nat i) = None \<Longrightarrow>
    qm_step N pl s (s\<lparr>qlock := (qlock s)(nat i := Some n), qpc := (qpc s)(n := QPush t i)\<rparr>)"
| qm_push: "n < N \<Longrightarrow> \<not> failed s \<Longrightarrow> qpc s n = QPush t i \<Longrightarrow>
    qm_step N pl s (s\<lparr>queue := (queue s)(nat i := queue s (nat i) @ [t]),
      pushed := (pushed s)(nat i := pushed s (nat i) @ [t]), qpc := (qpc s)(n := QAcquire t (i + 1))\<rparr>)"
| qm_turn: "n < N \<Longrightarrow> \<not> failed s \<Longrightarrow> qpc s n = QAcquire t i \<Longrightarrow> fst (pl t) + snd (pl t) \<le> i \<Longrightarrow>
    qm_step N pl s (s\<lparr>qpc := (qpc s)(n := QRelease t (fst (pl t))), serial := serial s @ [t]\<rparr>)"
| qm_release: "n < N \<Longrightarrow> \<not> failed s \<Longrightarrow> qpc s n = QRelease t i \<Longrightarrow> i < fst (pl t) + snd (pl t) \<Longrightarrow>
    qm_step N pl s (s\<lparr>qlock := (qlock s)(nat i := None), qpc := (qpc s)(n := QRelease t (i + 1))\<rparr>)"
| qm_return: "n < N \<Longrightarrow> \<not> failed s \<Longrightarrow> qpc s n = QRelease t i \<Longrightarrow> fst (pl t) + snd (pl t) \<le> i \<Longrightarrow>
    qm_step N pl s (s\<lparr>qpc := (qpc s)(n := QIdle)\<rparr>)"
| qm_pop: "n < N \<Longrightarrow> \<not> failed s \<Longrightarrow> qpc s n = QIdle \<Longrightarrow> queue s n = t # ts \<Longrightarrow>
    qm_step N pl s (s\<lparr>queue := (queue s)(n := ts), popped := (popped s)(n := popped s n @ [t])\<rparr>)"

inductive_cases qm_stepE: "qm_step N pl s s'"

definition in_place :: "place \<Rightarrow> nat \<Rightarrow> bool" where
  "in_place p i \<longleftrightarrow> fst p \<le> int i \<and> int i < fst p + snd p"

text \<open>
  The locks a thread holds and the queues it has pushed its task to, by its position. In
  the first loop it has done the queues below \<open>i\<close>; in the second all of them.
\<close>

fun holds :: "(tid \<Rightarrow> place) \<Rightarrow> qm_pc \<Rightarrow> nat \<Rightarrow> bool" where
  "holds pl QIdle j \<longleftrightarrow> False"
| "holds pl (QAcquire t i) j \<longleftrightarrow> in_place (pl t) j \<and> int j < i"
| "holds pl (QPush t i) j \<longleftrightarrow> in_place (pl t) j \<and> int j \<le> i"
| "holds pl (QRelease t i) j \<longleftrightarrow> in_place (pl t) j \<and> i \<le> int j"

fun in_progress :: "(tid \<Rightarrow> place) \<Rightarrow> qm_pc \<Rightarrow> nat \<Rightarrow> tid list" where
  "in_progress pl (QAcquire t i) j = (if in_place (pl t) j \<and> int j < i then [t] else [])"
| "in_progress pl (QPush t i) j = (if in_place (pl t) j \<and> int j < i then [t] else [])"
| "in_progress pl _ j = []"

fun qm_pc_ok :: "nat \<Rightarrow> (tid \<Rightarrow> place) \<Rightarrow> qm_pc \<Rightarrow> bool" where
  "qm_pc_ok N pl (QAcquire t i) \<longleftrightarrow> fst (pl t) \<le> i \<and> (i = fst (pl t) \<or> 0 \<le> fst (pl t) \<and> i \<le> int N)
     \<and> (i = fst (pl t) \<or> i \<le> fst (pl t) + snd (pl t))"
| "qm_pc_ok N pl (QPush t i) \<longleftrightarrow> fst (pl t) \<le> i \<and> 0 \<le> fst (pl t) \<and> i < int N \<and> i < fst (pl t) + snd (pl t)"
| "qm_pc_ok N pl (QRelease t i) \<longleftrightarrow> fst (pl t) \<le> i \<and> (0 < snd (pl t) \<longrightarrow> 0 \<le> fst (pl t) \<and> fst (pl t) + snd (pl t) \<le> int N)"
| "qm_pc_ok N pl _ \<longleftrightarrow> True"

text \<open>
  The invariant: the owner of a lock is the thread that holds it by its position, and the
  history of a queue is the serial order restricted to the tasks of that queue, followed by
  the task of the lock's owner if that has already been pushed but not yet completed.
\<close>

definition current :: "(tid \<Rightarrow> place) \<Rightarrow> qm \<Rightarrow> nat \<Rightarrow> tid list" where
  "current pl s j = (case qlock s j of None \<Rightarrow> [] | Some n \<Rightarrow> in_progress pl (qpc s n) j)"

definition qm_inv :: "nat \<Rightarrow> (tid \<Rightarrow> place) \<Rightarrow> qm \<Rightarrow> bool" where
  "qm_inv N pl s \<longleftrightarrow>
     (\<forall>n<N. qm_pc_ok N pl (qpc s n))
   \<and> (\<forall>j n. qlock s j = Some n \<longleftrightarrow> n < N \<and> holds pl (qpc s n) j)
   \<and> (\<forall>j. pushed s j = filter (\<lambda>t. in_place (pl t) j) (serial s) @ current pl s j)
   \<and> (\<forall>j. pushed s j = popped s j @ queue s j)"

lemma qm_inv_init: "qm_inv N pl qm_init"
  by (simp add: qm_inv_def qm_init_def current_def)

lemma current_eq:
  assumes "qlock s' j = qlock s j" and "\<And>n. qpc s' n = qpc s n"
  shows "current pl s' j = current pl s j"
  using assms by (auto simp: current_def split: option.splits)

lemma holds_start [simp]: "holds pl (QAcquire t (fst (pl t))) j = False" "in_progress pl (QAcquire t (fst (pl t))) j = []"
  by (auto simp: in_place_def)

text \<open>
  How a step of thread \<open>n\<close> keeps the invariant: what is to show for the thread's new
  position, its locks, and the queue whose lock it owns.
\<close>

lemma qm_inv_thread:
  assumes inv: "qm_inv N pl s" and n: "n < N" and pc: "qpc s' = (qpc s)(n := p)" and ok: "qm_pc_ok N pl p"
    and free: "\<And>j. \<not> holds pl (qpc s n) j \<Longrightarrow> holds pl p j \<Longrightarrow> qlock s j = None"
    and locks: "\<And>j. qlock s' j = (if holds pl p j then Some n else if holds pl (qpc s n) j then None else qlock s j)"
    and hist: "\<And>j. pushed s' j = filter (\<lambda>t. in_place (pl t) j) (serial s') @ (if holds pl p j then in_progress pl p j
       else if holds pl (qpc s n) j then [] else current pl s j)"
    and fifo: "\<And>j. pushed s' j = popped s' j @ queue s' j"
  shows "qm_inv N pl s'"
proof -
  have own: "qlock s j = Some m \<longleftrightarrow> m < N \<and> holds pl (qpc s m) j" for j m using inv by (simp add: qm_inv_def)
  have "qlock s' j = Some m \<longleftrightarrow> m < N \<and> holds pl (qpc s' m) j" for j m
  proof (cases "m = n")
    case True
    then show ?thesis using locks [of j] pc n own [of j n] by auto
  next
    case False
    then show ?thesis using locks [of j] pc n own [of j n] own [of j m] free [of j] by auto
  qed
  moreover have "current pl s' j = (if holds pl p j then in_progress pl p j
       else if holds pl (qpc s n) j then [] else current pl s j)" for j
    using locks [of j] pc own [of j n] n by (auto simp: current_def split: option.splits)
  ultimately show ?thesis using inv pc ok hist fifo by (auto simp: qm_inv_def)
qed

lemma current_own: "qm_inv N pl s \<Longrightarrow> n < N \<Longrightarrow> holds pl (qpc s n) j \<Longrightarrow> current pl s j = in_progress pl (qpc s n) j"
proof -
  assume "qm_inv N pl s" and "n < N" and "holds pl (qpc s n) j"
  then have "qlock s j = Some n" by (simp add: qm_inv_def)
  then show ?thesis by (simp add: current_def)
qed

lemma current_free: "qlock s j = None \<Longrightarrow> current pl s j = []"
  by (simp add: current_def)

lemma qm_inv_step:
  assumes "qm_step N pl s s'" and inv: "qm_inv N pl s"
  shows "qm_inv N pl s'"
proof -
  have hist: "pushed s j = filter (\<lambda>t. in_place (pl t) j) (serial s) @ current pl s j"
    and fifo: "pushed s j = popped s j @ queue s j"
    and own: "qlock s j = Some m \<longleftrightarrow> m < N \<and> holds pl (qpc s m) j" for j m
    using inv by (auto simp: qm_inv_def)
  from assms(1) show ?thesis
  proof cases
    case (qm_start n t)
    show ?thesis by (rule qm_inv_thread [OF inv, of n _ "QAcquire t (fst (pl t))"])
      (use qm_start hist fifo in \<open>auto simp: in_place_def\<close>)
  next
    case (qm_assert n t i)
    moreover from this have "current pl s' j = current pl s j" for j by (intro current_eq) auto
    ultimately show ?thesis using inv by (auto simp: qm_inv_def)
  next
    case (qm_lock n t i)
    have ok: "qm_pc_ok N pl (QAcquire t i)" using inv qm_lock by (metis qm_inv_def)
    have same: "holds pl (QPush t i) j \<longleftrightarrow> holds pl (QAcquire t i) j \<or> j = nat i" for j
      using qm_lock ok by (auto simp: in_place_def)
    show ?thesis
    proof (rule qm_inv_thread [OF inv, of n _ "QPush t i"])
      fix j
      show "pushed s' j = filter (\<lambda>t. in_place (pl t) j) (serial s') @ (if holds pl (QPush t i) j then in_progress pl (QPush t i) j
          else if holds pl (qpc s n) j then [] else current pl s j)"
        using qm_lock hist [of j] current_own [OF inv, of n j] current_free [of s j pl] same [of j] by auto
      show "qlock s j = None" if "\<not> holds pl (qpc s n) j" "holds pl (QPush t i) j"
      proof -
        have "j = nat i" using same [of j] that qm_lock by simp
        then show ?thesis using qm_lock by simp
      qed
    qed (use qm_lock ok fifo own same in auto)
  next
    case (qm_push n t i)
    have ok: "qm_pc_ok N pl (QPush t i)" using inv qm_push by (metis qm_inv_def)
    have same: "holds pl (QAcquire t (i + 1)) j \<longleftrightarrow> holds pl (QPush t i) j" for j by auto
    have at: "holds pl (QPush t i) (nat i)" "0 \<le> i" using ok by (auto simp: in_place_def)
    have prog: "in_progress pl (QAcquire t (i + 1)) j = in_progress pl (QPush t i) j @ (if j = nat i then [t] else [])"
      if "holds pl (QPush t i) j" for j using that at by auto
    show ?thesis
    proof (rule qm_inv_thread [OF inv, of n _ "QAcquire t (i + 1)"])
      fix j
      show "pushed s' j = filter (\<lambda>t. in_place (pl t) j) (serial s') @ (if holds pl (QAcquire t (i + 1)) j
          then in_progress pl (QAcquire t (i + 1)) j else if holds pl (qpc s n) j then [] else current pl s j)"
      proof (cases "j = nat i")
        case True
        have i: "int j = i" "in_place (pl t) j" using True at by auto
        have "holds pl (qpc s n) j" using qm_push(4) True at(1) by simp
        then have "current pl s j = []" using current_own [OF inv \<open>n < N\<close>] qm_push(4) i by simp
        with i True show ?thesis using qm_push hist [of j] by simp
      next
        case False
        then show ?thesis
          using qm_push hist [of j] current_own [OF inv, of n j] same [of j] prog [of j] by auto
      qed
    qed (use qm_push ok fifo own same in auto)
  next
    case (qm_turn n t i)
    have ok: "qm_pc_ok N pl (QAcquire t i)" using inv qm_turn by (metis qm_inv_def)
    have same: "holds pl (QRelease t (fst (pl t))) j \<longleftrightarrow> in_place (pl t) j"
      "holds pl (QAcquire t i) j \<longleftrightarrow> in_place (pl t) j" for j
      using qm_turn by (auto simp: in_place_def)
    show ?thesis
    proof (rule qm_inv_thread [OF inv, of n _ "QRelease t (fst (pl t))"])
      fix j
      show "pushed s' j = filter (\<lambda>t. in_place (pl t) j) (serial s') @ (if holds pl (QRelease t (fst (pl t))) j
          then in_progress pl (QRelease t (fst (pl t))) j else if holds pl (qpc s n) j then [] else current pl s j)"
        using qm_turn hist [of j] current_own [OF inv, of n j] same [of j] by auto
      show "qlock s j = None" if "\<not> holds pl (qpc s n) j" "holds pl (QRelease t (fst (pl t))) j"
        using that same [of j] qm_turn(4) by simp
      show "qlock s' j = (if holds pl (QRelease t (fst (pl t))) j then Some n else if holds pl (qpc s n) j then None else qlock s j)"
        using qm_turn own [of j n] same [of j] by (simp del: holds.simps)
      show "pushed s' j = popped s' j @ queue s' j" using qm_turn fifo [of j] by simp
      show "qm_pc_ok N pl (QRelease t (fst (pl t)))" using ok qm_turn(5) by auto
    qed (use qm_turn in auto)
  next
    case (qm_release n t i)
    have ok: "qm_pc_ok N pl (QRelease t i)" using inv qm_release by (metis qm_inv_def)
    have same: "holds pl (QRelease t i) j \<longleftrightarrow> holds pl (QRelease t (i + 1)) j \<or> j = nat i" for j
      using qm_release ok by (auto simp: in_place_def)
    have no: "\<not> holds pl (QRelease t (i + 1)) (nat i)" using ok qm_release by auto
    show ?thesis
    proof (rule qm_inv_thread [OF inv, of n _ "QRelease t (i + 1)"])
      fix j
      show "pushed s' j = filter (\<lambda>t. in_place (pl t) j) (serial s') @ (if holds pl (QRelease t (i + 1)) j
          then in_progress pl (QRelease t (i + 1)) j else if holds pl (qpc s n) j then [] else current pl s j)"
        using qm_release hist [of j] current_own [OF inv, of n j] same [of j] by auto
      show "qlock s' j = (if holds pl (QRelease t (i + 1)) j then Some n else if holds pl (qpc s n) j then None else qlock s j)"
        using qm_release same [of j] no own [of j n] by auto
    qed (use qm_release ok fifo same in auto)
  next
    case (qm_return n t i)
    have "holds pl (QRelease t i) j = False" for j using qm_return by (auto simp: in_place_def)
    then show ?thesis by (intro qm_inv_thread [OF inv, of n _ QIdle]) (use qm_return hist fifo in auto)
  next
    case (qm_pop n t ts)
    then have same: "current pl s' j = current pl s j" "pushed s' j = pushed s j" "serial s' = serial s" for j
      by (auto intro: current_eq)
    have "pushed s' j = popped s' j @ queue s' j" for j
      using fifo [of j] qm_pop by (cases "j = n") auto
    with inv same qm_pop show ?thesis by (auto simp: qm_inv_def)
  qed
qed

lemma qm_inv_reachable: "(qm_step N pl)\<^sup>*\<^sup>* qm_init s \<Longrightarrow> qm_inv N pl s"
  by (induction rule: rtranclp_induct) (auto intro: qm_inv_init qm_inv_step)

section \<open>One order for all queues\<close>

text \<open>Each task is inserted once; a task in the first loop is not yet in \<open>serial\<close>.\<close>

fun inserting :: "qm_pc \<Rightarrow> tid option" where
  "inserting (QAcquire t i) = Some t"
| "inserting (QPush t i) = Some t"
| "inserting _ = None"

definition once_inv :: "nat \<Rightarrow> qm \<Rightarrow> bool" where
  "once_inv N s \<longleftrightarrow> distinct (serial s) \<and> set (serial s) \<subseteq> set (begun s)
     \<and> (\<forall>n<N. \<forall>t. inserting (qpc s n) = Some t \<longrightarrow> t \<in> set (begun s) \<and> t \<notin> set (serial s))
     \<and> (\<forall>n<N. \<forall>m<N. \<forall>t. inserting (qpc s n) = Some t \<and> inserting (qpc s m) = Some t \<longrightarrow> n = m)"

lemma once_inv_pc:
  assumes "once_inv N s" and "qpc s' = (qpc s)(n := p)" and "inserting p = None \<or> inserting p = inserting (qpc s n)"
    and "serial s' = serial s" and "begun s' = begun s" and "n < N"
  shows "once_inv N s'"
proof -
  have "inserting (qpc s' k) = Some t \<Longrightarrow> inserting (qpc s k) = Some t" for k t
    using assms(2,3) by (auto split: if_splits)
  with assms(1,4,5) show ?thesis unfolding once_inv_def by metis
qed

lemma once_inv_step: "qm_step N pl s s' \<Longrightarrow> once_inv N s \<Longrightarrow> once_inv N s'"
proof (induction rule: qm_step.induct)
  case (qm_start n s t)
  then show ?case unfolding once_inv_def by auto
next
  case (qm_turn n s t i)
  then have "inserting (qpc s n) = Some t" by simp
  with qm_turn show ?case unfolding once_inv_def by auto
next
  case (qm_assert n s t i)
  then show ?case by (simp add: once_inv_def)
next
  case (qm_pop n s t ts)
  then show ?case by (simp add: once_inv_def)
qed (auto intro: once_inv_pc)

lemma once_inv_reachable: "(qm_step N pl)\<^sup>*\<^sup>* qm_init s \<Longrightarrow> once_inv N s"
proof (induction rule: rtranclp_induct)
  case base
  then show ?case by (simp add: once_inv_def qm_init_def)
qed (auto intro: once_inv_step)

lemma in_progress_inserting: "t \<in> set (in_progress pl p j) \<Longrightarrow> inserting p = Some t \<and> in_progress pl p j = [t]"
  by (cases p) (auto split: if_splits)

lemma current_cases:
  assumes "qm_inv N pl s" and "once_inv N s"
  shows "current pl s j = [] \<or> (\<exists>t. current pl s j = [t] \<and> t \<notin> set (serial s))"
proof (cases "qlock s j")
  case (Some n)
  then have n: "n < N" using assms(1) by (simp add: qm_inv_def)
  show ?thesis
  proof (cases "in_progress pl (qpc s n) j")
    case (Cons t ts)
    then have "inserting (qpc s n) = Some t" "in_progress pl (qpc s n) j = [t]"
      using in_progress_inserting [of t pl "qpc s n" j] by auto
    with Some n assms(2) show ?thesis by (auto simp: current_def once_inv_def)
  qed (use Some in \<open>simp add: current_def\<close>)
qed (simp add: current_def)

definition precedes :: "'a \<Rightarrow> 'a \<Rightarrow> 'a list \<Rightarrow> bool" where
  "precedes x y xs \<longleftrightarrow> (\<exists>as bs. xs = as @ bs \<and> x \<in> set as \<and> y \<in> set bs)"

lemma precedes_filter: "precedes x y xs \<Longrightarrow> P x \<Longrightarrow> P y \<Longrightarrow> precedes x y (filter P xs)"
  unfolding precedes_def by (metis (mono_tags, lifting) filter_append filter_set mem_Collect_eq set_filter)

lemma precedes_unfilter: "precedes x y (filter P xs) \<Longrightarrow> precedes x y xs"
proof (induction xs)
  case (Cons a xs)
  show ?case
  proof (cases "P a")
    case True
    then obtain as bs where ab: "a # filter P xs = as @ bs" "x \<in> set as" "y \<in> set bs"
      using Cons.prems by (auto simp: precedes_def)
    then obtain as' where as: "as = a # as'" "filter P xs = as' @ bs" by (cases as) auto
    show ?thesis
    proof (cases "x \<in> set as'")
      case True
      then have "precedes x y xs" using Cons.IH as(2) ab(3) by (auto simp: precedes_def)
      then show ?thesis unfolding precedes_def by (metis append_Cons list.set_intros(2))
    next
      case False
      then have "x = a" using ab(2) as(1) by simp
      moreover have "y \<in> set xs" using as(2) ab(3) by (metis Un_iff filter_is_subset set_append subsetD)
      ultimately show ?thesis unfolding precedes_def by (intro exI [of _ "[a]"] exI [of _ xs]) simp
    qed
  next
    case False
    then have "precedes x y xs" using Cons by simp
    then show ?thesis unfolding precedes_def by (metis append_Cons list.set_intros(2))
  qed
qed (simp add: precedes_def)

lemma precedes_append: "precedes x y (xs @ ys) \<Longrightarrow> y \<notin> set ys \<Longrightarrow> precedes x y xs"
proof -
  assume "precedes x y (xs @ ys)" and y: "y \<notin> set ys"
  then obtain as bs where ab: "xs @ ys = as @ bs" "x \<in> set as" "y \<in> set bs" by (auto simp: precedes_def)
  then obtain us where "xs = as @ us \<and> us @ ys = bs \<or> xs @ us = as \<and> ys = us @ bs"
    by (auto simp: append_eq_append_conv2)
  then show ?thesis
  proof
    assume "xs = as @ us \<and> us @ ys = bs"
    moreover from this ab y have "y \<in> set us" by auto
    ultimately show ?thesis using ab(2) unfolding precedes_def by blast
  next
    assume "xs @ us = as \<and> ys = us @ bs"
    with ab(3) y show ?thesis by auto
  qed
qed

text \<open>C17.
  Concurrent insertions are serialised. However the inserting threads interleave, there is
  one order of tasks that all assembly queues follow: if a task was pushed to one queue
  before another, it was pushed before it in every queue that got both; what has been
  popped is a prefix of what was pushed. So threads that share two assemblies run them in
  the same order.
\<close>

theorem assembly_queues_one_order:
  assumes "(qm_step N pl)\<^sup>*\<^sup>* qm_init s" and "precedes x y (pushed s i)" and "x \<in> set (pushed s j)" and "y \<in> set (pushed s j)"
    and "x \<noteq> y"
  shows "precedes x y (pushed s j) \<and> pushed s j = popped s j @ queue s j"
proof -
  note inv = qm_inv_reachable [OF assms(1)] and once = once_inv_reachable [OF assms(1)]
  have h: "pushed s k = filter (\<lambda>t. in_place (pl t) k) (serial s) @ current pl s k" for k
    using inv by (simp add: qm_inv_def)
  note ci = current_cases [OF inv once, of i] and cj = current_cases [OF inv once, of j]
  have "precedes x y (pushed s j)"
  proof (cases "y \<in> set (serial s)")
    case False
    then have "current pl s j = [y]" and "x \<in> set (filter (\<lambda>t. in_place (pl t) j) (serial s))"
      using cj assms(3-5) h [of j] by auto
    then show ?thesis unfolding h [of j] precedes_def by (metis list.set_intros(1))
  next
    case True
    then have "y \<notin> set (current pl s i)" using ci by auto
    then have "precedes x y (filter (\<lambda>t. in_place (pl t) i) (serial s))"
      using assms(2) h [of i] precedes_append by metis
    then have p: "precedes x y (serial s)" by (rule precedes_unfilter)
    then have "x \<in> set (serial s)" by (auto simp: precedes_def)
    then have "in_place (pl x) j" "in_place (pl y) j" using True cj assms(3,4) h [of j] by auto
    from precedes_filter [OF p, of "\<lambda>t. in_place (pl t) j", OF this]
    show ?thesis unfolding h [of j] precedes_def by (metis append.assoc in_set_conv_decomp set_append UnI1)
  qed
  moreover have "pushed s j = popped s j @ queue s j" using inv unfolding qm_inv_def by blast
  ultimately show ?thesis by blast
qed

text \<open>
  An executable scheduler for examples: \<open>(n, t)\<close> lets thread \<open>n\<close> take its next step,
  starting the insertion of \<open>t\<close> when it is idle.
\<close>

definition qm_next :: "nat \<Rightarrow> (tid \<Rightarrow> place) \<Rightarrow> nat \<times> tid \<Rightarrow> qm \<Rightarrow> qm option" where
  "qm_next N pl nt s = (case nt of (n, t) \<Rightarrow>
     if N \<le> n \<or> failed s then None
     else case qpc s n of
       QIdle \<Rightarrow> if t \<in> set (begun s) then None
                else Some (s\<lparr>qpc := (qpc s)(n := QAcquire t (fst (pl t))), begun := begun s @ [t]\<rparr>)
     | QAcquire u i \<Rightarrow>
         if fst (pl u) + snd (pl u) \<le> i
         then Some (s\<lparr>qpc := (qpc s)(n := QRelease u (fst (pl u))), serial := serial s @ [u]\<rparr>)
         else if \<not> (i < int N \<and> 0 \<le> i) then Some (s\<lparr>failed := True\<rparr>)
         else if qlock s (nat i) = None
         then Some (s\<lparr>qlock := (qlock s)(nat i := Some n), qpc := (qpc s)(n := QPush u i)\<rparr>)
         else None
     | QPush u i \<Rightarrow> Some (s\<lparr>queue := (queue s)(nat i := queue s (nat i) @ [u]),
         pushed := (pushed s)(nat i := pushed s (nat i) @ [u]), qpc := (qpc s)(n := QAcquire u (i + 1))\<rparr>)
     | QRelease u i \<Rightarrow>
         if i < fst (pl u) + snd (pl u)
         then Some (s\<lparr>qlock := (qlock s)(nat i := None), qpc := (qpc s)(n := QRelease u (i + 1))\<rparr>)
         else Some (s\<lparr>qpc := (qpc s)(n := QIdle)\<rparr>))"

fun qm_run :: "nat \<Rightarrow> (tid \<Rightarrow> place) \<Rightarrow> (nat \<times> tid) list \<Rightarrow> qm \<Rightarrow> qm option" where
  "qm_run N pl [] s = Some s"
| "qm_run N pl (x # xs) s = do { s' \<leftarrow> qm_next N pl x s; qm_run N pl xs s' }"

lemma qm_next_step: "qm_next N pl (n, t) s = Some s' \<Longrightarrow> qm_step N pl s s'"
proof (cases "qpc s n")
  case (QAcquire u i)
  assume a: "qm_next N pl (n, t) s = Some s'"
  show ?thesis
  proof (cases "s' = s\<lparr>failed := True\<rparr> \<and> i < fst (pl u) + snd (pl u) \<and> \<not> (i < int N \<and> 0 \<le> i)")
    case True
    with a QAcquire show ?thesis by (auto simp: qm_next_def simp del: de_Morgan_conj intro!: qm_step.qm_assert split: if_splits)
  next
    case False
    with a QAcquire show ?thesis by (auto simp: qm_next_def intro: qm_step.intros split: if_splits)
  qed
qed (auto simp: qm_next_def intro: qm_step.intros split: if_splits)

lemma qm_run_steps: "qm_run N pl xs s = Some s' \<Longrightarrow> (qm_step N pl)\<^sup>*\<^sup>* s s'"
proof (induction xs arbitrary: s)
  case (Cons x xs)
  then obtain s1 where "qm_next N pl x s = Some s1" "qm_run N pl xs s1 = Some s'" by auto
  with Cons.IH qm_next_step [of N pl "fst x" "snd x" s s1] show ?case
    by (auto intro: converse_rtranclp_into_rtranclp)
qed simp

text \<open>Two inserters whose steps interleave: task 5 on threads 0 to 1, task 7 on 1 to 2.\<close>

definition demo_place :: "tid \<Rightarrow> place" where
  "demo_place t = (if t = 5 then (0, 2) else (0, 3))"

definition demo_schedule :: "(nat \<times> tid) list" where
  "demo_schedule = [(0, 5), (1, 7), (0, 5), (0, 5), (0, 5), (0, 5), (0, 5), (0, 5), (1, 7), (1, 7), (0, 5), (1, 7), (1, 7)]"

lemma demo_run:
  "\<exists>s. (qm_step 3 demo_place)\<^sup>*\<^sup>* qm_init s \<and> pushed s 0 = [5, 7] \<and> pushed s 1 = [5, 7] \<and> pushed s 2 = []
     \<and> qpc s 1 = QAcquire 7 2 \<and> serial s = [5]"
proof -
  let ?r = "qm_run 3 demo_place demo_schedule qm_init"
  have "?r \<noteq> None \<and> pushed (the ?r) 0 = [5, 7] \<and> pushed (the ?r) 1 = [5, 7] \<and> pushed (the ?r) 2 = []
     \<and> qpc (the ?r) 1 = QAcquire 7 2 \<and> serial (the ?r) = [5]"
    by (simp add: demo_schedule_def qm_next_def qm_init_def demo_place_def)
  then show ?thesis using qm_run_steps [of 3 demo_place demo_schedule qm_init] by auto
qed

theorem assembly_queues_one_order_witness:
  "\<exists>s. (qm_step 3 demo_place)\<^sup>*\<^sup>* qm_init s \<and> precedes 5 7 (pushed s 0) \<and> precedes 5 7 (pushed s 1)"
proof -
  obtain s where s: "(qm_step 3 demo_place)\<^sup>*\<^sup>* qm_init s" "pushed s 0 = [5, 7]" "pushed s 1 = [5, 7]"
    using demo_run by blast
  have p: "precedes 5 7 [5, 7 :: tid]" unfolding precedes_def by (intro exI [of _ "[5]"] exI [of _ "[7]"]) simp
  then show ?thesis using assembly_queues_one_order [OF s(1), of 5 7 0 1] s by auto
qed

section \<open>Progress\<close>

definition valid_place :: "nat \<Rightarrow> place \<Rightarrow> bool" where
  "valid_place N p \<longleftrightarrow> 0 \<le> fst p \<and> 0 < snd p \<and> fst p + snd p \<le> int N"

lemma never_failed:
  assumes "(qm_step N pl)\<^sup>*\<^sup>* qm_init s" and "\<forall>t. valid_place N (pl t)"
  shows "\<not> failed s"
  using assms(1)
proof (induction rule: rtranclp_induct)
  case base
  then show ?case by (simp add: qm_init_def)
next
  case (step s s')
  have inv: "qm_inv N pl s" by (rule qm_inv_reachable [OF step(1)])
  from step(2,3) show ?case
  proof cases
    case (qm_assert n t i)
    then have "qm_pc_ok N pl (QAcquire t i)" using inv by (metis qm_inv_def)
    moreover have "valid_place N (pl t)" using assms(2) by blast
    ultimately show ?thesis using qm_assert by (auto simp: valid_place_def)
  qed auto
qed

text \<open>The lock index a thread waits for, when it cannot take its next step.\<close>

fun waits_for :: "(tid \<Rightarrow> place) \<Rightarrow> qm \<Rightarrow> nat \<Rightarrow> int option" where
  "waits_for pl s n = (case qpc s n of
     QAcquire t i \<Rightarrow> if i < fst (pl t) + snd (pl t) \<and> qlock s (nat i) \<noteq> None then Some i else None
   | _ \<Rightarrow> None)"

text \<open>A thread that waits for no lock can go on.\<close>

lemma unblocked_moves:
  assumes "(qm_step N pl)\<^sup>*\<^sup>* qm_init s" and "\<forall>t. valid_place N (pl t)"
    and m: "m < N" "qpc s m \<noteq> QIdle" "waits_for pl s m = None"
  shows "\<exists>s'. qm_step N pl s s' \<and> qpc s' m \<noteq> qpc s m"
proof -
  note inv = qm_inv_reachable [OF assms(1)] and nf = never_failed [OF assms(1,2)]
  have ok: "m < N \<Longrightarrow> qm_pc_ok N pl (qpc s m)" for m using inv by (simp add: qm_inv_def)
  show ?thesis
  proof (cases "qpc s m")
    case (QAcquire t i)
    show ?thesis
    proof (cases "i < fst (pl t) + snd (pl t)")
      case True
      have "valid_place N (pl t)" using assms(2) by blast
      then have i: "0 \<le> i" "i < int N" using ok [OF m(1)] QAcquire True by (auto simp: valid_place_def)
      have free: "qlock s (nat i) = None" using m(3) QAcquire True by (auto split: if_splits)
      show ?thesis using qm_step.qm_lock [where N = N and pl = pl and s = s and n = m and t = t and i = i] m(1) nf QAcquire True i free by fastforce
    next
      case False
      then show ?thesis using qm_step.qm_turn [where N = N and pl = pl and s = s and n = m and t = t and i = i] m(1) nf QAcquire by fastforce
    qed
  next
    case (QPush t i)
    then show ?thesis using qm_step.qm_push [where N = N and pl = pl and s = s and n = m and t = t and i = i] m(1) nf QPush by fastforce
  next
    case (QRelease t i)
    show ?thesis
    proof (cases "i < fst (pl t) + snd (pl t)")
      case True
      then show ?thesis using qm_step.qm_release [where N = N and pl = pl and s = s and n = m and t = t and i = i] m(1) nf QRelease by fastforce
    next
      case False
      then show ?thesis using qm_step.qm_return [where N = N and pl = pl and s = s and n = m and t = t and i = i] m(1) nf QRelease by fastforce
    qed
  qed (use m in simp)
qed

text \<open>C15.
  Insertion cannot deadlock. When all places lie inside the machine, then in every
  reachable state in which some thread is inside an insertion, some thread that is inside
  one can take a step of it: the locks are taken in ascending order, so the thread that
  waits for the highest lock is not waited on in a circle.
\<close>

theorem insertion_never_deadlocks:
  assumes "(qm_step N pl)\<^sup>*\<^sup>* qm_init s" and "\<forall>t. valid_place N (pl t)" and "n < N" and "qpc s n \<noteq> QIdle"
  shows "\<exists>m s'. m < N \<and> qpc s m \<noteq> QIdle \<and> qm_step N pl s s' \<and> qpc s' m \<noteq> qpc s m"
proof -
  note inv = qm_inv_reachable [OF assms(1)] 
  have own: "qlock s j = Some m \<longleftrightarrow> m < N \<and> holds pl (qpc s m) j" for j m using inv by (simp add: qm_inv_def)
  have ok: "m < N \<Longrightarrow> qm_pc_ok N pl (qpc s m)" for m using inv by (simp add: qm_inv_def)
  show ?thesis
  proof (rule ccontr)
    assume "\<not> ?thesis"
    then have all: "m < N \<Longrightarrow> qpc s m \<noteq> QIdle \<Longrightarrow> waits_for pl s m \<noteq> None" for m
      using unblocked_moves [OF assms(1,2)] by blast
    define W where "W = (\<lambda>m. the (waits_for pl s m)) ` {m. m < N \<and> qpc s m \<noteq> QIdle}"
    have "finite W" "W \<noteq> {}" using assms(3,4) by (auto simp: W_def)
    then have "Max W \<in> W" by simp
    then obtain m where m: "m < N" "qpc s m \<noteq> QIdle" "the (waits_for pl s m) = Max W" by (auto simp: W_def)
    then obtain i where i: "waits_for pl s m = Some i" using all by fastforce
    then obtain k where "qlock s (nat i) = Some k" by (auto split: qm_pc.splits if_splits)
    then have k: "k < N" "holds pl (qpc s k) (nat i)" using own by auto
    have i0: "0 \<le> i"
    proof -
      obtain t where t: "qpc s m = QAcquire t i" using i by (auto split: qm_pc.splits if_splits)
      have "0 \<le> fst (pl t)" using assms(2) by (simp add: valid_place_def)
      then show ?thesis using ok [OF m(1)] t by auto
    qed
    have kn: "qpc s k \<noteq> QIdle" using k(2) by auto
    then obtain j where j: "waits_for pl s k = Some j" using all [OF k(1)] by fastforce
    then have "i < j" using k(2) i0 by (auto split: qm_pc.splits if_splits)
    moreover have "j \<le> Max W" using \<open>finite W\<close> k(1) kn j by (intro Max_ge) (auto simp: W_def image_iff intro!: exI [of _ k])
    ultimately show False using m(3) i by simp
  qed
qed

theorem insertion_never_deadlocks_witness:
  "\<exists>s m s'. (qm_step 3 (\<lambda>_. (0, 2)))\<^sup>*\<^sup>* qm_init s \<and> qpc s 1 = QAcquire 7 0 \<and> qlock s 0 = Some 0
     \<and> qm_step 3 (\<lambda>_. (0, 2)) s s' \<and> qpc s' m \<noteq> qpc s m"
proof -
  let ?pl = "\<lambda>_::tid. (0 :: int, 2 :: int)"
  let ?r = "qm_run 3 ?pl [(0, 5), (1, 7), (0, 5)] qm_init"
  have r: "?r \<noteq> None \<and> qpc (the ?r) 1 = QAcquire 7 0 \<and> qlock (the ?r) 0 = Some 0"
    by (simp add: qm_next_def qm_init_def)
  then obtain s where s: "?r = Some s" by auto
  have v: "\<forall>t. valid_place 3 (?pl t)" by (simp add: valid_place_def)
  have q: "qpc s 1 = QAcquire 7 0" "qlock s 0 = Some 0" using r s by auto
  obtain m s' where "qm_step 3 ?pl s s'" "qpc s' m \<noteq> qpc s m"
    using insertion_never_deadlocks [OF qm_run_steps [OF s] v, of 1] q by auto
  with qm_run_steps [OF s] q show ?thesis by blast
qed

text \<open>C18.
  Assemblies that synchronise inside can always finish. Of the completely inserted tasks
  take the first, in the common order, that some thread of its place has not popped: it is
  at the head of the queue of every such thread. So even when an assembly blocks its
  threads until all of them have arrived, no thread waits behind a different one for ever.
\<close>

theorem oldest_assembly_heads_all_queues:
  assumes "(qm_step N pl)\<^sup>*\<^sup>* qm_init s" and "serial s = as @ x # bs"
    and "\<forall>y\<in>set as. \<forall>j. in_place (pl y) j \<longrightarrow> y \<in> set (popped s j)"
    and "in_place (pl x) j" and "x \<notin> set (popped s j)"
  shows "\<exists>ts. queue s j = x # ts"
proof -
  note inv = qm_inv_reachable [OF assms(1)] and once = once_inv_reachable [OF assms(1)]
  let ?P = "\<lambda>t. in_place (pl t) j"
  have "popped s j @ queue s j = filter ?P (serial s) @ current pl s j" using inv unfolding qm_inv_def by metis
  then have e: "popped s j @ queue s j = filter ?P as @ x # (filter ?P bs @ current pl s j)" using assms(2,4) by simp
  have d: "distinct (filter ?P as @ x # (filter ?P bs @ current pl s j))"
    using current_cases [OF inv once, of j] once assms(2) by (auto simp: once_inv_def)
  from e consider us where "popped s j @ us = filter ?P as"
    | us where "popped s j = filter ?P as @ us" "us @ queue s j = x # (filter ?P bs @ current pl s j)"
    by (auto simp: append_eq_append_conv2)
  then show ?thesis
  proof cases
    case 1
    have "set (filter ?P as) \<subseteq> set (popped s j)" using assms(3) by auto
    moreover have "set (popped s j) \<inter> set us = {}" using d 1 by (metis distinct_append)
    ultimately have "us = []" using 1 by (metis Un_iff disjoint_iff last_in_set set_append subsetD)
    then show ?thesis using e 1 by auto
  next
    case 2
    with assms(5) show ?thesis by (cases us) auto
  qed
qed

theorem oldest_assembly_heads_all_queues_witness:
  "\<exists>s ts. (qm_step 3 demo_place)\<^sup>*\<^sup>* qm_init s \<and> queue s 1 = 5 # ts"
proof -
  let ?r = "qm_run 3 demo_place demo_schedule qm_init"
  have r: "?r \<noteq> None \<and> popped (the ?r) 1 = [] \<and> serial (the ?r) = [5]"
    by (simp add: demo_schedule_def qm_next_def qm_init_def demo_place_def)
  then obtain s where s: "?r = Some s" by auto
  with r qm_run_steps [OF s] oldest_assembly_heads_all_queues [of 3 demo_place s "[]" 5 "[]" 1] show ?thesis
    by (auto simp: in_place_def demo_place_def)
qed

end
