(* ===== verification/Wakeup.thy ===== *)
theory Wakeup
  imports Queue_Manager
begin

text \<open>
  Completion of a task (\<open>PolyTask::commit_and_wakeup\<close> in \<open>src/poly_task.cpp\<close>) as a
  function on the workspace, the way one thread runs it: every dependent task loses a
  reference, and one that loses its last becomes ready. A critical one is placed at once
  by the global search, another goes to the ready queue of its affinity or of the thread.
\<close>

text \<open>The queue a ready task goes to; an index outside the array is undefined behaviour.\<close>

definition ready_index :: "nat \<Rightarrow> poly_task \<Rightarrow> nat option" where
  "ready_index n it = (if affinity_queue it = -1 then Some n
     else if 0 \<le> affinity_queue it \<and> affinity_queue it < int XITAO_MAXTHREADS then Some (nat (affinity_queue it))
     else None)"

definition goes_global :: "tid \<Rightarrow> rt \<Rightarrow> bool" where
  "goes_global it s \<longleftrightarrow> criticality (tasks s it) = 1 \<and> use_performance_modeling (conf s)"

definition make_ready :: "(real \<Rightarrow> real) \<Rightarrow> nat \<Rightarrow> tid \<Rightarrow> rt \<Rightarrow> rt option" where
  "make_ready rnd n it s =
     (if goes_global it s
      then do { s' \<leftarrow> global_search_ptt rnd it s; insert_task_in_assembly_queues it s' }
      else do { ndx \<leftarrow> ready_index n (tasks s it); Some (insert_in_ready_queue it ndx s) })"

definition drop_ref :: "tid \<Rightarrow> rt \<Rightarrow> rt" where
  "drop_ref it s = upd_task it (\<lambda>p. p\<lparr>refcount := refcount p - 1\<rparr>) s"

fun wakeup_loop :: "(real \<Rightarrow> real) \<Rightarrow> nat \<Rightarrow> tid list \<Rightarrow> rt \<Rightarrow> rt option" where
  "wakeup_loop rnd n [] s = Some s"
| "wakeup_loop rnd n (it # rest) s =
     (let refs = refcount (tasks s it); s' = drop_ref it s in
      if refs = 1 then do { s'' \<leftarrow> make_ready rnd n it s'; wakeup_loop rnd n rest s'' }
      else wakeup_loop rnd n rest s')"

definition complete_one :: "nat \<Rightarrow> rt \<Rightarrow> rt" where
  "complete_one n s = s\<lparr>task_completions := (task_completions s)(n := task_completions s n + 1)\<rparr>"

definition commit_and_wakeup :: "(real \<Rightarrow> real) \<Rightarrow> nat \<Rightarrow> tid \<Rightarrow> rt \<Rightarrow> rt option" where
  "commit_and_wakeup rnd n t s = do {
     s' \<leftarrow> wakeup_loop rnd n (out (tasks s t)) s;
     Some (complete_one n s') }"

section \<open>What a completion does\<close>

lemma drop_ref_sel [simp]:
  "ready_q (drop_ref b s) = ready_q s" "assembly_q (drop_ref b s) = assembly_q s" "conf (drop_ref b s) = conf s"
  "next_task (drop_ref b s) = next_task s" "pending_tasks (drop_ref b s) = pending_tasks s"
  "task_pool (drop_ref b s) = task_pool s" "task_completions (drop_ref b s) = task_completions s"
  "out (tasks (drop_ref b s) t) = out (tasks s t)" "kind (tasks (drop_ref b s) t) = kind (tasks s t)"
  "leader (tasks (drop_ref b s) t) = leader (tasks s t)" "width (tasks (drop_ref b s) t) = width (tasks s t)"
  "threads_out_tao (tasks (drop_ref b s) t) = threads_out_tao (tasks s t)"
  "criticality (tasks (drop_ref b s) t) = criticality (tasks s t)"
  "affinity_queue (tasks (drop_ref b s) t) = affinity_queue (tasks s t)"
  "refcount (tasks (drop_ref b s) t) = refcount (tasks s t) - (if t = b then 1 else 0)"
  "lay (drop_ref b s) = lay s" "ptts (drop_ref b s) = ptts s"
  by (auto simp: drop_ref_def upd_task_def)

lemma ready_index_drop [simp]: "ready_index n (tasks (drop_ref b s) t) = ready_index n (tasks s t)"
  by (simp add: ready_index_def)

lemma ready_q_insert: "ready_q (insert_in_ready_queue t q s) i = (if i = q then ready_q s q @ [t] else ready_q s i)"
  by (simp add: insert_in_ready_queue_def)

lemma insert_ready_sel [simp]:
  "tasks (insert_in_ready_queue t q s) = tasks s" "assembly_q (insert_in_ready_queue t q s) = assembly_q s"
  "conf (insert_in_ready_queue t q s) = conf s" "next_task (insert_in_ready_queue t q s) = next_task s"
  "pending_tasks (insert_in_ready_queue t q s) = pending_tasks s" "task_pool (insert_in_ready_queue t q s) = task_pool s"
  "task_completions (insert_in_ready_queue t q s) = task_completions s" "lay (insert_in_ready_queue t q s) = lay s"
  "ready_q (insert_in_ready_queue t q s) = (ready_q s)(q := ready_q s q @ [t])"
  by (simp_all add: insert_in_ready_queue_def)

text \<open>
  For tasks that are not placed globally the loop is described by counting: task \<open>b\<close> loses
  as many references as it occurs in the list, and enters one queue, once, exactly when
  that uses up its references.
\<close>

lemma wakeup_loop_counts:
  assumes "\<forall>b\<in>set bs. \<not> goes_global b s" and "\<forall>b\<in>set bs. ready_index n (tasks s b) \<noteq> None"
  shows "\<exists>s'. wakeup_loop rnd n bs s = Some s' \<and> assembly_q s' = assembly_q s \<and> task_completions s' = task_completions s
    \<and> (\<forall>b. refcount (tasks s' b) = refcount (tasks s b) - occ b bs)
    \<and> (\<forall>b. tasks s' b = (tasks s b)\<lparr>refcount := refcount (tasks s' b)\<rparr>)
    \<and> (\<forall>b q. occ b (ready_q s' q) = occ b (ready_q s q)
         + (if 0 < refcount (tasks s b) \<and> refcount (tasks s b) \<le> occ b bs \<and> ready_index n (tasks s b) = Some q then 1 else 0))"
  using assms
proof (induction bs arbitrary: s)
  case Nil
  then show ?case by (auto intro!: exI [of _ s])
next
  case (Cons x bs)
  obtain q0 where q0: "ready_index n (tasks s x) = Some q0" using Cons.prems(2) by auto
  let ?r = "if refcount (tasks s x) = 1 then insert_in_ready_queue x q0 (drop_ref x s) else drop_ref x s"
  have g: "goes_global b ?r = goes_global b s" "ready_index n (tasks ?r b) = ready_index n (tasks s b)" for b
    by (auto simp: goes_global_def)
  have ng: "\<not> goes_global x (drop_ref x s)" using Cons.prems(1) by (simp add: goes_global_def)
  have step: "wakeup_loop rnd n (x # bs) s = wakeup_loop rnd n bs ?r"
    using ng q0 by (simp add: make_ready_def Let_def)
  from Cons.IH [of ?r] Cons.prems g obtain s' where
    s': "wakeup_loop rnd n bs ?r = Some s'" "assembly_q s' = assembly_q ?r" "task_completions s' = task_completions ?r"
    "\<forall>b. refcount (tasks s' b) = refcount (tasks ?r b) - occ b bs"
    "\<forall>b. tasks s' b = (tasks ?r b)\<lparr>refcount := refcount (tasks s' b)\<rparr>"
    "\<forall>b q. occ b (ready_q s' q) = occ b (ready_q ?r q)
         + (if 0 < refcount (tasks ?r b) \<and> refcount (tasks ?r b) \<le> occ b bs \<and> ready_index n (tasks ?r b) = Some q then 1 else 0)"
    by auto
  have ref: "refcount (tasks ?r b) = refcount (tasks s b) - (if b = x then 1 else 0)" for b by auto
  have "tasks ?r b = (tasks s b)\<lparr>refcount := refcount (tasks ?r b)\<rparr>" for b by (auto simp: drop_ref_def upd_task_def)
  then have t: "tasks s' b = (tasks s b)\<lparr>refcount := refcount (tasks s' b)\<rparr>" for b
    using s'(5) by (metis (no_types, lifting) poly_task.update_convs(10) poly_task.surjective)
  have rq: "occ b (ready_q ?r q) = occ b (ready_q s q)
      + (if b = x \<and> refcount (tasks s x) = 1 \<and> q = q0 then 1 else 0)" for b q by auto
  have "occ b (ready_q s' q) = occ b (ready_q s q)
      + (if 0 < refcount (tasks s b) \<and> refcount (tasks s b) \<le> occ b (x # bs) \<and> ready_index n (tasks s b) = Some q then 1 else 0)" for b q
    using spec [OF spec [OF s'(6), of b], of q] ref [of b] rq [of b q] g(2) [of b] q0 by (auto split: if_splits)
  with step s' ref t show ?case by (intro exI [of _ s']) auto
qed

text \<open>C19.
  Completing a task. When none of the dependents is placed globally and their affinities
  name existing queues, \<open>commit_and_wakeup\<close> returns; every task loses exactly as many
  references as it has edges from the completed task; exactly the tasks whose last
  reference goes are appended to a ready queue, once each and to the queue of their
  affinity or of the completing thread; nothing else about the tasks changes; and the
  thread's completion counter goes up by one.
\<close>

theorem commit_wakes_exactly_the_ready:
  assumes "\<forall>b\<in>set (out (tasks s t)). \<not> (criticality (tasks s b) = 1 \<and> use_performance_modeling (conf s))"
    and "\<forall>b\<in>set (out (tasks s t)). -1 \<le> affinity_queue (tasks s b) \<and> affinity_queue (tasks s b) < 64"
  shows "\<exists>s'. commit_and_wakeup rnd n t s = Some s'
    \<and> (\<forall>b. tasks s' b = (tasks s b)\<lparr>refcount := refcount (tasks s b) - occ b (out (tasks s t))\<rparr>)
    \<and> (\<forall>b q. occ b (ready_q s' q) = occ b (ready_q s q) +
         (if 0 < refcount (tasks s b) \<and> refcount (tasks s b) \<le> occ b (out (tasks s t))
             \<and> q = (if affinity_queue (tasks s b) = -1 then n else nat (affinity_queue (tasks s b))) then 1 else 0))
    \<and> task_completions s' n = task_completions s n + 1 \<and> assembly_q s' = assembly_q s"
proof -
  let ?bs = "out (tasks s t)"
  have i: "ready_index n (tasks s b) = Some (if affinity_queue (tasks s b) = -1 then n else nat (affinity_queue (tasks s b)))"
    if "b \<in> set ?bs" for b
    using assms(2) that by (auto simp: ready_index_def XITAO_MAXTHREADS_def)
  have g: "\<forall>b\<in>set ?bs. \<not> goes_global b s" "\<forall>b\<in>set ?bs. ready_index n (tasks s b) \<noteq> None"
    using assms(1) i by (auto simp: goes_global_def)
  from wakeup_loop_counts [OF g, of rnd] obtain s' where
    s': "wakeup_loop rnd n ?bs s = Some s'" "assembly_q s' = assembly_q s" "task_completions s' = task_completions s"
    "\<forall>b. refcount (tasks s' b) = refcount (tasks s b) - occ b ?bs"
    "\<forall>b. tasks s' b = (tasks s b)\<lparr>refcount := refcount (tasks s' b)\<rparr>" and
    rq: "\<forall>b q. occ b (ready_q s' q) = occ b (ready_q s q)
         + (if 0 < refcount (tasks s b) \<and> refcount (tasks s b) \<le> occ b ?bs \<and> ready_index n (tasks s b) = Some q then 1 else 0)"
    by blast
  have none: "b \<notin> set ?bs \<Longrightarrow> occ b ?bs = 0" for b by simp
  have r: "occ b (ready_q s' q) = occ b (ready_q s q) +
         (if 0 < refcount (tasks s b) \<and> refcount (tasks s b) \<le> occ b ?bs
             \<and> q = (if affinity_queue (tasks s b) = -1 then n else nat (affinity_queue (tasks s b))) then 1 else 0)" for b q
    using spec [OF spec [OF rq, of b], of q] i [of b] none [of b] by (cases "b \<in> set ?bs") auto
  have "commit_and_wakeup rnd n t s = Some (complete_one n s')" using s'(1) by (simp add: commit_and_wakeup_def)
  moreover have "tasks s' b = (tasks s b)\<lparr>refcount := refcount (tasks s b) - occ b ?bs\<rparr>" for b
    using s'(4) s'(5) by metis
  ultimately show ?thesis using r s'(2,3) by (intro exI [of _ "complete_one n s'"]) (simp add: complete_one_def)
qed

theorem commit_wakes_exactly_the_ready_witness:
  "\<exists>s s'. build (\<lambda>x. x) demo_ops (init_rt (default_config 4) init_layout blank_task) = Some s
     \<and> commit_and_wakeup (\<lambda>x. x) 3 0 s = Some s' \<and> occ 1 (ready_q s' 3) = 1 \<and> refcount (tasks s' 1) = 0"
proof -
  obtain s where s: "build (\<lambda>x. x) demo_ops (init_rt (default_config 4) init_layout blank_task) = Some s"
    and n: "out (tasks s 0) = [1, 1]" "refcount (tasks s 1) = 2" "criticality (tasks s 1) = 0"
      "affinity_queue (tasks s 1) = -1" "ready_q s 3 = []"
    by (simp add: demo_ops_def AssemblyTask_def PolyTask_def make_edge_def count_new_task_def init_rt_def
        XITAO_MAXTHREADS_def TASK_POOL_def default_config_def Let_def attach_ptt_def empty_store_def try_insert_table_def
        task_key_def)
  with commit_wakes_exactly_the_ready [of s 0 "\<lambda>x. x" 3] show ?thesis by fastforce
qed

end
