(* ===== verification/Stats.thy ===== *)
theory Stats
  imports Wakeup "HOL-Library.Product_Lexorder"
begin

text \<open>
  The runtime statistics (\<open>src/runtime_stats.cpp\<close>): how often each place was used, per task
  type, the busy and total time of each worker, and the lines of the statistics file. The
  readings of the steady clock are arguments.
\<close>

section \<open>Place frequencies\<close>

definition count_place :: "place \<Rightarrow> perf_data \<Rightarrow> perf_data" where
  "count_place p d = (case resource_place_freq d p of
     None \<Rightarrow> d\<lparr>resource_place_freq := (resource_place_freq d)(p \<mapsto> 1)\<rparr>
   | Some k \<Rightarrow> d\<lparr>resource_place_freq := (resource_place_freq d)(p \<mapsto> k + 1)\<rparr>)"

text \<open>A task without a table is a null pointer: \<open>None\<close>.\<close>

definition update_place_frequency :: "tid \<Rightarrow> rt \<Rightarrow> rt option" where
  "update_place_frequency t s =
     (if use_performance_modeling (conf s) then
        (case ptt_handle (tasks s t) of None \<Rightarrow> None | Some h \<Rightarrow>
          (case pheap (ptts s) h of None \<Rightarrow> None
           | Some d \<Rightarrow> Some (upd_table h (count_place (leader (tasks s t), width (tasks s t)) d) s)))
      else Some s)"

section \<open>Worker times\<close>

record worker_times =
  thread_total_timer :: "nat \<Rightarrow> real"
  thread_work_timer :: "nat \<Rightarrow> real"
  thread_work_time :: "nat \<Rightarrow> real"
  thread_total_time :: "nat \<Rightarrow> real"

definition start_worker_stats :: "nat \<Rightarrow> real \<Rightarrow> worker_times \<Rightarrow> worker_times" where
  "start_worker_stats n now w = w\<lparr>thread_total_timer := (thread_total_timer w)(n := now),
     thread_work_time := (thread_work_time w)(n := 0)\<rparr>"

definition start_worktime_epoch :: "nat \<Rightarrow> real \<Rightarrow> worker_times \<Rightarrow> worker_times" where
  "start_worktime_epoch n now w = w\<lparr>thread_work_timer := (thread_work_timer w)(n := now)\<rparr>"

definition end_worktime_epoch :: "nat \<Rightarrow> real \<Rightarrow> worker_times \<Rightarrow> worker_times" where
  "end_worktime_epoch n now w = w\<lparr>thread_work_time := (thread_work_time w)
     (n := thread_work_time w n + (now - thread_work_timer w n))\<rparr>"

definition end_worker_stats :: "nat \<Rightarrow> real \<Rightarrow> worker_times \<Rightarrow> worker_times" where
  "end_worker_stats n now w = w\<lparr>thread_total_time := (thread_total_time w)(n := now - thread_total_timer w n)\<rparr>"

section \<open>The statistics file\<close>

datatype stat_line =
    Place_stat nat "64 word" int int int
  | Work_stat nat real real

definition place_lines :: "ptt_key \<Rightarrow> perf_data \<Rightarrow> stat_line list" where
  "place_lines k d = map (\<lambda>p. Place_stat (key_type k) (key_hint k) (fst p) (snd p) (the (resource_place_freq d p)))
     (sorted_list_of_set (dom (resource_place_freq d)))"

text \<open>The order in which the hash map is traversed is the library's: the list \<open>keys\<close>.\<close>

definition dump_stats :: "ptt_key list \<Rightarrow> rt \<Rightarrow> worker_times \<Rightarrow> stat_line list" where
  "dump_stats keys s w =
     (if use_performance_modeling (conf s)
      then concat (map (\<lambda>k. case ptables (ptts s) k of None \<Rightarrow> []
             | Some h \<Rightarrow> (case pheap (ptts s) h of None \<Rightarrow> [] | Some d \<Rightarrow> place_lines k d)) keys)
      else [])
     @ map (\<lambda>i. Work_stat (nat i) (thread_work_time w (nat i)) (thread_total_time w (nat i) - thread_work_time w (nat i)))
         [0..xitao_nthreads (lay s) - 1]"

section \<open>Lemmas\<close>

lemma count_places_total:
  "resource_place_freq (fold count_place ps d) p =
     (case resource_place_freq d p of None \<Rightarrow> if p \<in> set ps then Some (occ p ps) else None
      | Some k \<Rightarrow> Some (k + occ p ps))"
proof (induction ps arbitrary: d)
  case (Cons x ps)
  have "resource_place_freq (count_place x d) p = (if x = p then Some (case resource_place_freq d p of None \<Rightarrow> 1 | Some k \<Rightarrow> k + 1)
      else resource_place_freq d p)"
    by (simp add: count_place_def split: option.splits)
  then show ?case by (simp add: Cons split: option.splits)
qed (simp split: option.splits)

text \<open>The work periods of one worker: pairs of clock readings around each \<open>execute\<close>.\<close>

fun work_periods :: "nat \<Rightarrow> (real \<times> real) list \<Rightarrow> worker_times \<Rightarrow> worker_times" where
  "work_periods n [] w = w"
| "work_periods n ((a, b) # es) w = work_periods n es (end_worktime_epoch n b (start_worktime_epoch n a w))"

lemma work_periods_time:
  "thread_work_time (work_periods n es w) n = thread_work_time w n + (\<Sum>(a, b)\<leftarrow>es. b - a)
   \<and> thread_total_timer (work_periods n es w) = thread_total_timer w
   \<and> (\<forall>m. m \<noteq> n \<longrightarrow> thread_work_time (work_periods n es w) m = thread_work_time w m)"
  by (induction n es w rule: work_periods.induct)
    (auto simp: end_worktime_epoch_def start_worktime_epoch_def)

text \<open>The readings of a steady clock: periods in order, between the start and the end.\<close>

fun steady :: "real \<Rightarrow> (real \<times> real) list \<Rightarrow> real \<Rightarrow> bool" where
  "steady start [] stop \<longleftrightarrow> start \<le> stop"
| "steady start ((a, b) # es) stop \<longleftrightarrow> start \<le> a \<and> a \<le> b \<and> steady b es stop"

lemma steady_sum: "steady start es stop \<Longrightarrow> 0 \<le> (\<Sum>(a, b)\<leftarrow>es. b - a) \<and> (\<Sum>(a, b)\<leftarrow>es. b - a) \<le> stop - start"
  by (induction start es stop rule: steady.induct) auto

section \<open>Properties\<close>

text \<open>The statistics file adds up. After the places \<open>ps\<close> have been counted for a task type, its
  lines are one for each place that occurs, with the number of occurrences; the line of a
  worker has non-negative working and idle times whose sum is the time between its start
  and its end, when the clock is steady and the work periods follow one another.
\<close>

theorem stats_file_adds_up:
  assumes "steady start es stop" and "w' = end_worker_stats n stop (work_periods n es (start_worker_stats n start w))"
    and "use_performance_modeling (conf s)" and "ptables (ptts s) k = Some h"
    and "pheap (ptts s) h = Some (fold count_place ps (new_perf_data m))" and "int n < xitao_nthreads (lay s)"
  shows "{x. \<exists>ty hint l w c. x = Place_stat ty hint l w c \<and> x \<in> set (dump_stats [k] s w')}
       = {Place_stat (key_type k) (key_hint k) l w (occ (l, w) ps) |l w. (l, w) \<in> set ps}
    \<and> (\<exists>work idle. Work_stat n work idle \<in> set (dump_stats [k] s w') \<and> 0 \<le> work \<and> 0 \<le> idle \<and> work + idle = stop - start)"
proof
  let ?d = "fold count_place ps (new_perf_data m)"
  have freq: "resource_place_freq ?d p = (if p \<in> set ps then Some (occ p ps) else None)" for p
    by (simp add: count_places_total new_perf_data_def)
  then have dom: "dom (resource_place_freq ?d) = set ps" by (auto simp: dom_def)
  have lines: "set (place_lines k ?d) = {Place_stat (key_type k) (key_hint k) l w (occ (l, w) ps) |l w. (l, w) \<in> set ps}"
    unfolding place_lines_def dom by (force simp: freq image_iff)
  show "{x. \<exists>ty hint l w c. x = Place_stat ty hint l w c \<and> x \<in> set (dump_stats [k] s w')}
       = {Place_stat (key_type k) (key_hint k) l w (occ (l, w) ps) |l w. (l, w) \<in> set ps}"
    using assms(3-5) lines by (auto simp: dump_stats_def)
  let ?work = "thread_work_time w' n" and ?idle = "thread_total_time w' n - thread_work_time w' n"
  have "Work_stat n ?work ?idle \<in> set (dump_stats [k] s w')"
    using assms(6) by (auto simp: dump_stats_def image_iff intro!: disjI2 bexI [of _ "int n"])
  moreover have "?work = (\<Sum>(a, b)\<leftarrow>es. b - a)" "?work + ?idle = stop - start"
    using work_periods_time [of n es "start_worker_stats n start w"]
    by (auto simp: assms(2) end_worker_stats_def start_worker_stats_def)
  ultimately show "\<exists>work idle. Work_stat n work idle \<in> set (dump_stats [k] s w') \<and> 0 \<le> work \<and> 0 \<le> idle \<and> work + idle = stop - start"
    using steady_sum [OF assms(1)] by (intro exI [of _ ?work] exI [of _ ?idle]) auto
qed

theorem stats_file_adds_up_witness:
  "\<exists>s w'. Place_stat 0 0 2 1 (occ (2, 1) [(2, 1), (0, 2), (2, 1) :: place]) \<in> set (dump_stats [\<lparr>key_hint = 0, key_type = 0\<rparr>] s w')"
proof -
  let ?k = "\<lparr>key_hint = 0, key_type = 0\<rparr> :: ptt_key" and ?ps = "[(2, 1), (0, 2), (2, 1)] :: place list"
  let ?s = "(two_tasks small_layout undefined)\<lparr>ptts := \<lparr>ptables = [?k \<mapsto> 0],
     pheap = [0 \<mapsto> fold count_place ?ps (new_perf_data 0)], pfresh = 1\<rparr>\<rparr>"
  have c: "use_performance_modeling (conf ?s)" by (simp add: default_config_def)
  have l: "int 1 < xitao_nthreads (lay ?s)" by (simp add: small_layout_def)
  have st: "steady 0 [(1, 3)] 4" by simp
  have h: "ptables (ptts ?s) ?k = Some 0" "pheap (ptts ?s) 0 = Some (fold count_place ?ps (new_perf_data 0))" by simp_all
  let ?w = "end_worker_stats 1 4 (work_periods 1 [(1, 3)] (start_worker_stats 1 0 undefined))"
  have "Place_stat 0 0 2 1 (occ (2, 1) ?ps) \<in> {x. \<exists>ty hint l w c. x = Place_stat ty hint l w c \<and> x \<in> set (dump_stats [?k] ?s ?w)}"
    unfolding stats_file_adds_up [OF st refl c h l, THEN conjunct1] by simp
  then show ?thesis by blast
qed

end
