(* ===== verification/Sched_Model.thy ===== *)
theory Sched_Model
  imports Stats
begin

text \<open>
  The scheduler: \<open>worker_loop\<close> of \<open>src/tao_sched.cpp\<close> for any number of workers, as a step
  relation with one step per access to shared state, together with the parts of
  \<open>commit_and_wakeup\<close> and of the queue operations that it runs. The master's part is the
  push of a task and the end of the program. Locks are left out: every critical section
  is one step, except the insertion into the assembly queues, whose pushes are separate
  steps because a worker pops its assembly queue without a lock. (\<open>Queue_Manager.thy\<close> has
  the locks; without them there are more interleavings, not fewer.)
\<close>

section \<open>State\<close>

text \<open>What a thread does after an insertion: go on with the loop, or with a completion.\<close>

datatype cont = ToTop | ToCommit tid "tid list"

text \<open>
  The positions of a worker. \<open>PTop st\<close> is the head of \<open>while(true)\<close> with the local variable
  \<open>st\<close>; the others are the places between two accesses to shared state, in the order of the
  code. \<open>PFault\<close> is a failed assertion or undefined behaviour.
\<close>

datatype pc =
    PStart
  | POff
  | PTop "tid option"
  | PSimple tid
  | PIns tid int cont
  | PRel tid int cont
  | PPop tid
  | PWait tid
  | PRun tid
  | PPerf tid
  | POut tid
  | PCmp tid int
  | PCommit tid "tid list"
  | PWake tid tid "tid list"
  | PDel tid
  | PReady
  | PSteal nat
  | PFlushC
  | PFlushP
  | PCheck
  | PDone
  | PFault

text \<open>
  The workspace, the workers, the deleted tasks, \<open>gotao_can_exit\<close>, \<open>tao_total_steals\<close> and
  the tasks without predecessors that the master has not pushed yet. The rest is history:
  how often each thread has begun and ended the execution of each task, the place a task
  was sent to, and the tasks whose completion has begun and has been counted.
\<close>

record sys =
  rts :: rt
  pcs :: "nat \<Rightarrow> pc"
  freed :: "tid \<Rightarrow> bool"
  can_exit :: bool
  total_steals :: int
  unpushed :: "tid \<Rightarrow> bool"
  began :: "tid \<Rightarrow> nat \<Rightarrow> int"
  ended :: "tid \<Rightarrow> nat \<Rightarrow> int"
  place_of :: "tid \<Rightarrow> place option"
  committed :: "tid \<Rightarrow> bool"
  finished :: "tid \<Rightarrow> bool"

text \<open>The start: workers created, all tasks without predecessors still to be pushed.\<close>

definition boot :: "rt \<Rightarrow> sys" where
  "boot r = \<lparr>rts = r, pcs = (\<lambda>_. PStart), freed = (\<lambda>_. False), can_exit = False, total_steals = 0,
     unpushed = (\<lambda>t. t < next_task r \<and> refcount (tasks r t) = 0), began = (\<lambda>_ _. 0), ended = (\<lambda>_ _. 0),
     place_of = (\<lambda>_. None), committed = (\<lambda>_. False), finished = (\<lambda>_. False)\<rparr>"

section \<open>Parts of the steps\<close>

text \<open>The tasks whose members the next step of a worker reads or writes, or that it deletes.\<close>

fun derefs :: "pc \<Rightarrow> tid list" where
  "derefs (PTop (Some t)) = [t]"
| "derefs (PSimple t) = [t]"
| "derefs (PIns t i c) = [t]"
| "derefs (PRel t i c) = [t]"
| "derefs (PPop t) = [t]"
| "derefs (PWait t) = [t]"
| "derefs (PRun t) = [t]"
| "derefs (PPerf t) = [t]"
| "derefs (POut t) = [t]"
| "derefs (PCmp t v) = [t]"
| "derefs (PCommit t (b # bs)) = [t, b]"
| "derefs (PCommit t []) = [t]"
| "derefs (PWake t b bs) = [t, b]"
| "derefs (PDel t) = [t]"
| "derefs _ = []"

definition ready_to_step :: "nat \<Rightarrow> sys \<Rightarrow> nat \<Rightarrow> bool" where
  "ready_to_step N s n \<longleftrightarrow> n < N \<and> (\<forall>t\<in>set (derefs (pcs s n)). \<not> freed s t)"

definition go :: "nat \<Rightarrow> pc \<Rightarrow> sys \<Rightarrow> sys" where
  "go n p s = s\<lparr>pcs := (pcs s)(n := p)\<rparr>"

definition bump :: "tid \<Rightarrow> nat \<Rightarrow> (tid \<Rightarrow> nat \<Rightarrow> int) \<Rightarrow> tid \<Rightarrow> nat \<Rightarrow> int" where
  "bump t n f = f(t := (f t)(n := f t n + 1))"

fun resume :: "cont \<Rightarrow> pc" where
  "resume ToTop = PTop None"
| "resume (ToCommit a bs) = PCommit a bs"

text \<open>The defensive choice of a leader, \<open>nthread / width * width\<close>, for an assembly without one.\<close>

definition default_leader :: "nat \<Rightarrow> tid \<Rightarrow> rt \<Rightarrow> rt" where
  "default_leader n t r = (if leader (tasks r t) < 0
     then upd_task t (\<lambda>p. p\<lparr>leader := int n sdiv width p * width p\<rparr>) r else r)"

definition place_now :: "tid \<Rightarrow> rt \<Rightarrow> place" where
  "place_now t r = (leader (tasks r t), width (tasks r t))"

text \<open>The reading of the clock and, for the leader, the count of the place before \<open>execute\<close>.\<close>

definition before_execute :: "nat \<Rightarrow> tid \<Rightarrow> rt \<Rightarrow> rt option" where
  "before_execute n t r = (if use_performance_modeling (conf r) \<and> leader (tasks r t) = int n \<and> print_stats (conf r)
     then update_place_frequency t r else Some r)"

definition after_execute :: "(real \<Rightarrow> real) \<Rightarrow> nat \<Rightarrow> tid \<Rightarrow> real \<Rightarrow> rt \<Rightarrow> rt option" where
  "after_execute rnd n t ticks r = (if use_performance_modeling (conf r) \<and> leader (tasks r t) = int n
     then update_performance_model rnd t (int n) ticks (width (tasks r t)) r else Some r)"

definition arrive :: "tid \<Rightarrow> rt \<Rightarrow> rt" where
  "arrive t r = upd_task t (\<lambda>p. p\<lparr>threads_in_tao := threads_in_tao p + 1\<rparr>) r"

definition leave :: "tid \<Rightarrow> rt \<Rightarrow> rt" where
  "leave t r = upd_task t (\<lambda>p. p\<lparr>threads_out_tao := threads_out_tao p + 1\<rparr>) r"

text \<open>The victims of a steal, and whether a thread tries to steal at all.\<close>

definition steal_core :: "rt \<Rightarrow> nat \<Rightarrow> nat \<Rightarrow> bool" where
  "steal_core r n c \<longleftrightarrow>
     (if enable_local_workstealing (conf r)
      then in_place (last (inclusive_partitions (lay r) ! n)) c
      else int c < xitao_nthreads (lay r) \<and> c \<noteq> n)"

definition may_steal :: "rt \<Rightarrow> bool" where
  "may_steal r \<longleftrightarrow> enable_workstealing (conf r) \<and> steal_attempts (conf r) \<noteq> 0"

definition flush_completions :: "nat \<Rightarrow> rt \<Rightarrow> rt" where
  "flush_completions n r = (if task_completions r n > 0
     then r\<lparr>pending_tasks := pending_tasks r - task_completions r n, task_completions := (task_completions r)(n := 0)\<rparr>
     else r)"

definition flush_pool :: "nat \<Rightarrow> rt \<Rightarrow> rt" where
  "flush_pool n r = (if task_pool r n > 0
     then r\<lparr>pending_tasks := pending_tasks r - task_pool r n, task_pool := (task_pool r)(n := 0)\<rparr>
     else r)"

section \<open>The step relation\<close>

inductive sched_step :: "(real \<Rightarrow> real) \<Rightarrow> nat \<Rightarrow> sys \<Rightarrow> sys \<Rightarrow> bool" for rnd :: "real \<Rightarrow> real" and N :: nat where
  use_after_free: "n < N \<Longrightarrow> t \<in> set (derefs (pcs s n)) \<Longrightarrow> freed s t \<Longrightarrow>
    sched_step rnd N s (go n PFault s)"
| start_off: "n < N \<Longrightarrow> pcs s n = PStart \<Longrightarrow> inclusive_partitions (lay (rts s)) ! n = [] \<Longrightarrow>
    sched_step rnd N s (go n POff s)"
| start_on: "n < N \<Longrightarrow> pcs s n = PStart \<Longrightarrow> inclusive_partitions (lay (rts s)) ! n \<noteq> [] \<Longrightarrow>
    sched_step rnd N s (go n (PTop None) s)"
| simple_begin: "ready_to_step N s n \<Longrightarrow> pcs s n = PTop (Some t) \<Longrightarrow> kind (tasks (rts s) t) = TASK_SIMPLE \<Longrightarrow>
    sched_step rnd N s (go n (PSimple t) (s\<lparr>began := bump t n (began s), place_of := (place_of s)(t \<mapsto> (int n, 1))\<rparr>))"
| simple_end: "ready_to_step N s n \<Longrightarrow> pcs s n = PSimple t \<Longrightarrow>
    sched_step rnd N s (go n (PCommit t (out (tasks (rts s) t)))
      (s\<lparr>ended := bump t n (ended s), committed := (committed s)(t := True)\<rparr>))"
| distribute: "ready_to_step N s n \<Longrightarrow> pcs s n = PTop (Some t) \<Longrightarrow> kind (tasks (rts s) t) = TASK_ASSEMBLY \<Longrightarrow>
    \<not> (leader (tasks (rts s) t) < 0 \<and> width (tasks (rts s) t) = 0) \<Longrightarrow> r = default_leader n t (rts s) \<Longrightarrow>
    sched_step rnd N s (go n (PIns t (leader (tasks r t)) ToTop)
      (s\<lparr>rts := r, place_of := (place_of s)(t \<mapsto> place_now t r)\<rparr>))"
| distribute_fault: "ready_to_step N s n \<Longrightarrow> pcs s n = PTop (Some t) \<Longrightarrow> kind (tasks (rts s) t) = TASK_ASSEMBLY \<Longrightarrow>
    leader (tasks (rts s) t) < 0 \<and> width (tasks (rts s) t) = 0 \<Longrightarrow>
    sched_step rnd N s (go n PFault s)"
| push_one: "ready_to_step N s n \<Longrightarrow> pcs s n = PIns t i c \<Longrightarrow> i < leader (tasks (rts s) t) + width (tasks (rts s) t) \<Longrightarrow>
    i < cfg_nthreads (conf (rts s)) \<Longrightarrow> 0 \<le> i \<Longrightarrow>
    sched_step rnd N s (go n (PIns t (i + 1) c)
      (s\<lparr>rts := (rts s)\<lparr>assembly_q := (assembly_q (rts s))(nat i := assembly_q (rts s) (nat i) @ [t])\<rparr>\<rparr>))"
| push_assert: "ready_to_step N s n \<Longrightarrow> pcs s n = PIns t i c \<Longrightarrow> i < leader (tasks (rts s) t) + width (tasks (rts s) t) \<Longrightarrow>
    \<not> (i < cfg_nthreads (conf (rts s)) \<and> 0 \<le> i) \<Longrightarrow>
    sched_step rnd N s (go n PFault s)"
| push_done: "ready_to_step N s n \<Longrightarrow> pcs s n = PIns t i c \<Longrightarrow> leader (tasks (rts s) t) + width (tasks (rts s) t) \<le> i \<Longrightarrow>
    sched_step rnd N s (go n (PRel t (leader (tasks (rts s) t)) c) s)"
| release_one: "ready_to_step N s n \<Longrightarrow> pcs s n = PRel t i c \<Longrightarrow> i < leader (tasks (rts s) t) + width (tasks (rts s) t) \<Longrightarrow>
    sched_step rnd N s (go n (PRel t (i + 1) c) s)"
| release_done: "ready_to_step N s n \<Longrightarrow> pcs s n = PRel t i c \<Longrightarrow> leader (tasks (rts s) t) + width (tasks (rts s) t) \<le> i \<Longrightarrow>
    sched_step rnd N s (go n (resume c) s)"
| pop_assembly: "ready_to_step N s n \<Longrightarrow> pcs s n = PTop None \<Longrightarrow> try_pop_assembly_task n (rts s) = Some (t, r) \<Longrightarrow>
    kind (tasks r t) = TASK_ASSEMBLY \<Longrightarrow>
    sched_step rnd N s (go n (PPop t) (s\<lparr>rts := r\<rparr>))"
| pop_wrong_kind: "ready_to_step N s n \<Longrightarrow> pcs s n = PTop None \<Longrightarrow> try_pop_assembly_task n (rts s) = Some (t, r) \<Longrightarrow>
    kind (tasks r t) = TASK_SIMPLE \<Longrightarrow>
    sched_step rnd N s (go n PFault s)"
| no_assembly: "ready_to_step N s n \<Longrightarrow> pcs s n = PTop None \<Longrightarrow> try_pop_assembly_task n (rts s) = None \<Longrightarrow>
    sched_step rnd N s (go n PReady s)"
| come_in: "ready_to_step N s n \<Longrightarrow> pcs s n = PPop t \<Longrightarrow> before_execute n t (rts s) = Some r \<Longrightarrow>
    sched_step rnd N s (go n (PWait t) (s\<lparr>rts := arrive t r\<rparr>))"
| come_in_fault: "ready_to_step N s n \<Longrightarrow> pcs s n = PPop t \<Longrightarrow> before_execute n t (rts s) = None \<Longrightarrow>
    sched_step rnd N s (go n PFault s)"
| rendezvous: "ready_to_step N s n \<Longrightarrow> pcs s n = PWait t \<Longrightarrow> width (tasks (rts s) t) \<le> threads_in_tao (tasks (rts s) t) \<Longrightarrow>
    sched_step rnd N s (go n (PRun t) (s\<lparr>began := bump t n (began s)\<rparr>))"
| execute_end: "ready_to_step N s n \<Longrightarrow> pcs s n = PRun t \<Longrightarrow>
    sched_step rnd N s (go n (PPerf t) (s\<lparr>ended := bump t n (ended s)\<rparr>))"
| measure_time: "ready_to_step N s n \<Longrightarrow> pcs s n = PPerf t \<Longrightarrow> after_execute rnd n t ticks (rts s) = Some r \<Longrightarrow>
    sched_step rnd N s (go n (POut t) (s\<lparr>rts := r\<rparr>))"
| measure_fault: "ready_to_step N s n \<Longrightarrow> pcs s n = PPerf t \<Longrightarrow> after_execute rnd n t ticks (rts s) = None \<Longrightarrow>
    sched_step rnd N s (go n PFault s)"
| count_out: "ready_to_step N s n \<Longrightarrow> pcs s n = POut t \<Longrightarrow>
    sched_step rnd N s (go n (PCmp t (threads_out_tao (tasks (rts s) t) + 1)) (s\<lparr>rts := leave t (rts s)\<rparr>))"
| last_out: "ready_to_step N s n \<Longrightarrow> pcs s n = PCmp t v \<Longrightarrow> v = width (tasks (rts s) t) \<Longrightarrow>
    sched_step rnd N s (go n (PCommit t (out (tasks (rts s) t))) (s\<lparr>committed := (committed s)(t := True)\<rparr>))"
| not_last_out: "ready_to_step N s n \<Longrightarrow> pcs s n = PCmp t v \<Longrightarrow> v \<noteq> width (tasks (rts s) t) \<Longrightarrow>
    sched_step rnd N s (go n (PTop None) s)"
| drop_edge: "ready_to_step N s n \<Longrightarrow> pcs s n = PCommit a (b # bs) \<Longrightarrow> refcount (tasks (rts s) b) \<noteq> 1 \<Longrightarrow>
    sched_step rnd N s (go n (PCommit a bs) (s\<lparr>rts := drop_ref b (rts s)\<rparr>))"
| drop_last_edge: "ready_to_step N s n \<Longrightarrow> pcs s n = PCommit a (b # bs) \<Longrightarrow> refcount (tasks (rts s) b) = 1 \<Longrightarrow>
    sched_step rnd N s (go n (PWake a b bs) (s\<lparr>rts := drop_ref b (rts s)\<rparr>))"
| wake_global: "ready_to_step N s n \<Longrightarrow> pcs s n = PWake a b bs \<Longrightarrow> goes_global b (rts s) \<Longrightarrow>
    global_search_ptt rnd b (rts s) = Some r \<Longrightarrow>
    sched_step rnd N s (go n (PIns b (leader (tasks r b)) (ToCommit a bs))
      (s\<lparr>rts := r, place_of := (place_of s)(b \<mapsto> place_now b r)\<rparr>))"
| wake_global_fault: "ready_to_step N s n \<Longrightarrow> pcs s n = PWake a b bs \<Longrightarrow> goes_global b (rts s) \<Longrightarrow>
    global_search_ptt rnd b (rts s) = None \<Longrightarrow>
    sched_step rnd N s (go n PFault s)"
| wake_ready: "ready_to_step N s n \<Longrightarrow> pcs s n = PWake a b bs \<Longrightarrow> \<not> goes_global b (rts s) \<Longrightarrow>
    ready_index n (tasks (rts s) b) = Some q \<Longrightarrow>
    sched_step rnd N s (go n (PCommit a bs) (s\<lparr>rts := insert_in_ready_queue b q (rts s)\<rparr>))"
| wake_ready_fault: "ready_to_step N s n \<Longrightarrow> pcs s n = PWake a b bs \<Longrightarrow> \<not> goes_global b (rts s) \<Longrightarrow>
    ready_index n (tasks (rts s) b) = None \<Longrightarrow>
    sched_step rnd N s (go n PFault s)"
| commit_end: "ready_to_step N s n \<Longrightarrow> pcs s n = PCommit a [] \<Longrightarrow>
    sched_step rnd N s (go n (if kind (tasks (rts s) a) = TASK_ASSEMBLY then PDel a else PTop None)
      (s\<lparr>rts := complete_one n (rts s), finished := (finished s)(a := True)\<rparr>))"
| delete_task: "ready_to_step N s n \<Longrightarrow> pcs s n = PDel a \<Longrightarrow>
    sched_step rnd N s (go n (PTop None) (s\<lparr>freed := (freed s)(a := freed s a \<or> delete_executed_taos (conf (rts s)))\<rparr>))"
| pop_ready: "ready_to_step N s n \<Longrightarrow> pcs s n = PReady \<Longrightarrow> try_pop_ready_task rnd n n r1 r2 (rts s) = Some (Some t, r) \<Longrightarrow>
    sched_step rnd N s (go n (PTop (Some t)) (s\<lparr>rts := r\<rparr>))"
| pop_ready_fault: "ready_to_step N s n \<Longrightarrow> pcs s n = PReady \<Longrightarrow> try_pop_ready_task rnd n n r1 r2 (rts s) = None \<Longrightarrow>
    sched_step rnd N s (go n PFault s)"
| no_ready_steal: "ready_to_step N s n \<Longrightarrow> pcs s n = PReady \<Longrightarrow> ready_q (rts s) n = [] \<Longrightarrow> may_steal (rts s) \<Longrightarrow>
    sched_step rnd N s (go n (PSteal 1) s)"
| no_ready: "ready_to_step N s n \<Longrightarrow> pcs s n = PReady \<Longrightarrow> ready_q (rts s) n = [] \<Longrightarrow>
    sched_step rnd N s (go n PFlushC s)"
| steal: "ready_to_step N s n \<Longrightarrow> pcs s n = PSteal k \<Longrightarrow> steal_core (rts s) n c \<Longrightarrow> c \<noteq> n \<Longrightarrow>
    try_pop_ready_task rnd c n r1 r2 (rts s) = Some (Some t, r) \<Longrightarrow>
    sched_step rnd N s (go n (PTop (Some t)) (s\<lparr>rts := r, total_steals := total_steals s + 1\<rparr>))"
| steal_fault: "ready_to_step N s n \<Longrightarrow> pcs s n = PSteal k \<Longrightarrow> steal_core (rts s) n c \<Longrightarrow> c \<noteq> n \<Longrightarrow>
    try_pop_ready_task rnd c n r1 r2 (rts s) = None \<Longrightarrow>
    sched_step rnd N s (go n PFault s)"
| steal_miss: "ready_to_step N s n \<Longrightarrow> pcs s n = PSteal k \<Longrightarrow> steal_core (rts s) n c \<Longrightarrow> c = n \<or> ready_q (rts s) c = [] \<Longrightarrow>
    sched_step rnd N s (go n (if k = 0 then PFlushC else PSteal (k - 1)) s)"
| count_completions: "ready_to_step N s n \<Longrightarrow> pcs s n = PFlushC \<Longrightarrow>
    sched_step rnd N s (go n PFlushP (s\<lparr>rts := flush_completions n (rts s)\<rparr>))"
| return_pool: "ready_to_step N s n \<Longrightarrow> pcs s n = PFlushP \<Longrightarrow>
    sched_step rnd N s (go n PCheck (s\<lparr>rts := flush_pool n (rts s)\<rparr>))"
| exit_loop: "ready_to_step N s n \<Longrightarrow> pcs s n = PCheck \<Longrightarrow> can_exit s \<Longrightarrow> pending_tasks (rts s) = 0 \<Longrightarrow>
    sched_step rnd N s (go n PDone s)"
| next_round: "ready_to_step N s n \<Longrightarrow> pcs s n = PCheck \<Longrightarrow> \<not> (can_exit s \<and> pending_tasks (rts s) = 0) \<Longrightarrow>
    sched_step rnd N s (go n (PTop None) s)"
| master_push: "unpushed s t \<Longrightarrow> q < XITAO_MAXTHREADS \<Longrightarrow>
    r = (if use_performance_modeling (conf (rts s)) then attach_ptt t (rts s) else rts s) \<Longrightarrow>
    sched_step rnd N s (s\<lparr>rts := insert_in_ready_queue t q r, unpushed := (unpushed s)(t := False)\<rparr>)"
| master_fini: "sched_step rnd N s (s\<lparr>can_exit := True\<rparr>)"

end
