(* ===== verification/Sched_Inv.thy ===== *)
theory Sched_Inv
  imports Sched_Model
begin

text \<open>
  The invariants of the scheduler. Each counts something over the workers: the token of a
  task (waiting for predecessors, to be pushed, in a ready queue, in a worker's hands, or
  sent to its place), the parts of an assembly's execution, the edges not yet followed,
  the completions not yet counted. A state in which a worker has failed is left out: a
  failed assertion ends the program.
\<close>

section \<open>What the operations change\<close>

lemma go_sel [simp]:
  "rts (go n p s) = rts s" "pcs (go n p s) = (pcs s)(n := p)" "freed (go n p s) = freed s"
  "can_exit (go n p s) = can_exit s" "unpushed (go n p s) = unpushed s" "began (go n p s) = began s"
  "ended (go n p s) = ended s" "place_of (go n p s) = place_of s" "committed (go n p s) = committed s"
  "finished (go n p s) = finished s" "total_steals (go n p s) = total_steals s"
  by (simp_all add: go_def)

lemma history_mold_form:
  assumes "history_mold_locally rnd n r1 r2 t r = Some r'"
  shows "\<exists>pt l w. r' = r\<lparr>ptts := pt, tasks := (tasks r)(t := (tasks r t)\<lparr>leader := l, width := w\<rparr>)\<rparr>"
proof -
  define Q where "Q r' \<longleftrightarrow> (\<exists>pt l w. r' = r\<lparr>ptts := pt, tasks := (tasks r)(t := (tasks r t)\<lparr>leader := l, width := w\<rparr>)\<rparr>)" for r'
  have q1: "Q (set_place t p r)" for p
    unfolding Q_def set_place_def upd_task_def by (intro exI [of _ "ptts r"]) auto
  have q2: "Q (set_place t p (upd_table h d r))" for p h d
    unfolding Q_def set_place_def upd_task_def upd_table_def by auto
  have q3: "Q (upd_table h d r)" for h d
    unfolding Q_def upd_table_def
    by (intro exI [of _ "(ptts r)\<lparr>pheap := (pheap (ptts r))(h \<mapsto> d)\<rparr>"] exI [of _ "leader (tasks r t)"]
        exI [of _ "width (tasks r t)"]) simp
  have q4: "Q r"
    unfolding Q_def by (intro exI [of _ "ptts r"] exI [of _ "leader (tasks r t)"] exI [of _ "width (tasks r t)"]) simp
  then have q5: "r = r' \<Longrightarrow> Q r'" by simp
  have "Q r'"
    using assms unfolding history_mold_locally_def
    by (auto simp: Let_def intro: q1 q2 q3 q4 q5 split: option.splits if_splits)
  then show ?thesis by (simp add: Q_def)
qed

lemma global_search_form:
  "global_search_ptt rnd t r = Some r' \<Longrightarrow> \<exists>l w. r' = r\<lparr>tasks := (tasks r)(t := (tasks r t)\<lparr>leader := l, width := w\<rparr>)\<rparr>"
  by (auto simp: global_search_ptt_def set_place_def upd_task_def)

lemma update_model_form: "update_performance_model rnd t l ticks w r = Some r' \<Longrightarrow> \<exists>pt. r' = r\<lparr>ptts := pt\<rparr>"
  by (auto simp: update_performance_model_def task_set_timetable_def upd_table_def split: option.splits if_splits)

lemma after_execute_form: "after_execute rnd n t ticks r = Some r' \<Longrightarrow> \<exists>pt. r' = r\<lparr>ptts := pt\<rparr>"
proof -
  assume "after_execute rnd n t ticks r = Some r'"
  moreover have "\<exists>pt. r = r\<lparr>ptts := pt\<rparr>" by (intro exI [of _ "ptts r"]) simp
  ultimately show ?thesis by (auto simp: after_execute_def split: if_splits dest: update_model_form)
qed

lemma before_execute_form: "before_execute n t r = Some r' \<Longrightarrow> \<exists>pt. r' = r\<lparr>ptts := pt\<rparr>"
proof -
  assume "before_execute n t r = Some r'"
  moreover have "\<exists>pt. r = r\<lparr>ptts := pt\<rparr>" by (intro exI [of _ "ptts r"]) simp
  ultimately show ?thesis
    by (auto simp: before_execute_def update_place_frequency_def upd_table_def split: if_splits option.splits)
qed

lemma attach_ptt_form: "\<exists>pt h. attach_ptt t r = r\<lparr>ptts := pt, tasks := (tasks r)(t := (tasks r t)\<lparr>ptt_handle := h\<rparr>)\<rparr>"
  by (auto simp: attach_ptt_def upd_task_def split: prod.splits)

lemma try_pop_ready_form:
  assumes "try_pop_ready_task rnd c n r1 r2 r = Some (Some t, r')"
  shows "ready_q r c \<noteq> [] \<and> t = last (ready_q r c) \<and> (\<exists>pt l w. r' = r\<lparr>ready_q := (ready_q r)(c := butlast (ready_q r c)),
     ptts := pt, tasks := (tasks r)(t := (tasks r t)\<lparr>leader := l, width := w\<rparr>)\<rparr>)"
proof -
  let ?r = "r\<lparr>ready_q := (ready_q r)(c := butlast (ready_q r c))\<rparr>"
  from assms have ne: "ready_q r c \<noteq> []" and t: "t = last (ready_q r c)"
    by (auto simp: try_pop_ready_task_def Let_def split: if_splits)
  have "\<exists>pt l w. r' = ?r\<lparr>ptts := pt, tasks := (tasks ?r)(t := (tasks ?r t)\<lparr>leader := l, width := w\<rparr>)\<rparr>"
  proof (cases "use_performance_modeling (conf r)")
    case True
    then have "history_mold_locally rnd n r1 r2 t ?r = Some r'"
      using assms ne t by (auto simp: try_pop_ready_task_def Let_def)
    from history_mold_form [OF this] show ?thesis .
  next
    case False
    then have "r' = ?r" using assms ne t by (auto simp: try_pop_ready_task_def Let_def)
    then show ?thesis
      by (intro exI [of _ "ptts r"] exI [of _ "leader (tasks r t)"] exI [of _ "width (tasks r t)"]) simp
  qed
  with ne t show ?thesis by simp
qed

lemma try_pop_assembly_form:
  "try_pop_assembly_task n r = Some (t, r') \<Longrightarrow>
   \<exists>ts. assembly_q r n = t # ts \<and> r' = r\<lparr>assembly_q := (assembly_q r)(n := ts)\<rparr>"
  by (auto simp: try_pop_assembly_task_def split: list.splits)

lemma default_leader_form:
  "\<exists>l. default_leader n t r = r\<lparr>tasks := (tasks r)(t := (tasks r t)\<lparr>leader := l\<rparr>)\<rparr> \<and> (0 \<le> leader (tasks r t) \<longrightarrow> l = leader (tasks r t))"
proof (cases "leader (tasks r t) < 0")
  case True
  then show ?thesis by (auto simp: default_leader_def upd_task_def)
next
  case False
  then show ?thesis by (intro exI [of _ "leader (tasks r t)"]) (simp add: default_leader_def)
qed

section \<open>Failures are for ever\<close>

definition fault_free :: "nat \<Rightarrow> sys \<Rightarrow> bool" where
  "fault_free N s \<longleftrightarrow> (\<forall>n<N. pcs s n \<noteq> PFault)"

lemma fault_stays: "sched_step rnd N s s' \<Longrightarrow> pcs s m = PFault \<Longrightarrow> pcs s' m = PFault"
  by (erule sched_step.cases; auto simp: fun_upd_apply)

lemma fault_free_back: "sched_step rnd N s s' \<Longrightarrow> fault_free N s' \<Longrightarrow> fault_free N s"
  using fault_stays unfolding fault_free_def by metis

lemma fault_free_reachable:
  "(sched_step rnd N)\<^sup>*\<^sup>* s s' \<Longrightarrow> fault_free N s' \<Longrightarrow> fault_free N s"
  by (induction rule: rtranclp_induct) (auto dest: fault_free_back)

section \<open>The steps in explicit form\<close>

text \<open>Positions in which a worker has no task in its hands.\<close>

fun empty_pc :: "pc \<Rightarrow> bool" where
  "empty_pc (PTop (Some t)) = False"
| "empty_pc (PTop None) = True"
| "empty_pc PStart = True"
| "empty_pc POff = True"
| "empty_pc PReady = True"
| "empty_pc (PSteal k) = True"
| "empty_pc PFlushC = True"
| "empty_pc PFlushP = True"
| "empty_pc PCheck = True"
| "empty_pc PDone = True"
| "empty_pc _ = False"

abbreviation upd_place :: "tid \<Rightarrow> int \<Rightarrow> int \<Rightarrow> rt \<Rightarrow> rt" where
  "upd_place t l w r \<equiv> r\<lparr>tasks := (tasks r)(t := (tasks r t)\<lparr>leader := l, width := w\<rparr>)\<rparr>"

lemma sched_step_explicit [consumes 2, case_names quiet simple_begin simple_end distribute push_one push_done
    release_one release_done pop_assembly come_in rendezvous execute_end measure_time count_out last_out not_last_out
    drop_edge drop_last_edge wake_global wake_ready commit_end delete_task take_ready count_completions return_pool
    master_push master_fini]:
  assumes "sched_step rnd N s s'" and "fault_free N s'"
    and c_quiet: "\<And>n p. n < N \<Longrightarrow> empty_pc (pcs s n) \<Longrightarrow> empty_pc p \<Longrightarrow> s' = go n p s
       \<Longrightarrow> p = PDone \<longrightarrow> pcs s n = PCheck \<and> can_exit s \<and> pending_tasks (rts s) = 0 \<Longrightarrow> P"
    and c_simple_begin: "\<And>n t. n < N \<Longrightarrow> pcs s n = PTop (Some t) \<Longrightarrow> kind (tasks (rts s) t) = TASK_SIMPLE \<Longrightarrow>
       s' = go n (PSimple t) (s\<lparr>began := bump t n (began s), place_of := (place_of s)(t \<mapsto> (int n, 1))\<rparr>) \<Longrightarrow> P"
    and c_simple_end: "\<And>n t. n < N \<Longrightarrow> pcs s n = PSimple t \<Longrightarrow>
       s' = go n (PCommit t (out (tasks (rts s) t))) (s\<lparr>ended := bump t n (ended s), committed := (committed s)(t := True)\<rparr>) \<Longrightarrow> P"
    and c_distribute: "\<And>n t l. n < N \<Longrightarrow> pcs s n = PTop (Some t) \<Longrightarrow> kind (tasks (rts s) t) = TASK_ASSEMBLY \<Longrightarrow>
       (0 \<le> leader (tasks (rts s) t) \<longrightarrow> l = leader (tasks (rts s) t)) \<Longrightarrow>
       (leader (tasks (rts s) t) < 0 \<longrightarrow> l = int n sdiv width (tasks (rts s) t) * width (tasks (rts s) t)) \<Longrightarrow>
       s' = go n (PIns t l ToTop) (s\<lparr>rts := upd_place t l (width (tasks (rts s) t)) (rts s),
         place_of := (place_of s)(t \<mapsto> (l, width (tasks (rts s) t)))\<rparr>) \<Longrightarrow> P"
    and c_push_one: "\<And>n t i c. n < N \<Longrightarrow> pcs s n = PIns t i c \<Longrightarrow> i < leader (tasks (rts s) t) + width (tasks (rts s) t) \<Longrightarrow>
       0 \<le> i \<Longrightarrow> i < cfg_nthreads (conf (rts s)) \<Longrightarrow>
       s' = go n (PIns t (i + 1) c)
         (s\<lparr>rts := (rts s)\<lparr>assembly_q := (assembly_q (rts s))(nat i := assembly_q (rts s) (nat i) @ [t])\<rparr>\<rparr>) \<Longrightarrow> P"
    and c_push_done: "\<And>n t i c. n < N \<Longrightarrow> pcs s n = PIns t i c \<Longrightarrow> leader (tasks (rts s) t) + width (tasks (rts s) t) \<le> i \<Longrightarrow>
       s' = go n (PRel t (leader (tasks (rts s) t)) c) s \<Longrightarrow> P"
    and c_release_one: "\<And>n t i c. n < N \<Longrightarrow> pcs s n = PRel t i c \<Longrightarrow> s' = go n (PRel t (i + 1) c) s \<Longrightarrow> P"
    and c_release_done: "\<And>n t i c. n < N \<Longrightarrow> pcs s n = PRel t i c \<Longrightarrow> s' = go n (resume c) s \<Longrightarrow> P"
    and c_pop_assembly: "\<And>n t ts. n < N \<Longrightarrow> pcs s n = PTop None \<Longrightarrow> assembly_q (rts s) n = t # ts \<Longrightarrow> kind (tasks (rts s) t) = TASK_ASSEMBLY \<Longrightarrow>
       s' = go n (PPop t) (s\<lparr>rts := (rts s)\<lparr>assembly_q := (assembly_q (rts s))(n := ts)\<rparr>\<rparr>) \<Longrightarrow> P"
    and c_come_in: "\<And>n t pt. n < N \<Longrightarrow> pcs s n = PPop t \<Longrightarrow> s' = go n (PWait t) (s\<lparr>rts := arrive t ((rts s)\<lparr>ptts := pt\<rparr>)\<rparr>) \<Longrightarrow> P"
    and c_rendezvous: "\<And>n t. n < N \<Longrightarrow> pcs s n = PWait t \<Longrightarrow> width (tasks (rts s) t) \<le> threads_in_tao (tasks (rts s) t) \<Longrightarrow>
       s' = go n (PRun t) (s\<lparr>began := bump t n (began s)\<rparr>) \<Longrightarrow> P"
    and c_execute_end: "\<And>n t. n < N \<Longrightarrow> pcs s n = PRun t \<Longrightarrow> s' = go n (PPerf t) (s\<lparr>ended := bump t n (ended s)\<rparr>) \<Longrightarrow> P"
    and c_measure_time: "\<And>n t pt. n < N \<Longrightarrow> pcs s n = PPerf t \<Longrightarrow> s' = go n (POut t) (s\<lparr>rts := (rts s)\<lparr>ptts := pt\<rparr>\<rparr>) \<Longrightarrow> P"
    and c_count_out: "\<And>n t. n < N \<Longrightarrow> pcs s n = POut t \<Longrightarrow>
       s' = go n (PCmp t (threads_out_tao (tasks (rts s) t) + 1)) (s\<lparr>rts := leave t (rts s)\<rparr>) \<Longrightarrow> P"
    and c_last_out: "\<And>n t. n < N \<Longrightarrow> pcs s n = PCmp t (width (tasks (rts s) t)) \<Longrightarrow>
       s' = go n (PCommit t (out (tasks (rts s) t))) (s\<lparr>committed := (committed s)(t := True)\<rparr>) \<Longrightarrow> P"
    and c_not_last_out: "\<And>n t v. n < N \<Longrightarrow> pcs s n = PCmp t v \<Longrightarrow> v \<noteq> width (tasks (rts s) t) \<Longrightarrow> s' = go n (PTop None) s \<Longrightarrow> P"
    and c_drop_edge: "\<And>n a b bs. n < N \<Longrightarrow> pcs s n = PCommit a (b # bs) \<Longrightarrow> refcount (tasks (rts s) b) \<noteq> 1 \<Longrightarrow>
       s' = go n (PCommit a bs) (s\<lparr>rts := drop_ref b (rts s)\<rparr>) \<Longrightarrow> P"
    and c_drop_last_edge: "\<And>n a b bs. n < N \<Longrightarrow> pcs s n = PCommit a (b # bs) \<Longrightarrow> refcount (tasks (rts s) b) = 1 \<Longrightarrow>
       s' = go n (PWake a b bs) (s\<lparr>rts := drop_ref b (rts s)\<rparr>) \<Longrightarrow> P"
    and c_wake_global: "\<And>n a b bs l w. n < N \<Longrightarrow> pcs s n = PWake a b bs \<Longrightarrow> goes_global b (rts s) \<Longrightarrow>
       s' = go n (PIns b l (ToCommit a bs)) (s\<lparr>rts := upd_place b l w (rts s), place_of := (place_of s)(b \<mapsto> (l, w))\<rparr>) \<Longrightarrow> P"
    and c_wake_ready: "\<And>n a b bs q. n < N \<Longrightarrow> pcs s n = PWake a b bs \<Longrightarrow> ready_index n (tasks (rts s) b) = Some q \<Longrightarrow>
       s' = go n (PCommit a bs) (s\<lparr>rts := insert_in_ready_queue b q (rts s)\<rparr>) \<Longrightarrow> P"
    and c_commit_end: "\<And>n a p. n < N \<Longrightarrow> pcs s n = PCommit a [] \<Longrightarrow> p = (if kind (tasks (rts s) a) = TASK_ASSEMBLY then PDel a else PTop None) \<Longrightarrow>
       s' = go n p (s\<lparr>rts := complete_one n (rts s), finished := (finished s)(a := True)\<rparr>) \<Longrightarrow> P"
    and c_delete_task: "\<And>n a f. n < N \<Longrightarrow> pcs s n = PDel a \<Longrightarrow> s' = go n (PTop None) (s\<lparr>freed := (freed s)(a := f)\<rparr>) \<Longrightarrow>
       (f \<longrightarrow> freed s a \<or> delete_executed_taos (conf (rts s))) \<Longrightarrow> P"
    and c_take_ready: "\<And>n c t pt l w k. n < N \<Longrightarrow> empty_pc (pcs s n) \<Longrightarrow> ready_q (rts s) c \<noteq> [] \<Longrightarrow> t = last (ready_q (rts s) c) \<Longrightarrow>
       s' = go n (PTop (Some t)) (s\<lparr>rts := upd_place t l w ((rts s)\<lparr>ptts := pt,
         ready_q := (ready_q (rts s))(c := butlast (ready_q (rts s) c))\<rparr>), total_steals := k\<rparr>) \<Longrightarrow> P"
    and c_count_completions: "\<And>n. n < N \<Longrightarrow> pcs s n = PFlushC \<Longrightarrow> s' = go n PFlushP (s\<lparr>rts := flush_completions n (rts s)\<rparr>) \<Longrightarrow> P"
    and c_return_pool: "\<And>n. n < N \<Longrightarrow> pcs s n = PFlushP \<Longrightarrow> s' = go n PCheck (s\<lparr>rts := flush_pool n (rts s)\<rparr>) \<Longrightarrow> P"
    and c_master_push: "\<And>t q pt h. unpushed s t \<Longrightarrow> q < XITAO_MAXTHREADS \<Longrightarrow>
       s' = s\<lparr>rts := insert_in_ready_queue t q ((rts s)\<lparr>ptts := pt, tasks := (tasks (rts s))(t := (tasks (rts s) t)\<lparr>ptt_handle := h\<rparr>)\<rparr>),
         unpushed := (unpushed s)(t := False)\<rparr> \<Longrightarrow> P"
    and c_master_fini: "s' = s\<lparr>can_exit := True\<rparr> \<Longrightarrow> P"
  shows P
proof -
  note R = ready_to_step_def
  have nf: False if "n < N" "pcs s' n = PFault" for n using assms(2) that by (simp add: fault_free_def)
  from assms(1) show P
  proof cases
    case (use_after_free n t)
    then show P using nf [of n] by (simp add: R)
  next
    case (start_off n)
    then show P by (intro c_quiet [of n]) (auto simp: R)
  next
    case (start_on n)
    then show P by (intro c_quiet [of n]) (auto simp: R)
  next
    case (simple_begin n t)
    show P by (rule c_simple_begin [where n = n and t = t]) (use simple_begin in \<open>auto simp: R\<close>)
  next
    case (simple_end n t)
    show P by (rule c_simple_end [where n = n and t = t]) (use simple_end in \<open>auto simp: R\<close>)
  next
    case (distribute n t r)
    let ?r = "rts s"
    define l where "l = leader (tasks (default_leader n t ?r) t)"
    have l: "0 \<le> leader (tasks ?r t) \<longrightarrow> l = leader (tasks ?r t)"
      "leader (tasks ?r t) < 0 \<longrightarrow> l = int n sdiv width (tasks ?r t) * width (tasks ?r t)"
      and eq: "default_leader n t ?r = upd_place t l (width (tasks ?r t)) ?r"
      by (auto simp: l_def default_leader_def upd_task_def)
    have "s' = go n (PIns t l ToTop) (s\<lparr>rts := upd_place t l (width (tasks ?r t)) ?r,
         place_of := (place_of s)(t \<mapsto> (l, width (tasks ?r t)))\<rparr>)"
      using distribute(1,6) by (simp add: eq place_now_def)
    then show P using distribute l by (intro c_distribute [of n t l]) (auto simp: R)
  next
    case (distribute_fault n t)
    then show P using nf [of n] by (simp add: R)
  next
    case (push_one n t i c)
    show P by (rule c_push_one [where n = n and t = t and i = i and c = c]) (use push_one in \<open>auto simp: R\<close>)
  next
    case (push_assert n t i c)
    then show P using nf [of n] by (simp add: R)
  next
    case (push_done n t i c)
    show P by (rule c_push_done [where n = n and t = t and i = i and c = c]) (use push_done in \<open>auto simp: R\<close>)
  next
    case (release_one n t i c)
    show P by (rule c_release_one [where n = n and t = t and i = i and c = c]) (use release_one in \<open>auto simp: R\<close>)
  next
    case (release_done n t i c)
    show P by (rule c_release_done [where n = n and t = t and i = i and c = c]) (use release_done in \<open>auto simp: R\<close>)
  next
    case (pop_assembly n t r)
    from try_pop_assembly_form [OF pop_assembly(4)] obtain ts where
      "assembly_q (rts s) n = t # ts" "r = (rts s)\<lparr>assembly_q := (assembly_q (rts s))(n := ts)\<rparr>" by auto
    with pop_assembly show P by (intro c_pop_assembly [of n t ts]) (auto simp: R)
  next
    case (pop_wrong_kind n t r)
    then show P using nf [of n] by (simp add: R)
  next
    case (no_assembly n)
    then show P by (intro c_quiet [of n]) (auto simp: R)
  next
    case (come_in n t r)
    from before_execute_form [OF come_in(4)] obtain pt where "r = (rts s)\<lparr>ptts := pt\<rparr>" by auto
    with come_in show P by (intro c_come_in [of n t pt]) (auto simp: R)
  next
    case (come_in_fault n t)
    then show P using nf [of n] by (simp add: R)
  next
    case (rendezvous n t)
    show P by (rule c_rendezvous [where n = n and t = t]) (use rendezvous in \<open>auto simp: R\<close>)
  next
    case (execute_end n t)
    show P by (rule c_execute_end [where n = n and t = t]) (use execute_end in \<open>auto simp: R\<close>)
  next
    case (measure_time n t ticks r)
    from after_execute_form [OF measure_time(4)] obtain pt where "r = (rts s)\<lparr>ptts := pt\<rparr>" by auto
    with measure_time show P by (intro c_measure_time [of n t pt]) (auto simp: R)
  next
    case (measure_fault n t ticks)
    then show P using nf [of n] by (simp add: R)
  next
    case (count_out n t)
    show P by (rule c_count_out [where n = n and t = t]) (use count_out in \<open>auto simp: R\<close>)
  next
    case (last_out n t v)
    show P by (rule c_last_out [where n = n and t = t]) (use last_out in \<open>auto simp: R\<close>)
  next
    case (not_last_out n t v)
    show P by (rule c_not_last_out [where n = n and t = t and v = v]) (use not_last_out in \<open>auto simp: R\<close>)
  next
    case (drop_edge n a b bs)
    show P by (rule c_drop_edge [where n = n and a = a and b = b and bs = bs]) (use drop_edge in \<open>auto simp: R\<close>)
  next
    case (drop_last_edge n a b bs)
    show P by (rule c_drop_last_edge [where n = n and a = a and b = b and bs = bs]) (use drop_last_edge in \<open>auto simp: R\<close>)
  next
    case (wake_global n a b bs r)
    from global_search_form [OF wake_global(5)] obtain l w where "r = upd_place b l w (rts s)" by auto
    with wake_global show P by (intro c_wake_global [of n a b bs l w]) (auto simp: R place_now_def)
  next
    case (wake_global_fault n a b bs)
    then show P using nf [of n] by (simp add: R)
  next
    case (wake_ready n a b bs q)
    show P by (rule c_wake_ready [where n = n and a = a and b = b and bs = bs and q = q]) (use wake_ready in \<open>auto simp: R\<close>)
  next
    case (wake_ready_fault n a b bs)
    then show P using nf [of n] by (simp add: R)
  next
    case (commit_end n a)
    show P by (rule c_commit_end [where n = n and a = a]) (use commit_end in \<open>auto simp: R\<close>)
  next
    case (delete_task n a)
    show P by (rule c_delete_task [where n = n and a = a]) (use delete_task in \<open>auto simp: R\<close>)
  next
    case (pop_ready n r1 r2 t r)
    from try_pop_ready_form [OF pop_ready(4)] obtain pt l w where ne: "ready_q (rts s) n \<noteq> []" "t = last (ready_q (rts s) n)"
      and r: "r = (rts s)\<lparr>ready_q := (ready_q (rts s))(n := butlast (ready_q (rts s) n)), ptts := pt,
        tasks := (tasks (rts s))(t := (tasks (rts s) t)\<lparr>leader := l, width := w\<rparr>)\<rparr>" by auto
    show P by (rule c_take_ready [OF _ _ ne, where n = n and pt = pt and l = l and w = w and k = "total_steals s"]) (use pop_ready r in \<open>auto simp: R go_def\<close>)
  next
    case (pop_ready_fault n r1 r2)
    then show P using nf [of n] by (simp add: R)
  next
    case (no_ready_steal n)
    then show P by (intro c_quiet [of n]) (auto simp: R)
  next
    case (no_ready n)
    then show P by (intro c_quiet [of n]) (auto simp: R)
  next
    case (steal n k c r1 r2 t r)
    from try_pop_ready_form [OF steal(6)] obtain pt l w where ne: "ready_q (rts s) c \<noteq> []" "t = last (ready_q (rts s) c)"
      and r: "r = (rts s)\<lparr>ready_q := (ready_q (rts s))(c := butlast (ready_q (rts s) c)), ptts := pt,
        tasks := (tasks (rts s))(t := (tasks (rts s) t)\<lparr>leader := l, width := w\<rparr>)\<rparr>" by auto
    show P by (rule c_take_ready [OF _ _ ne, where n = n and pt = pt and l = l and w = w and k = "total_steals s + 1"]) (use steal r in \<open>auto simp: R go_def\<close>)
  next
    case (steal_fault n k c r1 r2)
    then show P using nf [of n] by (simp add: R)
  next
    case (steal_miss n k c)
    then show P by (intro c_quiet [of n]) (auto simp: R split: if_splits)
  next
    case (count_completions n)
    show P by (rule c_count_completions [where n = n]) (use count_completions in \<open>auto simp: R\<close>)
  next
    case (return_pool n)
    show P by (rule c_return_pool [where n = n]) (use return_pool in \<open>auto simp: R\<close>)
  next
    case (exit_loop n)
    then show P by (intro c_quiet [of n]) (auto simp: R)
  next
    case (next_round n)
    then show P by (intro c_quiet [of n]) (auto simp: R)
  next
    case (master_push t q r)
    obtain pt h where "attach_ptt t (rts s) = (rts s)\<lparr>ptts := pt, tasks := (tasks (rts s))(t := (tasks (rts s) t)\<lparr>ptt_handle := h\<rparr>)\<rparr>"
      using attach_ptt_form by blast
    moreover have "rts s = (rts s)\<lparr>ptts := ptts (rts s), tasks := (tasks (rts s))(t := (tasks (rts s) t)\<lparr>ptt_handle := ptt_handle (tasks (rts s) t)\<rparr>)\<rparr>"
      by simp
    ultimately have "\<exists>pt h. r = (rts s)\<lparr>ptts := pt, tasks := (tasks (rts s))(t := (tasks (rts s) t)\<lparr>ptt_handle := h\<rparr>)\<rparr>"
      using master_push(4) by (metis (full_types))
    then obtain pt' h' where "r = (rts s)\<lparr>ptts := pt', tasks := (tasks (rts s))(t := (tasks (rts s) t)\<lparr>ptt_handle := h'\<rparr>)\<rparr>" by blast
    with master_push show P by (intro c_master_push [where t = t and q = q and pt = pt' and h = h']) auto
  next
    case master_fini
    then show P by (rule c_master_fini)
  qed
qed

section \<open>What is counted\<close>

text \<open>The task a worker holds before sending it to its place.\<close>

fun held :: "tid \<Rightarrow> pc \<Rightarrow> int" where
  "held t (PTop (Some u)) = (if u = t then 1 else 0)"
| "held t (PWake a b bs) = (if b = t then 1 else 0)"
| "held t _ = 0"

text \<open>The pushes of task \<open>t\<close> to the queue of thread \<open>j\<close> still to be done.\<close>

fun to_push :: "tid \<Rightarrow> nat \<Rightarrow> pc \<Rightarrow> int" where
  "to_push t j (PIns u i c) = (if u = t \<and> i \<le> int j then 1 else 0)"
| "to_push t j _ = 0"

text \<open>The task has been taken up by the worker, is being executed, has been executed.\<close>

fun busy :: "tid \<Rightarrow> pc \<Rightarrow> int" where
  "busy t (PPop u) = (if u = t then 1 else 0)"
| "busy t (PWait u) = (if u = t then 1 else 0)"
| "busy t (PRun u) = (if u = t then 1 else 0)"
| "busy t (PSimple u) = (if u = t then 1 else 0)"
| "busy t _ = 0"

fun running :: "tid \<Rightarrow> pc \<Rightarrow> int" where
  "running t (PRun u) = (if u = t then 1 else 0)"
| "running t (PSimple u) = (if u = t then 1 else 0)"
| "running t _ = 0"

fun arrived_at :: "tid \<Rightarrow> pc \<Rightarrow> int" where
  "arrived_at t (PWait u) = (if u = t then 1 else 0)"
| "arrived_at t _ = 0"

fun leaving :: "tid \<Rightarrow> pc \<Rightarrow> int" where
  "leaving t (PPerf u) = (if u = t then 1 else 0)"
| "leaving t (POut u) = (if u = t then 1 else 0)"
| "leaving t _ = 0"

fun comparing :: "tid \<Rightarrow> int \<Rightarrow> pc \<Rightarrow> int" where
  "comparing t w (PCmp u v) = (if u = t \<and> v = w then 1 else 0)"
| "comparing t w _ = 0"

text \<open>The completion a worker is in, and the edges to \<open>t\<close> it has still to follow.\<close>

fun cont_task :: "tid \<Rightarrow> cont \<Rightarrow> int" where
  "cont_task t ToTop = 0"
| "cont_task t (ToCommit a bs) = (if a = t then 1 else 0)"

fun cont_edges :: "tid \<Rightarrow> cont \<Rightarrow> int" where
  "cont_edges t ToTop = 0"
| "cont_edges t (ToCommit a bs) = occ t bs"

fun completing :: "tid \<Rightarrow> pc \<Rightarrow> int" where
  "completing t (PCommit a bs) = (if a = t then 1 else 0)"
| "completing t (PWake a b bs) = (if a = t then 1 else 0)"
| "completing t (PIns u i c) = cont_task t c"
| "completing t (PRel u i c) = cont_task t c"
| "completing t _ = 0"

fun edges_left :: "tid \<Rightarrow> pc \<Rightarrow> int" where
  "edges_left t (PCommit a bs) = occ t bs"
| "edges_left t (PWake a b bs) = occ t bs"
| "edges_left t (PIns u i c) = cont_edges t c"
| "edges_left t (PRel u i c) = cont_edges t c"
| "edges_left t _ = 0"

lemma cont_nonneg [simp]: "0 \<le> cont_task t c" "0 \<le> cont_edges t c"
  by (cases c; simp)+

lemma counts_nonneg [simp]:
  "0 \<le> held t p" "0 \<le> to_push t j p" "0 \<le> busy t p" "0 \<le> running t p" "0 \<le> arrived_at t p" "0 \<le> leaving t p"
  "0 \<le> comparing t w p" "0 \<le> completing t p" "0 \<le> edges_left t p"
  subgoal by (induction t p rule: held.induct) auto
  subgoal by (cases p) auto
  subgoal by (cases p) auto
  subgoal by (cases p) auto
  subgoal by (cases p) auto
  subgoal by (cases p) auto
  subgoal by (cases p) auto
  subgoal by (cases p) auto
  subgoal by (cases p) auto
  done

lemma empty_counts [simp]:
  assumes "empty_pc p"
  shows "held t p = 0" "to_push t j p = 0" "busy t p = 0" "running t p = 0" "arrived_at t p = 0" "leaving t p = 0"
    "comparing t w p = 0" "completing t p = 0" "edges_left t p = 0"
  using assms by (induction p rule: empty_pc.induct; simp)+

lemma resume_counts [simp]:
  "held t (resume c) = 0" "to_push t j (resume c) = 0" "busy t (resume c) = 0" "running t (resume c) = 0"
  "arrived_at t (resume c) = 0" "leaving t (resume c) = 0" "comparing t w (resume c) = 0"
  "completing t (resume c) = cont_task t c" "edges_left t (resume c) = cont_edges t c"
  by (cases c; simp)+

abbreviation in_workers :: "nat \<Rightarrow> (pc \<Rightarrow> int) \<Rightarrow> sys \<Rightarrow> int" where
  "in_workers N g s \<equiv> tsum N g (pcs s)"

lemma in_workers_nonneg: "(\<And>p. 0 \<le> g p) \<Longrightarrow> 0 \<le> in_workers N g s"
  by (rule tsum_nonneg)

lemma in_workers_pos: "(\<And>p. 0 \<le> g p) \<Longrightarrow> n < N \<Longrightarrow> g (pcs s n) \<le> in_workers N g s"
  by (rule tsum_member_le)

section \<open>Nothing but the dynamic part of a task changes\<close>

lemma arrive_leave_sel [simp]:
  "next_task (arrive t r) = next_task r" "next_task (leave t r) = next_task r"
  "conf (arrive t r) = conf r" "conf (leave t r) = conf r" "lay (arrive t r) = lay r" "lay (leave t r) = lay r"
  "ready_q (arrive t r) = ready_q r" "ready_q (leave t r) = ready_q r"
  "assembly_q (arrive t r) = assembly_q r" "assembly_q (leave t r) = assembly_q r"
  "pending_tasks (arrive t r) = pending_tasks r" "pending_tasks (leave t r) = pending_tasks r"
  "task_pool (arrive t r) = task_pool r" "task_pool (leave t r) = task_pool r"
  "task_completions (arrive t r) = task_completions r" "task_completions (leave t r) = task_completions r"
  "tasks (arrive t r) = (tasks r)(t := (tasks r t)\<lparr>threads_in_tao := threads_in_tao (tasks r t) + 1\<rparr>)"
  "tasks (leave t r) = (tasks r)(t := (tasks r t)\<lparr>threads_out_tao := threads_out_tao (tasks r t) + 1\<rparr>)"
  by (simp_all add: arrive_def leave_def)

lemma tasks_drop_ref: "tasks (drop_ref b r) = (tasks r)(b := (tasks r b)\<lparr>refcount := refcount (tasks r b) - 1\<rparr>)"
  by (simp add: drop_ref_def)

lemma complete_one_sel [simp]:
  "tasks (complete_one n r) = tasks r" "next_task (complete_one n r) = next_task r" "conf (complete_one n r) = conf r"
  "lay (complete_one n r) = lay r" "ready_q (complete_one n r) = ready_q r" "assembly_q (complete_one n r) = assembly_q r"
  "pending_tasks (complete_one n r) = pending_tasks r" "task_pool (complete_one n r) = task_pool r"
  "task_completions (complete_one n r) = (task_completions r)(n := task_completions r n + 1)"
  by (simp_all add: complete_one_def)

lemma flush_sel [simp]:
  "tasks (flush_completions n r) = tasks r" "next_task (flush_completions n r) = next_task r" "conf (flush_completions n r) = conf r"
  "lay (flush_completions n r) = lay r" "ready_q (flush_completions n r) = ready_q r" "assembly_q (flush_completions n r) = assembly_q r"
  "task_pool (flush_completions n r) = task_pool r"
  "tasks (flush_pool n r) = tasks r" "next_task (flush_pool n r) = next_task r" "conf (flush_pool n r) = conf r"
  "lay (flush_pool n r) = lay r" "ready_q (flush_pool n r) = ready_q r" "assembly_q (flush_pool n r) = assembly_q r"
  "task_completions (flush_pool n r) = task_completions r"
  by (simp_all add: flush_completions_def flush_pool_def)

lemma step_static:
  assumes "sched_step rnd N s s'" and "fault_free N s'"
  shows "next_task (rts s') = next_task (rts s)" "out (tasks (rts s') t) = out (tasks (rts s) t)"
    "kind (tasks (rts s') t) = kind (tasks (rts s) t)" "conf (rts s') = conf (rts s)" "lay (rts s') = lay (rts s)"
  using assms by (cases rule: sched_step_explicit; simp add: tasks_drop_ref)+

end
