(* ===== verification/Sched_Count.thy ===== *)
theory Sched_Count
  imports Sched_Inv
begin

text \<open>
  The counting invariants of the scheduler and the proof that every step keeps them.
\<close>

section \<open>The invariants\<close>

text \<open>
  A reference count is the number of edges from tasks whose completion has not begun plus
  the edges that completions in progress have not followed yet.
\<close>

definition edges_into :: "sys \<Rightarrow> tid \<Rightarrow> int" where
  "edges_into s t = (\<Sum>a<next_task (rts s). if committed s a then 0 else occ t (out (tasks (rts s) a)))"

definition inv_ref :: "nat \<Rightarrow> sys \<Rightarrow> bool" where
  "inv_ref N s \<longleftrightarrow> (\<forall>t. (if t < next_task (rts s) then refcount (tasks (rts s) t) else 0)
     = edges_into s t + in_workers N (edges_left t) s)"

text \<open>A completion that has begun is in the hands of one worker until it is counted.\<close>

definition inv_commit :: "nat \<Rightarrow> sys \<Rightarrow> bool" where
  "inv_commit N s \<longleftrightarrow> (\<forall>t. in_workers N (completing t) s + (if finished s t then 1 else 0) = (if committed s t then 1 else 0)
     \<and> (committed s t \<longrightarrow> place_of s t \<noteq> None))"

text \<open>Every task has one token.\<close>

definition waiting :: "sys \<Rightarrow> tid \<Rightarrow> int" where
  "waiting s t = (if t < next_task (rts s) \<and> 0 < refcount (tasks (rts s) t) then 1 else 0)"

definition in_ready :: "sys \<Rightarrow> tid \<Rightarrow> int" where
  "in_ready s t = tsum XITAO_MAXTHREADS (occ t) (ready_q (rts s))"

definition inv_token :: "nat \<Rightarrow> sys \<Rightarrow> bool" where
  "inv_token N s \<longleftrightarrow> (\<forall>t. waiting s t + (if unpushed s t then 1 else 0) + in_ready s t + in_workers N (held t) s
     + (if place_of s t = None then 0 else 1) = (if t < next_task (rts s) then 1 else 0))
     \<and> (\<forall>q\<ge>XITAO_MAXTHREADS. ready_q (rts s) q = [])"

text \<open>
  A task that was sent to a place has, for each thread of the place, one copy that is to
  be pushed, in the thread's assembly queue, taken up by the thread, or executed.
\<close>

definition sent_to :: "sys \<Rightarrow> tid \<Rightarrow> nat \<Rightarrow> bool" where
  "sent_to s t n \<longleftrightarrow> (\<exists>p. place_of s t = Some p \<and> in_place p n)"

definition inv_copies :: "nat \<Rightarrow> sys \<Rightarrow> bool" where
  "inv_copies N s \<longleftrightarrow> (\<forall>t n. (if sent_to s t n then in_workers N (to_push t n) s else 0) + occ t (assembly_q (rts s) n)
     + (if n < N then busy t (pcs s n) else 0) + ended s t n = (if sent_to s t n then 1 else 0)
     \<and> 0 \<le> ended s t n)"

definition inv_began :: "nat \<Rightarrow> sys \<Rightarrow> bool" where
  "inv_began N s \<longleftrightarrow> (\<forall>t n. began s t n = ended s t n + (if n < N then running t (pcs s n) else 0))"

text \<open>What the position of a worker says about the task it works on.\<close>

fun pc_ok :: "sys \<Rightarrow> nat \<Rightarrow> pc \<Rightarrow> bool" where
  "pc_ok s n (PSimple t) \<longleftrightarrow> kind (tasks (rts s) t) = TASK_SIMPLE \<and> place_of s t = Some (int n, 1)"
| "pc_ok s n (PIns t i c) \<longleftrightarrow> place_of s t = Some (place_now t (rts s)) \<and> leader (tasks (rts s) t) \<le> i"
| "pc_ok s n (PPop t) \<longleftrightarrow> kind (tasks (rts s) t) = TASK_ASSEMBLY \<and> place_of s t \<noteq> None"
| "pc_ok s n (PWait t) \<longleftrightarrow> kind (tasks (rts s) t) = TASK_ASSEMBLY \<and> place_of s t \<noteq> None"
| "pc_ok s n (PRun t) \<longleftrightarrow> kind (tasks (rts s) t) = TASK_ASSEMBLY \<and> place_of s t \<noteq> None"
| "pc_ok s n (PPerf t) \<longleftrightarrow> kind (tasks (rts s) t) = TASK_ASSEMBLY \<and> place_of s t \<noteq> None"
| "pc_ok s n (POut t) \<longleftrightarrow> kind (tasks (rts s) t) = TASK_ASSEMBLY \<and> place_of s t \<noteq> None"
| "pc_ok s n (PCmp t v) \<longleftrightarrow> kind (tasks (rts s) t) = TASK_ASSEMBLY \<and> place_of s t \<noteq> None
     \<and> 1 \<le> v \<and> v \<le> threads_out_tao (tasks (rts s) t)"
| "pc_ok s n (PDel t) \<longleftrightarrow> kind (tasks (rts s) t) = TASK_ASSEMBLY \<and> finished s t"
| "pc_ok s n _ \<longleftrightarrow> True"

definition inv_pc :: "nat \<Rightarrow> sys \<Rightarrow> bool" where
  "inv_pc N s \<longleftrightarrow> (\<forall>n<N. pc_ok s n (pcs s n))
     \<and> (\<forall>t p. place_of s t = Some p \<and> kind (tasks (rts s) t) = TASK_ASSEMBLY \<longrightarrow> place_now t (rts s) = p)
     \<and> (\<forall>t<next_task (rts s). 0 \<le> threads_out_tao (tasks (rts s) t))"

text \<open>The two counters of an assembly, and who sees the last count.\<close>

definition inv_out :: "nat \<Rightarrow> sys \<Rightarrow> bool" where
  "inv_out N s \<longleftrightarrow> (\<forall>t. kind (tasks (rts s) t) = TASK_ASSEMBLY \<and> t < next_task (rts s) \<longrightarrow>
     threads_out_tao (tasks (rts s) t) + in_workers N (leaving t) s = (\<Sum>n<N. ended s t n))"

definition inv_in :: "nat \<Rightarrow> sys \<Rightarrow> bool" where
  "inv_in N s \<longleftrightarrow> (\<forall>t. kind (tasks (rts s) t) = TASK_ASSEMBLY \<and> t < next_task (rts s) \<longrightarrow>
     threads_in_tao (tasks (rts s) t) = (\<Sum>n<N. began s t n) + in_workers N (arrived_at t) s)"

definition inv_last :: "nat \<Rightarrow> sys \<Rightarrow> bool" where
  "inv_last N s \<longleftrightarrow> (\<forall>t. if kind (tasks (rts s) t) = TASK_ASSEMBLY
     then t < next_task (rts s) \<longrightarrow> in_workers N (comparing t (width (tasks (rts s) t))) s + (if committed s t then 1 else 0)
       = (if 1 \<le> threads_out_tao (tasks (rts s) t) \<and> width (tasks (rts s) t) \<le> threads_out_tao (tasks (rts s) t) then 1 else 0)
     else (if committed s t then 1 else 0) = (\<Sum>n<N. ended s t n))"

text \<open>A simple task that has run ran on the worker it was sent to.\<close>

definition inv_simple :: "sys \<Rightarrow> bool" where
  "inv_simple s \<longleftrightarrow> (\<forall>t m. kind (tasks (rts s) t) = TASK_SIMPLE \<and> 0 < ended s t m \<longrightarrow> place_of s t = Some (int m, 1))"

text \<open>The pending count covers the pools, the completions not yet counted, and the other tasks.\<close>

definition unfinished :: "sys \<Rightarrow> int" where
  "unfinished s = (\<Sum>a<next_task (rts s). if finished s a then 0 else 1)"

definition inv_pending :: "sys \<Rightarrow> bool" where
  "inv_pending s \<longleftrightarrow> pending_tasks (rts s) = pool_total (task_pool (rts s)) + pool_total (task_completions (rts s)) + unfinished s
     \<and> (\<forall>n<XITAO_MAXTHREADS. 0 \<le> task_pool (rts s) n \<and> 0 \<le> task_completions (rts s) n)"

definition inv_freed :: "sys \<Rightarrow> bool" where
  "inv_freed s \<longleftrightarrow> (\<forall>t. freed s t \<longrightarrow> finished s t \<and> kind (tasks (rts s) t) = TASK_ASSEMBLY)"

section \<open>Consequences\<close>

lemma waiting_nonneg: "0 \<le> waiting s t" by (simp add: waiting_def)

lemma in_ready_nonneg: "0 \<le> in_ready s t"
  unfolding in_ready_def by (rule tsum_nonneg) simp

lemma token_eq:
  assumes "inv_token N s"
  shows "in_workers N (held t) s = (if t < next_task (rts s) then 1 else 0) - waiting s t
     - (if unpushed s t then 1 else 0) - in_ready s t - (if place_of s t = None then 0 else 1)"
  using assms unfolding inv_token_def by (smt (verit))

text \<open>Where the token of a task is at one place, it is at no other.\<close>

lemma token_known:
  assumes "inv_token N s"
    and "1 \<le> waiting s t + (if unpushed s t then 1 else 0) + in_ready s t + in_workers N (held t) s + (if place_of s t = None then 0 else 1)"
  shows "t < next_task (rts s)"
    and "waiting s t + (if unpushed s t then 1 else 0) + in_ready s t + in_workers N (held t) s + (if place_of s t = None then 0 else 1) = 1"
  using assms unfolding inv_token_def by (smt (verit))+

lemma held_by:
  assumes "inv_token N s" and "n < N" and "held t (pcs s n) = 1"
  shows "place_of s t = None" "t < next_task (rts s)" "waiting s t = 0" "\<not> unpushed s t" "in_ready s t = 0"
    "in_workers N (held t) s = 1"
proof -
  have h: "1 \<le> in_workers N (held t) s" using in_workers_pos [of "held t" n N s] assms(2,3) by simp
  note nn = waiting_nonneg [of s t] in_ready_nonneg [of s t]
  have one: "1 \<le> waiting s t + (if unpushed s t then 1 else 0) + in_ready s t + in_workers N (held t) s + (if place_of s t = None then 0 else 1)"
    using h nn by (smt (verit))
  note k = token_known [OF assms(1) one]
  from k(1) show "t < next_task (rts s)" .
  from k(2) h nn show "place_of s t = None" "waiting s t = 0" "\<not> unpushed s t" "in_ready s t = 0" "in_workers N (held t) s = 1"
    by (smt (verit))+
qed

lemma sent_known:
  assumes "inv_token N s" and "place_of s t \<noteq> None"
  shows "t < next_task (rts s)" "waiting s t = 0" "\<not> unpushed s t" "in_ready s t = 0" "in_workers N (held t) s = 0"
proof -
  note nn = waiting_nonneg [of s t] in_ready_nonneg [of s t] in_workers_nonneg [of "held t" N s, OF counts_nonneg(1)]
  have one: "1 \<le> waiting s t + (if unpushed s t then 1 else 0) + in_ready s t + in_workers N (held t) s + (if place_of s t = None then 0 else 1)"
    using assms(2) nn by (smt (verit))
  note k = token_known [OF assms(1) one]
  from k(1) show "t < next_task (rts s)" .
  from k(2) assms(2) nn show "waiting s t = 0" "\<not> unpushed s t" "in_ready s t = 0" "in_workers N (held t) s = 0"
    by (smt (verit))+
qed

text \<open>The invariant of the references is kept when the completing task is known and new.\<close>

lemma edges_into_commit:
  assumes "t < next_task (rts s)" and "\<not> committed s t"
    and "next_task (rts s') = next_task (rts s)" and "\<And>a. out (tasks (rts s') a) = out (tasks (rts s) a)"
    and "committed s' = (committed s)(t := True)"
  shows "edges_into s' b = edges_into s b - occ b (out (tasks (rts s) t))"
proof -
  let ?g = "\<lambda>a. if committed s a then 0 else occ b (out (tasks (rts s) a))"
  have "edges_into s' b = tsum (next_task (rts s)) (\<lambda>x. x) (?g(t := 0))"
    unfolding edges_into_def tsum_def assms(3-5) by (rule sum.cong) auto
  moreover have "edges_into s b = tsum (next_task (rts s)) (\<lambda>x. x) ?g"
    by (simp add: edges_into_def tsum_def)
  ultimately show ?thesis using assms(1,2) by simp
qed

lemma edges_into_same:
  assumes "next_task (rts s') = next_task (rts s)" and "\<And>a. out (tasks (rts s') a) = out (tasks (rts s) a)"
    and "committed s' = committed s"
  shows "edges_into s' b = edges_into s b"
  unfolding edges_into_def assms ..

definition commit_fresh :: "nat \<Rightarrow> sys \<Rightarrow> bool" where
  "commit_fresh N s \<longleftrightarrow> (\<forall>n<N. \<forall>t. pcs s n = PSimple t \<or> pcs s n = PCmp t (width (tasks (rts s) t)) \<longrightarrow>
     t < next_task (rts s) \<and> \<not> committed s t \<and> place_of s t \<noteq> None)"

lemma edges_into_nonneg: "0 \<le> edges_into s t"
  unfolding edges_into_def by (rule sum_nonneg) auto

lemma inv_ref_step:
  assumes "sched_step rnd N s s'" and "fault_free N s'" and "inv_ref N s" and "commit_fresh N s"
  shows "inv_ref N s'"
proof -
  have ref: "in_workers N (edges_left t) s = (if t < next_task (rts s) then refcount (tasks (rts s) t) else 0) - edges_into s t" for t
    using assms(3) unfolding inv_ref_def by (smt (verit))
  have known: "b < next_task (rts s)" if "n < N" "pcs s n = PCommit a (b # bs)" for n a b bs
  proof -
    have "1 \<le> edges_left b (pcs s n)" using that by simp
    then have "1 \<le> in_workers N (edges_left b) s" using in_workers_pos [of "edges_left b" n N s] that(1) by simp
    then show ?thesis using ref [of b] edges_into_nonneg [of s b] by (smt (verit))
  qed
  have fresh: "t < next_task (rts s)" "\<not> committed s t"
    if "n < N" "pcs s n = PSimple t \<or> pcs s n = PCmp t (width (tasks (rts s) t))" for n t
    using assms(4) that by (auto simp: commit_fresh_def)
  note static = step_static [OF assms(1,2)]
  from assms(1,2) show ?thesis
  proof (cases rule: sched_step_explicit)
    case (simple_end n t)
    have "edges_into s' b = edges_into s b - occ b (out (tasks (rts s) t))" for b
      by (rule edges_into_commit [OF fresh]) (use simple_end static in auto)
    then show ?thesis using simple_end unfolding inv_ref_def by (simp add: ref)
  next
    case (last_out n t)
    have "edges_into s' b = edges_into s b - occ b (out (tasks (rts s) t))" for b
      by (rule edges_into_commit [OF fresh]) (use last_out static in auto)
    then show ?thesis using last_out unfolding inv_ref_def by (simp add: ref)
  next
    case (drop_edge n a b bs)
    then have "edges_into s' t = edges_into s t" for t by (intro edges_into_same) (use static in auto)
    then show ?thesis using drop_edge known [OF drop_edge(1,2)] unfolding inv_ref_def by (auto simp: tasks_drop_ref ref)
  next
    case (drop_last_edge n a b bs)
    then have "edges_into s' t = edges_into s t" for t by (intro edges_into_same) (use static in auto)
    then show ?thesis using drop_last_edge known [OF drop_last_edge(1,2)] unfolding inv_ref_def by (auto simp: tasks_drop_ref ref)
  qed (use edges_into_same [of s' s] static in \<open>simp_all add: inv_ref_def ref\<close>)
qed

lemma inv_commit_step:
  assumes "sched_step rnd N s s'" and "fault_free N s'" and "inv_commit N s" and "commit_fresh N s"
  shows "inv_commit N s'"
proof -
  have com: "in_workers N (completing t) s = (if committed s t then 1 else 0) - (if finished s t then 1 else 0)" for t
    using assms(3) unfolding inv_commit_def by (smt (verit))
  have placed: "committed s t \<Longrightarrow> place_of s t \<noteq> None" for t using assms(3) by (simp add: inv_commit_def)
  have fresh: "\<not> committed s t \<and> place_of s t \<noteq> None"
    if "n < N" "pcs s n = PSimple t \<or> pcs s n = PCmp t (width (tasks (rts s) t))" for n t
    using assms(4) that by (auto simp: commit_fresh_def)
  have open_one: "\<not> finished s a" if "n < N" "completing a (pcs s n) = 1" for n a
    using in_workers_pos [of "completing a" n N s] that com [of a] by (auto split: if_splits)
  from assms(1,2) show ?thesis
  proof (cases rule: sched_step_explicit)
    case (simple_end n t)
    then show ?thesis using fresh [of n t] placed unfolding inv_commit_def by (auto simp: com)
  next
    case (last_out n t)
    then show ?thesis using fresh [of n t] placed unfolding inv_commit_def by (auto simp: com)
  next
    case (commit_end n a p)
    then show ?thesis using open_one [of n a] placed unfolding inv_commit_def by (auto simp: com)
  qed (use placed in \<open>auto simp: inv_commit_def com\<close>)
qed

section \<open>The token\<close>

lemma in_ready_upd:
  "ready_q (rts s') = (ready_q (rts s))(q := xs) \<Longrightarrow> q < XITAO_MAXTHREADS \<Longrightarrow>
   in_ready s' t = in_ready s t - occ t (ready_q (rts s) q) + occ t xs"
  by (simp add: in_ready_def)

lemma ref_of_edge:
  assumes "inv_ref N s" and "n < N" and "pcs s n = PCommit a (b # bs)"
  shows "b < next_task (rts s)" "1 \<le> refcount (tasks (rts s) b)"
proof -
  have "1 \<le> edges_left b (pcs s n)" using assms(3) by simp
  then have "1 \<le> in_workers N (edges_left b) s" using in_workers_pos [of "edges_left b" n N s] assms(2) by simp
  then show "b < next_task (rts s)" "1 \<le> refcount (tasks (rts s) b)"
    using assms(1) edges_into_nonneg [of s b] unfolding inv_ref_def by (smt (verit))+
qed

lemma inv_token_step:
  assumes "sched_step rnd N s s'" and "fault_free N s'" and "inv_token N s" and "inv_ref N s" and N: "N \<le> XITAO_MAXTHREADS"
  shows "inv_token N s'"
proof -
  note tok = token_eq [OF assms(3)]
  have empty: "ready_q (rts s) q = []" if "XITAO_MAXTHREADS \<le> q" for q using assms(3) that by (simp add: inv_token_def)
  from assms(1,2) show ?thesis
  proof (cases rule: sched_step_explicit)
    case (drop_edge n a b bs)
    then have "waiting s' t = waiting s t" for t using ref_of_edge [OF assms(4) drop_edge(1,2)] by (auto simp: waiting_def)
    moreover have "in_ready s' t = in_ready s t" for t using drop_edge by (simp add: in_ready_def)
    ultimately show ?thesis using drop_edge empty unfolding inv_token_def by (simp add: tok)
  next
    case (drop_last_edge n a b bs)
    then have "waiting s' t = waiting s t - (if t = b then 1 else 0)" for t
      using ref_of_edge [OF assms(4) drop_last_edge(1,2)] by (auto simp: waiting_def)
    moreover have "in_ready s' t = in_ready s t" for t using drop_last_edge by (simp add: in_ready_def)
    ultimately show ?thesis using drop_last_edge empty unfolding inv_token_def by (simp add: tok)
  next
    case (wake_ready n a b bs q)
    have q: "q < XITAO_MAXTHREADS" using wake_ready(1,3) N by (auto simp: ready_index_def split: if_splits)
    have "waiting s' t = waiting s t" for t using wake_ready by (simp add: waiting_def)
    moreover have "in_ready s' t = in_ready s t + (if t = b then 1 else 0)" for t
      using in_ready_upd [of s' s q "ready_q (rts s) q @ [b]"] wake_ready(4) q by simp
    ultimately show ?thesis using wake_ready empty q unfolding inv_token_def by (simp add: tok)
  next
    case (take_ready n c t pt l w k)
    have c: "c < XITAO_MAXTHREADS" using empty [of c] take_ready(3) by (meson not_le)
    have "waiting s' u = waiting s u" for u using take_ready(5) by (simp add: waiting_def)
    moreover have "in_ready s' u = in_ready s u - (if u = t then 1 else 0)" for u
      using in_ready_upd [of s' s c "butlast (ready_q (rts s) c)" u] take_ready(3,4,5) c
        count_list_butlast [of "ready_q (rts s) c" u] by auto
    ultimately show ?thesis using take_ready empty c unfolding inv_token_def by (simp add: tok)
  next
    case (master_push t q pt h)
    have "waiting s' u = waiting s u" for u using master_push(3) by (simp add: waiting_def)
    moreover have "in_ready s' u = in_ready s u + (if u = t then 1 else 0)" for u
      using in_ready_upd [of s' s q "ready_q (rts s) q @ [t]" u] master_push(2,3) by simp
    ultimately show ?thesis using master_push empty unfolding inv_token_def by (simp add: tok)
  next
    case (simple_begin n t)
    then have "place_of s t = None" using held_by [OF assms(3), of n t] by simp
    moreover have "waiting s' u = waiting s u" "in_ready s' u = in_ready s u" for u
      using simple_begin by (simp_all add: waiting_def in_ready_def)
    ultimately show ?thesis using simple_begin empty unfolding inv_token_def by (simp add: tok)
  next
    case (distribute n t l)
    then have "place_of s t = None" using held_by [OF assms(3), of n t] by simp
    moreover have "waiting s' u = waiting s u" "in_ready s' u = in_ready s u" for u
      using distribute(6) by (simp_all add: waiting_def in_ready_def)
    ultimately show ?thesis using distribute empty unfolding inv_token_def by (simp add: tok)
  next
    case (wake_global n a b bs l w)
    then have "place_of s b = None" using held_by [OF assms(3), of n b] by simp
    moreover have "waiting s' u = waiting s u" "in_ready s' u = in_ready s u" for u
      using wake_global(4) by (simp_all add: waiting_def in_ready_def)
    ultimately show ?thesis using wake_global empty unfolding inv_token_def by (simp add: tok)
  qed (use empty tok in \<open>simp_all add: inv_token_def waiting_def in_ready_def\<close>)
qed

section \<open>Positions and places\<close>

lemma ready_placeless:
  assumes "inv_token N s" and "t \<in> set (ready_q (rts s) c)"
  shows "place_of s t = None" "t < next_task (rts s)" "waiting s t = 0"
proof -
  have c: "c < XITAO_MAXTHREADS" using assms by (cases "c < XITAO_MAXTHREADS") (auto simp: inv_token_def)
  have "1 \<le> occ t (ready_q (rts s) c)" using assms(2) count_list_pos_iff [of "ready_q (rts s) c" t] by linarith
  moreover have "occ t (ready_q (rts s) c) \<le> in_ready s t"
    unfolding in_ready_def using tsum_member_le [OF c, of "occ t" "ready_q (rts s)"] by simp
  ultimately have r: "1 \<le> in_ready s t" by linarith
  note nn = waiting_nonneg [of s t] in_workers_nonneg [of "held t" N s, OF counts_nonneg(1)]
  have one: "1 \<le> waiting s t + (if unpushed s t then 1 else 0) + in_ready s t + in_workers N (held t) s + (if place_of s t = None then 0 else 1)"
    using r nn by (smt (verit))
  note k = token_known [OF assms(1) one]
  from k(1) show "t < next_task (rts s)" .
  from k(2) r nn show "place_of s t = None" "waiting s t = 0" by (smt (verit))+
qed

lemma pc_ok_mono:
  assumes "pc_ok s m p" and "\<And>t. kind (tasks (rts s') t) = kind (tasks (rts s) t)"
    and "\<And>t q. place_of s t = Some q \<Longrightarrow> place_of s' t = Some q \<and> place_now t (rts s') = place_now t (rts s)"
    and "\<And>t. threads_out_tao (tasks (rts s) t) \<le> threads_out_tao (tasks (rts s') t)"
    and "\<And>t. finished s t \<Longrightarrow> finished s' t"
  shows "pc_ok s' m p"
proof (cases p)
  case (PIns t i c)
  then show ?thesis using assms(1) assms(3) [of t] by (auto simp: place_now_def)
next
  case (PCmp t v)
  then show ?thesis using assms(1,2) assms(3) [of t] assms(4) [of t] by auto
qed (use assms in \<open>auto\<close>)

lemma inv_pc_thread:
  assumes "inv_pc N s" and "\<And>t. kind (tasks (rts s') t) = kind (tasks (rts s) t)"
    and "\<And>t q. place_of s t = Some q \<Longrightarrow> place_of s' t = Some q \<and> place_now t (rts s') = place_now t (rts s)"
    and "\<And>t. threads_out_tao (tasks (rts s) t) \<le> threads_out_tao (tasks (rts s') t)"
    and "\<And>t. finished s t \<Longrightarrow> finished s' t"
    and "pcs s' = (pcs s)(n := p)" and "pc_ok s' n p" and "next_task (rts s') = next_task (rts s)"
    and "\<And>t q. place_of s t = None \<Longrightarrow> place_of s' t = Some q \<Longrightarrow> kind (tasks (rts s) t) = TASK_ASSEMBLY \<Longrightarrow>
       place_now t (rts s') = q"
  shows "inv_pc N s'"
proof -
  have "pc_ok s' m (pcs s' m)" if "m < N" for m
    using assms(1,6,7) that pc_ok_mono [OF _ assms(2-5), of m "pcs s m"] by (auto simp: inv_pc_def)
  moreover have "place_now t (rts s') = q" if "place_of s' t = Some q" "kind (tasks (rts s') t) = TASK_ASSEMBLY" for t q
  proof (cases "place_of s t")
    case None
    with that assms(2,9) show ?thesis by simp
  next
    case (Some q')
    have k: "kind (tasks (rts s) t) = TASK_ASSEMBLY" using that(2) assms(2) by simp
    have "place_now t (rts s) = q'" using assms(1) Some k unfolding inv_pc_def by blast
    with that(1) assms(3) [OF Some] show ?thesis by simp
  qed
  ultimately show ?thesis using assms(1,8) order.trans [OF _ assms(4)] by (auto simp: inv_pc_def)
qed

lemma asm_sent:
  assumes "inv_copies N s" and "t \<in> set (assembly_q (rts s) n)"
  shows "sent_to s t n"
proof (rule ccontr)
  assume n: "\<not> sent_to s t n"
  have "1 \<le> occ t (assembly_q (rts s) n)" using assms(2) count_list_pos_iff [of "assembly_q (rts s) n" t] by linarith
  moreover have "occ t (assembly_q (rts s) n) + (if n < N then busy t (pcs s n) else 0) + ended s t n = 0 \<and> 0 \<le> ended s t n"
    using assms(1) n unfolding inv_copies_def by (smt (verit))
  moreover have "0 \<le> (if n < N then busy t (pcs s n) else 0)" by simp
  ultimately show False by linarith
qed

lemma inv_pc_step:
  assumes "sched_step rnd N s s'" and "fault_free N s'" and tok: "inv_token N s" and pc: "inv_pc N s" and "inv_copies N s"
  shows "inv_pc N s'"
proof -
  have ok: "pc_ok s n (pcs s n)" if "n < N" for n using pc that by (simp add: inv_pc_def)
  note thread = inv_pc_thread [OF pc]
  from assms(1,2) show ?thesis
  proof (cases rule: sched_step_explicit)
    case (quiet n p)
    have "pc_ok s' n p" using quiet(3) by (induction p rule: empty_pc.induct) auto
    then show ?thesis by (intro thread [where n = n and p = p]) (use quiet in auto)
  next
    case (simple_begin n t)
    have "place_of s t = None" using held_by [OF tok, of n t] simple_begin by simp
    then show ?thesis by (intro thread [where n = n and p = "PSimple t"])
      (use simple_begin in \<open>auto split: if_splits\<close>)
  next
    case (simple_end n t)
    show ?thesis by (rule thread [where n = n]) (use simple_end in auto)
  next
    case (distribute n t l)
    have "place_of s t = None" using held_by [OF tok, of n t] distribute by simp
    then show ?thesis by (intro thread [where n = n and p = "PIns t l ToTop"]) (use distribute in \<open>auto simp: place_now_def\<close>)
  next
    case (push_one n t i c)
    show ?thesis by (rule thread [where n = n and p = "PIns t (i + 1) c"])
      (use push_one ok [of n] in \<open>auto simp: place_now_def\<close>)
  next
    case (push_done n t i c)
    show ?thesis by (rule thread [where n = n]) (use push_done in auto)
  next
    case (release_one n t i c)
    show ?thesis by (rule thread [where n = n]) (use release_one in auto)
  next
    case (release_done n t i c)
    have "pc_ok s' n (resume c)" by (cases c) auto
    then show ?thesis by (intro thread [where n = n and p = "resume c"]) (use release_done in auto)
  next
    case (pop_assembly n t ts)
    have "sent_to s t n" using asm_sent [OF assms(5), of t n] pop_assembly by simp
    then show ?thesis by (intro thread [where n = n and p = "PPop t"])
      (use pop_assembly in \<open>auto simp: place_now_def sent_to_def\<close>)
  next
    case (come_in n t pt)
    show ?thesis by (rule thread [where n = n and p = "PWait t"]) (use come_in ok [of n] in \<open>auto simp: place_now_def\<close>)
  next
    case (rendezvous n t)
    show ?thesis by (rule thread [where n = n and p = "PRun t"]) (use rendezvous ok [of n] in \<open>auto simp: place_now_def\<close>)
  next
    case (execute_end n t)
    show ?thesis by (rule thread [where n = n and p = "PPerf t"]) (use execute_end ok [of n] in \<open>auto simp: place_now_def\<close>)
  next
    case (measure_time n t pt)
    show ?thesis by (rule thread [where n = n and p = "POut t"]) (use measure_time ok [of n] in \<open>auto simp: place_now_def\<close>)
  next
    case (count_out n t)
    have "place_of s t \<noteq> None" using ok [of n] count_out by simp
    then have "0 \<le> threads_out_tao (tasks (rts s) t)" using sent_known(1) [OF tok] pc by (auto simp: inv_pc_def)
    then show ?thesis by (intro thread [where n = n and p = "PCmp t (threads_out_tao (tasks (rts s) t) + 1)"])
      (use count_out ok [of n] in \<open>auto simp: place_now_def\<close>)
  next
    case (last_out n t)
    show ?thesis by (rule thread [where n = n]) (use last_out in auto)
  next
    case (not_last_out n t v)
    show ?thesis by (rule thread [where n = n]) (use not_last_out in auto)
  next
    case (drop_edge n a b bs)
    show ?thesis by (rule thread [where n = n]) (use drop_edge in \<open>auto simp: place_now_def\<close>)
  next
    case (drop_last_edge n a b bs)
    show ?thesis by (rule thread [where n = n]) (use drop_last_edge in \<open>auto simp: place_now_def\<close>)
  next
    case (wake_global n a b bs l w)
    have "place_of s b = None" using held_by [OF tok, of n b] wake_global by simp
    then show ?thesis by (intro thread [where n = n and p = "PIns b l (ToCommit a bs)"])
      (use wake_global in \<open>auto simp: place_now_def\<close>)
  next
    case (wake_ready n a b bs q)
    show ?thesis by (rule thread [where n = n]) (use wake_ready in \<open>auto simp: place_now_def\<close>)
  next
    case (commit_end n a p)
    show ?thesis by (rule thread [where n = n]) (use commit_end in \<open>auto simp: place_now_def\<close>)
  next
    case (delete_task n a f)
    show ?thesis by (rule thread [where n = n]) (use delete_task in \<open>auto simp: place_now_def\<close>)
  next
    case (take_ready n c t pt l w k)
    have "place_of s t = None" using ready_placeless(1) [OF tok, of t c] take_ready by simp
    then show ?thesis by (intro thread [where n = n and p = "PTop (Some t)"]) (use take_ready in \<open>auto simp: place_now_def\<close>)
  next
    case (count_completions n)
    show ?thesis by (rule thread [where n = n]) (use count_completions in \<open>auto simp: place_now_def\<close>)
  next
    case (return_pool n)
    show ?thesis by (rule thread [where n = n]) (use return_pool in \<open>auto simp: place_now_def\<close>)
  next
    case (master_push t q pt h)
    have "pc_ok s' m p = pc_ok s m p" for m p
      using master_push by (cases p) (auto simp: place_now_def)
    then show ?thesis using pc master_push by (auto simp: inv_pc_def place_now_def)
  next
    case master_fini
    have "pc_ok s' m p = pc_ok s m p" for m p
      using master_fini by (cases p) (auto simp: place_now_def)
    then show ?thesis using pc master_fini by (auto simp: inv_pc_def place_now_def)
  qed
qed

section \<open>The copies of a task\<close>

lemma copies_delta:
  assumes inv: "inv_copies N s" and n: "n < N" and pcs: "pcs s' = (pcs s)(n := p)" and place: "place_of s' = place_of s"
    and delta: "\<And>t m. (if sent_to s t m then to_push t m p - to_push t m (pcs s n) else 0)
       + (occ t (assembly_q (rts s') m) - occ t (assembly_q (rts s) m))
       + (if m = n then busy t p - busy t (pcs s n) else 0) + (ended s' t m - ended s t m) = 0"
    and grow: "\<And>t m. ended s t m \<le> ended s' t m"
  shows "inv_copies N s'"
  unfolding inv_copies_def
proof (intro allI conjI)
  fix t m
  have eq: "(if sent_to s t m then in_workers N (to_push t m) s else 0) + occ t (assembly_q (rts s) m)
     + (if m < N then busy t (pcs s m) else 0) + ended s t m = (if sent_to s t m then 1 else 0)" "0 \<le> ended s t m"
    using inv by (simp_all add: inv_copies_def)
  have sent: "sent_to s' t m = sent_to s t m" by (simp add: sent_to_def place)
  have b: "(if m < N then busy t (pcs s' m) else 0) = (if m < N then busy t (pcs s m) else 0)
      + (if m = n then busy t p - busy t (pcs s n) else 0)" using n pcs by auto
  have w: "in_workers N (to_push t m) s' = in_workers N (to_push t m) s - to_push t m (pcs s n) + to_push t m p"
    using n pcs by simp
  show "(if sent_to s' t m then in_workers N (to_push t m) s' else 0) + occ t (assembly_q (rts s') m)
     + (if m < N then busy t (pcs s' m) else 0) + ended s' t m = (if sent_to s' t m then 1 else 0)"
    unfolding sent b w using eq delta [of t m] by (auto split: if_splits)
  show "0 \<le> ended s' t m" using eq(2) grow [of t m] by linarith
qed

lemma no_push_unsent:
  assumes "inv_pc N s" and "place_of s t = None"
  shows "in_workers N (to_push t m) s = 0"
proof -
  have "to_push t m (pcs s k) = 0" if "k < N" for k
    using assms that by (cases "pcs s k") (auto simp: inv_pc_def dest!: spec [of _ k])
  then show ?thesis by (simp add: tsum_def)
qed

lemma copies_sent:
  assumes inv: "inv_copies N s" and pc: "inv_pc N s" and n: "n < N" and pcs: "pcs s' = (pcs s)(n := p)"
    and none: "place_of s t0 = None" and place: "place_of s' = (place_of s)(t0 \<mapsto> P)"
    and asm: "assembly_q (rts s') = assembly_q (rts s)" and ended: "ended s' = ended s"
    and others: "\<And>t m. t \<noteq> t0 \<Longrightarrow> to_push t m p = to_push t m (pcs s n) \<and> busy t p = busy t (pcs s n)"
    and copy: "\<And>m. (if in_place P m then to_push t0 m p else 0) + (if m = n then busy t0 p else 0) = (if in_place P m then 1 else 0)"
    and idle: "\<And>m. to_push t0 m (pcs s n) = 0"
  shows "inv_copies N s'"
  unfolding inv_copies_def
proof (intro allI conjI)
  fix t m
  have eq: "(if sent_to s t m then in_workers N (to_push t m) s else 0) + occ t (assembly_q (rts s) m)
     + (if m < N then busy t (pcs s m) else 0) + ended s t m = (if sent_to s t m then 1 else 0)" "0 \<le> ended s t m"
    using inv by (simp_all add: inv_copies_def)
  have w: "in_workers N (to_push t m) s' = in_workers N (to_push t m) s - to_push t m (pcs s n) + to_push t m p"
    using n pcs by simp
  show "(if sent_to s' t m then in_workers N (to_push t m) s' else 0) + occ t (assembly_q (rts s') m)
     + (if m < N then busy t (pcs s' m) else 0) + ended s' t m = (if sent_to s' t m then 1 else 0)"
  proof (cases "t = t0")
    case True
    have ns: "\<not> sent_to s t m" using none True by (simp add: sent_to_def)
    have nn: "0 \<le> (if m < N then busy t (pcs s m) else 0)" by simp
    have z: "occ t (assembly_q (rts s) m) = 0" "(if m < N then busy t (pcs s m) else 0) = 0" "ended s t m = 0"
    proof -
      have "occ t (assembly_q (rts s) m) + (if m < N then busy t (pcs s m) else 0) + ended s t m = 0"
        using eq(1) ns by (simp only: if_False)
      moreover have "0 \<le> occ t (assembly_q (rts s) m)" by simp
      ultimately show "occ t (assembly_q (rts s) m) = 0" "(if m < N then busy t (pcs s m) else 0) = 0" "ended s t m = 0"
        using nn eq(2) by linarith+
    qed
    have st: "sent_to s' t m = in_place P m" using place True by (simp add: sent_to_def)
    have bq: "(if m < N then busy t (pcs s' m) else 0) = (if m = n then busy t0 p else 0)"
      using z(2) pcs n True by auto
    have w0: "in_workers N (to_push t m) s' = to_push t0 m p"
      using w no_push_unsent [OF pc none, of m] idle [of m] True by simp
    show ?thesis using copy [of m] by (simp only: st w0 asm ended z bq add_0_right)
  next
    case False
    have st: "sent_to s' t m = sent_to s t m" using place False by (simp add: sent_to_def)
    have bq: "(if m < N then busy t (pcs s' m) else 0) = (if m < N then busy t (pcs s m) else 0)"
      using pcs others [OF False] by simp
    have w0: "in_workers N (to_push t m) s' = in_workers N (to_push t m) s" using w others [OF False] by simp
    show ?thesis using eq(1) by (simp only: st w0 asm ended bq)
  qed
  show "0 \<le> ended s' t m" using eq(2) ended by simp
qed

lemma inv_copies_step:
  assumes "sched_step rnd N s s'" and "fault_free N s'" and tok: "inv_token N s" and pc: "inv_pc N s" and inv: "inv_copies N s"
  shows "inv_copies N s'"
proof -
  have ok: "pc_ok s n (pcs s n)" if "n < N" for n using pc that by (simp add: inv_pc_def)
  note delta = copies_delta [OF inv]
  from assms(1,2) show ?thesis
  proof (cases rule: sched_step_explicit)
    case (quiet n p)
    show ?thesis by (rule delta [where n = n]) (use quiet in auto)
  next
    case (simple_begin n t)
    have np: "place_of s t = None" using held_by [OF tok, of n t] simple_begin by simp
    show ?thesis by (rule copies_sent [OF inv pc _ _ np, where n = n]) (use simple_begin in \<open>auto simp: in_place_def\<close>)
  next
    case (simple_end n t)
    show ?thesis by (rule delta [where n = n]) (use simple_end in \<open>auto simp: bump_def\<close>)
  next
    case (distribute n t l)
    have np: "place_of s t = None" using held_by [OF tok, of n t] distribute by simp
    show ?thesis by (rule copies_sent [OF inv pc _ _ np, where n = n]) (use distribute in \<open>auto simp: in_place_def\<close>)
  next
    case (push_one n t i c)
    have "pc_ok s n (PIns t i c)" using ok [OF push_one(1)] push_one(2) by simp
    then have sent: "sent_to s t (nat i)" using push_one(3,4) by (auto simp: sent_to_def in_place_def place_now_def)
    have at: "(i + 1 \<le> int m) = (i \<le> int m \<and> m \<noteq> nat i)" "m = nat i \<Longrightarrow> i \<le> int m" for m
      using push_one(4) by linarith+
    have push: "to_push u m (PIns t (i + 1) c) - to_push u m (PIns t i c) = (if u = t \<and> m = nat i then -1 else 0)" for u m
      using at [of m] by simp
    show ?thesis
    proof (rule delta [where n = n])
      fix u m
      show "(if sent_to s u m then to_push u m (PIns t (i + 1) c) - to_push u m (pcs s n) else 0)
       + (occ u (assembly_q (rts s') m) - occ u (assembly_q (rts s) m))
       + (if m = n then busy u (PIns t (i + 1) c) - busy u (pcs s n) else 0) + (ended s' u m - ended s u m) = 0"
        unfolding push_one(2) push using push_one(6) sent by auto
    qed (use push_one in auto)
  next
    case (push_done n t i c)
    have "pc_ok s n (PIns t i c)" using ok [OF push_done(1)] push_done(2) by simp
    then have "\<not> (sent_to s t m \<and> i \<le> int m)" for m using push_done(3) by (auto simp: sent_to_def in_place_def place_now_def)
    then show ?thesis by (intro delta [where n = n and p = "PRel t (leader (tasks (rts s) t)) c"]) (use push_done in auto)
  next
    case (release_one n t i c)
    show ?thesis by (rule delta [where n = n]) (use release_one in auto)
  next
    case (release_done n t i c)
    show ?thesis by (rule delta [where n = n]) (use release_done in auto)
  next
    case (pop_assembly n t ts)
    show ?thesis by (rule delta [where n = n]) (use pop_assembly in auto)
  next
    case (come_in n t pt)
    show ?thesis by (rule delta [where n = n]) (use come_in in auto)
  next
    case (rendezvous n t)
    show ?thesis by (rule delta [where n = n]) (use rendezvous in auto)
  next
    case (execute_end n t)
    show ?thesis by (rule delta [where n = n]) (use execute_end in \<open>auto simp: bump_def\<close>)
  next
    case (measure_time n t pt)
    show ?thesis by (rule delta [where n = n]) (use measure_time in auto)
  next
    case (count_out n t)
    show ?thesis by (rule delta [where n = n]) (use count_out in auto)
  next
    case (last_out n t)
    show ?thesis by (rule delta [where n = n]) (use last_out in auto)
  next
    case (not_last_out n t v)
    show ?thesis by (rule delta [where n = n]) (use not_last_out in auto)
  next
    case (drop_edge n a b bs)
    show ?thesis by (rule delta [where n = n]) (use drop_edge in auto)
  next
    case (drop_last_edge n a b bs)
    show ?thesis by (rule delta [where n = n]) (use drop_last_edge in auto)
  next
    case (wake_global n a b bs l w)
    have np: "place_of s b = None" using held_by [OF tok, of n b] wake_global by simp
    show ?thesis by (rule copies_sent [OF inv pc _ _ np, where n = n]) (use wake_global in \<open>auto simp: in_place_def\<close>)
  next
    case (wake_ready n a b bs q)
    show ?thesis by (rule delta [where n = n]) (use wake_ready in auto)
  next
    case (commit_end n a p)
    show ?thesis by (rule delta [where n = n]) (use commit_end in auto)
  next
    case (delete_task n a f)
    show ?thesis by (rule delta [where n = n]) (use delete_task in auto)
  next
    case (take_ready n c t pt l w k)
    show ?thesis by (rule delta [where n = n]) (use take_ready in auto)
  next
    case (count_completions n)
    show ?thesis by (rule delta [where n = n]) (use count_completions in auto)
  next
    case (return_pool n)
    show ?thesis by (rule delta [where n = n]) (use return_pool in auto)
  next
    case (master_push t q pt h)
    then have "sent_to s' = sent_to s" by (simp add: sent_to_def fun_eq_iff)
    moreover have "pcs s' = pcs s" "ended s' = ended s" "assembly_q (rts s') = assembly_q (rts s)" using master_push by simp_all
    ultimately show ?thesis using inv unfolding inv_copies_def by (simp only: simp_thms)
  next
    case master_fini
    then have "sent_to s' = sent_to s" by (simp add: sent_to_def fun_eq_iff)
    moreover have "pcs s' = pcs s" "ended s' = ended s" "assembly_q (rts s') = assembly_q (rts s)" using master_fini by simp_all
    ultimately show ?thesis using inv unfolding inv_copies_def by (simp only: simp_thms)
  qed
qed

section \<open>Beginning and ending\<close>

lemma sum_bump: "n < N \<Longrightarrow> (\<Sum>m<N. bump t n f u m) = (\<Sum>m<N. f u m) + (if u = t then 1 else 0)"
proof -
  assume n: "n < N"
  have "(\<Sum>m<N. bump t n f u m) = tsum N (\<lambda>x. x) ((f u)(n := (if u = t then f u n + 1 else f u n)))"
    unfolding tsum_def by (rule sum.cong) (auto simp: bump_def)
  also have "\<dots> = tsum N (\<lambda>x. x) (f u) + (if u = t then 1 else 0)" using n by simp
  finally show ?thesis by (simp add: tsum_def)
qed

lemma bump_le [simp]: "f u m \<le> bump t n f u m"
  by (simp add: bump_def)

lemma bump_diff: "bump t n f u m = f u m + (if u = t \<and> m = n then 1 else 0)"
  by (auto simp: bump_def)

lemma began_delta:
  assumes "inv_began N s" and "n < N" and "pcs s' = (pcs s)(n := p)"
    and "\<And>t m. began s' t m - began s t m = ended s' t m - ended s t m + (if m = n then running t p - running t (pcs s n) else 0)"
  shows "inv_began N s'"
  unfolding inv_began_def
proof (intro allI)
  fix t m
  have eq: "began s t m = ended s t m + (if m < N then running t (pcs s m) else 0)" using assms(1) by (simp add: inv_began_def)
  have "(if m < N then running t (pcs s' m) else 0) = (if m < N then running t (pcs s m) else 0)
      + (if m = n then running t p - running t (pcs s n) else 0)" using assms(2,3) by auto
  with eq assms(4) [of t m] show "began s' t m = ended s' t m + (if m < N then running t (pcs s' m) else 0)" by linarith
qed

lemma inv_began_step:
  assumes "sched_step rnd N s s'" and "fault_free N s'" and inv: "inv_began N s"
  shows "inv_began N s'"
  using assms(1,2)
proof (cases rule: sched_step_explicit)
  case (master_push t q pt h)
  then show ?thesis using inv by (simp add: inv_began_def)
next
  case master_fini
  then show ?thesis using inv by (simp add: inv_began_def)
qed (rule began_delta [OF inv], assumption, simp, simp add: bump_diff)+

section \<open>The counters of an assembly\<close>

lemma leaving_known:
  assumes "inv_pc N s" and "inv_token N s" and "n < N" and "pcs s n \<in> {PPop t, PWait t, PRun t, PPerf t, POut t, PCmp t v}"
  shows "kind (tasks (rts s) t) = TASK_ASSEMBLY" "place_of s t = Some (place_now t (rts s))" "t < next_task (rts s)"
proof -
  have "pc_ok s n (pcs s n)" using assms(1,3) by (simp add: inv_pc_def)
  then have k: "kind (tasks (rts s) t) = TASK_ASSEMBLY" "place_of s t \<noteq> None" using assms(4) by auto
  then show "kind (tasks (rts s) t) = TASK_ASSEMBLY" "place_of s t = Some (place_now t (rts s))"
    using assms(1) unfolding inv_pc_def by blast+
  show "t < next_task (rts s)" by (rule sent_known(1) [OF assms(2) k(2)])
qed

lemma inv_out_step:
  assumes "sched_step rnd N s s'" and "fault_free N s'" and inv: "inv_out N s" and "inv_pc N s" and "inv_token N s"
  shows "inv_out N s'"
proof -
  have eq: "in_workers N (leaving t) s = (\<Sum>n<N. ended s t n) - threads_out_tao (tasks (rts s) t)"
    if "kind (tasks (rts s) t) = TASK_ASSEMBLY" "t < next_task (rts s)" for t
    using inv that unfolding inv_out_def by (smt (verit))
  have simple: "kind (tasks (rts s) t) = TASK_SIMPLE" if "n < N" "pcs s n = PSimple t" for n t
    using assms(4) that by (auto simp: inv_pc_def)
  from assms(1,2) show ?thesis
  proof (cases rule: sched_step_explicit)
    case (simple_end n t)
    then show ?thesis using simple [of n t] unfolding inv_out_def by (auto simp: eq sum_bump)
  next
    case (execute_end n t)
    then show ?thesis unfolding inv_out_def by (auto simp: eq sum_bump)
  qed (auto simp: inv_out_def eq tasks_drop_ref)
qed

lemma inv_in_step:
  assumes "sched_step rnd N s s'" and "fault_free N s'" and inv: "inv_in N s" and "inv_pc N s" and "inv_token N s"
  shows "inv_in N s'"
proof -
  have eq: "in_workers N (arrived_at t) s = threads_in_tao (tasks (rts s) t) - (\<Sum>n<N. began s t n)"
    if "kind (tasks (rts s) t) = TASK_ASSEMBLY" "t < next_task (rts s)" for t
    using inv that unfolding inv_in_def by (smt (verit))
  from assms(1,2) show ?thesis
  proof (cases rule: sched_step_explicit)
    case (simple_begin n t)
    then show ?thesis unfolding inv_in_def by (auto simp: eq sum_bump)
  next
    case (rendezvous n t)
    then show ?thesis unfolding inv_in_def by (auto simp: eq sum_bump)
  qed (auto simp: inv_in_def eq tasks_drop_ref)
qed

lemma in_place_count: "(\<Sum>n<N. if in_place p n then 1 else 0) \<le> max 0 (snd p)"
proof -
  have "(\<Sum>n<N. if in_place p n then 1 else 0) = int (card {n. n < N \<and> in_place p n})"
    by (simp add: sum.If_cases Int_def conj_commute)
  also have "{n. n < N \<and> in_place p n} \<subseteq> nat ` {max 0 (fst p)..<fst p + snd p}"
    by (auto simp: in_place_def intro!: image_eqI [where x = "int _"])
  then have "card {n. n < N \<and> in_place p n} \<le> card {max 0 (fst p)..<fst p + snd p}"
    by (meson card_image_le card_mono finite_atLeastLessThan_int finite_imageI order_trans)
  then have "int (card {n. n < N \<and> in_place p n}) \<le> max 0 (snd p)" by simp
  finally show ?thesis .
qed

lemma ended_bounds:
  assumes "inv_copies N s"
  shows "0 \<le> ended s t n" "ended s t n \<le> (if sent_to s t n then 1 else 0)"
    "n < N \<Longrightarrow> ended s t n + busy t (pcs s n) \<le> (if sent_to s t n then 1 else 0)"
proof -
  have w: "0 \<le> in_workers N (to_push t n) s" by (rule in_workers_nonneg) simp
  have b: "0 \<le> busy t (pcs s n)" by simp
  have eq: "(if sent_to s t n then in_workers N (to_push t n) s else 0) + occ t (assembly_q (rts s) n)
     + (if n < N then busy t (pcs s n) else 0) + ended s t n = (if sent_to s t n then 1 else 0)" "0 \<le> ended s t n"
    using assms by (simp_all add: inv_copies_def)
  have o: "0 \<le> occ t (assembly_q (rts s) n)" by simp
  show "0 \<le> ended s t n" by (rule eq(2))
  show "ended s t n \<le> (if sent_to s t n then 1 else 0)" using eq w b o by (smt (verit))
  show "n < N \<Longrightarrow> ended s t n + busy t (pcs s n) \<le> (if sent_to s t n then 1 else 0)" using eq w b o by (smt (verit))
qed

lemma ended_total:
  assumes "inv_copies N s"
  shows "(\<Sum>n<N. ended s t n) \<le> (case place_of s t of None \<Rightarrow> 0 | Some p \<Rightarrow> max 0 (snd p))"
proof (cases "place_of s t")
  case None
  then have "ended s t n = 0" for n using ended_bounds(1,2) [OF assms, of t n] by (simp add: sent_to_def)
  with None show ?thesis by simp
next
  case (Some p)
  have "(\<Sum>n<N. ended s t n) \<le> (\<Sum>n<N. if in_place p n then 1 else 0)"
    using ended_bounds(2) [OF assms, of t] Some by (intro sum_mono) (auto simp: sent_to_def)
  with in_place_count [of p N] Some show ?thesis by simp
qed

section \<open>Who completes a task\<close>

definition sched_inv :: "nat \<Rightarrow> sys \<Rightarrow> bool" where
  "sched_inv N s \<longleftrightarrow> inv_ref N s \<and> inv_commit N s \<and> inv_token N s \<and> inv_pc N s \<and> inv_copies N s \<and> inv_began N s
     \<and> inv_out N s \<and> inv_in N s \<and> inv_last N s \<and> inv_pending s \<and> inv_freed s
     \<and> inv_simple s"

lemma sched_invD:
  assumes "sched_inv N s"
  shows "inv_ref N s" "inv_commit N s" "inv_token N s" "inv_pc N s" "inv_copies N s" "inv_began N s"
    "inv_out N s" "inv_in N s" "inv_last N s" "inv_pending s" "inv_freed s" "inv_simple s"
  using assms by (simp_all add: sched_inv_def)

lemma last_asm:
  assumes "sched_inv N s" and "kind (tasks (rts s) t) = TASK_ASSEMBLY" and "t < next_task (rts s)"
  shows "in_workers N (comparing t (width (tasks (rts s) t))) s
    = (if 1 \<le> threads_out_tao (tasks (rts s) t) \<and> width (tasks (rts s) t) \<le> threads_out_tao (tasks (rts s) t) then 1 else 0)
      - (if committed s t then 1 else 0)"
  using sched_invD(9) [OF assms(1)] assms(2,3) unfolding inv_last_def by (smt (verit))

lemma last_simple:
  assumes "sched_inv N s" and "kind (tasks (rts s) t) = TASK_SIMPLE"
  shows "(\<Sum>n<N. ended s t n) = (if committed s t then 1 else 0)"
  using sched_invD(9) [OF assms(1)] assms(2) unfolding inv_last_def by (auto split: if_splits)

lemma simple_running:
  assumes inv: "sched_inv N s" and n: "n < N" and pc: "pcs s n = PSimple t"
  shows "kind (tasks (rts s) t) = TASK_SIMPLE" "place_of s t = Some (int n, 1)" "t < next_task (rts s)" "(\<Sum>m<N. ended s t m) = 0"
proof -
  note I = sched_invD [OF inv]
  have "pc_ok s n (pcs s n)" using I(4) n by (simp add: inv_pc_def)
  then show k: "kind (tasks (rts s) t) = TASK_SIMPLE" and p: "place_of s t = Some (int n, 1)" using pc by auto
  show "t < next_task (rts s)" using sent_known(1) [OF I(3), of t] p by simp
  have "ended s t m = 0" for m
  proof (cases "m = n")
    case True
    then show ?thesis
      using ended_bounds(1) [OF I(5), of t n] ended_bounds(3) [OF I(5), where n = n and t = t] n pc p
      by (simp add: sent_to_def in_place_def)
  next
    case False
    then show ?thesis using ended_bounds(1,2) [OF I(5), of t m] p by (auto simp: sent_to_def in_place_def split: if_splits)
  qed
  then show "(\<Sum>m<N. ended s t m) = 0" by simp
qed

lemma commit_fresh_inv:
  assumes inv: "sched_inv N s"
  shows "commit_fresh N s"
  unfolding commit_fresh_def
proof (intro allI impI)
  fix n t
  assume n: "n < N" and "pcs s n = PSimple t \<or> pcs s n = PCmp t (width (tasks (rts s) t))"
  then consider (simple) "pcs s n = PSimple t" | (last) "pcs s n = PCmp t (width (tasks (rts s) t))" by blast
  then show "t < next_task (rts s) \<and> \<not> committed s t \<and> place_of s t \<noteq> None"
  proof cases
    case simple
    from simple_running [OF inv n this] last_simple [OF inv] show ?thesis by (auto split: if_splits)
  next
    case last
    note I = sched_invD [OF inv]
    have k: "kind (tasks (rts s) t) = TASK_ASSEMBLY" "place_of s t = Some (place_now t (rts s))" "t < next_task (rts s)"
      using leaving_known [OF I(4,3) n, of t "width (tasks (rts s) t)"] last by auto
    have "1 \<le> in_workers N (comparing t (width (tasks (rts s) t))) s"
      using in_workers_pos [of "comparing t (width (tasks (rts s) t))" n N s] last n by simp
    with last_asm [OF inv k(1,3)] k show ?thesis by (auto split: if_splits)
  qed
qed

text \<open>A task without a place has not been counted out, and nobody compares its count.\<close>

lemma placeless_unused:
  assumes inv: "sched_inv N s" and none: "place_of s t = None" and t: "t < next_task (rts s)"
  shows "in_workers N (comparing t w) s = 0" "\<not> committed s t"
    "kind (tasks (rts s) t) = TASK_ASSEMBLY \<Longrightarrow> threads_out_tao (tasks (rts s) t) = 0"
proof -
  note I = sched_invD [OF inv]
  have "comparing t w (pcs s k) = 0" if "k < N" for k
    using I(4) none that by (cases "pcs s k") (auto simp: inv_pc_def dest!: spec [of _ k])
  then show "in_workers N (comparing t w) s = 0" by (simp add: tsum_def)
  show "\<not> committed s t" using I(2) none by (auto simp: inv_commit_def)
  assume k: "kind (tasks (rts s) t) = TASK_ASSEMBLY"
  have "threads_out_tao (tasks (rts s) t) + in_workers N (leaving t) s = (\<Sum>n<N. ended s t n)"
    using I(7) k t by (simp add: inv_out_def)
  moreover have "(\<Sum>n<N. ended s t n) \<le> 0" using ended_total [OF I(5), of t] none by simp
  moreover have "0 \<le> in_workers N (leaving t) s" by (rule in_workers_nonneg) simp
  moreover have "0 \<le> threads_out_tao (tasks (rts s) t)" using I(4) t by (simp add: inv_pc_def)
  ultimately show "threads_out_tao (tasks (rts s) t) = 0" by linarith
qed

text \<open>While a worker has still to count itself out, the count is below the width.\<close>

lemma count_out_room:
  assumes inv: "sched_inv N s" and n: "n < N" and pc: "pcs s n = POut t"
  shows "threads_out_tao (tasks (rts s) t) + 1 \<le> width (tasks (rts s) t)" "0 \<le> threads_out_tao (tasks (rts s) t)"
proof -
  note I = sched_invD [OF inv]
  have k: "kind (tasks (rts s) t) = TASK_ASSEMBLY" "place_of s t = Some (place_now t (rts s))" "t < next_task (rts s)"
    using leaving_known [OF I(4,3) n, of t 0] pc by auto
  have "1 \<le> in_workers N (leaving t) s" using in_workers_pos [of "leaving t" n N s] pc n by simp
  moreover have "threads_out_tao (tasks (rts s) t) + in_workers N (leaving t) s = (\<Sum>n<N. ended s t n)"
    using I(7) k by (simp add: inv_out_def)
  moreover have "(\<Sum>n<N. ended s t n) \<le> max 0 (width (tasks (rts s) t))"
    using ended_total [OF I(5), of t] k(2) by (simp add: place_now_def)
  moreover show "0 \<le> threads_out_tao (tasks (rts s) t)" using I(4) k(3) by (simp add: inv_pc_def)
  ultimately show "threads_out_tao (tasks (rts s) t) + 1 \<le> width (tasks (rts s) t)" by linarith
qed

lemma inv_last_step:
  assumes "sched_step rnd N s s'" and "fault_free N s'" and inv: "sched_inv N s"
  shows "inv_last N s'"
proof -
  note I = sched_invD [OF inv] and asm = last_asm [OF inv] and simp1 = last_simple [OF inv]
  have ks: "kind (tasks (rts s) t) \<noteq> TASK_ASSEMBLY \<Longrightarrow> kind (tasks (rts s) t) = TASK_SIMPLE" for t
    by (cases "kind (tasks (rts s) t)") auto
  have ka: "kind (tasks (rts s) t) = TASK_ASSEMBLY" if "n < N" "pcs s n = PRun t \<or> (\<exists>v. pcs s n = PCmp t v)" for n t
    using I(4) that by (auto simp: inv_pc_def dest!: spec [of _ n])
  from assms(1,2) show ?thesis
  proof (cases rule: sched_step_explicit)
    case (simple_end n t)
    from simple_running [OF inv simple_end(1,2)]
    show ?thesis using simple_end asm simp1 ks unfolding inv_last_def by (auto simp: sum_bump)
  next
    case (execute_end n t)
    then show ?thesis using asm simp1 ks ka [of n t] unfolding inv_last_def by (auto simp: sum_bump)
  next
    case (last_out n t)
    have "\<not> committed s t" using commit_fresh_inv [OF inv] last_out(1,2) by (auto simp: commit_fresh_def)
    then show ?thesis using last_out asm simp1 ks ka [of n t] unfolding inv_last_def by auto
  next
    case (count_out n t)
    note room = count_out_room [OF inv count_out(1,2)]
    have kt: "kind (tasks (rts s) t) = TASK_ASSEMBLY" "t < next_task (rts s)"
      using leaving_known [OF I(4,3) count_out(1), of t 0] count_out(2) by auto
    have z: "in_workers N (comparing t (width (tasks (rts s) t))) s = 0" "\<not> committed s t"
      using asm [OF kt] room in_workers_nonneg [of "comparing t (width (tasks (rts s) t))" N s, OF counts_nonneg(7)]
      by (auto split: if_splits)
    have z2: "width (tasks (rts s) t) = threads_out_tao (tasks (rts s) t) + 1 \<Longrightarrow>
        in_workers N (comparing t (threads_out_tao (tasks (rts s) t) + 1)) s = 0"
      using z(1) by simp
    show ?thesis
      using count_out asm simp1 ks room z z2 kt unfolding inv_last_def by (auto simp: asm)
  next
    case (wake_global n a b bs l w)
    have h: "place_of s b = None" "b < next_task (rts s)" using held_by [OF I(3), of n b] wake_global by auto
    note u = placeless_unused [OF inv h]
    show ?thesis using wake_global asm simp1 ks u unfolding inv_last_def by auto
  next
    case (take_ready n c t pt l w k)
    have h: "place_of s t = None" "t < next_task (rts s)" using ready_placeless [OF I(3), of t c] take_ready by auto
    note u = placeless_unused [OF inv h]
    show ?thesis using take_ready asm simp1 ks u unfolding inv_last_def by auto
  qed (use asm simp1 ks in \<open>auto simp: inv_last_def tasks_drop_ref\<close>)
qed

section \<open>The pending count and deleted tasks\<close>

lemma unfinished_finish:
  assumes "a < next_task (rts s)" and "\<not> finished s a" and "finished s' = (finished s)(a := True)"
    and "next_task (rts s') = next_task (rts s)"
  shows "unfinished s' = unfinished s - 1"
proof -
  let ?g = "\<lambda>a. if finished s a then 0 else 1 :: int"
  have "unfinished s' = tsum (next_task (rts s)) (\<lambda>x. x) (?g(a := 0))"
    unfolding unfinished_def tsum_def assms(3,4) by (rule sum.cong) auto
  moreover have "unfinished s = tsum (next_task (rts s)) (\<lambda>x. x) ?g"
    by (simp add: unfinished_def tsum_def)
  ultimately show ?thesis using assms(1,2) by simp
qed

lemma unfinished_same: "finished s' = finished s \<Longrightarrow> next_task (rts s') = next_task (rts s) \<Longrightarrow> unfinished s' = unfinished s"
  by (simp add: unfinished_def)

lemma inv_pending_step:
  assumes "sched_step rnd N s s'" and "fault_free N s'" and inv: "sched_inv N s" and N: "N \<le> XITAO_MAXTHREADS"
  shows "inv_pending s'"
proof -
  note I = sched_invD [OF inv]
  have eq: "pending_tasks (rts s) = pool_total (task_pool (rts s)) + pool_total (task_completions (rts s)) + unfinished s"
    and nn: "n < XITAO_MAXTHREADS \<Longrightarrow> 0 \<le> task_pool (rts s) n \<and> 0 \<le> task_completions (rts s) n" for n
    using I(10) by (simp_all add: inv_pending_def)
  note st = step_static(1) [OF assms(1,2)]
  have lt: "n < N \<Longrightarrow> n < XITAO_MAXTHREADS" for n using N by simp
  from assms(1,2) show ?thesis
  proof (cases rule: sched_step_explicit)
    case (commit_end n a p)
    have "1 \<le> in_workers N (completing a) s" using in_workers_pos [of "completing a" n N s] commit_end(1,2) by simp
    then have c: "committed s a" "\<not> finished s a"
      using I(2) unfolding inv_commit_def by (smt (verit))+
    then have "a < next_task (rts s)" using I(2) sent_known(1) [OF I(3)] by (auto simp: inv_commit_def)
    then have "unfinished s' = unfinished s - 1" using c by (intro unfinished_finish) (use commit_end in auto)
    then show ?thesis using commit_end eq nn lt [OF commit_end(1)] by (auto simp: inv_pending_def pool_total_def)
  next
    case (count_completions n)
    then have "unfinished s' = unfinished s" using st by (intro unfinished_same) auto
    then show ?thesis using count_completions eq nn lt [OF count_completions(1)]
      by (auto simp: inv_pending_def pool_total_def flush_completions_def)
  next
    case (return_pool n)
    then have "unfinished s' = unfinished s" using st by (intro unfinished_same) auto
    then show ?thesis using return_pool eq nn lt [OF return_pool(1)]
      by (auto simp: inv_pending_def pool_total_def flush_pool_def)
  qed (use eq nn unfinished_same [of s' s] st in \<open>auto simp: inv_pending_def\<close>)
qed

lemma inv_freed_step:
  assumes "sched_step rnd N s s'" and "fault_free N s'" and inv: "sched_inv N s"
  shows "inv_freed s'"
proof -
  note I = sched_invD [OF inv]
  have del: "kind (tasks (rts s) a) = TASK_ASSEMBLY \<and> finished s a" if "n < N" "pcs s n = PDel a" for n a
    using I(4) that by (auto simp: inv_pc_def dest!: spec [of _ n])
  note st = step_static(3) [OF assms(1,2)]
  from assms(1,2) show ?thesis
  proof (cases rule: sched_step_explicit)
    case (delete_task n a f)
    then show ?thesis using I(11) del [of n a] by (auto simp: inv_freed_def)
  qed (use I(11) st in \<open>auto simp: inv_freed_def\<close>)
qed

lemma inv_simple_step:
  assumes "sched_step rnd N s s'" and "fault_free N s'" and inv: "sched_inv N s"
  shows "inv_simple s'"
proof -
  note I = sched_invD [OF inv]
  have one: "place_of s t = Some (int m, 1)" if "kind (tasks (rts s) t) = TASK_SIMPLE" "0 < ended s t m" for t m
    using I(12) that by (auto simp: inv_simple_def)
  have none: "ended s t m = 0" if "place_of s t = None" for t m
    using ended_bounds(1,2) [OF I(5), of t m] that by (simp add: sent_to_def)
  from assms(1,2) show ?thesis
  proof (cases rule: sched_step_explicit)
    case (simple_begin n t)
    have "place_of s t = None" using held_by [OF I(3), of n t] simple_begin by simp
    then show ?thesis using simple_begin one none by (auto simp: inv_simple_def)
  next
    case (simple_end n t)
    from simple_running [OF inv simple_end(1,2)] show ?thesis
      using simple_end one by (auto simp: inv_simple_def bump_diff split: if_splits)
  next
    case (distribute n t l)
    then show ?thesis using one none by (auto simp: inv_simple_def)
  next
    case (execute_end n t)
    have "kind (tasks (rts s) t) = TASK_ASSEMBLY" using leaving_known(1) [OF I(4,3) execute_end(1), of t 0] execute_end(2) by simp
    then show ?thesis using execute_end one by (auto simp: inv_simple_def bump_diff split: if_splits)
  next
    case (wake_global n a b bs l w)
    have "place_of s b = None" using held_by [OF I(3), of n b] wake_global by simp
    then show ?thesis using wake_global one none by (auto simp: inv_simple_def)
  qed (use one in \<open>auto simp: inv_simple_def tasks_drop_ref\<close>)
qed

section \<open>Every reachable state\<close>

lemma sched_inv_step:
  assumes "sched_step rnd N s s'" and "fault_free N s'" and inv: "sched_inv N s" and "N \<le> XITAO_MAXTHREADS"
  shows "sched_inv N s'"
proof -
  note I = sched_invD [OF inv] and fresh = commit_fresh_inv [OF inv] and step = assms(1,2)
  show ?thesis
    unfolding sched_inv_def
    using inv_ref_step [OF step I(1) fresh] inv_commit_step [OF step I(2) fresh] inv_token_step [OF step I(3,1) assms(4)]
      inv_pc_step [OF step I(3,4,5)] inv_copies_step [OF step I(3,4,5)] inv_began_step [OF step I(6)]
      inv_out_step [OF step I(7,4,3)] inv_in_step [OF step I(8,4,3)] inv_last_step [OF step inv]
      inv_pending_step [OF step inv assms(4)] inv_freed_step [OF step inv] inv_simple_step [OF step inv]
    by blast
qed

text \<open>A workspace whose graph is complete and in which nothing has been pushed or has run.\<close>

definition fresh_rt :: "rt \<Rightarrow> bool" where
  "fresh_rt r \<longleftrightarrow> graph_ok r \<and> ready_q r = (\<lambda>_. []) \<and> assembly_q r = (\<lambda>_. []) \<and> task_completions r = (\<lambda>_. 0)"

lemma sched_inv_boot:
  assumes "fresh_rt r"
  shows "sched_inv N (boot r)"
proof -
  have g: "graph_ok r" and q: "ready_q r = (\<lambda>_. [])" "assembly_q r = (\<lambda>_. [])" "task_completions r = (\<lambda>_. 0)"
    using assms by (auto simp: fresh_rt_def)
  have e: "edges_into (boot r) t = in_edges r t" for t by (simp add: edges_into_def in_edges_def boot_def)
  have out: "in_edges r t = 0" if "next_task r \<le> t" for t
    unfolding in_edges_def using g that by (intro sum.neutral ballI occ_none) (auto simp: graph_ok_def)
  have pos: "0 \<le> in_edges r t" for t unfolding in_edges_def by (rule sum_nonneg) simp
  have ref: "t < next_task r \<Longrightarrow> 0 \<le> refcount (tasks r t)" for t using g pos [of t] by (simp add: graph_ok_def)
  have zero: "in_workers N f (boot r) = 0" if "f PStart = 0" for f using that by (simp add: boot_def tsum_def)
  have "inv_ref N (boot r)" using g out by (auto simp: inv_ref_def e zero) (auto simp: boot_def graph_ok_def)
  moreover have "inv_commit N (boot r)" by (simp add: inv_commit_def zero) (simp add: boot_def)
  moreover have "inv_token N (boot r)"
    using ref by (auto simp: inv_token_def zero) (auto simp: boot_def waiting_def in_ready_def q tsum_def le_less)
  moreover have "inv_pc N (boot r)" using g by (auto simp: inv_pc_def boot_def graph_ok_def)
  moreover have "inv_copies N (boot r)" by (simp add: inv_copies_def sent_to_def boot_def q)
  moreover have "inv_began N (boot r)" by (simp add: inv_began_def boot_def)
  moreover have "inv_out N (boot r)" using g by (auto simp: inv_out_def zero) (auto simp: boot_def graph_ok_def)
  moreover have "inv_in N (boot r)" using g by (auto simp: inv_in_def zero) (auto simp: boot_def graph_ok_def)
  moreover have "inv_last N (boot r)" using g by (auto simp: inv_last_def zero) (auto simp: boot_def graph_ok_def)
  moreover have "inv_pending (boot r)" using g by (auto simp: inv_pending_def unfinished_def boot_def graph_ok_def q pool_total_def tsum_def)
  moreover have "inv_freed (boot r)" by (simp add: inv_freed_def boot_def)
  moreover have "inv_simple (boot r)" by (simp add: inv_simple_def boot_def)
  ultimately show ?thesis by (simp add: sched_inv_def)
qed

lemma sched_inv_reachable:
  assumes "(sched_step rnd N)\<^sup>*\<^sup>* (boot r) s" and "fresh_rt r" and "N \<le> XITAO_MAXTHREADS" and "fault_free N s"
  shows "sched_inv N s"
  using assms(1,4)
proof (induction rule: rtranclp_induct)
  case base
  show ?case by (rule sched_inv_boot [OF assms(2)])
next
  case (step s s')
  have "fault_free N s" by (rule fault_free_back [OF step(2,4)])
  with step(3) have "sched_inv N s" by blast
  from sched_inv_step [OF step(2,4) this assms(3)] show ?case .
qed

lemma step_static_reachable:
  assumes "(sched_step rnd N)\<^sup>*\<^sup>* (boot r) s" and "fault_free N s"
  shows "next_task (rts s) = next_task r \<and> (\<forall>t. out (tasks (rts s) t) = out (tasks r t) \<and> kind (tasks (rts s) t) = kind (tasks r t))
    \<and> conf (rts s) = conf r \<and> lay (rts s) = lay r"
  using assms
proof (induction rule: rtranclp_induct)
  case base
  then show ?case by (simp add: boot_def)
next
  case (step s s')
  have "fault_free N s" by (rule fault_free_back [OF step(2,4)])
  with step(3) step_static [OF step(2,4)] show ?case by simp
qed

end
