(* ===== verification/Scheduler.thy ===== *)
theory Scheduler
  imports Sched_Count
begin

text \<open>
  What the scheduler guarantees, for every task graph a program can build, every number of
  workers up to 64, every interleaving of their steps and every random number.
\<close>

section \<open>From the program to the start\<close>

text \<open>Building a graph touches no queue.\<close>

lemma attach_ptt_queues [simp]:
  "ready_q (attach_ptt t s) = ready_q s" "assembly_q (attach_ptt t s) = assembly_q s"
  "task_completions (attach_ptt t s) = task_completions s"
  by (simp_all add: attach_ptt_def split: prod.splits)

lemma build_step_queues:
  "build_step rnd x s = Some s' \<Longrightarrow> ready_q s' = ready_q s \<and> assembly_q s' = assembly_q s \<and> task_completions s' = task_completions s"
  by (cases x) (auto simp: AssemblyTask_def SimpleTask_def PolyTask_def count_new_task_def make_edge_def Let_def
      set_sta_def clone_sta_def split: if_splits)

lemma build_queues:
  "build rnd xs s = Some s' \<Longrightarrow> ready_q s' = ready_q s \<and> assembly_q s' = assembly_q s \<and> task_completions s' = task_completions s"
  by (induction xs arbitrary: s) (auto dest: build_step_queues)

lemma build_fresh: "build rnd ops (init_rt c l blank) = Some r \<Longrightarrow> fresh_rt r"
  using graph_ok_build [OF graph_ok_init] build_queues by (fastforce simp: fresh_rt_def init_rt_def)

text \<open>A run of the program: a graph is built, then the workers and the master take steps.\<close>

definition reached :: "(real \<Rightarrow> real) \<Rightarrow> nat \<Rightarrow> build_op list \<Rightarrow> rt \<Rightarrow> sys \<Rightarrow> bool" where
  "reached rnd N ops r s \<longleftrightarrow> (\<exists>c l blank. build rnd ops (init_rt c l blank) = Some r)
     \<and> (sched_step rnd N)\<^sup>*\<^sup>* (boot r) s \<and> N \<le> XITAO_MAXTHREADS \<and> fault_free N s"

lemma reached_inv: "reached rnd N ops r s \<Longrightarrow> sched_inv N s"
  unfolding reached_def using sched_inv_reachable build_fresh by blast

lemma reached_static:
  "reached rnd N ops r s \<Longrightarrow> next_task (rts s) = next_task r \<and> (\<forall>t. out (tasks (rts s) t) = out (tasks r t)
     \<and> kind (tasks (rts s) t) = kind (tasks r t)) \<and> conf (rts s) = conf r \<and> lay (rts s) = lay r"
  unfolding reached_def using step_static_reachable by blast

section \<open>Consequences of the invariant\<close>

lemma began_sent:
  assumes inv: "sched_inv N s" and b: "0 < began s t n"
  shows "sent_to s t n" "began s t n = 1"
proof -
  note I = sched_invD [OF inv]
  have eq: "began s t n = ended s t n + (if n < N then running t (pcs s n) else 0)" using I(6) by (simp add: inv_began_def)
  have rb: "running t p \<le> busy t p" for p by (cases p) auto
  have le: "began s t n \<le> (if sent_to s t n then 1 else 0)"
  proof (cases "n < N")
    case True
    then show ?thesis using eq ended_bounds(3) [OF I(5), where n = n and t = t] rb [of "pcs s n"] by simp
  next
    case False
    then show ?thesis using eq ended_bounds(2) [OF I(5), of t n] by simp
  qed
  with b show "sent_to s t n" "began s t n = 1" by (auto split: if_splits)
qed

text \<open>If each thread of a place contributes at most one and the sum reaches the width, all did.\<close>

lemma full_place:
  fixes f :: "nat \<Rightarrow> int"
  assumes le: "\<And>n. n < N \<Longrightarrow> f n \<le> (if in_place p n then 1 else 0)"
    and big: "1 \<le> (\<Sum>n<N. f n)" "snd p \<le> (\<Sum>n<N. f n)" and ip: "in_place p n"
  shows "n < N \<and> f n = 1"
proof -
  let ?ip = "\<lambda>n. if in_place p n then 1 else 0 :: int"
  have tot: "(\<Sum>n<N. f n) \<le> (\<Sum>n<N. ?ip n)" by (rule sum_mono) (use le in auto)
  have cnt: "(\<Sum>n<M. ?ip n) \<le> snd p" for M
  proof -
    have "0 < snd p" using in_place_count [of p N] big(1) tot by linarith
    then show ?thesis using in_place_count [of p M] by simp
  qed
  have "(\<Sum>n<N. ?ip n - f n) = 0" using tot cnt [of N] big by (simp add: sum_subtractf)
  then have each: "f n = ?ip n" if "n < N" for n
    using that le sum_nonneg_eq_0_iff [of "{..<N}" "\<lambda>n. ?ip n - f n"] by fastforce
  have "n < N"
  proof (rule ccontr)
    assume "\<not> n < N"
    then have "{..<N} \<subseteq> {..<n}" by auto
    then have "(\<Sum>m<N. ?ip m) \<le> (\<Sum>m<n. ?ip m)" by (intro sum_mono2) auto
    then have "(\<Sum>m<N. ?ip m) + 1 \<le> (\<Sum>m<Suc n. ?ip m)" using ip by simp
    with cnt [of "Suc n"] tot big show False by linarith
  qed
  with each ip show ?thesis by simp
qed

lemma committed_done:
  assumes inv: "sched_inv N s" and c: "committed s t"
  shows "\<exists>p. place_of s t = Some p \<and> (\<forall>n. ended s t n = (if in_place p n then 1 else 0)) \<and> (\<forall>n. in_place p n \<longrightarrow> n < N)
    \<and> t < next_task (rts s) \<and> (\<exists>n. in_place p n)"
proof -
  note I = sched_invD [OF inv]
  obtain p where p: "place_of s t = Some p" using I(2) c by (auto simp: inv_commit_def)
  have t: "t < next_task (rts s)" using sent_known(1) [OF I(3), of t] p by simp
  have le: "0 \<le> ended s t n" "ended s t n \<le> (if in_place p n then 1 else 0)" for n
    using ended_bounds(1,2) [OF I(5), of t n] p by (auto simp: sent_to_def split: if_splits)
  show ?thesis
  proof (cases "kind (tasks (rts s) t)")
    case TASK_SIMPLE
    have "(\<Sum>n<N. ended s t n) = 1" using last_simple [OF inv TASK_SIMPLE] c by simp
    then obtain m where m: "m < N" "0 < ended s t m" using sum_nonpos [of "{..<N}" "ended s t"] by (smt (verit) lessThan_iff)
    then have pm: "p = (int m, 1)" using I(12) TASK_SIMPLE p by (auto simp: inv_simple_def)
    then have "ended s t n = (if in_place p n then 1 else 0)" for n
      using le [of n] le [of m] m by (auto simp: in_place_def split: if_splits)
    moreover have "in_place p m" using pm by (simp add: in_place_def)
    ultimately show ?thesis using p pm m t by (auto simp: in_place_def)
  next
    case TASK_ASSEMBLY
    have "0 \<le> in_workers N (comparing t (width (tasks (rts s) t))) s" by (rule in_workers_nonneg) simp
    with last_asm [OF inv TASK_ASSEMBLY t] c have w: "1 \<le> threads_out_tao (tasks (rts s) t)"
      "width (tasks (rts s) t) \<le> threads_out_tao (tasks (rts s) t)" by (auto split: if_splits)
    have now: "place_now t (rts s) = p" using I(4) p TASK_ASSEMBLY unfolding inv_pc_def by blast
    then have sp: "snd p = width (tasks (rts s) t)" by (auto simp: place_now_def)
    have "0 \<le> in_workers N (leaving t) s" by (rule in_workers_nonneg) simp
    moreover have "threads_out_tao (tasks (rts s) t) + in_workers N (leaving t) s = (\<Sum>n<N. ended s t n)"
      using I(7) TASK_ASSEMBLY t by (simp add: inv_out_def)
    ultimately have big: "1 \<le> (\<Sum>n<N. ended s t n)" "snd p \<le> (\<Sum>n<N. ended s t n)" using w sp by linarith+
    have full: "n < N \<and> ended s t n = 1" if "in_place p n" for n
      by (rule full_place [OF _ big that]) (use le in auto)
    have each: "ended s t n = (if in_place p n then 1 else 0)" for n using full [of n] le [of n] by auto
    have "\<exists>n. in_place p n"
    proof (rule ccontr)
      assume "\<not> ?thesis"
      then have "(\<Sum>n<N. ended s t n) = 0" using each by simp
      with big(1) show False by simp
    qed
    with p t full each show ?thesis by blast
  qed
qed

text \<open>A task that has been sent anywhere has no predecessor whose completion has not begun.\<close>

lemma sent_preds_committed:
  assumes inv: "sched_inv N s" and "place_of s b \<noteq> None" and "a < next_task (rts s)" and "b \<in> set (out (tasks (rts s) a))"
  shows "committed s a"
proof (rule ccontr)
  assume n: "\<not> committed s a"
  note I = sched_invD [OF inv]
  have k: "b < next_task (rts s)" "waiting s b = 0" using sent_known [OF I(3) assms(2)] by auto
  then have "refcount (tasks (rts s) b) \<le> 0" by (simp add: waiting_def split: if_splits)
  moreover have "refcount (tasks (rts s) b) = edges_into s b + in_workers N (edges_left b) s"
    using I(1) k(1) unfolding inv_ref_def by (smt (verit))
  moreover have "0 \<le> in_workers N (edges_left b) s" by (rule in_workers_nonneg) simp
  moreover have "1 \<le> edges_into s b"
  proof -
    let ?g = "\<lambda>a. if committed s a then 0 else occ b (out (tasks (rts s) a))"
    have "?g a \<le> edges_into s b" unfolding edges_into_def using assms(3) by (intro member_le_sum) auto
    moreover have "1 \<le> ?g a" using n assms(4) count_list_pos_iff [of "out (tasks (rts s) a)" b] by simp
    ultimately show ?thesis by linarith
  qed
  ultimately show False by linarith
qed

text \<open>Once a thread executes an assembly, as many threads as its width have come in.\<close>

definition inv_rendezvous :: "sys \<Rightarrow> bool" where
  "inv_rendezvous s \<longleftrightarrow> (\<forall>t n. kind (tasks (rts s) t) = TASK_ASSEMBLY \<and> 0 < began s t n \<longrightarrow>
     width (tasks (rts s) t) \<le> threads_in_tao (tasks (rts s) t))"

lemma inv_rendezvous_step:
  assumes "sched_step rnd N s s'" and "fault_free N s'" and inv: "sched_inv N s" and r: "inv_rendezvous s"
  shows "inv_rendezvous s'"
proof -
  note I = sched_invD [OF inv]
  have old: "width (tasks (rts s) t) \<le> threads_in_tao (tasks (rts s) t)"
    if "kind (tasks (rts s) t) = TASK_ASSEMBLY" "0 < began s t n" for t n
    using r that by (auto simp: inv_rendezvous_def)
  have placed: "\<not> 0 < began s t n" if "place_of s t = None" for t n
    using began_sent(1) [OF inv, of t n] that by (auto simp: sent_to_def)
  from assms(1,2) show ?thesis
  proof (cases rule: sched_step_explicit)
    case (come_in n t pt)
    then show ?thesis using old by (fastforce simp: inv_rendezvous_def)
  next
    case (distribute n t l)
    have "place_of s t = None" using held_by [OF I(3), of n t] distribute by simp
    then show ?thesis using distribute old placed by (auto simp: inv_rendezvous_def)
  next
    case (wake_global n a b bs l w)
    have "place_of s b = None" using held_by [OF I(3), of n b] wake_global by simp
    then show ?thesis using wake_global old placed by (auto simp: inv_rendezvous_def)
  next
    case (take_ready n c t pt l w k)
    have "place_of s t = None" using ready_placeless(1) [OF I(3), of t c] take_ready by simp
    then show ?thesis using take_ready old placed by (auto simp: inv_rendezvous_def)
  next
    case (simple_begin n t)
    then show ?thesis using old by (auto simp: inv_rendezvous_def bump_diff split: if_splits)
  next
    case (rendezvous n t)
    then show ?thesis using old by (auto simp: inv_rendezvous_def bump_diff split: if_splits)
  qed (use old in \<open>auto simp: inv_rendezvous_def tasks_drop_ref\<close>)
qed

lemma inv_rendezvous_reachable:
  assumes "(sched_step rnd N)\<^sup>*\<^sup>* (boot r) s" and "fresh_rt r" and "N \<le> XITAO_MAXTHREADS" and "fault_free N s"
  shows "inv_rendezvous s"
  using assms(1,4)
proof (induction rule: rtranclp_induct)
  case base
  show ?case by (simp add: inv_rendezvous_def boot_def)
next
  case (step s s')
  have f: "fault_free N s" by (rule fault_free_back [OF step(2,4)])
  from inv_rendezvous_step [OF step(2,4) sched_inv_reachable [OF step(1) assms(2,3) f] step(3) [OF f]] show ?case .
qed

text \<open>A worker that has left the loop left it when nothing was pending, and nothing is added.\<close>

lemma unfinished_mono: "sched_step rnd N s s' \<Longrightarrow> fault_free N s' \<Longrightarrow> unfinished s' \<le> unfinished s"
proof -
  assume step: "sched_step rnd N s s'" "fault_free N s'"
  have "finished s t \<Longrightarrow> finished s' t" for t
    using step by (cases rule: sched_step_explicit) auto
  then show ?thesis unfolding unfinished_def step_static(1) [OF step] by (intro sum_mono) auto
qed

lemma unfinished_nonneg: "0 \<le> unfinished s"
  unfolding unfinished_def by (rule sum_nonneg) auto

lemma unfinished_zero: "unfinished s = 0 \<longleftrightarrow> (\<forall>t<next_task (rts s). finished s t)"
  unfolding unfinished_def by (subst sum_nonneg_eq_0_iff) (auto split: if_splits)

lemma pending_zero:
  assumes inv: "sched_inv N s" and "pending_tasks (rts s) \<le> 0"
  shows "unfinished s = 0"
proof -
  note I = sched_invD [OF inv]
  have "0 \<le> pool_total (task_pool (rts s))" "0 \<le> pool_total (task_completions (rts s))"
    using I(10) by (auto simp: inv_pending_def pool_total_def intro!: tsum_nonneg)
  moreover have "pending_tasks (rts s) = pool_total (task_pool (rts s)) + pool_total (task_completions (rts s)) + unfinished s"
    using I(10) by (simp add: inv_pending_def)
  ultimately show ?thesis using assms(2) unfinished_nonneg [of s] by linarith
qed

lemma done_unfinished:
  assumes "(sched_step rnd N)\<^sup>*\<^sup>* (boot r) s" and "fresh_rt r" and "N \<le> XITAO_MAXTHREADS" and "fault_free N s"
    and "n < N" and "pcs s n = PDone"
  shows "unfinished s = 0"
  using assms(1,4,6)
proof (induction rule: rtranclp_induct)
  case base
  then show ?case by (simp add: boot_def)
next
  case (step s s')
  have f: "fault_free N s" by (rule fault_free_back [OF step(2,4)])
  note inv = sched_inv_reachable [OF step(1) assms(2,3) f]
  have "unfinished s = 0"
  proof (cases "pcs s n = PDone")
    case True
    with step(3) f show ?thesis by blast
  next
    case False
    from step(2,4) have "pending_tasks (rts s) = 0"
    proof (cases rule: sched_step_explicit)
      case (release_done m t i c)
      then show ?thesis using step(5) False by (cases c) (auto split: if_splits)
    next
      case (commit_end m a p)
      then show ?thesis using step(5) False by (auto split: if_splits)
    qed (use step(5) False in \<open>auto split: if_splits\<close>)
    then show ?thesis using pending_zero [OF inv] by simp
  qed
  with unfinished_mono [OF step(2,4)] unfinished_nonneg [of s'] show ?case by linarith
qed

text \<open>When a worker has left the loop, or the condition of the drain holds, all tasks are complete.\<close>

lemma exit_committed:
  assumes "reached rnd N ops r s" and "n < N" and "pcs s n = PDone \<or> pending_tasks (rts s) \<le> 0" and "t < next_task r"
  shows "finished s t" "committed s t"
proof -
  note inv = reached_inv [OF assms(1)] and st = reached_static [OF assms(1)]
  have "unfinished s = 0"
    using assms(3)
  proof
    assume "pcs s n = PDone"
    then show ?thesis using done_unfinished [OF _ _ _ _ assms(2)] assms(1) build_fresh unfolding reached_def by blast
  qed (rule pending_zero [OF inv])
  then show f: "finished s t" using assms(4) st by (simp add: unfinished_zero)
  have "0 \<le> in_workers N (completing t) s" by (rule in_workers_nonneg) simp
  then show "committed s t" using f sched_invD(2) [OF inv] unfolding inv_commit_def by (smt (verit))
qed

section \<open>Running a schedule\<close>

text \<open>
  The worker's next step as a function, for examples: it does not steal, takes 0 for every
  random number and 1 for every measured time.
\<close>

definition some_or_fault :: "nat \<Rightarrow> sys \<Rightarrow> ('a \<Rightarrow> sys) \<Rightarrow> 'a option \<Rightarrow> sys" where
  "some_or_fault n s f x = (case x of None \<Rightarrow> go n PFault s | Some y \<Rightarrow> f y)"

fun worker_at :: "nat \<Rightarrow> sys \<Rightarrow> pc \<Rightarrow> sys option" where
  "worker_at n s PStart = Some (go n (if inclusive_partitions (lay (rts s)) ! n = [] then POff else PTop None) s)"
| "worker_at n s (PTop (Some t)) =
     (case kind (tasks (rts s) t) of
        TASK_SIMPLE \<Rightarrow> Some (go n (PSimple t) (s\<lparr>began := bump t n (began s), place_of := (place_of s)(t \<mapsto> (int n, 1))\<rparr>))
      | TASK_ASSEMBLY \<Rightarrow>
          if leader (tasks (rts s) t) < 0 \<and> width (tasks (rts s) t) = 0 then Some (go n PFault s)
          else let r = default_leader n t (rts s) in
            Some (go n (PIns t (leader (tasks r t)) ToTop) (s\<lparr>rts := r, place_of := (place_of s)(t \<mapsto> place_now t r)\<rparr>)))"
| "worker_at n s (PTop None) =
     (case try_pop_assembly_task n (rts s) of
        None \<Rightarrow> Some (go n PReady s)
      | Some (t, r) \<Rightarrow> (case kind (tasks r t) of
            TASK_SIMPLE \<Rightarrow> Some (go n PFault s)
          | TASK_ASSEMBLY \<Rightarrow> Some (go n (PPop t) (s\<lparr>rts := r\<rparr>))))"
| "worker_at n s (PSimple t) = Some (go n (PCommit t (out (tasks (rts s) t)))
     (s\<lparr>ended := bump t n (ended s), committed := (committed s)(t := True)\<rparr>))"
| "worker_at n s (PIns t i c) =
     (if i < leader (tasks (rts s) t) + width (tasks (rts s) t)
      then if i < cfg_nthreads (conf (rts s)) \<and> 0 \<le> i
           then Some (go n (PIns t (i + 1) c)
             (s\<lparr>rts := (rts s)\<lparr>assembly_q := (assembly_q (rts s))(nat i := assembly_q (rts s) (nat i) @ [t])\<rparr>\<rparr>))
           else Some (go n PFault s)
      else Some (go n (PRel t (leader (tasks (rts s) t)) c) s))"
| "worker_at n s (PRel t i c) =
     (if i < leader (tasks (rts s) t) + width (tasks (rts s) t) then Some (go n (PRel t (i + 1) c) s)
      else Some (go n (resume c) s))"
| "worker_at n s (PPop t) = Some (some_or_fault n s (\<lambda>r. go n (PWait t) (s\<lparr>rts := arrive t r\<rparr>)) (before_execute n t (rts s)))"
| "worker_at n s (PWait t) =
     (if width (tasks (rts s) t) \<le> threads_in_tao (tasks (rts s) t)
      then Some (go n (PRun t) (s\<lparr>began := bump t n (began s)\<rparr>)) else None)"
| "worker_at n s (PRun t) = Some (go n (PPerf t) (s\<lparr>ended := bump t n (ended s)\<rparr>))"
| "worker_at n s (PPerf t) = Some (some_or_fault n s (\<lambda>r. go n (POut t) (s\<lparr>rts := r\<rparr>)) (after_execute (\<lambda>x. x) n t 1 (rts s)))"
| "worker_at n s (POut t) = Some (go n (PCmp t (threads_out_tao (tasks (rts s) t) + 1)) (s\<lparr>rts := leave t (rts s)\<rparr>))"
| "worker_at n s (PCmp t v) =
     (if v = width (tasks (rts s) t)
      then Some (go n (PCommit t (out (tasks (rts s) t))) (s\<lparr>committed := (committed s)(t := True)\<rparr>))
      else Some (go n (PTop None) s))"
| "worker_at n s (PCommit a (b # bs)) =
     (if refcount (tasks (rts s) b) = 1 then Some (go n (PWake a b bs) (s\<lparr>rts := drop_ref b (rts s)\<rparr>))
      else Some (go n (PCommit a bs) (s\<lparr>rts := drop_ref b (rts s)\<rparr>)))"
| "worker_at n s (PCommit a []) =
     Some (go n (if kind (tasks (rts s) a) = TASK_ASSEMBLY then PDel a else PTop None)
       (s\<lparr>rts := complete_one n (rts s), finished := (finished s)(a := True)\<rparr>))"
| "worker_at n s (PWake a b bs) =
     (if goes_global b (rts s)
      then Some (some_or_fault n s (\<lambda>r. go n (PIns b (leader (tasks r b)) (ToCommit a bs))
        (s\<lparr>rts := r, place_of := (place_of s)(b \<mapsto> place_now b r)\<rparr>)) (global_search_ptt (\<lambda>x. x) b (rts s)))
      else Some (some_or_fault n s (\<lambda>q. go n (PCommit a bs) (s\<lparr>rts := insert_in_ready_queue b q (rts s)\<rparr>))
        (ready_index n (tasks (rts s) b))))"
| "worker_at n s (PDel a) =
     Some (go n (PTop None) (s\<lparr>freed := (freed s)(a := freed s a \<or> delete_executed_taos (conf (rts s)))\<rparr>))"
| "worker_at n s PReady =
     (if ready_q (rts s) n = [] then Some (go n PFlushC s)
      else (case try_pop_ready_task (\<lambda>x. x) n n 0 0 (rts s) of
              None \<Rightarrow> Some (go n PFault s)
            | Some (x, r) \<Rightarrow> (case x of None \<Rightarrow> None | Some t \<Rightarrow> Some (go n (PTop (Some t)) (s\<lparr>rts := r\<rparr>)))))"
| "worker_at n s PFlushC = Some (go n PFlushP (s\<lparr>rts := flush_completions n (rts s)\<rparr>))"
| "worker_at n s PFlushP = Some (go n PCheck (s\<lparr>rts := flush_pool n (rts s)\<rparr>))"
| "worker_at n s PCheck = Some (go n (if can_exit s \<and> pending_tasks (rts s) = 0 then PDone else PTop None) s)"
| "worker_at n s _ = None"

definition worker_next :: "nat \<Rightarrow> nat \<Rightarrow> sys \<Rightarrow> sys option" where
  "worker_next N n s = (if N \<le> n then None
     else if \<exists>t\<in>set (derefs (pcs s n)). freed s t then Some (go n PFault s) else worker_at n s (pcs s n))"

datatype action = Worker nat | Push tid nat | Fini

fun act :: "nat \<Rightarrow> action \<Rightarrow> sys \<Rightarrow> sys option" where
  "act N (Worker n) s = worker_next N n s"
| "act N (Push t q) s = (if unpushed s t \<and> q < XITAO_MAXTHREADS
     then Some (s\<lparr>rts := insert_in_ready_queue t q (if use_performance_modeling (conf (rts s)) then attach_ptt t (rts s) else rts s),
       unpushed := (unpushed s)(t := False)\<rparr>) else None)"
| "act N Fini s = Some (s\<lparr>can_exit := True\<rparr>)"

fun run :: "nat \<Rightarrow> action list \<Rightarrow> sys \<Rightarrow> sys option" where
  "run N [] s = Some s"
| "run N (x # xs) s = do { s' \<leftarrow> act N x s; run N xs s' }"

lemma worker_at_step:
  assumes "ready_to_step N s n" and "worker_at n s (pcs s n) = Some s'"
  shows "sched_step (\<lambda>x. x) N s s'"
  using assms(2)
proof (cases "pcs s n")
  case (PTop x)
  show ?thesis
  proof (cases x)
    case None
    with PTop assms show ?thesis
      by (auto split: option.splits task_kind.splits intro: sched_step.intros)
  next
    case (Some t)
    with PTop assms show ?thesis
      by (auto simp: Let_def split: task_kind.splits if_splits intro: sched_step.intros)
  qed
next
  case (PCommit a bs)
  show ?thesis
  proof (cases bs)
    case Nil
    with PCommit assms sched_step.commit_end [of N s n a] show ?thesis by simp
  next
    case (Cons b cs)
    with PCommit assms show ?thesis by (auto split: if_splits intro: sched_step.intros)
  qed
next
  case PReady
  show ?thesis
  proof (cases "ready_q (rts s) n = []")
    case True
    with PReady assms show ?thesis using sched_step.no_ready [of N s n] by simp
  next
    case False
    with PReady assms show ?thesis
      using sched_step.pop_ready [of N s n "\<lambda>x. x" 0 0] sched_step.pop_ready_fault [of N s n "\<lambda>x. x" 0 0]
      by (auto split: option.splits)
  qed
next
  case (PCmp t v)
  with assms show ?thesis by (auto split: if_splits intro: sched_step.last_out sched_step.not_last_out)
next
  case (PDel t)
  with assms show ?thesis using sched_step.delete_task [of N s n t] by auto
qed (use assms in \<open>auto simp: some_or_fault_def ready_to_step_def split: option.splits if_splits intro: sched_step.intros\<close>)

lemma worker_next_step: "worker_next N n s = Some s' \<Longrightarrow> sched_step (\<lambda>x. x) N s s'"
  using worker_at_step [of N s n s'] sched_step.use_after_free [of n N _ s]
  by (auto simp: worker_next_def ready_to_step_def split: if_splits)

lemma act_step: "act N x s = Some s' \<Longrightarrow> sched_step (\<lambda>x. x) N s s'"
proof (cases x)
  case (Push t q)
  assume "act N x s = Some s'"
  with Push show ?thesis using sched_step.master_push [of s t q _ "\<lambda>x. x" N] by (simp split: if_splits)
qed (auto intro: worker_next_step sched_step.master_fini)

lemma run_steps: "run N xs s = Some s' \<Longrightarrow> (sched_step (\<lambda>x. x) N)\<^sup>*\<^sup>* s s'"
proof (induction xs arbitrary: s)
  case (Cons x xs)
  then obtain s1 where "act N x s = Some s1" "run N xs s1 = Some s'" by auto
  with Cons.IH act_step [of N x s s1] show ?case by (auto intro: converse_rtranclp_into_rtranclp)
qed simp

text \<open>
  Two workers, a task of width 1 before a task of width 2, without the performance model:
  the graph, and schedules that stop while both workers execute the second task, when all
  is done, and after the first worker has left the loop.
\<close>

definition two_ops :: "build_op list" where
  "two_ops = [New_assembly 0 1 0, New_assembly 0 2 0, Edge 0 1]"

definition two_conf :: config where
  "two_conf = (default_config 2)\<lparr>use_performance_modeling := False\<rparr>"

definition two_rt :: rt where
  "two_rt = the (build (\<lambda>x. x) two_ops (init_rt two_conf small_layout blank_task))"

definition both_run :: "action list" where
  "both_run = map Worker [0, 1] @ [Push 0 0] @ replicate 29 (Worker 0) @ map Worker [1, 1, 0, 1]"

definition all_done :: "action list" where
  "all_done = both_run @ map Worker [0, 1, 0, 1, 0, 0, 1, 1, 1, 1]"

definition one_left :: "action list" where
  "one_left = all_done @ [Fini] @ replicate 4 (Worker 1) @ replicate 5 (Worker 0)"

definition raced :: "action list" where
  "raced = both_run @ map Worker [0, 1, 0, 1, 0, 1, 1, 1, 1]"

definition no_fault_2 :: "sys \<Rightarrow> bool" where
  "no_fault_2 s \<longleftrightarrow> pcs s 0 \<noteq> PFault \<and> pcs s 1 \<noteq> PFault"

definition quiet_2 :: "sys \<Rightarrow> bool" where
  "quiet_2 s \<longleftrightarrow> \<not> unpushed s 0 \<and> \<not> unpushed s 1 \<and> (\<forall>q\<in>set [0..<XITAO_MAXTHREADS]. ready_q (rts s) q = [])
     \<and> assembly_q (rts s) 0 = [] \<and> assembly_q (rts s) 1 = [] \<and> empty_pc (pcs s 0) \<and> empty_pc (pcs s 1)
     \<and> place_of s 0 = Some (0, 1) \<and> place_of s 1 = Some (0, 2)"

lemma two_reached:
  assumes "run 2 xs (boot two_rt) = Some s" and "no_fault_2 s"
  shows "reached (\<lambda>x. x) 2 two_ops two_rt s"
proof -
  have "build (\<lambda>x. x) two_ops (init_rt two_conf small_layout blank_task) \<noteq> None" by code_simp
  then have "build (\<lambda>x. x) two_ops (init_rt two_conf small_layout blank_task) = Some two_rt" by (auto simp: two_rt_def)
  moreover have "fault_free 2 s" using assms(2) by (auto simp: fault_free_def no_fault_2_def less_2_cases_iff)
  ultimately show ?thesis using run_steps [OF assms(1)] unfolding reached_def by (auto simp: XITAO_MAXTHREADS_def)
qed

lemma both_run_state:
  "\<exists>s. run 2 both_run (boot two_rt) = Some s \<and> reached (\<lambda>x. x) 2 two_ops two_rt s \<and> began s 1 0 = 1 \<and> pcs s 0 = PRun 1"
proof -
  have "(case run 2 both_run (boot two_rt) of None \<Rightarrow> False
      | Some s \<Rightarrow> no_fault_2 s \<and> began s 1 0 = 1 \<and> pcs s 0 = PRun 1)" by code_simp
  then show ?thesis using two_reached by (auto split: option.splits)
qed

section \<open>Properties\<close>

text \<open>C1.
  Dependencies are respected. In every reachable state of every program: if any worker has
  begun to execute task \<open>b\<close>, then each task \<open>a\<close> with an edge to \<open>b\<close> was sent to a place and
  every thread of that place has finished executing it.
\<close>

theorem dependencies_respected:
  assumes "reached rnd N ops r s" and "a < next_task r" and "b \<in> set (out (tasks r a))" and "0 < began s b n"
  shows "\<exists>l w. place_of s a = Some (l, w) \<and> (\<forall>m. l \<le> int m \<and> int m < l + w \<longrightarrow> ended s a m = 1)"
proof -
  note inv = reached_inv [OF assms(1)] and st = reached_static [OF assms(1)]
  have "place_of s b \<noteq> None" using began_sent(1) [OF inv assms(4)] by (auto simp: sent_to_def)
  then have "committed s a" using sent_preds_committed [OF inv, of b a] assms(2,3) st by simp
  from committed_done [OF inv this] show ?thesis by (fastforce simp: in_place_def)
qed

theorem dependencies_respected_witness:
  "\<exists>s l w. run 2 both_run (boot two_rt) = Some s \<and> began s 1 0 = 1 \<and> place_of s 0 = Some (l, w)
     \<and> (\<forall>m. l \<le> int m \<and> int m < l + w \<longrightarrow> ended s 0 m = 1)"
proof -
  obtain s where s: "run 2 both_run (boot two_rt) = Some s" "reached (\<lambda>x. x) 2 two_ops two_rt s" "began s 1 0 = 1"
    using both_run_state by blast
  have "0 < next_task two_rt" "1 \<in> set (out (tasks two_rt 0))" by code_simp+
  with dependencies_respected [OF s(2), of 0 1 0] s show ?thesis by auto
qed

text \<open>C2.
  Every task runs exactly once on each thread of its place. A thread begins a task at most
  once, and only a thread of the place the task was sent to; when the completion of a task
  has begun, every thread of its place has begun and ended it, and no other thread has.
\<close>

theorem tasks_run_exactly_once:
  assumes "reached rnd N ops r s"
  shows "began s t n \<le> 1 \<and> (0 < began s t n \<longrightarrow> sent_to s t n)
    \<and> (committed s t \<longrightarrow> began s t n = (if sent_to s t n then 1 else 0) \<and> ended s t n = began s t n)"
proof -
  note inv = reached_inv [OF assms]
  note I = sched_invD [OF inv]
  have one: "began s t n \<le> 1" "0 < began s t n \<longrightarrow> sent_to s t n"
    using began_sent [OF inv, of t n] by (cases "0 < began s t n"; simp)+
  moreover have "began s t n = (if sent_to s t n then 1 else 0) \<and> ended s t n = began s t n" if c: "committed s t"
  proof -
    from committed_done [OF inv c] obtain p where p: "place_of s t = Some p" "ended s t n = (if in_place p n then 1 else 0)" by blast
    have "ended s t n \<le> began s t n" using I(6) by (simp add: inv_began_def)
    with p one show ?thesis by (auto simp: sent_to_def split: if_splits)
  qed
  ultimately show ?thesis by blast
qed

theorem tasks_run_exactly_once_witness:
  "\<exists>s. run 2 both_run (boot two_rt) = Some s \<and> committed s 0 \<and> sent_to s 0 0 \<and> began s 0 0 = 1 \<and> ended s 0 0 = 1"
proof -
  obtain s where s: "run 2 both_run (boot two_rt) = Some s" "reached (\<lambda>x. x) 2 two_ops two_rt s"
    using both_run_state by blast
  have "(case run 2 both_run (boot two_rt) of None \<Rightarrow> False | Some s \<Rightarrow> committed s 0 \<and> place_of s 0 = Some (0, 1))"
    by code_simp
  then have c: "committed s 0" "sent_to s 0 0" using s(1) by (auto simp: sent_to_def in_place_def)
  with tasks_run_exactly_once [OF s(2), of 0 0] s show ?thesis by auto
qed

text \<open>C3.
  Assemblies are co-scheduled. When a thread has begun to execute an assembly, every thread
  of the assembly's place has arrived: it has begun too or is at the rendezvous.
\<close>

theorem assemblies_are_coscheduled:
  assumes "reached rnd N ops r s" and "kind (tasks r t) = TASK_ASSEMBLY" and "0 < began s t n" and "sent_to s t m"
  shows "m < N \<and> (began s t m = 1 \<or> pcs s m = PWait t)"
proof -
  note inv = reached_inv [OF assms(1)] and st = reached_static [OF assms(1)]
  note I = sched_invD [OF inv]
  have "inv_rendezvous s" using assms(1) inv_rendezvous_reachable build_fresh unfolding reached_def by blast
  moreover have k: "kind (tasks (rts s) t) = TASK_ASSEMBLY" using assms(2) st by simp
  ultimately have w: "width (tasks (rts s) t) \<le> threads_in_tao (tasks (rts s) t)"
    using assms(3) unfolding inv_rendezvous_def by blast
  obtain p where p: "place_of s t = Some p" "in_place p m" using assms(4) by (auto simp: sent_to_def)
  have t: "t < next_task (rts s)" using sent_known(1) [OF I(3), of t] p by simp
  have "place_now t (rts s) = p" using I(4) p(1) k unfolding inv_pc_def by blast
  then have now: "snd p = width (tasks (rts s) t)" by (auto simp: place_now_def)
  let ?f = "\<lambda>n. began s t n + arrived_at t (pcs s n)"
  have sum: "(\<Sum>n<N. ?f n) = threads_in_tao (tasks (rts s) t)"
    using I(8) k t by (simp add: inv_in_def sum.distrib tsum_def)
  have rb: "running t q + arrived_at t q \<le> busy t q" for q by (cases q) auto
  have f: "?f n \<le> (if in_place p n then 1 else 0)" if "n < N" for n
  proof -
    have "began s t n = ended s t n + running t (pcs s n)" using I(6) that by (simp add: inv_began_def)
    moreover have "ended s t n + busy t (pcs s n) \<le> (if in_place p n then 1 else 0)"
      using ended_bounds(3) [OF I(5) that, of t] p by (simp add: sent_to_def)
    ultimately show ?thesis using rb [of "pcs s n"] by linarith
  qed
  have nn_began: "0 \<le> began s t m" using I(6) ended_bounds(1) [OF I(5), of t m] by (simp add: inv_began_def)
  have "1 \<le> snd p" using p(2) by (simp add: in_place_def)
  then have "m < N \<and> ?f m = 1" by (intro full_place [OF f _ _ p(2)]) (use sum w now in linarith)+
  then show ?thesis using nn_began by (cases "pcs s m") (auto split: if_splits)
qed

theorem assemblies_are_coscheduled_witness:
  "\<exists>s. run 2 both_run (boot two_rt) = Some s \<and> began s 1 0 = 1 \<and> (began s 1 1 = 1 \<or> pcs s 1 = PWait 1)"
proof -
  obtain s where s: "run 2 both_run (boot two_rt) = Some s" "reached (\<lambda>x. x) 2 two_ops two_rt s" "began s 1 0 = 1"
    using both_run_state by blast
  have k: "kind (tasks two_rt 1) = TASK_ASSEMBLY" by code_simp
  have "(case run 2 both_run (boot two_rt) of None \<Rightarrow> False | Some s \<Rightarrow> place_of s 1 = Some (0, 2))" by code_simp
  then have "sent_to s 1 1" using s(1) by (auto simp: sent_to_def in_place_def)
  with assemblies_are_coscheduled [OF s(2) k, of 0 1] s show ?thesis by auto
qed

text \<open>C4.
  The program ends only when the work is done. If a worker has left its loop, or
  \<open>pending_tasks\<close> is at most 0 (the condition \<open>xitao_drain\<close> waits for), then every task of
  the graph is finished: all threads of its place have executed it and its completion has
  been counted.
\<close>

theorem exit_means_finished:
  assumes "reached rnd N ops r s" and "n < N" and "pcs s n = PDone \<or> pending_tasks (rts s) \<le> 0" and "t < next_task r"
  shows "finished s t \<and> (\<exists>l w. place_of s t = Some (l, w) \<and> (\<forall>m. l \<le> int m \<and> int m < l + w \<longrightarrow> ended s t m = 1))"
proof -
  note ex = exit_committed [OF assms]
  from committed_done [OF reached_inv [OF assms(1)] ex(2)] ex(1) show ?thesis by (fastforce simp: in_place_def)
qed

theorem exit_means_finished_witness:
  "\<exists>s. run 2 one_left (boot two_rt) = Some s \<and> pcs s 0 = PDone \<and> finished s 0 \<and> finished s 1"
proof -
  have "(case run 2 one_left (boot two_rt) of None \<Rightarrow> False | Some s \<Rightarrow> no_fault_2 s \<and> pcs s 0 = PDone)" by code_simp
  then obtain s where s: "run 2 one_left (boot two_rt) = Some s" "no_fault_2 s" "pcs s 0 = PDone" by (auto split: option.splits)
  have n: "next_task two_rt = 2" by code_simp
  note ex = exit_means_finished [OF two_reached [OF s(1,2)], of 0]
  from ex [of 0] ex [of 1] s n show ?thesis by auto
qed

text \<open>When all queues of its place are empty and all workers idle, a placed task has been executed by
  its whole place.\<close>

lemma idle_ended:
  assumes inv: "sched_inv N s" and "\<forall>n<N. assembly_q (rts s) n = []" and idle: "\<forall>n<N. empty_pc (pcs s n)"
    and p: "place_of s t = Some p" and v: "valid_place N p"
  shows "(\<Sum>n<N. ended s t n) = snd p"
proof -
  note I = sched_invD [OF inv]
  have none: "in_workers N f s = 0" if "\<And>p. empty_pc p \<Longrightarrow> f p = 0" for f
    using idle that by (simp add: tsum_def)
  have ended_in: "ended s t n = (if in_place p n then 1 else 0)" if "n < N" for n
  proof -
    have "in_workers N (to_push t n) s = 0" by (rule none) simp
    moreover have "busy t (pcs s n) = 0" using idle that by simp
    moreover have "(if sent_to s t n then in_workers N (to_push t n) s else 0) + occ t (assembly_q (rts s) n)
       + (if n < N then busy t (pcs s n) else 0) + ended s t n = (if sent_to s t n then 1 else 0)"
      using I(5) unfolding inv_copies_def by blast
    ultimately show ?thesis using that assms(2) p by (auto simp: sent_to_def split: if_splits)
  qed
  show "(\<Sum>n<N. ended s t n) = snd p"
  proof -
    have "(\<Sum>n<N. ended s t n) = (\<Sum>n<N. if in_place p n then 1 else 0)" using ended_in by (intro sum.cong) auto
    also have "\<dots> = int (card {n. n < N \<and> in_place p n})" by (simp add: sum.If_cases Int_def conj_commute)
    also have "{n. n < N \<and> in_place p n} = {nat (fst p)..<nat (fst p + snd p)}"
      using v by (auto simp: in_place_def valid_place_def)
    finally show ?thesis using v by (simp add: valid_place_def nat_add_distrib)
  qed
qed

text \<open>C5.
  Nothing is lost. In an acyclic graph, when the master has pushed all tasks without
  predecessors, all queues are empty, no worker holds a task, and no task was sent outside
  the machine, every task is finished, and what is still pending is only what the workers
  have not yet subtracted: pools and counted completions.
\<close>

theorem quiescence_means_finished:
  assumes "reached rnd N ops r s" and acyclic: "\<forall>a<next_task r. \<forall>b\<in>set (out (tasks r a)). (rank a :: nat) < rank b"
    and "\<forall>t<next_task r. \<not> unpushed s t" and "\<forall>q<XITAO_MAXTHREADS. ready_q (rts s) q = []"
    and "\<forall>n<N. assembly_q (rts s) n = []" and "\<forall>n<N. empty_pc (pcs s n)"
    and "\<forall>t<next_task r. \<forall>p. place_of s t = Some p \<longrightarrow> valid_place N p"
  shows "(\<forall>t<next_task r. finished s t)
    \<and> pending_tasks (rts s) = (\<Sum>i<64. task_pool (rts s) i) + (\<Sum>i<64. task_completions (rts s) i)"
proof -
  note inv = reached_inv [OF assms(1)] and st = reached_static [OF assms(1)]
  note I = sched_invD [OF inv]
  have none: "in_workers N f s = 0" if "\<And>p. empty_pc p \<Longrightarrow> f p = 0" for f
    using assms(6) that by (simp add: tsum_def)
  have bound: "t < next_task (rts s) \<longleftrightarrow> t < next_task r" for t using st by simp
  have com: "committed s t" if "t < next_task r" for t
    using that
  proof (induction "rank t" arbitrary: t rule: less_induct)
    case less
    have t: "t < next_task (rts s)" using less.prems st by simp
    have "(if committed s a then 0 else occ t (out (tasks (rts s) a))) = 0" if "a < next_task (rts s)" for a
    proof (cases "t \<in> set (out (tasks (rts s) a))")
      case True
      then have "committed s a" using acyclic that st less.hyps [of a] by simp
      then show ?thesis by simp
    qed simp
    then have "edges_into s t = 0" unfolding edges_into_def by (intro sum.neutral) blast
    moreover have "in_workers N (edges_left t) s = 0" by (rule none) simp
    ultimately have ref: "refcount (tasks (rts s) t) = 0" using I(1) t unfolding inv_ref_def by (smt (verit))
    have h: "in_workers N (held t) s = 0" by (rule none) simp
    have r: "in_ready s t = 0" using assms(4) by (simp add: in_ready_def tsum_def XITAO_MAXTHREADS_def)
    have "place_of s t \<noteq> None"
      using token_eq [OF I(3), of t] h r ref t assms(3) bound by (auto simp: waiting_def split: if_splits)
    then obtain p where p: "place_of s t = Some p" by blast
    then have v: "valid_place N p" using assms(7) less.prems by blast
    have sum: "(\<Sum>n<N. ended s t n) = snd p" by (rule idle_ended [OF inv assms(5,6) p v])
    show ?case
    proof (cases "kind (tasks (rts s) t)")
      case TASK_SIMPLE
      with last_simple [OF inv this] sum v show ?thesis by (auto simp: valid_place_def split: if_splits)
    next
      case TASK_ASSEMBLY
      have "place_now t (rts s) = p" using I(4) p TASK_ASSEMBLY unfolding inv_pc_def by blast
      then have w: "snd p = width (tasks (rts s) t)" by (auto simp: place_now_def)
      have "in_workers N (leaving t) s = 0" by (rule none) simp
      moreover have "threads_out_tao (tasks (rts s) t) + in_workers N (leaving t) s = (\<Sum>m<N. ended s t m)"
        using I(7) TASK_ASSEMBLY t unfolding inv_out_def by blast
      ultimately have "threads_out_tao (tasks (rts s) t) = snd p" using sum by simp
      moreover have "in_workers N (comparing t (width (tasks (rts s) t))) s = 0" by (rule none) simp
      ultimately show ?thesis using last_asm [OF inv TASK_ASSEMBLY t] w v by (auto simp: valid_place_def split: if_splits)
    qed
  qed
  have fin: "finished s t" if "t < next_task r" for t
  proof -
    have "in_workers N (completing t) s = 0" by (rule none) simp
    moreover have "in_workers N (completing t) s + (if finished s t then 1 else 0) = (if committed s t then 1 else 0)"
      using I(2) unfolding inv_commit_def by blast
    ultimately show ?thesis using com [OF that] by (simp split: if_splits)
  qed
  then have "unfinished s = 0" using st by (simp add: unfinished_zero)
  then show ?thesis using fin I(10) by (auto simp: inv_pending_def pool_total_def tsum_def XITAO_MAXTHREADS_def)
qed

theorem quiescence_means_finished_witness:
  "\<exists>s. run 2 all_done (boot two_rt) = Some s \<and> finished s 0 \<and> finished s 1
     \<and> pending_tasks (rts s) = (\<Sum>i<64. task_pool (rts s) i) + (\<Sum>i<64. task_completions (rts s) i)"
proof -
  have "(case run 2 all_done (boot two_rt) of None \<Rightarrow> False | Some s \<Rightarrow> no_fault_2 s \<and> quiet_2 s)" by code_simp
  then obtain s where s: "run 2 all_done (boot two_rt) = Some s" "no_fault_2 s" and q: "quiet_2 s" by (auto split: option.splits)
  have n: "next_task two_rt = 2" and e: "out (tasks two_rt 0) = [1]" "out (tasks two_rt 1) = []" by code_simp+
  have "\<forall>a<next_task two_rt. \<forall>b\<in>set (out (tasks two_rt a)). a < b"
    using n e by (auto simp: less_2_cases_iff)
  from quiescence_means_finished [OF two_reached [OF s] this] q n s show ?thesis
    by (auto simp: quiet_2_def list_all_iff less_2_cases_iff valid_place_def)
qed

text \<open>A worker does not push an assembly that all threads of its place have executed.\<close>

lemma no_push_after_end:
  assumes inv: "sched_inv N s" and "n < N" and k: "kind (tasks (rts s) t) = TASK_ASSEMBLY" and pc: "pcs s n = PIns t i c"
    and p: "place_of s t = Some p" "\<And>m. ended s t m = (if in_place p m then 1 else 0)" and some: "\<exists>m. in_place p m"
  shows "leader (tasks (rts s) t) + width (tasks (rts s) t) \<le> i"
proof (rule ccontr)
  note I = sched_invD [OF inv]
  have now: "place_now t (rts s) = p" using I(4) p(1) k unfolding inv_pc_def by blast
  assume less: "\<not> ?thesis"
  have l: "leader (tasks (rts s) t) \<le> i" using I(4) assms(2) pc by (auto simp: inv_pc_def dest!: spec [of _ n])
  obtain m0 where "in_place p m0" using some by blast
  with now less l have m: "in_place p (nat (max i 0))" by (auto simp: in_place_def place_now_def max_def)
  let ?m = "nat (max i 0)"
  have "1 \<le> in_workers N (to_push t ?m) s"
    using in_workers_pos [of "to_push t ?m" n N s] assms(2) pc by simp
  moreover have "(if sent_to s t ?m then in_workers N (to_push t ?m) s else 0) + occ t (assembly_q (rts s) ?m)
       + (if ?m < N then busy t (pcs s ?m) else 0) + ended s t ?m = (if sent_to s t ?m then 1 else 0)"
    using I(5) unfolding inv_copies_def by blast
  moreover have "0 \<le> (if ?m < N then busy t (pcs s ?m) else 0)" "0 \<le> occ t (assembly_q (rts s) ?m)" by simp_all
  moreover have "sent_to s t ?m" "ended s t ?m = 1" using m p(1,2) by (auto simp: sent_to_def)
  ultimately show False by (smt (verit))
qed

text \<open>A task is deleted at most once: the workers that are about to delete it and its deletion are no more
  than its completion, which is counted once.\<close>

fun deleting :: "tid \<Rightarrow> pc \<Rightarrow> int" where
  "deleting t (PDel a) = (if a = t then 1 else 0)"
| "deleting t _ = 0"

lemma deleting_bounds [simp]: "0 \<le> deleting t p" "empty_pc p \<Longrightarrow> deleting t p = 0" "deleting t (resume c) = 0"
  by (cases p; simp)+ (cases c; simp)

lemma deleted_once:
  assumes "reached rnd N ops r s"
  shows "in_workers N (deleting t) s + (if freed s t then 1 else 0) \<le> (if finished s t then 1 else 0)"
proof -
  have "(sched_step rnd N)\<^sup>*\<^sup>* (boot r) s" "fault_free N s" using assms by (auto simp: reached_def)
  then show ?thesis
  proof (induction rule: rtranclp_induct)
    case base
    show ?case by (simp add: boot_def tsum_def)
  next
    case (step s s')
    have f: "fault_free N s" by (rule fault_free_back [OF step(2,4)])
    have "reached rnd N ops r s" using assms step(1) f by (auto simp: reached_def)
    note I = sched_invD [OF reached_inv [OF this]] and IH = step(3) [OF f]
    from step(2,4) show ?case
    proof (cases rule: sched_step_explicit)
      case (commit_end n a p)
      have "completing t (pcs s n) \<le> in_workers N (completing t) s" using commit_end(1) by (intro in_workers_pos) simp_all
      then have "a = t \<Longrightarrow> \<not> finished s t" using I(2) commit_end(2) unfolding inv_commit_def by (smt (verit) completing.simps(1))
      moreover have "in_workers N (deleting t) s' = in_workers N (deleting t) s + deleting t p"
        using commit_end(1,2,4) by simp
      moreover have "deleting t p \<le> (if a = t then 1 else 0)" using commit_end(3) by simp
      moreover have "freed s' = freed s" "finished s' = (finished s)(a := True)" using commit_end(4) by simp_all
      ultimately show ?thesis using IH by (auto split: if_splits)
    next
      case (delete_task n a g)
      then have "in_workers N (deleting t) s' = in_workers N (deleting t) s - (if a = t then 1 else 0)"
        "freed s' = (freed s)(a := g)" "finished s' = finished s" by simp_all
      then show ?thesis using IH by (auto split: if_splits)
    qed (use IH in \<open>simp_all only: go_sel sys.simps tsum_upd deleting.simps deleting_bounds empty_pc.simps resume.simps, auto\<close>)
  qed
qed

lemma no_double_deletion: "reached rnd N ops r s \<Longrightarrow> n < N \<Longrightarrow> pcs s n = PDel t \<Longrightarrow> \<not> freed s t"
  using deleted_once [of rnd N ops r s t] in_workers_pos [of "deleting t" n N s] by (auto split: if_splits)

text \<open>Use after free. Whatever is deleted, in a reachable state a worker is about to use a
  deleted task only in two positions: it has counted itself out of the assembly without
  being the last and compares the count with \<open>width\<close>, or it has pushed the assembly to its
  last queue and still reads \<open>leader\<close> and \<open>width\<close> to end the loop or release the locks.
\<close>

theorem use_after_free_positions:
  assumes "reached rnd N ops r s" and "n < N" and "t \<in> set (derefs (pcs s n))" and "freed s t"
  shows "(\<exists>v. pcs s n = PCmp t v \<and> v \<noteq> width (tasks (rts s) t)) \<or> (\<exists>i c. pcs s n = PRel t i c)
    \<or> (\<exists>i c. pcs s n = PIns t i c \<and> leader (tasks (rts s) t) + width (tasks (rts s) t) \<le> i)"
proof -
  note inv = reached_inv [OF assms(1)]
  note I = sched_invD [OF inv]
  have fin: "finished s t" and k: "kind (tasks (rts s) t) = TASK_ASSEMBLY" using I(11) assms(4) by (auto simp: inv_freed_def)
  have nn: "0 \<le> in_workers N (completing t) s" by (rule in_workers_nonneg) simp
  then have com: "committed s t" and z: "in_workers N (completing t) s = 0"
    using I(2) fin unfolding inv_commit_def by (smt (verit))+
  from committed_done [OF inv com] obtain p where p: "place_of s t = Some p" "\<And>m. ended s t m = (if in_place p m then 1 else 0)"
    "t < next_task (rts s)" by blast
  have now: "place_now t (rts s) = p" using I(4) p(1) k unfolding inv_pc_def by blast
  have no_held: "held t (pcs s n) = 0"
    using sent_known(5) [OF I(3), of t] p(1) in_workers_pos [of "held t" n N s] assms(2) counts_nonneg(1) [of t "pcs s n"] by simp
  have no_busy: "busy t (pcs s n) = 0"
    using ended_bounds(3) [OF I(5) assms(2), of t] p counts_nonneg(3) [of t "pcs s n"] by (auto simp: sent_to_def split: if_splits)
  have no_compl: "completing t (pcs s n) = 0"
    using z in_workers_pos [of "completing t" n N s] assms(2) counts_nonneg(8) [of t "pcs s n"] by simp
  have cmp0: "0 \<le> in_workers N (comparing t (width (tasks (rts s) t))) s" by (rule in_workers_nonneg) simp
  with last_asm [OF inv k p(3)] com have w: "width (tasks (rts s) t) \<le> threads_out_tao (tasks (rts s) t)"
    and cmp: "in_workers N (comparing t (width (tasks (rts s) t))) s = 0" "1 \<le> threads_out_tao (tasks (rts s) t)" by (auto split: if_splits)
  have no_cmp: "comparing t (width (tasks (rts s) t)) (pcs s n) = 0"
    using cmp(1) in_workers_pos [of "comparing t (width (tasks (rts s) t))" n N s] assms(2)
      counts_nonneg(7) [where t = t and p = "pcs s n"] by (simp add: order_antisym)
  have out: "threads_out_tao (tasks (rts s) t) + in_workers N (leaving t) s = (\<Sum>m<N. ended s t m)"
    using I(7) k p(3) by (simp add: inv_out_def)
  have "(\<Sum>m<N. ended s t m) \<le> max 0 (width (tasks (rts s) t))"
    using ended_total [OF I(5), of t] p(1) now by (auto simp: place_now_def)
  with out w cmp(2) have "in_workers N (leaving t) s \<le> 0" by linarith
  then have no_leave: "leaving t (pcs s n) = 0"
    using in_workers_pos [where g = "leaving t" and s = s, OF counts_nonneg(6) assms(2)] counts_nonneg(6) [of t "pcs s n"] by linarith
  have no_edge: False if "pcs s n = PCommit a (t # bs)" for a bs
    using ref_of_edge [OF I(1) assms(2) that] sent_known(2) [OF I(3), of t] p(1) by (simp add: waiting_def)
  have some: "\<exists>m. in_place p m"
  proof (rule ccontr)
    assume "\<not> ?thesis"
    then have "(\<Sum>m<N. ended s t m) = 0" using p(2) by simp
    moreover have "0 \<le> in_workers N (leaving t) s" by (rule in_workers_nonneg) simp
    ultimately show False using out cmp(2) by linarith
  qed
  note no_push = no_push_after_end [OF inv assms(2) k _ p(1,2) some]
  have no_del: "pcs s n \<noteq> PDel t" using no_double_deletion [OF assms(1,2)] assms(4) by blast
  show ?thesis
  proof (cases "pcs s n")
    case (PTop x)
    with assms(3) no_held show ?thesis by (cases x) auto
  next
    case (PCommit a bs)
    with assms(3) no_compl no_edge show ?thesis by (cases bs) auto
  qed (use assms(3) no_held no_busy no_compl no_leave no_cmp no_push no_del in auto)
qed

theorem use_after_free_positions_witness:
  "\<exists>s v. run 2 raced (boot two_rt) = Some s \<and> freed s 1 \<and> pcs s 0 = PCmp 1 v \<and> v \<noteq> width (tasks (rts s) 1)"
proof -
  have "(case run 2 raced (boot two_rt) of None \<Rightarrow> False | Some s \<Rightarrow> no_fault_2 s \<and> freed s 1 \<and> pcs s 0 = PCmp 1 1)" by code_simp
  then obtain s where s: "run 2 raced (boot two_rt) = Some s" "no_fault_2 s" "freed s 1" "pcs s 0 = PCmp 1 1"
    by (auto split: option.splits)
  with use_after_free_positions [OF two_reached [OF s(1,2)], of 0 1] show ?thesis by auto
qed

text \<open>The use after free does happen: in a program with two workers and two tasks, when executed
  tasks are deleted, a worker reaches its comparison with the width of an assembly that the
  other worker has already deleted, and the next step is undefined behaviour.
\<close>

theorem use_after_free_happens:
  "\<exists>s s'. reached (\<lambda>x. x) 2 two_ops two_rt s \<and> sched_step (\<lambda>x. x) 2 s s' \<and> pcs s 0 = PCmp 1 1 \<and> freed s 1 \<and> pcs s' 0 = PFault"
proof -
  have "(case run 2 raced (boot two_rt) of None \<Rightarrow> False | Some s \<Rightarrow> no_fault_2 s \<and> freed s 1 \<and> pcs s 0 = PCmp 1 1)" by code_simp
  then obtain s where s: "run 2 raced (boot two_rt) = Some s" "no_fault_2 s" "freed s 1" "pcs s 0 = PCmp 1 1"
    by (auto split: option.splits)
  moreover have "sched_step (\<lambda>x. x) 2 s (go 0 PFault s)" using s by (intro sched_step.use_after_free [of 0 2 1]) auto
  moreover have "pcs (go 0 PFault s) 0 = PFault" by (simp add: go_def)
  ultimately show ?thesis using two_reached [OF s(1,2)] by blast
qed

end
