(* ===== verification/Sched_Refine.thy ===== *)
theory Sched_Refine
  imports Scheduler
begin

text \<open>
  The sequential reading of a completion (\<open>commit_and_wakeup\<close> of \<open>Wakeup.thy\<close>) and the
  steps of a worker in \<open>Sched_Model.thy\<close> agree: an undisturbed worker takes the workspace
  to exactly what the function returns.
\<close>

abbreviation steps :: "(real \<Rightarrow> real) \<Rightarrow> nat \<Rightarrow> sys \<Rightarrow> sys \<Rightarrow> bool" where
  "steps rnd N \<equiv> (sched_step rnd N)\<^sup>*\<^sup>*"

text \<open>What the steps leave alone, besides the workspace and the worker's position.\<close>

definition same_rest :: "nat \<Rightarrow> sys \<Rightarrow> sys \<Rightarrow> bool" where
  "same_rest n s s' \<longleftrightarrow> (\<forall>m. m \<noteq> n \<longrightarrow> pcs s' m = pcs s m) \<and> freed s' = freed s \<and> can_exit s' = can_exit s
     \<and> total_steals s' = total_steals s \<and> unpushed s' = unpushed s \<and> began s' = began s \<and> ended s' = ended s
     \<and> committed s' = committed s \<and> finished s' = finished s"

lemma same_rest_refl [simp]: "same_rest n s s"
  by (simp add: same_rest_def)

lemma same_rest_trans: "same_rest n s s1 \<Longrightarrow> same_rest n s1 s2 \<Longrightarrow> same_rest n s s2"
  by (simp add: same_rest_def)

lemma same_rest_go [simp]:
  "same_rest n s (go n p s)" "same_rest n s (go n p (s\<lparr>rts := r\<rparr>))" "same_rest n s (go n p (s\<lparr>rts := r, place_of := f\<rparr>))"
  by (simp_all add: same_rest_def go_def)

lemma steps_insert:
  assumes "push_assembly t i k (rts s) = Some r" and "pcs s n = PIns t i c" and "n < N" and "\<not> freed s t"
    and "k = nat (leader (tasks (rts s) t) + width (tasks (rts s) t) - i)"
  shows "steps rnd N s (go n (PRel t (leader (tasks (rts s) t)) c) (s\<lparr>rts := r\<rparr>))
    \<and> tasks r = tasks (rts s)"
  using assms
proof (induction k arbitrary: i s)
  case 0
  then have "sched_step rnd N s (go n (PRel t (leader (tasks (rts s) t)) c) s)"
    by (intro sched_step.push_done) (auto simp: ready_to_step_def)
  with 0 show ?case by auto
next
  case (Suc k)
  let ?r = "(rts s)\<lparr>assembly_q := (assembly_q (rts s))(nat i := assembly_q (rts s) (nat i) @ [t])\<rparr>"
  let ?s = "go n (PIns t (i + 1) c) (s\<lparr>rts := ?r\<rparr>)"
  have i: "i < cfg_nthreads (conf (rts s))" "0 \<le> i" and p: "push_assembly t (i + 1) k ?r = Some r"
    using Suc.prems(1) by (auto split: if_splits)
  have "sched_step rnd N s ?s"
    using Suc.prems i by (intro sched_step.push_one) (auto simp: ready_to_step_def)
  moreover have "steps rnd N ?s (go n (PRel t (leader (tasks (rts ?s) t)) c) (?s\<lparr>rts := r\<rparr>)) \<and> tasks r = tasks (rts ?s)"
    using Suc.prems p by (intro Suc.IH [of "i + 1"]) (auto simp: go_def)
  ultimately show ?case by (auto simp: go_def intro: converse_rtranclp_into_rtranclp)
qed

lemma steps_release:
  assumes "pcs s n = PRel t i c" and "n < N" and "\<not> freed s t"
  shows "steps rnd N s (go n (resume c) s)"
  using assms
proof (induction "nat (leader (tasks (rts s) t) + width (tasks (rts s) t) - i)" arbitrary: i s)
  case 0
  then have "sched_step rnd N s (go n (resume c) s)"
    by (intro sched_step.release_done) (auto simp: ready_to_step_def)
  then show ?case by blast
next
  case (Suc k)
  let ?s = "go n (PRel t (i + 1) c) s"
  have "sched_step rnd N s ?s"
    using Suc.prems Suc.hyps(2) by (intro sched_step.release_one) (auto simp: ready_to_step_def)
  moreover have "steps rnd N ?s (go n (resume c) ?s)"
    using Suc.prems Suc.hyps(2) by (intro Suc.hyps(1)) (auto simp: go_def)
  ultimately show ?case by (auto simp: go_def intro: converse_rtranclp_into_rtranclp)
qed

text \<open>The whole insertion of a task that has been placed.\<close>

lemma steps_insertion:
  assumes "insert_task_in_assembly_queues t (rts s) = Some r" and "pcs s n = PIns t (leader (tasks (rts s) t)) c"
    and "n < N" and "\<not> freed s t"
  shows "steps rnd N s (go n (resume c) (s\<lparr>rts := r\<rparr>))"
proof -
  let ?l = "leader (tasks (rts s) t)"
  let ?s = "go n (PRel t ?l c) (s\<lparr>rts := r\<rparr>)"
  have "push_assembly t ?l (nat (width (tasks (rts s) t))) (rts s) = Some r"
    using assms(1) by (simp add: insert_task_in_assembly_queues_def)
  from steps_insert [OF this assms(2-4)] have "steps rnd N s ?s" by simp
  moreover have "steps rnd N ?s (go n (resume c) ?s)"
    using assms(3,4) by (intro steps_release) (auto simp: go_def)
  ultimately show ?thesis by (simp add: go_def)
qed

lemma steps_trans: "steps rnd N s s1 \<Longrightarrow> steps rnd N s1 s2 \<Longrightarrow> steps rnd N s s2"
  by (rule rtranclp_trans)

text \<open>Making a task ready.\<close>

lemma steps_make_ready:
  assumes "make_ready rnd n b (rts s) = Some r" and "pcs s n = PWake a b bs" and "n < N" and "\<not> freed s a" "\<not> freed s b"
  shows "\<exists>s'. steps rnd N s s' \<and> rts s' = r \<and> pcs s' n = PCommit a bs \<and> same_rest n s s'"
proof (cases "goes_global b (rts s)")
  case True
  with assms(1) obtain r1 where r1: "global_search_ptt rnd b (rts s) = Some r1" "insert_task_in_assembly_queues b r1 = Some r"
    by (auto simp: make_ready_def split: bind_splits)
  let ?s = "go n (PIns b (leader (tasks r1 b)) (ToCommit a bs)) (s\<lparr>rts := r1, place_of := (place_of s)(b \<mapsto> place_now b r1)\<rparr>)"
  have "sched_step rnd N s ?s"
    using assms True r1 by (intro sched_step.wake_global) (auto simp: ready_to_step_def)
  moreover have "steps rnd N ?s (go n (resume (ToCommit a bs)) (?s\<lparr>rts := r\<rparr>))"
    using assms(3-5) r1 by (intro steps_insertion [where t = b]) (auto simp: go_def)
  ultimately have "steps rnd N s (go n (resume (ToCommit a bs)) (?s\<lparr>rts := r\<rparr>))" by (rule converse_rtranclp_into_rtranclp)
  moreover have "same_rest n s (go n (resume (ToCommit a bs)) (?s\<lparr>rts := r\<rparr>))" by (simp add: same_rest_def go_def)
  ultimately show ?thesis by (intro exI) (auto simp: go_def)
next
  case False
  with assms(1) obtain q where q: "ready_index n (tasks (rts s) b) = Some q" "r = insert_in_ready_queue b q (rts s)"
    by (auto simp: make_ready_def split: bind_splits)
  have "sched_step rnd N s (go n (PCommit a bs) (s\<lparr>rts := r\<rparr>))"
    using assms False q by (auto simp: ready_to_step_def intro: sched_step.wake_ready)
  then show ?thesis by (intro exI [of _ "go n (PCommit a bs) (s\<lparr>rts := r\<rparr>)"]) (auto simp: go_def same_rest_def)
qed

lemma steps_wakeup:
  assumes "wakeup_loop rnd n bs (rts s) = Some r" and "pcs s n = PCommit a bs" and "n < N"
    and "\<forall>t\<in>set (a # bs). \<not> freed s t"
  shows "\<exists>s'. steps rnd N s s' \<and> rts s' = r \<and> pcs s' n = PCommit a [] \<and> same_rest n s s'"
  using assms
proof (induction bs arbitrary: s)
  case Nil
  then show ?case by (intro exI [of _ s]) auto
next
  case (Cons b bs)
  let ?r = "drop_ref b (rts s)"
  obtain s1 where s1: "steps rnd N s s1" "pcs s1 n = PCommit a bs" "same_rest n s s1" "wakeup_loop rnd n bs (rts s1) = Some r"
  proof (cases "refcount (tasks (rts s) b) = 1")
    case True
    with Cons.prems(1) obtain r1 where r1: "make_ready rnd n b ?r = Some r1" "wakeup_loop rnd n bs r1 = Some r"
      by (auto simp: Let_def split: bind_splits)
    let ?s = "go n (PWake a b bs) (s\<lparr>rts := ?r\<rparr>)"
    have first: "sched_step rnd N s ?s"
      using Cons.prems True by (intro sched_step.drop_last_edge) (auto simp: ready_to_step_def)
    have "\<exists>s'. steps rnd N ?s s' \<and> rts s' = r1 \<and> pcs s' n = PCommit a bs \<and> same_rest n ?s s'"
      using Cons.prems r1 by (intro steps_make_ready) (auto simp: go_def)
    then obtain s' where "steps rnd N ?s s'" "rts s' = r1" "pcs s' n = PCommit a bs" "same_rest n ?s s'" by blast
    with first r1 that [of s'] show ?thesis
      using same_rest_trans [OF same_rest_go(2)] by (metis converse_rtranclp_into_rtranclp)
  next
    case False
    let ?s = "go n (PCommit a bs) (s\<lparr>rts := ?r\<rparr>)"
    have "sched_step rnd N s ?s"
      using Cons.prems False by (intro sched_step.drop_edge) (auto simp: ready_to_step_def)
    moreover have "wakeup_loop rnd n bs (rts ?s) = Some r" using Cons.prems(1) False by (simp add: go_def Let_def)
    ultimately show ?thesis using that [of ?s] by (auto simp: go_def same_rest_def)
  qed
  have "\<exists>s'. steps rnd N s1 s' \<and> rts s' = r \<and> pcs s' n = PCommit a [] \<and> same_rest n s1 s'"
    using Cons.prems s1 by (intro Cons.IH) (auto simp: same_rest_def)
  then obtain s' where "steps rnd N s1 s'" "rts s' = r \<and> pcs s' n = PCommit a [] \<and> same_rest n s1 s'" by blast
  with steps_trans [OF s1(1)] same_rest_trans [OF s1(3)] show ?case by blast
qed

text \<open>C10.
  The worker's completion refines \<open>commit_and_wakeup\<close>. From the state in which a worker
  starts to complete task \<open>t\<close> (and no task it touches has been deleted), if the sequential
  function returns a workspace, the worker has a run of its own steps to exactly that
  workspace, with \<open>t\<close> counted as finished, the other workers where they were, and nothing
  else changed.
\<close>

theorem completion_steps_refine_commit_and_wakeup:
  assumes "commit_and_wakeup rnd n t (rts s) = Some r" and "pcs s n = PCommit t (out (tasks (rts s) t))" and "n < N"
    and "\<forall>u\<in>set (t # out (tasks (rts s) t)). \<not> freed s u"
  shows "\<exists>s'. (sched_step rnd N)\<^sup>*\<^sup>* s s' \<and> rts s' = r \<and> finished s' = (finished s)(t := True)
    \<and> pcs s' = (pcs s)(n := if kind (tasks r t) = TASK_ASSEMBLY then PDel t else PTop None)
    \<and> freed s' = freed s \<and> began s' = began s \<and> ended s' = ended s \<and> committed s' = committed s"
proof -
  obtain r1 where r1: "wakeup_loop rnd n (out (tasks (rts s) t)) (rts s) = Some r1" "r = complete_one n r1"
    using assms(1) by (auto simp: commit_and_wakeup_def split: bind_splits)
  from steps_wakeup [OF r1(1) assms(2-4)] obtain s1 where
    s1: "steps rnd N s s1" "rts s1 = r1" "pcs s1 n = PCommit t []" "same_rest n s s1" by blast
  let ?s = "go n (if kind (tasks (rts s1) t) = TASK_ASSEMBLY then PDel t else PTop None)
      (s1\<lparr>rts := complete_one n (rts s1), finished := (finished s1)(t := True)\<rparr>)"
  have "sched_step rnd N s1 ?s"
    using s1 assms(3,4) by (intro sched_step.commit_end) (auto simp: ready_to_step_def same_rest_def)
  with s1(1) have "steps rnd N s ?s" by (rule rtranclp.rtrancl_into_rtrancl)
  moreover have "pcs ?s = (pcs s)(n := if kind (tasks r t) = TASK_ASSEMBLY then PDel t else PTop None)"
    using s1 r1 by (auto simp: go_def same_rest_def complete_one_def fun_eq_iff)
  ultimately show ?thesis
    using s1 r1 by (intro exI [of _ ?s]) (simp add: go_def same_rest_def)
qed

theorem completion_steps_refine_commit_and_wakeup_witness:
  "\<exists>s r s'. run 2 (map Worker [0, 1] @ [Push 0 0] @ replicate 14 (Worker 0)) (boot two_rt) = Some s
     \<and> commit_and_wakeup (\<lambda>x. x) 0 0 (rts s) = Some r
     \<and> (sched_step (\<lambda>x. x) 2)\<^sup>*\<^sup>* s s' \<and> rts s' = r \<and> finished s' 0 \<and> pcs s' 0 = PDel 0"
proof -
  have "(case run 2 (map Worker [0, 1] @ [Push 0 0] @ replicate 14 (Worker 0)) (boot two_rt) of None \<Rightarrow> False
      | Some s \<Rightarrow> pcs s 0 = PCommit 0 [1] \<and> out (tasks (rts s) 0) = [1] \<and> \<not> freed s 0 \<and> \<not> freed s 1
          \<and> (case commit_and_wakeup (\<lambda>x. x) 0 0 (rts s) of None \<Rightarrow> False | Some r \<Rightarrow> kind (tasks r 0) = TASK_ASSEMBLY))"
    by code_simp
  then obtain s r where s: "run 2 (map Worker [0, 1] @ [Push 0 0] @ replicate 14 (Worker 0)) (boot two_rt) = Some s"
    "pcs s 0 = PCommit 0 [1]" "out (tasks (rts s) 0) = [1]" "\<not> freed s 0" "\<not> freed s 1"
    "commit_and_wakeup (\<lambda>x. x) 0 0 (rts s) = Some r" "kind (tasks r 0) = TASK_ASSEMBLY"
    by (auto split: option.splits)
  with completion_steps_refine_commit_and_wakeup [OF s(6), of 2] show ?thesis by fastforce
qed

end
