(* ===== verification/Programs.thy ===== *)
theory Programs
  imports Sched_Refine
begin

text \<open>
  Programs on the scheduler: the steps of \<open>Sched_Model.thy\<close> together with what the tasks
  do. A program gives each task a body, its \<open>execute(nthread)\<close>, which every thread of the
  task's place runs once; it reads and writes the program's data and may find other tasks
  deleted. A body is one step, taken where \<open>execute\<close> returns: what tasks that may run at
  the same time do to the same data is not interleaved more finely. The locales give the
  conditions under which a program's result does not depend on the schedule; the theories
  of the example programs interpret them.
\<close>

section \<open>Steps with task bodies\<close>

text \<open>
  A body gets the deleted tasks, its task, the task's place (\<open>leader\<close> and \<open>width\<close>), the
  thread and the data; \<open>None\<close> is undefined behaviour or the end of the program.
\<close>

type_synonym 'm body = "(tid \<Rightarrow> bool) \<Rightarrow> tid \<Rightarrow> place \<Rightarrow> nat \<Rightarrow> 'm \<Rightarrow> 'm option"

fun executes :: "pc \<Rightarrow> tid option" where
  "executes (PRun t) = Some t"
| "executes (PSimple t) = Some t"
| "executes _ = None"

definition run_body :: "'m body \<Rightarrow> sys \<Rightarrow> tid \<Rightarrow> nat \<Rightarrow> 'm \<Rightarrow> 'm option" where
  "run_body body s t n m = do { p \<leftarrow> place_of s t; body (freed s) t p n m }"

inductive prog_step :: "'m body \<Rightarrow> (real \<Rightarrow> real) \<Rightarrow> nat \<Rightarrow> sys \<times> 'm \<Rightarrow> sys \<times> 'm \<Rightarrow> bool"
  for body :: "'m body" and rnd :: "real \<Rightarrow> real" and N :: nat where
  other_step: "sched_step rnd N s s' \<Longrightarrow> ended s' = ended s \<Longrightarrow> prog_step body rnd N (s, m) (s', m)"
| body_step: "n < N \<Longrightarrow> executes (pcs s n) = Some t \<Longrightarrow> sched_step rnd N s s' \<Longrightarrow> ended s' = bump t n (ended s) \<Longrightarrow>
    run_body body s t n m = Some m' \<Longrightarrow> prog_step body rnd N (s, m) (s', m')"
| body_fault: "n < N \<Longrightarrow> executes (pcs s n) = Some t \<Longrightarrow> \<not> freed s t \<Longrightarrow> run_body body s t n m = None \<Longrightarrow>
    prog_step body rnd N (s, m) (go n PFault s, m)"

definition prog_reached ::
    "'m body \<Rightarrow> (real \<Rightarrow> real) \<Rightarrow> nat \<Rightarrow> build_op list \<Rightarrow> rt \<Rightarrow> 'm \<Rightarrow> sys \<Rightarrow> 'm \<Rightarrow> bool" where
  "prog_reached body rnd N ops r m0 s m \<longleftrightarrow> (\<exists>c l blank. build rnd ops (init_rt c l blank) = Some r)
     \<and> (prog_step body rnd N)\<^sup>*\<^sup>* (boot r, m0) (s, m) \<and> N \<le> XITAO_MAXTHREADS \<and> fault_free N s"

text \<open>A step of a program is a step of the scheduler, or the failure of a body.\<close>

lemma prog_step_sched:
  assumes "prog_step body rnd N (s, m) (s', m')" and "fault_free N s'"
  shows "sched_step rnd N s s'" "fault_free N s"
proof -
  show "sched_step rnd N s s'"
    using assms by (cases rule: prog_step.cases) (auto simp: fault_free_def)
  with fault_free_back assms(2) show "fault_free N s" by blast
qed

lemma prog_steps_sched:
  assumes "(prog_step body rnd N)\<^sup>*\<^sup>* (s0, m0) (s, m)" and "fault_free N s"
  shows "(sched_step rnd N)\<^sup>*\<^sup>* s0 s"
  using assms
proof (induction "(s, m)" arbitrary: s m rule: rtranclp_induct)
  case base
  then show ?case by simp
next
  case (step y)
  obtain s1 m1 where y: "y = (s1, m1)" by (cases y)
  from prog_step_sched [OF step.hyps(2) [unfolded y] step.prems] step.hyps(3) [OF y]
  show ?case by (auto intro: rtranclp.rtrancl_into_rtrancl)
qed

lemma prog_reached_sched: "prog_reached body rnd N ops r m0 s m \<Longrightarrow> reached rnd N ops r s"
  by (auto simp: prog_reached_def reached_def intro: prog_steps_sched)

section \<open>Order facts of the scheduler\<close>

definition edge :: "rt \<Rightarrow> tid \<Rightarrow> tid \<Rightarrow> bool" where
  "edge r a b \<longleftrightarrow> a < next_task r \<and> b \<in> set (out (tasks r a))"

abbreviation ahead :: "rt \<Rightarrow> tid \<Rightarrow> tid \<Rightarrow> bool" where
  "ahead r \<equiv> (edge r)\<^sup>+\<^sup>+"

text \<open>Graphs under construction.\<close>

lemma build_append: "build rnd (xs @ ys) s = Option.bind (build rnd xs s) (build rnd ys)"
  by (induction xs arbitrary: s) (auto split: bind_splits)

lemma make_edge_sel:
  assumes "a \<noteq> t"
  shows "next_task (make_edge a t r) = next_task r"
    "out (tasks (make_edge a t r) u) = (if u = a then out (tasks r u) @ [t] else out (tasks r u))"
    "refcount (tasks (make_edge a t r) u) = (if u = t then refcount (tasks r u) + 1 else refcount (tasks r u))"
    "kind (tasks (make_edge a t r) u) = kind (tasks r u)" "conf (make_edge a t r) = conf r"
  using assms by (auto simp: make_edge_def Let_def attach_ptt_def split: prod.splits)

lemma edge_make_edge: "a < next_task r \<Longrightarrow> a \<noteq> t \<Longrightarrow> edge (make_edge a t r) x y \<longleftrightarrow> edge r x y \<or> x = a \<and> y = t"
  by (auto simp: edge_def make_edge_sel)

text \<open>The threads that have executed a task.\<close>

definition shares :: "sys \<Rightarrow> tid \<Rightarrow> nat set" where
  "shares s t = {n. 0 < ended s t n}"

definition members :: "place \<Rightarrow> nat set" where
  "members p = {n. in_place p n}"

lemma members_iff [simp]: "n \<in> members p \<longleftrightarrow> in_place p n"
  by (simp add: members_def)

lemma committed_ahead:
  assumes "reached rnd N ops r s" and "ahead r a b" and "place_of s b \<noteq> None"
  shows "committed s a"
  using assms(2,3)
proof (induction rule: converse_tranclp_induct)
  case (base a)
  then show ?case
    using sent_preds_committed [OF reached_inv [OF assms(1)] base(2), of a] reached_static [OF assms(1)] by (auto simp: edge_def)
next
  case (step a a')
  from step(3) [OF step(4)] have "place_of s a' \<noteq> None"
    using sched_invD(2) [OF reached_inv [OF assms(1)]] by (auto simp: inv_commit_def)
  then show ?case
    using sent_preds_committed [OF reached_inv [OF assms(1)], of a' a] step(1) reached_static [OF assms(1)] by (auto simp: edge_def)
qed

lemma committed_shares:
  assumes "reached rnd N ops r s" and "committed s t"
  obtains p where "place_of s t = Some p" "shares s t = members p" "shares s t \<noteq> {}"
  using committed_done [OF reached_inv [OF assms(1)] assms(2)] by (fastforce simp: shares_def split: if_splits)

lemma shares_sent:
  assumes "reached rnd N ops r s" and "n \<in> shares s t"
  shows "\<exists>p. place_of s t = Some p \<and> in_place p n" "ended s t n = 1"
  using ended_bounds(1,2) [OF sched_invD(5) [OF reached_inv [OF assms(1)]], of t n] assms(2)
  by (auto simp: shares_def sent_to_def split: if_splits)

text \<open>A task with a negative leader reaches no thread: its insertion fails at the first queue.\<close>

fun taken_up :: "tid \<Rightarrow> pc \<Rightarrow> bool" where
  "taken_up t (PPop u) = (u = t)"
| "taken_up t (PWait u) = (u = t)"
| "taken_up t (PRun u) = (u = t)"
| "taken_up t _ = False"

definition inv_leader :: "nat \<Rightarrow> sys \<Rightarrow> bool" where
  "inv_leader N s \<longleftrightarrow> (\<forall>t. leader (tasks (rts s) t) < 0 \<longrightarrow> (\<forall>n<N. \<forall>i c. pcs s n = PIns t i c \<longrightarrow> i = leader (tasks (rts s) t))
     \<and> (\<forall>q. t \<notin> set (assembly_q (rts s) q)) \<and> (\<forall>n<N. \<not> taken_up t (pcs s n)))"

text \<open>A task that has not been sent is in no assembly queue and no worker has taken it up.\<close>

lemma unsent_untouched:
  assumes inv: "sched_inv N s" and "place_of s t = None"
  shows "t \<notin> set (assembly_q (rts s) q)" "n < N \<Longrightarrow> \<not> taken_up t (pcs s n)" "n < N \<Longrightarrow> pcs s n \<noteq> PIns t i c"
proof -
  note I = sched_invD [OF inv]
  have eq: "(if sent_to s t n then in_workers N (to_push t n) s else 0) + occ t (assembly_q (rts s) n)
     + (if n < N then busy t (pcs s n) else 0) + ended s t n = (if sent_to s t n then 1 else 0)" "0 \<le> ended s t n" for n
    using I(5) by (simp_all add: inv_copies_def)
  have z: "occ t (assembly_q (rts s) n) + (if n < N then busy t (pcs s n) else 0) \<le> 0" for n
    using eq [of n] assms(2) by (simp add: sent_to_def)
  have "occ t (assembly_q (rts s) q) = 0" using z [of q] counts_nonneg(3) [of t "pcs s q"] by (smt (verit) of_nat_0_le_iff)
  then show "t \<notin> set (assembly_q (rts s) q)" by (simp add: count_list_0_iff)
  show "\<not> taken_up t (pcs s n)" if "n < N"
    using z [of n] that by (cases "pcs s n") auto
  show "pcs s n \<noteq> PIns t i c" if "n < N"
    using I(4) assms(2) that by (auto simp: inv_pc_def dest!: spec [of _ n])
qed

lemma inv_leader_step:
  assumes "sched_step rnd N s s'" and "fault_free N s'" and inv: "sched_inv N s" and l: "inv_leader N s"
  shows "inv_leader N s'"
proof -
  note un = unsent_untouched [OF inv]
  have old: "leader (tasks (rts s) t) < 0 \<Longrightarrow> n < N \<Longrightarrow> pcs s n = PIns t i c \<Longrightarrow> i = leader (tasks (rts s) t)"
    "leader (tasks (rts s) t) < 0 \<Longrightarrow> t \<notin> set (assembly_q (rts s) q)"
    "leader (tasks (rts s) t) < 0 \<Longrightarrow> n < N \<Longrightarrow> \<not> taken_up t (pcs s n)" for t n i c q
    using l unfolding inv_leader_def by blast+
  from assms(1,2) show ?thesis
  proof (cases rule: sched_step_explicit)
    case (quiet n p)
    then show ?thesis using old by (cases p) (auto simp: inv_leader_def)
  next
    case (distribute n t m)
    have "place_of s t = None" using held_by [OF sched_invD(3) [OF inv], of n t] distribute by simp
    then show ?thesis using distribute old un [of t] by (auto simp: inv_leader_def)
  next
    case (wake_global n a b bs m w)
    have "place_of s b = None" using held_by [OF sched_invD(3) [OF inv], of n b] wake_global by simp
    then show ?thesis using wake_global old un [of b] by (auto simp: inv_leader_def)
  next
    case (take_ready n c t pt m w k)
    have "place_of s t = None" using ready_placeless(1) [OF sched_invD(3) [OF inv], of t c] take_ready by simp
    then show ?thesis using take_ready old un [of t] by (auto simp: inv_leader_def)
  next
    case (push_one n t i c)
    then have "0 \<le> leader (tasks (rts s) t)" using old(1) [of t n i c] by (cases "leader (tasks (rts s) t) < 0") auto
    then show ?thesis using push_one old by (auto simp: inv_leader_def)
  next
    case (pop_assembly n t ts)
    then have "0 \<le> leader (tasks (rts s) t)" using old(2) [of t n] by (cases "leader (tasks (rts s) t) < 0") auto
    moreover have "leader (tasks (rts s) u) < 0 \<Longrightarrow> u \<notin> set ts" for u using old(2) [of u n] pop_assembly(3) by simp
    ultimately show ?thesis using pop_assembly(1,5) old by (auto simp: inv_leader_def)
  next
    case (release_done n t i c)
    then show ?thesis using old by (cases c) (auto simp: inv_leader_def)
  next
    case (come_in n t pt)
    then have "0 \<le> leader (tasks (rts s) t)" using old(3) [of t n] by (cases "leader (tasks (rts s) t) < 0") auto
    then show ?thesis using come_in old by (auto simp: inv_leader_def arrive_leave_sel)
  next
    case (rendezvous n t)
    then have "0 \<le> leader (tasks (rts s) t)" using old(3) [of t n] by (cases "leader (tasks (rts s) t) < 0") auto
    then show ?thesis using rendezvous old by (auto simp: inv_leader_def)
  qed (use old in \<open>auto simp: inv_leader_def tasks_drop_ref\<close>)
qed

lemma inv_leader_reachable:
  assumes "reached rnd N ops r s"
  shows "inv_leader N s"
proof -
  have "(sched_step rnd N)\<^sup>*\<^sup>* (boot r) s" "fault_free N s" "fresh_rt r" "N \<le> XITAO_MAXTHREADS"
    using assms build_fresh by (auto simp: reached_def)
  then show ?thesis
  proof (induction rule: rtranclp_induct)
    case base
    then show ?case by (simp add: inv_leader_def boot_def fresh_rt_def)
  next
    case (step s s')
    have f: "fault_free N s" by (rule fault_free_back [OF step(2,4)])
    from inv_leader_step [OF step(2,4) sched_inv_reachable [OF step(1,5,6) f] step(3) [OF f step(5,6)]] show ?case .
  qed
qed

text \<open>A thread about to execute a task is in its place and has not executed it; what precedes the
  task is complete and what follows it has not begun.\<close>

lemma executing:
  assumes "reached rnd N ops r s" and "n < N" and "executes (pcs s n) = Some u"
  obtains p where "place_of s u = Some p" "in_place p n" "n \<notin> shares s u" "\<not> committed s u" "u < next_task r" "0 \<le> fst p"
proof -
  note inv = reached_inv [OF assms(1)]
  note I = sched_invD [OF inv]
  have "busy u (pcs s n) = 1" using assms(3) by (cases "pcs s n") auto
  then have e: "sent_to s u n" "ended s u n = 0"
    using ended_bounds(1,3) [OF I(5), of n u] ended_bounds(1) [OF I(5), of u n] assms(2) by (auto split: if_splits)
  then obtain p where p: "place_of s u = Some p" "in_place p n" by (auto simp: sent_to_def)
  have "\<not> committed s u"
  proof
    assume "committed s u"
    from committed_done [OF inv this] p e(2) show False by auto
  qed
  moreover have "u < next_task r" using sent_known(1) [OF I(3), of u] p(1) reached_static [OF assms(1)] by simp
  moreover have "0 \<le> fst p"
  proof -
    consider "pcs s n = PRun u" | "pcs s n = PSimple u" using assms(3) by (cases "pcs s n") auto
    then show ?thesis
    proof cases
      case 1
      then have "kind (tasks (rts s) u) = TASK_ASSEMBLY" using I(4) assms(2) by (auto simp: inv_pc_def dest!: spec [of _ n])
      then have "place_now u (rts s) = p" using I(4) p(1) unfolding inv_pc_def by blast
      moreover have "0 \<le> leader (tasks (rts s) u)"
        using inv_leader_reachable [OF assms(1)] assms(2) 1 unfolding inv_leader_def by force
      ultimately show ?thesis by (auto simp: place_now_def)
    next
      case 2
      then show ?thesis using I(4) assms(2) p(1) by (auto simp: inv_pc_def dest!: spec [of _ n])
    qed
  qed
  ultimately show ?thesis using that p e(2) by (simp add: shares_def)
qed

lemma executing_order:
  assumes "reached rnd N ops r s" and "n < N" and "executes (pcs s n) = Some u"
  shows "ahead r t u \<Longrightarrow> committed s t" "ahead r u t \<Longrightarrow> shares s t = {}"
proof -
  from executing [OF assms] obtain p where p: "place_of s u = Some p" "\<not> committed s u" .
  show "ahead r t u \<Longrightarrow> committed s t" using committed_ahead [OF assms(1)] p(1) by simp
  show "shares s t = {}" if "ahead r u t"
  proof (rule ccontr)
    assume "shares s t \<noteq> {}"
    then have "place_of s t \<noteq> None" using shares_sent(1) [OF assms(1)] by fastforce
    from committed_ahead [OF assms(1) that this] p(2) show False by simp
  qed
qed

text \<open>A task is sent once.\<close>

lemma place_stable:
  assumes "sched_step rnd N s s'" and "fault_free N s'" and inv: "sched_inv N s" and "place_of s t = Some p"
  shows "place_of s' t = Some p"
  using assms(1,2)
proof (cases rule: sched_step_explicit)
  case (simple_begin n u)
  have "place_of s u = None" using held_by [OF sched_invD(3) [OF inv], of n u] simple_begin by simp
  with simple_begin assms(4) show ?thesis by auto
next
  case (distribute n u l)
  have "place_of s u = None" using held_by [OF sched_invD(3) [OF inv], of n u] distribute by simp
  with distribute assms(4) show ?thesis by auto
next
  case (wake_global n a b bs l w)
  have "place_of s b = None" using held_by [OF sched_invD(3) [OF inv], of n b] wake_global by simp
  with wake_global assms(4) show ?thesis by auto
qed (use assms(4) in auto)

lemma place_back:
  assumes "sched_step rnd N s s'" and "fault_free N s'" and "ended s' \<noteq> ended s"
  shows "place_of s' = place_of s"
  using assms(1,2) by (cases rule: sched_step_explicit) (use assms(3) in auto)

lemma shares_bump: "shares s' t = (if t = u then insert n (shares s u) else shares s t)"
  if "ended s' = bump u n (ended s)" "0 \<le> ended s u n"
  using that by (auto simp: shares_def bump_diff split: if_splits)

section \<open>The data of a program\<close>

text \<open>
  What a program promises about its data, task by task: \<open>I t\<close> before task \<open>t\<close> begins,
  \<open>J t p D\<close> when the threads \<open>D\<close> of its place \<open>p\<close> have executed it, and \<open>Q t\<close> when all have.
  \<open>Q t\<close> may rely on the results of the tasks before \<open>t\<close>, and holds until a task \<open>u\<close> with
  \<open>C t u\<close> uses the result up. Tasks that are not ordered do not disturb each other.
\<close>

locale task_program =
  fixes body :: "'m body" and r :: rt
    and I :: "tid \<Rightarrow> 'm \<Rightarrow> bool" and J :: "tid \<Rightarrow> place \<Rightarrow> nat set \<Rightarrow> 'm \<Rightarrow> bool" and Q :: "tid \<Rightarrow> 'm \<Rightarrow> bool"
    and C :: "tid \<Rightarrow> tid \<Rightarrow> bool"
  assumes start: "t < next_task r \<Longrightarrow> I t m \<Longrightarrow> (\<And>a. edge r a t \<Longrightarrow> Q a m) \<Longrightarrow> J t p {} m"
    and share: "t < next_task r \<Longrightarrow> J t p D m \<Longrightarrow> in_place p n \<Longrightarrow> 0 \<le> fst p \<Longrightarrow> n \<notin> D \<Longrightarrow> D \<subseteq> members p \<Longrightarrow>
      body f t p n m = Some m' \<Longrightarrow> J t p (insert n D) m'"
    and all_shares: "t < next_task r \<Longrightarrow> in_place p n \<Longrightarrow> 0 \<le> fst p \<Longrightarrow> J t p (members p) m \<Longrightarrow> Q t m"
    and I_frame: "body f u p n m = Some m' \<Longrightarrow> in_place p n \<Longrightarrow> u < next_task r \<Longrightarrow> t < next_task r \<Longrightarrow> u \<noteq> t \<Longrightarrow>
      \<not> ahead r t u \<Longrightarrow> I t m \<Longrightarrow> I t m'"
    and J_frame: "body f u p n m = Some m' \<Longrightarrow> in_place p n \<Longrightarrow> u < next_task r \<Longrightarrow> t < next_task r \<Longrightarrow> u \<noteq> t \<Longrightarrow>
      \<not> ahead r t u \<Longrightarrow> \<not> ahead r u t \<Longrightarrow> J t q D m \<Longrightarrow> J t q D m'"
    and Q_frame: "body f u p n m = Some m' \<Longrightarrow> in_place p n \<Longrightarrow> u < next_task r \<Longrightarrow> t < next_task r \<Longrightarrow> u \<noteq> t \<Longrightarrow>
      \<not> C t u \<Longrightarrow> \<not> ahead r u t \<Longrightarrow> Q t m \<Longrightarrow> Q t m'"
    and consumer: "edge r a t \<Longrightarrow> C a u \<Longrightarrow> u < next_task r \<Longrightarrow> u = t \<or> ahead r t u"
begin

text \<open>The state of the data in a reachable state.\<close>

definition data_ok :: "sys \<Rightarrow> 'm \<Rightarrow> bool" where
  "data_ok s m \<longleftrightarrow> (\<forall>t<next_task r. (shares s t = {} \<longrightarrow> I t m)
     \<and> (\<forall>p. place_of s t = Some p \<and> shares s t \<noteq> {} \<and> shares s t \<noteq> members p \<longrightarrow> J t p (shares s t) m)
     \<and> (\<forall>p. place_of s t = Some p \<and> shares s t \<noteq> {} \<and> shares s t = members p
          \<and> (\<forall>u<next_task r. C t u \<longrightarrow> shares s u = {}) \<longrightarrow> Q t m))"

lemma data_okD:
  assumes "data_ok s m" and "t < next_task r"
  shows "shares s t = {} \<Longrightarrow> I t m"
    "place_of s t = Some p \<Longrightarrow> shares s t \<noteq> {} \<Longrightarrow> shares s t \<noteq> members p \<Longrightarrow> J t p (shares s t) m"
    "place_of s t = Some p \<Longrightarrow> shares s t \<noteq> {} \<Longrightarrow> shares s t = members p \<Longrightarrow>
       \<forall>u<next_task r. C t u \<longrightarrow> shares s u = {} \<Longrightarrow> Q t m"
  using assms unfolding data_ok_def by blast+

lemma edge_known: "reached rnd N ops r s \<Longrightarrow> edge r a b \<Longrightarrow> a < next_task r"
  by (simp add: edge_def)

lemma executing_J:
  assumes R: "reached rnd N ops r s" and "n < N" and "executes (pcs s n) = Some u" and ok: "data_ok s m" and "place_of s u = Some p"
  shows "J u p (shares s u) m"
proof -
  obtain q where q: "place_of s u = Some q" "in_place q n" "n \<notin> shares s u" "u < next_task r"
    using executing [OF assms(1-3)] by metis
  then have u: "in_place p n" "n \<notin> shares s u" "u < next_task r" using assms(5) by auto
  note order = executing_order [OF assms(1-3)]
  show ?thesis
  proof (cases "shares s u = {}")
    case True
    have "Q a m" if e: "edge r a u" for a
    proof -
      have a: "a < next_task r" using e by (simp add: edge_def)
      from order(1) [of a] e have "committed s a" by auto
      then obtain pa where pa: "place_of s a = Some pa" "shares s a = members pa" "shares s a \<noteq> {}"
        using committed_shares [OF R] by blast
      have "shares s v = {}" if "C a v" "v < next_task r" for v
        using consumer [OF e that] True order(2) [of v] by auto
      with data_okD(3) [OF ok a pa(1,3,2)] show ?thesis by blast
    qed
    with start [OF u(3)] data_okD(1) [OF ok u(3) True] True show ?thesis by simp
  next
    case False
    moreover have "shares s u \<noteq> members p" using u(1,2) members_iff by metis
    ultimately show ?thesis by (rule data_okD(2) [OF ok u(3) assms(5)])
  qed
qed

lemma data_ok_body:
  assumes R: "reached rnd N ops r s" and n: "n < N" and x: "executes (pcs s n) = Some u" and ok: "data_ok s m"
    and pl: "place_of s' = place_of s" and en: "ended s' = bump u n (ended s)" and b: "run_body body s u n m = Some m'"
  shows "data_ok s' m'"
proof -
  from executing [OF R n x] obtain p where p: "place_of s u = Some p" "in_place p n" "n \<notin> shares s u" "u < next_task r" "0 \<le> fst p" .
  note order = executing_order [OF R n x]
  from b p(1) have body: "body (freed s) u p n m = Some m'" by (simp add: run_body_def)
  have "0 \<le> ended s u n" using ended_bounds(1) [OF sched_invD(5) [OF reached_inv [OF R]]] .
  note sh = shares_bump [OF en this]
  have sub: "shares s u \<subseteq> members p" using shares_sent(1) [OF R, of _ u] p(1) by fastforce
  have Ju: "J u p (insert n (shares s u)) m'"
    by (rule share [OF p(4) executing_J [OF R n x ok p(1)] p(2,5,3) sub body])
  have "(shares s' t = {} \<longrightarrow> I t m')
     \<and> (\<forall>q. place_of s' t = Some q \<and> shares s' t \<noteq> {} \<and> shares s' t \<noteq> members q \<longrightarrow> J t q (shares s' t) m')
     \<and> (\<forall>q. place_of s' t = Some q \<and> shares s' t \<noteq> {} \<and> shares s' t = members q
          \<and> (\<forall>v<next_task r. C t v \<longrightarrow> shares s' v = {}) \<longrightarrow> Q t m')" if t: "t < next_task r" for t
  proof (cases "t = u")
    case True
    then show ?thesis using sh [of t] pl p(1,4) Ju all_shares [OF p(4,2,5), of m'] by auto
  next
    case False
    then have st: "shares s' t = shares s t" using sh by simp
    have fresh: "\<not> ahead r t u" if "shares s t = {}"
      using order(1) [of t] committed_shares [OF R, of t] that by blast
    have partial: "\<not> ahead r t u" if "shares s t \<noteq> members q" "place_of s t = Some q" for q
    proof
      assume "ahead r t u"
      then obtain p' where "place_of s t = Some p'" "shares s t = members p'" using order(1) committed_shares [OF R] by metis
      with that show False by simp
    qed
    have begun: "\<not> ahead r u t" if "shares s t \<noteq> {}" using order(2) that by blast
    have cons: "\<not> C t u" if "\<forall>v<next_task r. C t v \<longrightarrow> shares s' v = {}" using that p(4) sh [of u] by auto
    have keep: "\<forall>v<next_task r. C t v \<longrightarrow> shares s v = {}" if "\<forall>v<next_task r. C t v \<longrightarrow> shares s' v = {}"
      using that sh by (metis insert_not_empty)
    have ut: "u \<noteq> t" using False by simp
    show ?thesis
      unfolding st pl
    proof (intro conjI allI impI; (elim conjE)?)
      assume "shares s t = {}"
      then show "I t m'" using I_frame [OF body p(2,4) t ut fresh] data_okD(1) [OF ok t] by simp
    next
      fix q assume q: "place_of s t = Some q" "shares s t \<noteq> {}" "shares s t \<noteq> members q"
      show "J t q (shares s t) m'"
        by (rule J_frame [OF body p(2,4) t ut partial [OF q(3,1)] begun [OF q(2)] data_okD(2) [OF ok t q]])
    next
      fix q assume q: "place_of s t = Some q" "shares s t \<noteq> {}" "shares s t = members q"
        and c: "\<forall>v<next_task r. C t v \<longrightarrow> shares s' v = {}"
      show "Q t m'"
        by (rule Q_frame [OF body p(2,4) t ut cons [OF c] begun [OF q(2)] data_okD(3) [OF ok t q keep [OF c]]])
    qed
  qed
  then show ?thesis unfolding data_ok_def by blast
qed

lemma data_ok_other:
  assumes R: "reached rnd N ops r s" and "sched_step rnd N s s'" and "fault_free N s'" and "ended s' = ended s" and ok: "data_ok s m"
  shows "data_ok s' m"
proof -
  have sh: "shares s' t = shares s t" for t by (simp add: shares_def assms(4))
  have pl: "place_of s' t = place_of s t" if "shares s t \<noteq> {}" for t
  proof -
    from that shares_sent(1) [OF R] obtain p where "place_of s t = Some p" by blast
    with place_stable [OF assms(2,3) reached_inv [OF R] this] show ?thesis by simp
  qed
  show ?thesis using ok pl unfolding data_ok_def sh by metis
qed

lemma reached_data_ok:
  assumes "prog_reached body rnd N ops r m0 s m" and "\<And>t. t < next_task r \<Longrightarrow> I t m0"
  shows "data_ok s m"
proof -
  from assms(1) obtain c l blank where B: "build rnd ops (init_rt c l blank) = Some r" and N: "N \<le> XITAO_MAXTHREADS"
    and "(prog_step body rnd N)\<^sup>*\<^sup>* (boot r, m0) (s, m)" "fault_free N s" by (auto simp: prog_reached_def)
  from this(3,4) show ?thesis
  proof (induction "(s, m)" arbitrary: s m rule: rtranclp_induct)
    case base
    then show ?case using assms(2) by (auto simp: data_ok_def shares_def boot_def)
  next
    case (step y)
    obtain s1 m1 where y: "y = (s1, m1)" by (cases y)
    note st = prog_step_sched [OF step.hyps(2) [unfolded y] step.prems]
    have R: "reached rnd N ops r s1"
      using prog_steps_sched step.hyps(1) y st(2) B N by (auto simp: reached_def)
    note ok = step.hyps(3) [OF y st(2)]
    from step.hyps(2) [unfolded y] show ?case
    proof cases
      case other_step
      with data_ok_other [OF R _ step.prems _ ok] show ?thesis by simp
    next
      case (body_step n t)
      have "ended s t n \<noteq> ended s1 t n" using body_step(4) by (simp add: bump_diff)
      then have new: "ended s \<noteq> ended s1" by metis
      show ?thesis by (rule data_ok_body [OF R body_step(1,2) ok place_back [OF st(1) step.prems new] body_step(4,5)])
    next
      case (body_fault n t)
      with step.prems show ?thesis by (auto simp: fault_free_def)
    qed
  qed
qed

text \<open>When the program may end, the results that no task uses up are there.\<close>

lemma results_at_exit:
  assumes "prog_reached body rnd N ops r m0 s m" and "\<And>t. t < next_task r \<Longrightarrow> I t m0"
    and "n < N" and "pcs s n = PDone \<or> pending_tasks (rts s) \<le> 0" and "t < next_task r" and "\<And>u. u < next_task r \<Longrightarrow> \<not> C t u"
  shows "Q t m"
proof -
  note R = prog_reached_sched [OF assms(1)]
  from committed_shares [OF R exit_committed(2) [OF R assms(3,4,5)]] obtain p
    where "place_of s t = Some p" "shares s t = members p" "shares s t \<noteq> {}" .
  with data_okD(3) [OF reached_data_ok [OF assms(1,2)] assms(5), of p] assms(6) show ?thesis by blast
qed

end

text \<open>When executed tasks are kept, a body that finds its data as promised never fails.\<close>

locale total_task_program = task_program body r I J Q C
  for body :: "'m body" and r :: rt and I :: "tid \<Rightarrow> 'm \<Rightarrow> bool" and J :: "tid \<Rightarrow> place \<Rightarrow> nat set \<Rightarrow> 'm \<Rightarrow> bool"
    and Q :: "tid \<Rightarrow> 'm \<Rightarrow> bool" and C :: "tid \<Rightarrow> tid \<Rightarrow> bool" +
  assumes no_failure: "t < next_task r \<Longrightarrow> J t p D m \<Longrightarrow> in_place p n \<Longrightarrow> 0 \<le> fst p \<Longrightarrow> n \<notin> D \<Longrightarrow>
      body (\<lambda>_. False) t p n m \<noteq> None"
begin

lemma bodies_never_fail:
  assumes "prog_reached body rnd N ops r m0 s m" and "\<And>t. t < next_task r \<Longrightarrow> I t m0"
    and "\<And>t. \<not> freed s t" and "n < N" and "executes (pcs s n) = Some t"
  shows "run_body body s t n m \<noteq> None"
proof -
  note R = prog_reached_sched [OF assms(1)]
  from executing [OF R assms(4,5)] obtain p where p: "place_of s t = Some p" "in_place p n" "n \<notin> shares s t" "t < next_task r" "0 \<le> fst p" .
  have "J t p (shares s t) m" using executing_J [OF R assms(4,5) reached_data_ok [OF assms(1,2)] p(1)] .
  moreover have "freed s = (\<lambda>_. False)" using assms(3) by auto
  ultimately show ?thesis using no_failure [OF p(4) _ p(2,5,3)] p(1) by (simp add: run_body_def)
qed

end

section \<open>Deleted tasks\<close>

text \<open>With \<open>delete_executed_taos\<close> off nothing is deleted; with it on every assembly is, once its
  completion has been counted and the worker has left it.\<close>

lemma nothing_freed:
  assumes "reached rnd N ops r s" and "\<not> delete_executed_taos (conf r)"
  shows "\<not> freed s t"
proof -
  have "(sched_step rnd N)\<^sup>*\<^sup>* (boot r) s" "fault_free N s" using assms(1) by (auto simp: reached_def)
  then show ?thesis
  proof (induction rule: rtranclp_induct)
    case base
    show ?case by (simp add: boot_def)
  next
    case (step s s')
    have f: "fault_free N s" by (rule fault_free_back [OF step(2,4)])
    from step(2,4) show ?case
    proof (cases rule: sched_step_explicit)
      case (delete_task n a g)
      then show ?thesis using step(3) [OF f] step_static_reachable [OF step(1) f] assms(2) by (auto split: if_splits)
    qed (use step(3) [OF f] in auto)
  qed
qed

lemma deleted_after_exit:
  assumes "reached rnd N ops r s" and "delete_executed_taos (conf r)" and "finished s t" and "kind (tasks r t) = TASK_ASSEMBLY"
    and "\<And>n. n < N \<Longrightarrow> pcs s n \<noteq> PDel t"
  shows "freed s t"
proof -
  have "(sched_step rnd N)\<^sup>*\<^sup>* (boot r) s" "fault_free N s" using assms(1) by (auto simp: reached_def)
  then have "finished s t \<longrightarrow> freed s t \<or> (\<exists>n<N. pcs s n = PDel t)"
  proof (induction rule: rtranclp_induct)
    case base
    show ?case by (simp add: boot_def)
  next
    case (step s s')
    have f: "fault_free N s" by (rule fault_free_back [OF step(2,4)])
    note IH = step(3) [OF f] and st = step_static_reachable [OF step(1) f]
    have nf: "pcs s' n \<noteq> PFault" if "n < N" for n using step(4) that by (simp add: fault_free_def)
    have other: ?case if "finished s' = finished s" "freed s' = freed s" "\<And>n. n < N \<Longrightarrow> pcs s n = PDel t \<Longrightarrow> pcs s' n = PDel t"
      using IH that by metis
    show ?case
    proof (cases "\<exists>n a. n < N \<and> pcs s n = PDel a \<and> pcs s' n \<noteq> PDel a")
      case True
      then obtain n a where n: "n < N" "pcs s n = PDel a" "pcs s' n \<noteq> PDel a" by blast
      from step(2) have "s' = go n (PTop None) (s\<lparr>freed := (freed s)(a := freed s a \<or> delete_executed_taos (conf (rts s)))\<rparr>)"
        by (cases rule: sched_step.cases) (use n nf [of n] in \<open>auto split: if_splits\<close>)
      then have "finished s' t = finished s t" "freed s' t = (freed s t \<or> a = t)" "\<And>m. m \<noteq> n \<Longrightarrow> pcs s' m = pcs s m"
        using st assms(2) by auto
      moreover have "a = t \<or> pcs s n \<noteq> PDel t" using n(2) by simp
      ultimately show ?thesis using IH by metis
    next
      case False
      from step(2,4) show ?thesis
      proof (cases rule: sched_step_explicit)
        case (commit_end n a p)
        show ?thesis
        proof (cases "a = t")
          case True
          then have "pcs s' n = PDel t" using commit_end st assms(4) by simp
          with commit_end(1) show ?thesis by blast
        next
          case ne: False
          then have "finished s' t = finished s t" "freed s' = freed s" using commit_end by simp_all
          then show ?thesis using IH False by metis
        qed
      next
        case (delete_task n a g)
        then show ?thesis using False by auto
      qed (rule other; use False in \<open>auto split: if_splits\<close>)+
    qed
  qed
  with assms(3,5) show ?thesis by blast
qed

section \<open>Running a schedule\<close>

text \<open>The executable schedules of \<open>Scheduler.thy\<close> with the bodies, for examples.\<close>

definition body_of :: "nat \<Rightarrow> action \<Rightarrow> sys \<Rightarrow> (nat \<times> tid) option" where
  "body_of N x s = (case x of
     Worker n \<Rightarrow> (case executes (pcs s n) of None \<Rightarrow> None | Some t \<Rightarrow> if n < N \<and> \<not> freed s t then Some (n, t) else None)
   | _ \<Rightarrow> None)"

definition prog_act :: "'m body \<Rightarrow> nat \<Rightarrow> action \<Rightarrow> sys \<times> 'm \<Rightarrow> (sys \<times> 'm) option" where
  "prog_act body N x y = (case y of (s, m) \<Rightarrow>
     (case body_of N x s of
        None \<Rightarrow> (case act N x s of None \<Rightarrow> None | Some s' \<Rightarrow> Some (s', m))
      | Some (n, t) \<Rightarrow> (case run_body body s t n m of
            None \<Rightarrow> Some (go n PFault s, m)
          | Some m' \<Rightarrow> (case act N x s of None \<Rightarrow> None | Some s' \<Rightarrow> Some (s', m')))))"

fun prog_run :: "'m body \<Rightarrow> nat \<Rightarrow> action list \<Rightarrow> sys \<times> 'm \<Rightarrow> (sys \<times> 'm) option" where
  "prog_run body N [] y = Some y"
| "prog_run body N (x # xs) y = (case prog_act body N x y of None \<Rightarrow> None | Some y' \<Rightarrow> prog_run body N xs y')"

lemma worker_ended:
  assumes "worker_at n s (pcs s n) = Some s'"
  shows "ended s' = (case executes (pcs s n) of None \<Rightarrow> ended s | Some t \<Rightarrow> bump t n (ended s))"
proof (cases "pcs s n")
  case (PTop x)
  then show ?thesis using assms
    by (cases x) (auto simp: Let_def split: option.splits task_kind.splits if_splits)
next
  case (PCommit a bs)
  then show ?thesis using assms by (cases bs) (auto split: if_splits)
qed (use assms in \<open>auto simp: some_or_fault_def split: option.splits if_splits\<close>)

lemma act_ended:
  assumes "act N x s = Some s'"
  shows "ended s' = (case body_of N x s of None \<Rightarrow> ended s | Some (n, t) \<Rightarrow> bump t n (ended s))"
proof (cases x)
  case (Worker n)
  show ?thesis
  proof (cases "\<exists>t\<in>set (derefs (pcs s n)). freed s t")
    case True
    then show ?thesis using assms Worker by (cases "pcs s n") (auto simp: body_of_def worker_next_def split: if_splits)
  next
    case False
    then have "n < N" and w: "worker_at n s (pcs s n) = Some s'" using assms Worker by (auto simp: worker_next_def split: if_splits)
    with worker_ended [OF w] False Worker show ?thesis by (cases "pcs s n") (auto simp: body_of_def)
  qed
qed (use assms in \<open>auto simp: body_of_def split: if_splits\<close>)

lemma prog_act_step: "prog_act body N x y = Some y' \<Longrightarrow> prog_step body (\<lambda>x. x) N y y'"
proof -
  assume a: "prog_act body N x y = Some y'"
  obtain s m where y: "y = (s, m)" by (cases y)
  show ?thesis
  proof (cases "body_of N x s")
    case None
    with a y obtain s' where "act N x s = Some s'" "y' = (s', m)" by (auto simp: prog_act_def split: option.splits)
    with act_step act_ended None y show ?thesis by (auto intro: other_step)
  next
    case (Some nt)
    obtain n t where nt: "nt = (n, t)" by (cases nt)
    have b: "n < N" "executes (pcs s n) = Some t" "\<not> freed s t"
      using Some nt by (auto simp: body_of_def split: action.splits option.splits if_splits)
    show ?thesis
    proof (cases "run_body body s t n m")
      case None
      with a y Some nt have "y' = (go n PFault s, m)" by (simp add: prog_act_def)
      with body_fault [OF b None] y show ?thesis by simp
    next
      case (Some m')
      with a y \<open>body_of N x s = Some nt\<close> nt obtain s' where s': "act N x s = Some s'" "y' = (s', m')"
        by (auto simp: prog_act_def split: option.splits)
      have "ended s' = bump t n (ended s)" using act_ended [OF s'(1)] \<open>body_of N x s = Some nt\<close> nt by simp
      with body_step [OF b(1,2) act_step [OF s'(1)] this Some] y s'(2) show ?thesis by simp
    qed
  qed
qed

lemma prog_run_steps: "prog_run body N xs y = Some y' \<Longrightarrow> (prog_step body (\<lambda>x. x) N)\<^sup>*\<^sup>* y y'"
proof (induction xs arbitrary: y)
  case (Cons x xs)
  then obtain y1 where "prog_act body N x y = Some y1" "prog_run body N xs y1 = Some y'" by (auto split: option.splits)
  with Cons.IH [of y1] prog_act_step [of body N x y y1] show ?case by (meson converse_rtranclp_into_rtranclp)
qed simp

section \<open>Properties\<close>

text \<open>C6.
  Deletion is complete and exact. When all workers have left the loop, every task is
  finished, and an assembly has been deleted if and only if \<open>delete_executed_taos\<close> is set;
  simple tasks are never deleted.
\<close>

theorem deletion_at_exit:
  assumes "reached rnd N ops r s" and "0 < N" and "\<forall>n<N. pcs s n = PDone" and "t < next_task r"
  shows "finished s t \<and> (freed s t \<longleftrightarrow> delete_executed_taos (conf r) \<and> kind (tasks r t) = TASK_ASSEMBLY)"
proof -
  have fin: "finished s t" using exit_committed(1) [OF assms(1,2) _ assms(4)] assms(2,3) by simp
  have "kind (tasks r t) = TASK_ASSEMBLY" if "freed s t"
    using sched_invD(11) [OF reached_inv [OF assms(1)]] reached_static [OF assms(1)] that by (simp add: inv_freed_def)
  then show ?thesis
    using fin nothing_freed [OF assms(1)] deleted_after_exit [OF assms(1) _ fin] assms(3) by fastforce
qed

theorem deletion_at_exit_witness:
  "\<exists>s. run 2 (one_left @ [Worker 1]) (boot two_rt) = Some s \<and> freed s 0 \<and> freed s 1"
proof -
  have "(case run 2 (one_left @ [Worker 1]) (boot two_rt) of None \<Rightarrow> False
      | Some s \<Rightarrow> no_fault_2 s \<and> pcs s 0 = PDone \<and> pcs s 1 = PDone)" by code_simp
  then obtain s where s: "run 2 (one_left @ [Worker 1]) (boot two_rt) = Some s" "no_fault_2 s" "pcs s 0 = PDone" "pcs s 1 = PDone"
    by (auto split: option.splits)
  have k: "next_task two_rt = 2" "delete_executed_taos (conf two_rt)" "kind (tasks two_rt 0) = TASK_ASSEMBLY"
    "kind (tasks two_rt 1) = TASK_ASSEMBLY" by code_simp+
  have "\<forall>n<2. pcs s n = PDone" using s(3,4) by (auto simp: less_2_cases_iff)
  note d = deletion_at_exit [OF two_reached [OF s(1,2)] _ this]
  from d [of 0] d [of 1] s(1) k show ?thesis by simp
qed

end
