(* ===== verification/Fibonacci.thy ===== *)
theory Fibonacci
  imports Programs "HOL-Library.Word"
begin

text \<open>
  The example \<open>benchmarks/fibonacci\<close>: the recursion tree of a Fibonacci number as a task
  graph down to a grain size. The tree is built as \<open>buildDAG\<close> builds it, and the result of
  its root is the Fibonacci number whatever the schedule, the places and the number of
  workers, if executed tasks are kept. Terms are natural numbers: \<open>main\<close> only lets terms
  up to 92 through. The part under \<open>MEMOIZE\<close> is not compiled and is left out.
\<close>

section \<open>The program\<close>

definition MAX_FIB :: nat where "MAX_FIB = 92"

fun fib :: "nat \<Rightarrow> 64 word" where
  "fib num = (if num = 0 then 0 else if num = 1 then 1 else fib (num - 1) + fib (num - 2))"

declare fib.simps [simp del]

text \<open>\<open>main\<close>: the number and the optional grain size, as \<open>uint32_t\<close>; \<open>None\<close> is an error message.\<close>

definition fib_args :: "32 word \<Rightarrow> 32 word option \<Rightarrow> (nat \<times> nat) option" where
  "fib_args num arg =
     (let grain = (case arg of None \<Rightarrow> num - 2 | Some g \<Rightarrow> g);
          grain = (if grain \<le> 2 then 2 else grain)
      in if num > of_nat MAX_FIB then None
         else if grain \<ge> num \<or> grain < 2 then None
         else Some (unat num, unat grain))"

text \<open>The members of \<open>FibTAO\<close>; a pointer that is not set is \<open>None\<close>.\<close>

record fib_tao =
  prev1 :: "tid option"
  prev2 :: "tid option"
  fib_term :: nat
  val :: "64 word"

type_synonym fib_mem = "tid \<Rightarrow> fib_tao"

definition set_val :: "tid \<Rightarrow> 64 word \<Rightarrow> fib_mem \<Rightarrow> fib_mem" where
  "set_val t v m = m(t := (m t)\<lparr>val := v\<rparr>)"

text \<open>\<open>execute\<close>: the operands are members of other tasks, which must still exist.\<close>

definition fib_execute :: "nat \<Rightarrow> fib_mem body" where
  "fib_execute grain f t p n m =
     (if fib_term (m t) \<le> grain then Some (set_val t (fib (fib_term (m t))) m)
      else if fib_term (m t) > 1 then do {
        a \<leftarrow> prev1 (m t);
        b \<leftarrow> prev2 (m t);
        if f a \<or> f b then None else Some (set_val t (val (m a) + val (m b)) m) }
      else Some m)"

text \<open>
  The state while the graph is built: the runtime, the members of the tasks, the array
  \<open>fib_taos\<close>, and the tasks that have been pushed.
\<close>

record fib_state =
  frt :: rt
  fmem :: fib_mem
  fib_taos :: "nat \<Rightarrow> tid option"
  fpushed :: "tid list"

definition new_fib_tao :: "nat \<Rightarrow> nat \<Rightarrow> fib_state \<Rightarrow> (tid \<times> fib_state) option" where
  "new_fib_tao ty tm s =
     (if tm > MAX_FIB then None
      else case AssemblyTask ty 1 0 (frt s) of (t, r) \<Rightarrow>
        Some (t, s\<lparr>frt := r, fmem := (fmem s)(t := (fmem s t)\<lparr>prev1 := None, prev2 := None, fib_term := tm\<rparr>),
                   fib_taos := (fib_taos s)(tm := Some t)\<rparr>))"

definition push_fib :: "tid \<Rightarrow> fib_state \<Rightarrow> fib_state" where
  "push_fib t s = s\<lparr>fpushed := fpushed s @ [t]\<rparr>"

definition link_prev1 :: "tid \<Rightarrow> tid \<Rightarrow> fib_state \<Rightarrow> fib_state" where
  "link_prev1 t a s = s\<lparr>fmem := (fmem s)(t := (fmem s t)\<lparr>prev1 := Some a\<rparr>), frt := make_edge a t (frt s)\<rparr>"

definition link_prev2 :: "tid \<Rightarrow> tid \<Rightarrow> fib_state \<Rightarrow> fib_state" where
  "link_prev2 t b s = s\<lparr>fmem := (fmem s)(t := (fmem s t)\<lparr>prev2 := Some b\<rparr>), frt := make_edge b t (frt s)\<rparr>"

fun buildDAG :: "nat \<Rightarrow> nat \<Rightarrow> nat \<Rightarrow> fib_state \<Rightarrow> (tid \<times> fib_state) option" where
  "buildDAG ty grain tm s =
     (if tm \<le> 1 then do {
        (t, s1) \<leftarrow> new_fib_tao ty tm s;
        Some (t, push_fib t s1) }
      else do {
        (t, s1) \<leftarrow> new_fib_tao ty tm s;
        if tm > grain then do {
          (a, s2) \<leftarrow> buildDAG ty grain (tm - 1) s1;
          t2 \<leftarrow> fib_taos s2 tm;
          (b, s4) \<leftarrow> buildDAG ty grain (tm - 2) (link_prev1 t2 a s2);
          t4 \<leftarrow> fib_taos s4 tm;
          Some (t4, link_prev2 t4 b s4) }
        else Some (t, push_fib t s1) })"

declare buildDAG.simps [simp del]

definition fib_init :: "rt \<Rightarrow> fib_mem \<Rightarrow> fib_state" where
  "fib_init r m = \<lparr>frt = r, fmem = m, fib_taos = (\<lambda>_. None), fpushed = []\<rparr>"

section \<open>Fibonacci numbers\<close>

fun fibs :: "nat \<Rightarrow> nat" where
  "fibs 0 = 0"
| "fibs (Suc 0) = 1"
| "fibs (Suc (Suc n)) = fibs (Suc n) + fibs n"

text \<open>The same with two running values, to evaluate it.\<close>

fun fib_run :: "nat \<Rightarrow> nat \<Rightarrow> nat \<Rightarrow> nat" where
  "fib_run 0 a b = a"
| "fib_run (Suc n) a b = fib_run n b (a + b)"

lemma fib_run_fibs: "fib_run n (fibs k) (fibs (Suc k)) = fibs (n + k)"
proof (induction n arbitrary: k)
  case (Suc n)
  from Suc [of "Suc k"] show ?case by (simp add: add.commute)
qed simp

lemma fib_run_numeral: "fib_run (numeral j) a b = fib_run (pred_numeral j) b (a + b)"
  by (simp add: numeral_eq_Suc)

lemma fibs_mono: "m \<le> n \<Longrightarrow> fibs m \<le> fibs n"
proof (induction n rule: fibs.induct)
  case (3 n)
  then show ?case by (cases "m = Suc (Suc n)") auto
qed (auto simp: le_Suc_eq)

lemma fibs_bound: "n \<le> 93 \<Longrightarrow> fibs n < 2 ^ 64"
proof -
  assume n: "n \<le> 93"
  have "fib_run 90 2 3 < 2 ^ 64" by (simp add: fib_run_numeral)
  moreover have "fibs 3 = 2" "fibs (Suc 3) = 3" by (simp_all add: numeral_eq_Suc)
  ultimately have "fibs 93 < 2 ^ 64" using fib_run_fibs [of 90 3] by simp
  with fibs_mono [OF n] show "fibs n < 2 ^ 64" by (rule le_less_trans)
qed

lemma fib_two: "fib (Suc (Suc k)) = fib (Suc k) + fib k"
  by (subst fib.simps) simp

lemma fib_fibs: "n \<le> 93 \<Longrightarrow> unat (fib n) = fibs n"
proof (induction n rule: fibs.induct)
  case (3 n)
  have "fibs (Suc n) + fibs n < 2 ^ 64" using fibs_bound [OF 3(3)] by simp
  then show ?case using 3 by (simp add: unat_word_ariths fib_two)
qed (simp_all add: fib.simps)

lemma fib_args_bounds: "fib_args num arg = Some (n, g) \<Longrightarrow> 2 \<le> g \<and> g < n \<and> n \<le> MAX_FIB"
  by (auto simp: fib_args_def Let_def MAX_FIB_def word_less_nat_alt word_le_nat_alt split: if_splits)

section \<open>The graph\<close>

text \<open>
  What \<open>buildDAG\<close> makes of a term: the tasks from \<open>t\<close> on, each with two operands if its
  term is above the grain size, and what was there is left alone.
\<close>

definition fib_node :: "nat \<Rightarrow> rt \<Rightarrow> fib_mem \<Rightarrow> tid \<Rightarrow> bool" where
  "fib_node grain r m u \<longleftrightarrow>
     (if fib_term (m u) > grain then \<exists>a b. prev1 (m u) = Some a \<and> prev2 (m u) = Some b \<and> edge r a u \<and> edge r b u
        \<and> fib_term (m u) = fib_term (m a) + 1 \<and> fib_term (m u) = fib_term (m b) + 2 \<and> refcount (tasks r u) = 2
      else refcount (tasks r u) = 0)"

definition fib_tree :: "nat \<Rightarrow> nat \<Rightarrow> fib_state \<Rightarrow> tid \<Rightarrow> fib_state \<Rightarrow> bool" where
  "fib_tree grain tm s t s' \<longleftrightarrow> t = next_task (frt s) \<and> t < next_task (frt s') \<and> fib_term (fmem s' t) = tm
     \<and> (\<forall>u<t. out (tasks (frt s') u) = out (tasks (frt s) u) \<and> refcount (tasks (frt s') u) = refcount (tasks (frt s) u)
          \<and> fmem s' u = fmem s u \<and> kind (tasks (frt s') u) = kind (tasks (frt s) u))
     \<and> (\<forall>i>tm. fib_taos s' i = fib_taos s i)
     \<and> (\<forall>u. t \<le> u \<and> u < next_task (frt s') \<longrightarrow> fib_node grain (frt s') (fmem s') u \<and> kind (tasks (frt s') u) = TASK_ASSEMBLY)
     \<and> (\<exists>ops. \<forall>rnd. build rnd ops (frt s) = Some (frt s')) \<and> conf (frt s') = conf (frt s)
     \<and> (\<exists>ts. fpushed s' = fpushed s @ ts \<and> set ts = {u. t \<le> u \<and> u < next_task (frt s') \<and> fib_term (fmem s' u) \<le> grain})"

text \<open>A new task.\<close>

lemma new_fib_tao_sel:
  assumes "new_fib_tao ty tm s = Some (t, s1)"
  shows "t = next_task (frt s)" "next_task (frt s1) = Suc t" "fib_term (fmem s1 t) = tm" "u \<noteq> t \<Longrightarrow> tasks (frt s1) u = tasks (frt s) u"
    "u \<noteq> t \<Longrightarrow> fmem s1 u = fmem s u" "fib_taos s1 = (fib_taos s)(tm := Some t)" "fpushed s1 = fpushed s"
    "refcount (tasks (frt s1) t) = 0" "kind (tasks (frt s1) t) = TASK_ASSEMBLY" "conf (frt s1) = conf (frt s)"
    "build rnd [New_assembly ty 1 0] (frt s) = Some (frt s1)"
  using assms by (auto simp: new_fib_tao_def AssemblyTask_def PolyTask_def XITAO_MAXTHREADS_def split: if_splits)

lemma fib_tree_leaf:
  assumes "new_fib_tao ty tm s = Some (t, s1)" and "tm \<le> grain"
  shows "fib_tree grain tm s t (push_fib t s1)"
proof -
  note n = new_fib_tao_sel [OF assms(1)]
  have one: "t \<le> u \<and> u < next_task (frt s1) \<longleftrightarrow> u = t" for u using n(2) by auto
  show ?thesis
    unfolding fib_tree_def
  proof (intro conjI)
    show "\<exists>ops. \<forall>rnd. build rnd ops (frt s) = Some (frt (push_fib t s1))"
      using n(11) by (intro exI [of _ "[New_assembly ty 1 0]"]) (simp add: push_fib_def)
    show "\<exists>ts. fpushed (push_fib t s1) = fpushed s @ ts
       \<and> set ts = {u. t \<le> u \<and> u < next_task (frt (push_fib t s1)) \<and> fib_term (fmem (push_fib t s1) u) \<le> grain}"
      using n(2,3,7) assms(2) by (intro exI [of _ "[t]"]) (auto simp: push_fib_def)
  qed (use n assms(2) one in \<open>auto simp: push_fib_def fib_node_def\<close>)
qed

text \<open>The two operands of a task, one after the other.\<close>

lemma fib_node_mono:
  assumes "fib_node grain r m u" and "\<And>x y. edge r x y \<Longrightarrow> edge r' x y" and "refcount (tasks r' u) = refcount (tasks r u)"
    and "prev1 (m' u) = prev1 (m u)" "prev2 (m' u) = prev2 (m u)" and "fib_term (m' u) = fib_term (m u)"
    and "\<And>x. x < next_task r \<Longrightarrow> fib_term (m' x) = fib_term (m x)"
  shows "fib_node grain r' m' u"
proof (cases "fib_term (m u) > grain")
  case True
  with assms(1) obtain a b where ab: "prev1 (m u) = Some a" "prev2 (m u) = Some b" "edge r a u" "edge r b u"
    "fib_term (m u) = fib_term (m a) + 1" "fib_term (m u) = fib_term (m b) + 2" "refcount (tasks r u) = 2"
    by (auto simp: fib_node_def)
  then have "fib_term (m' a) = fib_term (m a)" "fib_term (m' b) = fib_term (m b)" using assms(7) by (auto simp: edge_def)
  with ab True assms(2-6) show ?thesis by (auto simp: fib_node_def)
qed (use assms in \<open>simp add: fib_node_def\<close>)

lemma link_sel:
  assumes "a \<noteq> t"
  shows "next_task (frt (link_prev1 t a s)) = next_task (frt s)" "next_task (frt (link_prev2 t a s)) = next_task (frt s)"
    "frt (link_prev1 t a s) = make_edge a t (frt s)" "frt (link_prev2 t a s) = make_edge a t (frt s)"
    "fmem (link_prev1 t a s) u = (if u = t then (fmem s t)\<lparr>prev1 := Some a\<rparr> else fmem s u)"
    "fmem (link_prev2 t a s) u = (if u = t then (fmem s t)\<lparr>prev2 := Some a\<rparr> else fmem s u)"
    "fib_term (fmem (link_prev1 t a s) u) = fib_term (fmem s u)" "fib_term (fmem (link_prev2 t a s) u) = fib_term (fmem s u)"
    "fib_taos (link_prev1 t a s) = fib_taos s" "fib_taos (link_prev2 t a s) = fib_taos s"
    "fpushed (link_prev1 t a s) = fpushed s" "fpushed (link_prev2 t a s) = fpushed s"
  using assms by (simp_all add: link_prev1_def link_prev2_def make_edge_sel)

lemma fib_treeD:
  assumes "fib_tree grain tm s t s'"
  shows "t = next_task (frt s)" "t < next_task (frt s')" "fib_term (fmem s' t) = tm"
    "u < t \<Longrightarrow> out (tasks (frt s') u) = out (tasks (frt s) u)" "u < t \<Longrightarrow> refcount (tasks (frt s') u) = refcount (tasks (frt s) u)"
    "u < t \<Longrightarrow> fmem s' u = fmem s u" "u < t \<Longrightarrow> kind (tasks (frt s') u) = kind (tasks (frt s) u)"
    "tm < i \<Longrightarrow> fib_taos s' i = fib_taos s i"
    "t \<le> u \<Longrightarrow> u < next_task (frt s') \<Longrightarrow> fib_node grain (frt s') (fmem s') u"
    "t \<le> u \<Longrightarrow> u < next_task (frt s') \<Longrightarrow> kind (tasks (frt s') u) = TASK_ASSEMBLY"
    "conf (frt s') = conf (frt s)"
  using assms unfolding fib_tree_def by blast+

lemma fib_tree_edge: "fib_tree grain tm s t s' \<Longrightarrow> edge (frt s) x y \<Longrightarrow> edge (frt s') x y"
  using fib_treeD(1,2,4) [of grain tm s t s'] by (auto simp: edge_def)

lemma fib_tree_inner:
  assumes n: "new_fib_tao ty tm s = Some (t, s1)" and g: "grain < tm" "2 \<le> tm"
    and A: "fib_tree grain (tm - 1) s1 a s2" and B: "fib_tree grain (tm - 2) (link_prev1 t a s2) b s4"
  shows "fib_tree grain tm s t (link_prev2 t b s4)"
proof -
  note n = new_fib_tao_sel [OF n] and A' = fib_treeD [OF A] and B' = fib_treeD [OF B]
  have a: "a = Suc t" "t < a" "a \<noteq> t" using A'(1) n(2) by auto
  note l1 = link_sel [OF a(3), of s2]
  have b: "b = next_task (frt s2)" "a < b" "b \<noteq> t" "t < b" using B'(1) l1(1) A'(2) a(2) by auto
  note l2 = link_sel [OF b(3), of s4] and me = make_edge_sel [OF b(3), of "frt s4"] and me1 = make_edge_sel [OF a(3), of "frt s2"]
  let ?s = "link_prev2 t b s4"
  have nx: "next_task (frt ?s) = next_task (frt s4)" "b < next_task (frt s4)" using l2(2) B'(2) by simp_all
  have e3: "edge (frt s2) x y \<Longrightarrow> edge (frt (link_prev1 t a s2)) x y" for x y
    using edge_make_edge [of a "frt s2" t] A'(2) a(3) by (simp add: l1(3))
  have e4: "edge (frt s4) x y \<Longrightarrow> edge (frt ?s) x y" for x y
    using edge_make_edge [of b "frt s4" t] B'(2) b(3) by (simp add: l2(4))
  have e: "edge (frt s2) x y \<Longrightarrow> edge (frt ?s) x y" for x y using e3 e4 fib_tree_edge [OF B] by blast
  have ea: "edge (frt ?s) a t"
    using edge_make_edge [of a "frt s2" t a t] A'(2) a(3) fib_tree_edge [OF B, of a t] e4 by (simp add: l1(3))
  have eb: "edge (frt ?s) b t" using edge_make_edge [of b "frt s4" t b t] B'(2) b(3) by (simp add: l2(4))
  have old: "tasks (frt s1) u = tasks (frt s) u" "fmem s1 u = fmem s u" if "u < t" for u using n(4,5) that by auto
  have ref: "refcount (tasks (frt ?s) t) = 2"
    using n(8) A'(5) [OF a(2)] B'(5) [OF b(4)] by (simp add: l2(4) l1(3) me(3) me1(3))
  have tm: "fib_term (fmem ?s x) = fib_term (fmem s4 x)" for x by (rule l2(8))
  have tm4: "fib_term (fmem s4 x) = fib_term (fmem s2 x)" if "x < b" for x using B'(6) [OF that] l1(7) by simp
  have tmt: "fib_term (fmem ?s t) = tm" using tm [of t] tm4 [OF b(4)] A'(6) [OF a(2)] n(3) by simp
  have tma: "fib_term (fmem ?s a) = tm - 1" using tm [of a] tm4 [OF b(2)] A'(3) by simp
  have tmb: "fib_term (fmem ?s b) = tm - 2" using tm [of b] B'(3) by simp
  have p1: "prev1 (fmem ?s t) = Some a" "prev2 (fmem ?s t) = Some b" using l2(6) [of t] B'(6) [OF b(4)] l1(5) [of t] by simp_all
  have node: "fib_node grain (frt ?s) (fmem ?s) u \<and> kind (tasks (frt ?s) u) = TASK_ASSEMBLY"
    if u: "t \<le> u" "u < next_task (frt ?s)" for u
  proof -
    consider "u = t" | "a \<le> u" "u < b" | "b \<le> u" using u a by linarith
    then show ?thesis
    proof cases
      case 1
      have "fib_node grain (frt ?s) (fmem ?s) t"
        using p1 ea eb ref tmt tma tmb g by (auto simp: fib_node_def)
      moreover have "kind (tasks (frt ?s) t) = TASK_ASSEMBLY"
        using n(9) A'(7) [OF a(2)] B'(7) [OF b(4)] by (simp add: l2(4) l1(3) me(4) me1(4))
      ultimately show ?thesis using 1 by simp
    next
      case 2
      have u2: "u < next_task (frt s2)" "u \<noteq> t" using 2 b a by auto
      have "fib_node grain (frt ?s) (fmem ?s) u"
        by (rule fib_node_mono [OF A'(9) [OF 2(1) u2(1)] e])
          (use B'(5,6) [OF 2(2)] u2(2) tm tm4 [unfolded b(1)] in \<open>simp_all add: l2(4,6) l1(3,5) me(3) me1(3)\<close>)
      moreover have "kind (tasks (frt ?s) u) = TASK_ASSEMBLY"
        using A'(10) [OF 2(1) u2(1)] B'(7) [OF 2(2)] by (simp add: l2(4) l1(3) me(4) me1(4))
      ultimately show ?thesis by blast
    next
      case 3
      have u4: "u < next_task (frt s4)" "u \<noteq> t" using 3 b u nx by auto
      have "fib_node grain (frt ?s) (fmem ?s) u"
        by (rule fib_node_mono [OF B'(9) [OF 3 u4(1)] e4]) (use u4(2) tm in \<open>auto simp: l2(4,6) me(3)\<close>)
      moreover have "kind (tasks (frt ?s) u) = TASK_ASSEMBLY" using B'(10) [OF 3 u4(1)] by (simp add: l2(4) me(4))
      ultimately show ?thesis by blast
    qed
  qed
  show ?thesis
    unfolding fib_tree_def
  proof (intro conjI)
    show "\<forall>u<t. out (tasks (frt ?s) u) = out (tasks (frt s) u) \<and> refcount (tasks (frt ?s) u) = refcount (tasks (frt s) u)
      \<and> fmem ?s u = fmem s u \<and> kind (tasks (frt ?s) u) = kind (tasks (frt s) u)"
    proof (intro allI impI)
      fix u assume u: "u < t"
      then have ua: "u < a" "u < b" "u \<noteq> t" "u \<noteq> a" "u \<noteq> b" using a b by auto
      show "out (tasks (frt ?s) u) = out (tasks (frt s) u) \<and> refcount (tasks (frt ?s) u) = refcount (tasks (frt s) u)
      \<and> fmem ?s u = fmem s u \<and> kind (tasks (frt ?s) u) = kind (tasks (frt s) u)"
        using old [OF u] A'(4,5,6,7) [OF ua(1)] B'(4,5,6,7) [OF ua(2)] ua(3-5)
        by (simp add: l2(4,6) l1(3,5) me(2,3,4) me1(2,3,4))
    qed
    obtain ops1 ops2 where "\<forall>rnd. build rnd ops1 (frt s1) = Some (frt s2)"
      "\<forall>rnd. build rnd ops2 (frt (link_prev1 t a s2)) = Some (frt s4)" using A B unfolding fib_tree_def by blast
    moreover have t2: "t < next_task (frt s2)" and t4: "t < next_task (frt s4)" using a(2) A'(2) b(2) B'(2) by linarith+
    ultimately have "build rnd ([New_assembly ty 1 0] @ ops1 @ [Edge a t] @ ops2 @ [Edge b t]) (frt s) = Some (frt ?s)" for rnd
      unfolding build_append n(11) using A'(2) B'(2) t2 t4 by (simp add: l1(3) l2(4))
    then show "\<exists>ops. \<forall>rnd. build rnd ops (frt s) = Some (frt ?s)" by blast
    obtain ts1 ts2 where "fpushed s2 = fpushed s1 @ ts1" "set ts1 = {u. a \<le> u \<and> u < next_task (frt s2) \<and> fib_term (fmem s2 u) \<le> grain}"
      "fpushed s4 = fpushed s2 @ ts2" "set ts2 = {u. b \<le> u \<and> u < next_task (frt s4) \<and> fib_term (fmem s4 u) \<le> grain}"
      using A B unfolding fib_tree_def l1(11) by blast
    moreover have "{u. t \<le> u \<and> u < next_task (frt s4) \<and> fib_term (fmem s4 u) \<le> grain}
       = {u. a \<le> u \<and> u < b \<and> fib_term (fmem s2 u) \<le> grain} \<union> {u. b \<le> u \<and> u < next_task (frt s4) \<and> fib_term (fmem s4 u) \<le> grain}"
      using a b nx(2) tm4 tmt tm [of t] g by (auto simp: Suc_le_eq order.order_iff_strict [of t])
    ultimately show "\<exists>ts. fpushed ?s = fpushed s @ ts \<and> set ts = {u. t \<le> u \<and> u < next_task (frt ?s) \<and> fib_term (fmem ?s u) \<le> grain}"
      unfolding l2(12) tm nx(1) using n(7) b(1) by (intro exI [of _ "ts1 @ ts2"]) simp
    show "\<forall>i>tm. fib_taos ?s i = fib_taos s i" using n(6) A'(8) B'(8) by (simp add: l2(10) l1(9))
    show "conf (frt ?s) = conf (frt s)" using n(10) A'(11) B'(11) by (simp add: l2(4) l1(3) me(5) me1(5))
  qed (use n(1,2) tmt node nx b in auto)
qed

lemma buildDAG_tree:
  assumes "2 \<le> grain" and "tm \<le> MAX_FIB"
  shows "\<exists>t s'. buildDAG ty grain tm s = Some (t, s') \<and> fib_tree grain tm s t s'"
  using assms(2)
proof (induction tm arbitrary: s rule: less_induct)
  case (less tm)
  obtain t s1 where n: "new_fib_tao ty tm s = Some (t, s1)" using less.prems by (simp add: new_fib_tao_def AssemblyTask_def PolyTask_def)
  show ?case
  proof (cases "tm \<le> grain")
    case True
    then have "buildDAG ty grain tm s = Some (t, push_fib t s1)" using n by (subst buildDAG.simps) simp
    with fib_tree_leaf [OF n True] show ?thesis by blast
  next
    case False
    then have g: "grain < tm" "2 \<le> tm" "\<not> tm \<le> 1" using assms(1) by auto
    have sub: "tm - 1 < tm" "tm - 2 < tm" "tm - 1 \<le> MAX_FIB" "tm - 2 \<le> MAX_FIB" using g less.prems by auto
    obtain a s2 where A: "buildDAG ty grain (tm - 1) s1 = Some (a, s2)" "fib_tree grain (tm - 1) s1 a s2"
      using less.IH [OF sub(1,3), of s1] by blast
    obtain b s4 where B: "buildDAG ty grain (tm - 2) (link_prev1 t a s2) = Some (b, s4)" "fib_tree grain (tm - 2) (link_prev1 t a s2) b s4"
      using less.IH [OF sub(2,4), of "link_prev1 t a s2"] by blast
    have "fib_taos s2 tm = Some t" using fib_treeD(8) [OF A(2), of tm] new_fib_tao_sel(6) [OF n] g by simp
    moreover from this have "fib_taos s4 tm = Some t" using fib_treeD(8) [OF B(2), of tm] g by (simp add: link_prev1_def)
    ultimately have "buildDAG ty grain tm s = Some (t, link_prev2 t b s4)"
      using n A(1) B(1) g by (subst buildDAG.simps) simp
    with fib_tree_inner [OF n g(1,2) A(2) B(2)] show ?thesis by blast
  qed
qed

section \<open>The data\<close>

text \<open>
  While the program runs only the values change; a task's operands have their values before
  it begins, and its own value is right as soon as one thread has executed it.
\<close>

definition fib_data :: "nat \<Rightarrow> rt \<Rightarrow> fib_mem \<Rightarrow> fib_mem \<Rightarrow> bool" where
  "fib_data grain r m0 m \<longleftrightarrow> (\<forall>u<next_task r. fib_node grain r m0 u)
     \<and> (\<forall>u. fib_term (m u) = fib_term (m0 u) \<and> prev1 (m u) = prev1 (m0 u) \<and> prev2 (m u) = prev2 (m0 u))"

definition fib_value :: "nat \<Rightarrow> rt \<Rightarrow> fib_mem \<Rightarrow> tid \<Rightarrow> fib_mem \<Rightarrow> bool" where
  "fib_value grain r m0 t m \<longleftrightarrow> fib_data grain r m0 m \<and> val (m t) = fib (fib_term (m0 t))"

definition fib_share :: "nat \<Rightarrow> rt \<Rightarrow> fib_mem \<Rightarrow> tid \<Rightarrow> place \<Rightarrow> nat set \<Rightarrow> fib_mem \<Rightarrow> bool" where
  "fib_share grain r m0 t p D m \<longleftrightarrow> fib_data grain r m0 m \<and> (\<forall>a. edge r a t \<longrightarrow> val (m a) = fib (fib_term (m0 a)))
     \<and> (D \<noteq> {} \<longrightarrow> val (m t) = fib (fib_term (m0 t)))"

lemma set_val_sel [simp]:
  "fib_term (set_val t v m u) = fib_term (m u)" "prev1 (set_val t v m u) = prev1 (m u)" "prev2 (set_val t v m u) = prev2 (m u)"
  "val (set_val t v m u) = (if u = t then v else val (m u))"
  by (simp_all add: set_val_def)

lemma fib_execute_form: "fib_execute grain f t p n m = Some m' \<Longrightarrow> \<exists>v. m' = set_val t v m"
proof -
  have "m = set_val t (val (m t)) m" by (simp add: set_val_def)
  then show "fib_execute grain f t p n m = Some m' \<Longrightarrow> \<exists>v. m' = set_val t v m"
    by (auto simp: fib_execute_def split: if_splits)
qed

lemma fib_data_set_val [simp]: "fib_data grain r m0 (set_val t v m) = fib_data grain r m0 m"
  by (simp add: fib_data_def)

lemma fib_execute_value:
  assumes "t < next_task r" and "fib_share grain r m0 t p D m"
  shows "fib_execute grain (\<lambda>_. False) t p n m = Some (set_val t (fib (fib_term (m0 t))) m)"
    "fib_execute grain f t p n m = Some m' \<Longrightarrow> m' = set_val t (fib (fib_term (m0 t))) m"
proof -
  have d: "fib_node grain r m0 t" "fib_term (m t) = fib_term (m0 t)" "prev1 (m t) = prev1 (m0 t)" "prev2 (m t) = prev2 (m0 t)"
    using assms by (auto simp: fib_share_def fib_data_def)
  have "fib_execute grain (\<lambda>_. False) t p n m = Some (set_val t (fib (fib_term (m0 t))) m)
     \<and> (fib_execute grain f t p n m = Some m' \<longrightarrow> m' = set_val t (fib (fib_term (m0 t))) m)"
  proof (cases "fib_term (m0 t) > grain")
    case True
    with d(1) obtain a b where ab: "prev1 (m0 t) = Some a" "prev2 (m0 t) = Some b" "edge r a t" "edge r b t"
      "fib_term (m0 t) = fib_term (m0 a) + 1" "fib_term (m0 t) = fib_term (m0 b) + 2" by (auto simp: fib_node_def)
    have "fib (fib_term (m0 t)) = fib (fib_term (m0 a)) + fib (fib_term (m0 b))"
      using ab(5,6) fib_two [of "fib_term (m0 b)"] by simp
    moreover have "val (m a) = fib (fib_term (m0 a))" "val (m b) = fib (fib_term (m0 b))" using assms(2) ab by (auto simp: fib_share_def)
    ultimately show ?thesis using True d ab by (auto simp: fib_execute_def split: if_splits)
  qed (use d in \<open>simp add: fib_execute_def\<close>)
  then show "fib_execute grain (\<lambda>_. False) t p n m = Some (set_val t (fib (fib_term (m0 t))) m)"
    "fib_execute grain f t p n m = Some m' \<Longrightarrow> m' = set_val t (fib (fib_term (m0 t))) m" by blast+
qed

interpretation fib: total_task_program "fib_execute grain" r "\<lambda>t. fib_data grain r m0" "fib_share grain r m0" "fib_value grain r m0"
    "\<lambda>_ _. False" for grain :: nat and r :: rt and m0 :: fib_mem
proof
  fix t m p D n f m' assume "t < next_task r" "fib_share grain r m0 t p D m" "fib_execute grain f t p n m = Some m'"
  then show "fib_share grain r m0 t p (insert n D) m'"
    using fib_execute_value(2) [of t r grain m0 p D m f n m'] by (auto simp: fib_share_def)
next
  fix f u p n m m' t q D
  assume "fib_execute grain f u p n m = Some m'" "u \<noteq> t" "\<not> ahead r u t" "fib_share grain r m0 t q D m"
  then show "fib_share grain r m0 t q D m'" by (auto simp: fib_share_def dest!: fib_execute_form)
next
  fix t p D m n assume "t < next_task r" "fib_share grain r m0 t p D m"
  then show "fib_execute grain (\<lambda>_. False) t p n m \<noteq> None" using fib_execute_value(1) by simp
qed (auto simp: fib_share_def fib_value_def dest!: fib_execute_form)

text \<open>What the graph gives the scheduler to start with.\<close>

lemma fib_start:
  assumes "fib_args num arg = Some (n, grain)" and "buildDAG ty grain n (fib_init (init_rt c l blank) mem) = Some (parent, b)"
  shows "fib_tree grain n (fib_init (init_rt c l blank) mem) parent b" "parent = 0" "parent < next_task (frt b)"
    "\<And>u. u < next_task (frt b) \<Longrightarrow> fib_node grain (frt b) (fmem b) u" "conf (frt b) = c"
    "\<exists>ops. \<forall>rnd. build rnd ops (init_rt c l blank) = Some (frt b)" "fib_term (fmem b parent) = n"
    "\<And>u. u < next_task (frt b) \<Longrightarrow> kind (tasks (frt b) u) = TASK_ASSEMBLY"
proof -
  let ?s = "fib_init (init_rt c l blank) mem"
  note a = fib_args_bounds [OF assms(1)]
  have "2 \<le> grain" "n \<le> MAX_FIB" using a by auto
  from buildDAG_tree [OF this, of ty ?s] assms(2) show t: "fib_tree grain n ?s parent b" by simp
  note T = fib_treeD [OF t]
  show "parent = 0" using T(1) by (simp add: fib_init_def init_rt_def)
  then show "\<And>u. u < next_task (frt b) \<Longrightarrow> fib_node grain (frt b) (fmem b) u" "\<And>u. u < next_task (frt b) \<Longrightarrow> kind (tasks (frt b) u) = TASK_ASSEMBLY"
    using T(9,10) by simp_all
  show "parent < next_task (frt b)" "fib_term (fmem b parent) = n" using T(2,3) by simp_all
  show "conf (frt b) = c" using T(11) by (simp add: fib_init_def init_rt_def)
  show "\<exists>ops. \<forall>rnd. build rnd ops (init_rt c l blank) = Some (frt b)" using t by (simp add: fib_tree_def fib_init_def)
qed

section \<open>Properties\<close>

text \<open>C8.
  The Fibonacci program computes Fibonacci numbers. For every argument \<open>main\<close> accepts,
  every layout, every number of workers up to 64, every interleaving and every choice of
  places: if executed tasks are kept, no task ever fails to find its operands, and when a
  worker has left the loop or nothing is pending the parent holds the number, not cut to 64 bits.
\<close>

theorem fibonacci_program_correct:
  assumes "fib_args num arg = Some (n, grain)" and "buildDAG ty grain n (fib_init (init_rt c l blank) mem) = Some (parent, b)"
    and "\<not> delete_executed_taos c" and "N \<le> XITAO_MAXTHREADS"
    and "(prog_step (fib_execute grain) rnd N)\<^sup>*\<^sup>* (boot (frt b), fmem b) (s, m)" and "fault_free N s"
  shows "(\<forall>k<N. \<forall>t. executes (pcs s k) = Some t \<longrightarrow> run_body (fib_execute grain) s t k m \<noteq> None)
    \<and> (\<forall>k<N. pcs s k = PDone \<or> pending_tasks (rts s) \<le> 0 \<longrightarrow> unat (val (m parent)) = fibs n)"
proof -
  note st = fib_start [OF assms(1,2)]
  obtain ops where R: "prog_reached (fib_execute grain) rnd N ops (frt b) (fmem b) s m"
    using st(6) assms(4-6) unfolding prog_reached_def by blast
  have I: "fib_data grain (frt b) (fmem b) (fmem b)" using st(4) by (simp add: fib_data_def)
  have nf: "\<not> freed s t" for t using nothing_freed [OF prog_reached_sched [OF R]] assms(3) st(5) by simp
  have "unat (val (m parent)) = fibs n" if "k < N" "pcs s k = PDone \<or> pending_tasks (rts s) \<le> 0" for k
  proof -
    have "fib_value grain (frt b) (fmem b) parent m"
      using fib.results_at_exit [OF R I that st(3)] by simp
    then have "val (m parent) = fib n" using st(7) by (simp add: fib_value_def)
    then show ?thesis using fib_fibs [of n] fib_args_bounds [OF assms(1)] by (simp add: MAX_FIB_def)
  qed
  moreover have "run_body (fib_execute grain) s t k m \<noteq> None" if "k < N" "executes (pcs s k) = Some t" for k t
    using fib.bodies_never_fail [OF R I nf that] .
  ultimately show ?thesis by blast
qed

text \<open>The graph is complete. For every argument \<open>main\<close> accepts, \<open>buildDAG\<close> stays in its array
  and pushes exactly the tasks without predecessors, which are those the workers can
  start with.
\<close>

theorem fibonacci_pushes_the_ready:
  assumes "fib_args num arg = Some (n, grain)"
  shows "\<exists>parent b. buildDAG ty grain n (fib_init (init_rt c l blank) mem) = Some (parent, b)
    \<and> set (fpushed b) = {t. unpushed (boot (frt b)) t}"
proof -
  have a: "2 \<le> grain" "n \<le> MAX_FIB" using fib_args_bounds [OF assms] by auto
  obtain parent b where B: "buildDAG ty grain n (fib_init (init_rt c l blank) mem) = Some (parent, b)"
    and T: "fib_tree grain n (fib_init (init_rt c l blank) mem) parent b"
    using buildDAG_tree [OF a, of ty "fib_init (init_rt c l blank) mem"] by blast
  note st = fib_start [OF assms B]
  from T st(2) have "set (fpushed b) = {u. u < next_task (frt b) \<and> fib_term (fmem b u) \<le> grain}"
    by (auto simp: fib_tree_def fib_init_def)
  also have "\<dots> = {t. unpushed (boot (frt b)) t}" using st(4) by (force simp: boot_def fib_node_def split: if_splits)
  finally show ?thesis using B by blast
qed

text \<open>An example: the third number, one worker; \<open>d\<close> says whether executed tasks are deleted.\<close>

definition fib_demo_conf :: "bool \<Rightarrow> config" where
  "fib_demo_conf d = two_conf\<lparr>delete_executed_taos := d\<rparr>"

definition fib_demo_rt :: "bool \<Rightarrow> rt" where
  "fib_demo_rt d = init_rt (fib_demo_conf d) small_layout blank_task"

definition fib_demo_mem :: fib_mem where
  "fib_demo_mem = (\<lambda>_. \<lparr>prev1 = None, prev2 = None, fib_term = 0, val = 0\<rparr>)"

definition fib_demo :: "bool \<Rightarrow> nat \<Rightarrow> (sys \<times> fib_mem) option" where
  "fib_demo d k = (case buildDAG 0 2 3 (fib_init (fib_demo_rt d) fib_demo_mem) of
     None \<Rightarrow> None
   | Some (t, b) \<Rightarrow> prog_run (fib_execute 2) 1 ([Fini, Push 1 0, Push 2 0] @ replicate k (Worker 0)) (boot (frt b), fmem b))"

theorem fibonacci_program_correct_witness:
  "\<exists>s m. fib_demo False 57 = Some (s, m) \<and> unat (val (m 0)) = fibs 3"
proof -
  obtain parent b where B: "buildDAG 0 2 3 (fib_init (fib_demo_rt False) fib_demo_mem) = Some (parent, b)"
    using buildDAG_tree [of 2 3 0 "fib_init (fib_demo_rt False) fib_demo_mem"] by (auto simp: MAX_FIB_def)
  have "(case fib_demo False 57 of None \<Rightarrow> False | Some (s, m) \<Rightarrow> pcs s 0 = PDone)" by code_simp
  then obtain s m where s: "fib_demo False 57 = Some (s, m)" "pcs s 0 = PDone" by (auto split: option.splits)
  have a: "fib_args 3 None = Some (3, 2)" by (simp add: fib_args_def MAX_FIB_def)
  have "prog_run (fib_execute 2) 1 ([Fini, Push 1 0, Push 2 0] @ replicate 57 (Worker 0)) (boot (frt b), fmem b) = Some (s, m)"
    using s(1) unfolding fib_demo_def B by (simp del: prog_run.simps)
  then have "(prog_step (fib_execute 2) (\<lambda>x. x) 1)\<^sup>*\<^sup>* (boot (frt b), fmem b) (s, m)" by (rule prog_run_steps)
  moreover have "fault_free 1 s" using s(2) by (simp add: fault_free_def)
  ultimately have "unat (val (m parent)) = fibs 3"
    using fibonacci_program_correct [OF a B [unfolded fib_demo_rt_def], of 1 "\<lambda>x. x" s m] s(2)
    by (simp add: fib_demo_conf_def XITAO_MAXTHREADS_def)
  with s(1) fib_start(2) [OF a B [unfolded fib_demo_rt_def]] show ?thesis by auto
qed

text \<open>
  With the default configuration executed tasks are deleted, and the operands are gone: a
  single worker reads \<open>prev1->val\<close> of a deleted task.
\<close>

lemma fibonacci_reads_deleted_tasks:
  "\<exists>s m. fib_demo True 46 = Some (s, m) \<and> executes (pcs s 0) = Some 0 \<and> prev1 (m 0) = Some 1 \<and> freed s 1
     \<and> run_body (fib_execute 2) s 0 0 m = None"
proof -
  have "(case fib_demo True 46 of None \<Rightarrow> False | Some (s, m) \<Rightarrow> executes (pcs s 0) = Some 0 \<and> prev1 (m 0) = Some 1 \<and> freed s 1
     \<and> Option.is_none (run_body (fib_execute 2) s 0 0 m))" by code_simp
  then show ?thesis by (auto simp: Option.is_none_def split: option.splits)
qed

theorem fibonacci_pushes_the_ready_witness:
  "\<exists>t b. buildDAG 0 2 3 (fib_init (fib_demo_rt True) fib_demo_mem) = Some (t, b) \<and> set (fpushed b) = {u. unpushed (boot (frt b)) u}"
proof -
  have "fib_args 3 None = Some (3, 2)" by (simp add: fib_args_def MAX_FIB_def)
  from fibonacci_pushes_the_ready [OF this, of 0 "fib_demo_conf True" small_layout blank_task fib_demo_mem]
  show ?thesis by (simp add: fib_demo_rt_def)
qed

end
