(* ===== verification/Merge_Sort.thy ===== *)
theory Merge_Sort
  imports Programs "HOL-Library.Multiset"
begin

text \<open>
  The example \<open>benchmarks/merge_sort\<close>: a merge sort whose upper levels are tasks. The array
  is shared memory; a task sorts or merges its part of it. The array ends up sorted whatever
  the schedule, the places and the number of workers, if executed tasks are kept, as the
  \<open>Makefile\<close> asks for with \<open>-d0\<close>. Lengths and offsets are natural numbers, since they are
  bounded by the length of the array. \<open>cleanup\<close>, which deletes the two children once the last
  thread has executed their successor and nobody reads them any more, is left out, and so is
  the variant for OpenMP.
\<close>

section \<open>The sequential part\<close>

type_synonym arr = "32 word list"

text \<open>Reading and writing; \<open>None\<close> is an access outside the array.\<close>

definition rd :: "arr \<Rightarrow> nat \<Rightarrow> 32 word option" where
  "rd xs i = (if i < length xs then Some (xs ! i) else None)"

definition write_at :: "nat \<Rightarrow> arr \<Rightarrow> arr \<Rightarrow> arr option" where
  "write_at a ts xs = (if a + length ts \<le> length xs then Some (take a xs @ ts @ drop (a + length ts) xs) else None)"

text \<open>\<open>merge\<close>: the loops that fill \<open>temp\<close> from the indices \<open>li\<close> and \<open>ri\<close> on, then the copy.\<close>

function ms_merge_loop :: "arr \<Rightarrow> nat \<Rightarrow> nat \<Rightarrow> nat \<Rightarrow> nat \<Rightarrow> nat \<Rightarrow> nat \<Rightarrow> arr option" where
  "ms_merge_loop xs al nl ar nr li ri =
     (if li < nl \<and> ri < nr then do {
        x \<leftarrow> rd xs (al + li);
        y \<leftarrow> rd xs (ar + ri);
        if x \<le> y then do { ts \<leftarrow> ms_merge_loop xs al nl ar nr (li + 1) ri; Some (x # ts) }
        else do { ts \<leftarrow> ms_merge_loop xs al nl ar nr li (ri + 1); Some (y # ts) } }
      else if li < nl then do {
        x \<leftarrow> rd xs (al + li);
        ts \<leftarrow> ms_merge_loop xs al nl ar nr (li + 1) ri;
        Some (x # ts) }
      else if ri < nr then do {
        y \<leftarrow> rd xs (ar + ri);
        ts \<leftarrow> ms_merge_loop xs al nl ar nr li (ri + 1);
        Some (y # ts) }
      else Some [])"
  by pat_completeness auto
termination by (relation "measure (\<lambda>(xs, al, nl, ar, nr, li, ri). (nl - li) + (nr - ri))") auto

declare ms_merge_loop.simps [simp del]

definition ms_merge :: "nat \<Rightarrow> nat \<Rightarrow> nat \<Rightarrow> nat \<Rightarrow> nat \<Rightarrow> arr \<Rightarrow> arr option" where
  "ms_merge a al nl ar nr xs = do { ts \<leftarrow> ms_merge_loop xs al nl ar nr 0 0; write_at a ts xs }"

fun mergesort_seq :: "nat \<Rightarrow> nat \<Rightarrow> arr \<Rightarrow> arr option" where
  "mergesort_seq a n xs =
     (if n \<le> 1 then Some xs
      else do {
        xs1 \<leftarrow> mergesort_seq a (n div 2) xs;
        xs2 \<leftarrow> mergesort_seq (a + n div 2) (n - n div 2) xs1;
        ms_merge a a (n div 2) (a + n div 2) (n - n div 2) xs2 })"

declare mergesort_seq.simps [simp del]

section \<open>The tasks\<close>

text \<open>The members of \<open>MergeSortTAO\<close>; \<open>ms_A\<close> is the offset of its part of the array.\<close>

record ms_tao =
  ms_left :: "tid option"
  ms_right :: "tid option"
  ms_n :: nat
  ms_A :: nat

record ms_mem =
  marr :: arr
  mtaos :: "tid \<Rightarrow> ms_tao"

text \<open>\<open>execute\<close>: only the leader works; the members of the children are read, so they must exist.\<close>

definition ms_execute :: "ms_mem body" where
  "ms_execute f t p nthread m =
     (if int nthread \<noteq> fst p then Some m
      else case ms_left (mtaos m t) of
        Some l \<Rightarrow> (case ms_right (mtaos m t) of
            None \<Rightarrow> None
          | Some r \<Rightarrow> if f l \<or> f r then None
              else do {
                xs \<leftarrow> ms_merge (ms_A (mtaos m t)) (ms_A (mtaos m l)) (ms_n (mtaos m l)) (ms_A (mtaos m r)) (ms_n (mtaos m r)) (marr m);
                Some (m\<lparr>marr := xs\<rparr>) })
      | None \<Rightarrow>
          if ms_n (mtaos m t) > 1 then do {
            xs \<leftarrow> mergesort_seq (ms_A (mtaos m t)) (ms_n (mtaos m t)) (marr m);
            Some (m\<lparr>marr := xs\<rparr>) }
          else Some m)"

text \<open>The global variables of the program, its type of tasks and the rounding of \<open>float\<close>.\<close>

record ms_conf =
  leaf :: nat
  ms_N :: nat
  use_sta :: bool
  use_workload_hint :: bool
  ms_type :: nat
  ms_rnd :: "real \<Rightarrow> real"

record ms_state =
  mrt :: rt
  mmem :: "tid \<Rightarrow> ms_tao"
  mpushed :: "tid list"

text \<open>The constructor sets the hint; \<open>buildDAG\<close> then sets the address, \<open>(float)offset / N\<close>.\<close>

definition hint_length :: "ms_conf \<Rightarrow> tid \<Rightarrow> nat \<Rightarrow> rt \<Rightarrow> rt" where
  "hint_length c t n r = (if use_workload_hint c then upd_task t (\<lambda>p. p\<lparr>workload_hint := of_nat n\<rparr>) r else r)"

definition sta_offset :: "ms_conf \<Rightarrow> tid \<Rightarrow> nat \<Rightarrow> rt \<Rightarrow> rt" where
  "sta_offset c t offset r =
     (if use_sta c then set_sta (ms_rnd c) t (ms_rnd c (ms_rnd c (real offset) / ms_rnd c (real (ms_N c)))) r else r)"

definition new_ms_tao :: "ms_conf \<Rightarrow> nat \<Rightarrow> nat \<Rightarrow> nat \<Rightarrow> ms_state \<Rightarrow> ms_state" where
  "new_ms_tao c a n offset s =
     (case AssemblyTask (ms_type c) 1 0 (mrt s) of (t, r) \<Rightarrow>
        s\<lparr>mrt := sta_offset c t offset (hint_length c t n r),
          mmem := (mmem s)(t := \<lparr>ms_left = None, ms_right = None, ms_n = n, ms_A = a\<rparr>)\<rparr>)"

definition link_left :: "tid \<Rightarrow> tid \<Rightarrow> ms_state \<Rightarrow> ms_state" where
  "link_left t a s = s\<lparr>mmem := (mmem s)(t := (mmem s t)\<lparr>ms_left := Some a\<rparr>), mrt := make_edge a t (mrt s)\<rparr>"

definition link_right :: "tid \<Rightarrow> tid \<Rightarrow> ms_state \<Rightarrow> ms_state" where
  "link_right t b s = s\<lparr>mmem := (mmem s)(t := (mmem s t)\<lparr>ms_right := Some b\<rparr>), mrt := make_edge b t (mrt s)\<rparr>"

text \<open>\<open>buildDAG\<close>; \<open>None\<close> means that it does not return.\<close>

partial_function (option) ms_buildDAG :: "ms_conf \<Rightarrow> nat \<Rightarrow> nat \<Rightarrow> nat \<Rightarrow> ms_state \<Rightarrow> (tid \<times> ms_state) option" where
  "ms_buildDAG c a n offset s =
     (let t = next_task (mrt s); s1 = new_ms_tao c a n offset s in
      if n \<le> leaf c then Some (t, s1\<lparr>mpushed := mpushed s1 @ [t]\<rparr>)
      else Option.bind (ms_buildDAG c a (n div 2) offset s1) (\<lambda>x.
           Option.bind (ms_buildDAG c (a + n div 2) (n - n div 2) (offset + n div 2) (link_left t (fst x) (snd x))) (\<lambda>y.
             Some (t, link_right t (fst y) (snd y)))))"

definition ms_init :: "rt \<Rightarrow> (tid \<Rightarrow> ms_tao) \<Rightarrow> ms_state" where
  "ms_init r m = \<lparr>mrt = r, mmem = m, mpushed = []\<rparr>"

section \<open>Parts of an array\<close>

definition slice :: "arr \<Rightarrow> nat \<Rightarrow> nat \<Rightarrow> arr" where
  "slice xs a n = take n (drop a xs)"

lemma slice_Suc: "a < length xs \<Longrightarrow> slice xs a (Suc n) = xs ! a # slice xs (Suc a) n"
  by (simp add: slice_def Cons_nth_drop_Suc [symmetric])

lemma slice_0 [simp]: "slice xs a 0 = []"
  by (simp add: slice_def)

lemma length_slice [simp]: "length (slice xs a n) = min n (length xs - a)"
  by (simp add: slice_def)

lemma slice_add: "slice xs a (m + n) = slice xs a m @ slice xs (a + m) n"
  by (simp add: slice_def take_add add.commute)

text \<open>What changes only a part of the array and keeps its elements.\<close>

definition only :: "nat \<Rightarrow> nat \<Rightarrow> arr \<Rightarrow> arr \<Rightarrow> bool" where
  "only a n xs ys \<longleftrightarrow> length ys = length xs \<and> mset ys = mset xs \<and> (\<forall>i<length xs. i < a \<or> a + n \<le> i \<longrightarrow> ys ! i = xs ! i)"

lemma only_refl [simp]: "only a n xs xs"
  by (simp add: only_def)

lemma only_trans: "only a n xs ys \<Longrightarrow> only a n ys zs \<Longrightarrow> only a n xs zs"
  by (auto simp: only_def)

lemma only_mono: "only b k xs ys \<Longrightarrow> a \<le> b \<Longrightarrow> b + k \<le> a + n \<Longrightarrow> only a n xs ys"
  by (auto simp: only_def)

lemma only_slice: "only a n xs ys \<Longrightarrow> b + k \<le> a \<or> a + n \<le> b \<Longrightarrow> slice ys b k = slice xs b k"
  by (rule nth_equalityI) (auto simp: only_def slice_def)

section \<open>Merging\<close>

fun mrg :: "arr \<Rightarrow> arr \<Rightarrow> arr" where
  "mrg (x # xs) (y # ys) = (if x \<le> y then x # mrg xs (y # ys) else y # mrg (x # xs) ys)"
| "mrg xs [] = xs"
| "mrg [] ys = ys"

lemma mset_mrg: "mset (mrg xs ys) = mset xs + mset ys"
  by (induction xs ys rule: mrg.induct) auto

lemma set_mrg: "set (mrg xs ys) = set xs \<union> set ys"
  by (induction xs ys rule: mrg.induct) auto

lemma length_mrg: "length (mrg xs ys) = length xs + length ys"
  by (induction xs ys rule: mrg.induct) auto

lemma sorted_mrg: "sorted xs \<Longrightarrow> sorted ys \<Longrightarrow> sorted (mrg xs ys)"
  by (induction xs ys rule: mrg.induct) (auto simp: set_mrg)

lemma ms_merge_loop_mrg:
  assumes "al + nl \<le> length xs" and "ar + nr \<le> length xs" and "li \<le> nl" and "ri \<le> nr"
  shows "ms_merge_loop xs al nl ar nr li ri = Some (mrg (slice xs (al + li) (nl - li)) (slice xs (ar + ri) (nr - ri)))"
  using assms
proof (induction xs al nl ar nr li ri rule: ms_merge_loop.induct)
  case (1 xs al nl ar nr li ri)
  have l: "rd xs (al + li) = Some (xs ! (al + li)) \<and> slice xs (al + li) (nl - li) = xs ! (al + li) # slice xs (al + Suc li) (nl - Suc li)"
    if "li < nl"
  proof -
    have "al + li < length xs" "nl - li = Suc (nl - Suc li)" using that 1(5) by auto
    then show ?thesis using slice_Suc [of "al + li" xs "nl - Suc li"] by (simp add: rd_def)
  qed
  have r: "rd xs (ar + ri) = Some (xs ! (ar + ri)) \<and> slice xs (ar + ri) (nr - ri) = xs ! (ar + ri) # slice xs (ar + Suc ri) (nr - Suc ri)"
    if "ri < nr"
  proof -
    have "ar + ri < length xs" "nr - ri = Suc (nr - Suc ri)" using that 1(6) by auto
    then show ?thesis using slice_Suc [of "ar + ri" xs "nr - Suc ri"] by (simp add: rd_def)
  qed
  consider "li < nl" "ri < nr" | "li < nl" "ri = nr" | "li = nl" "ri < nr" | "li = nl" "ri = nr" using 1(7,8) by linarith
  then show ?case
  proof cases
    case both: 1
    show ?thesis
    proof (cases "xs ! (al + li) \<le> xs ! (ar + ri)")
      case True
      then show ?thesis using 1(1) [OF conjI [OF both] conjunct1 [OF l] conjunct1 [OF r]] both 1(5-8) l r
        by (subst ms_merge_loop.simps) simp
    next
      case False
      then show ?thesis using 1(2) [OF conjI [OF both] conjunct1 [OF l] conjunct1 [OF r]] both 1(5-8) l r
        by (subst ms_merge_loop.simps) simp
    qed
  next
    case 2
    then show ?thesis using 1(3) [of "xs ! (al + li)"] 1(5-8) l by (subst ms_merge_loop.simps) simp
  next
    case 3
    then have "ms_merge_loop xs al nl ar nr li (ri + 1) = Some (mrg [] (slice xs (ar + (ri + 1)) (nr - (ri + 1))))"
      using 1(4) [of "xs ! (ar + ri)"] 1(5-8) r by simp
    then show ?thesis using 3 r by (subst ms_merge_loop.simps) (cases "slice xs (ar + Suc ri) (nr - Suc ri)"; simp)
  next
    case 4
    then show ?thesis by (subst ms_merge_loop.simps) simp
  qed
qed

text \<open>Merging two adjacent parts.\<close>

lemma ms_merge_adjacent:
  assumes "a + nl + nr \<le> length xs"
  shows "\<exists>ys. ms_merge a a nl (a + nl) nr xs = Some ys \<and> only a (nl + nr) xs ys
    \<and> slice ys a (nl + nr) = mrg (slice xs a nl) (slice xs (a + nl) nr)"
proof -
  let ?ts = "mrg (slice xs a nl) (slice xs (a + nl) nr)"
  let ?ys = "take a xs @ ?ts @ drop (a + (nl + nr)) xs"
  have len: "length ?ts = nl + nr" using assms by (simp add: length_mrg)
  have "ms_merge_loop xs a nl (a + nl) nr 0 0 = Some ?ts" using ms_merge_loop_mrg [of a nl xs "a + nl" nr 0 0] assms by simp
  then have ys: "ms_merge a a nl (a + nl) nr xs = Some ?ys"
    using assms len by (simp add: ms_merge_def write_at_def add.assoc)
  have split: "xs = take a xs @ slice xs a (nl + nr) @ drop (a + (nl + nr)) xs"
    by (metis append.assoc append_take_drop_id slice_def take_add)
  have "mset ?ts = mset (slice xs a (nl + nr))" by (simp add: mset_mrg slice_add)
  then have "mset ?ys = mset xs" using arg_cong [OF split, of mset] by (simp only: mset_append)
  moreover have "length ?ys = length xs" using assms len by simp
  moreover have "?ys ! i = xs ! i" if "i < length xs" "i < a \<or> a + (nl + nr) \<le> i" for i
    using that assms len by (auto simp: nth_append)
  ultimately have "only a (nl + nr) xs ?ys" by (simp add: only_def)
  moreover have "slice ?ys a (nl + nr) = ?ts" using assms len by (simp add: slice_def)
  ultimately show ?thesis using ys by blast
qed

lemma mergesort_seq_sorts:
  "a + n \<le> length xs \<Longrightarrow> \<exists>ys. mergesort_seq a n xs = Some ys \<and> only a n xs ys \<and> sorted (slice ys a n)"
proof (induction n arbitrary: a xs rule: less_induct)
  case (less n)
  show ?case
  proof (cases "n \<le> 1")
    case True
    then have "sorted (slice xs a n)" by (cases n) (auto simp: slice_def sorted01)
    with True show ?thesis by (subst mergesort_seq.simps) simp
  next
    case False
    let ?l = "n div 2" and ?r = "n - n div 2"
    have lt: "?l < n" "?r < n" "?l + ?r = n" using False by auto
    obtain xs1 where 1: "mergesort_seq a ?l xs = Some xs1" "only a ?l xs xs1" "sorted (slice xs1 a ?l)"
      using less.IH [OF lt(1), of a xs] less.prems lt by auto
    have len1: "length xs1 = length xs" using 1(2) by (simp add: only_def)
    obtain xs2 where 2: "mergesort_seq (a + ?l) ?r xs1 = Some xs2" "only (a + ?l) ?r xs1 xs2" "sorted (slice xs2 (a + ?l) ?r)"
      using less.IH [OF lt(2), of "a + ?l" xs1] less.prems lt len1 by auto
    have len2: "length xs2 = length xs" using 2(2) len1 by (simp add: only_def)
    have l2: "sorted (slice xs2 a ?l)" using only_slice [OF 2(2), of a ?l] 1(3) by simp
    obtain ys where 3: "ms_merge a a ?l (a + ?l) ?r xs2 = Some ys" "only a (?l + ?r) xs2 ys"
      "slice ys a (?l + ?r) = mrg (slice xs2 a ?l) (slice xs2 (a + ?l) ?r)"
      using ms_merge_adjacent [of a ?l ?r xs2] less.prems lt len2 by auto
    have "mergesort_seq a n xs = Some ys" using False 1(1) 2(1) 3(1) by (subst mergesort_seq.simps) simp
    moreover have "only a n xs ys"
      using only_mono [OF 1(2), of a n] only_mono [OF 2(2), of a n] 3(2) lt(3) only_trans by (metis le_add1 le_refl add.assoc add_le_cancel_left lt(1) nat_less_le)
    moreover have "sorted (slice ys a n)" using 3(3) sorted_mrg [OF l2 2(3)] lt(3) by simp
    ultimately show ?thesis by blast
  qed
qed

section \<open>The graph\<close>

text \<open>A task is a leaf or has two children, which split its part and are its only predecessors.\<close>

definition ms_node :: "nat \<Rightarrow> rt \<Rightarrow> (tid \<Rightarrow> ms_tao) \<Rightarrow> tid \<Rightarrow> bool" where
  "ms_node lf r m u \<longleftrightarrow>
     (case ms_left (m u) of
        None \<Rightarrow> ms_n (m u) \<le> lf \<and> refcount (tasks r u) = 0 \<and> \<not> (\<exists>x. edge r x u)
      | Some a \<Rightarrow> \<exists>b. ms_right (m u) = Some b \<and> edge r a u \<and> edge r b u \<and> (\<forall>x. edge r x u \<longrightarrow> x = a \<or> x = b)
          \<and> refcount (tasks r u) = 2 \<and> ms_A (m a) = ms_A (m u) \<and> ms_A (m b) = ms_A (m u) + ms_n (m a)
          \<and> ms_n (m u) = ms_n (m a) + ms_n (m b))"

definition apart :: "(tid \<Rightarrow> ms_tao) \<Rightarrow> tid \<Rightarrow> tid \<Rightarrow> bool" where
  "apart m u v \<longleftrightarrow> ms_A (m u) + ms_n (m u) \<le> ms_A (m v) \<or> ms_A (m v) + ms_n (m v) \<le> ms_A (m u)"

definition ms_inside :: "(tid \<Rightarrow> ms_tao) \<Rightarrow> nat \<Rightarrow> nat \<Rightarrow> tid \<Rightarrow> bool" where
  "ms_inside m a n u \<longleftrightarrow> a \<le> ms_A (m u) \<and> ms_A (m u) + ms_n (m u) \<le> a + n"

definition edges_known :: "rt \<Rightarrow> bool" where
  "edges_known r \<longleftrightarrow> (\<forall>a b. edge r a b \<longrightarrow> b < next_task r)"

text \<open>What \<open>buildDAG\<close> makes: the tasks from \<open>t\<close> on are a tree with root \<open>t\<close>.\<close>

definition ms_tree :: "ms_conf \<Rightarrow> nat \<Rightarrow> nat \<Rightarrow> ms_state \<Rightarrow> tid \<Rightarrow> ms_state \<Rightarrow> bool" where
  "ms_tree c a n s t s' \<longleftrightarrow> t = next_task (mrt s) \<and> t < next_task (mrt s') \<and> ms_A (mmem s' t) = a \<and> ms_n (mmem s' t) = n
     \<and> (\<forall>u<t. out (tasks (mrt s') u) = out (tasks (mrt s) u) \<and> refcount (tasks (mrt s') u) = refcount (tasks (mrt s) u)
          \<and> mmem s' u = mmem s u)
     \<and> (\<forall>u. t \<le> u \<and> u < next_task (mrt s') \<longrightarrow> ms_node (leaf c) (mrt s') (mmem s') u \<and> ms_inside (mmem s') a n u
          \<and> (u \<noteq> t \<longrightarrow> ahead (mrt s') u t \<and> (\<exists>v\<ge>t. out (tasks (mrt s') u) = [v])))
     \<and> out (tasks (mrt s') t) = [] \<and> edges_known (mrt s')
     \<and> (\<forall>u v. t \<le> u \<and> u < next_task (mrt s') \<and> t \<le> v \<and> v < next_task (mrt s') \<and> u \<noteq> v
          \<and> \<not> ahead (mrt s') u v \<and> \<not> ahead (mrt s') v u \<longrightarrow> apart (mmem s') u v)
     \<and> (\<exists>ops. build (ms_rnd c) ops (mrt s) = Some (mrt s')) \<and> conf (mrt s') = conf (mrt s)
     \<and> (\<exists>ts. mpushed s' = mpushed s @ ts
          \<and> set ts = {u. t \<le> u \<and> u < next_task (mrt s') \<and> ms_left (mmem s' u) = None})"

lemma ms_treeD:
  assumes "ms_tree c a n s t s'"
  shows "t = next_task (mrt s)" "t < next_task (mrt s')" "ms_A (mmem s' t) = a" "ms_n (mmem s' t) = n"
    "u < t \<Longrightarrow> out (tasks (mrt s') u) = out (tasks (mrt s) u)" "u < t \<Longrightarrow> refcount (tasks (mrt s') u) = refcount (tasks (mrt s) u)"
    "u < t \<Longrightarrow> mmem s' u = mmem s u"
    "t \<le> u \<Longrightarrow> u < next_task (mrt s') \<Longrightarrow> ms_node (leaf c) (mrt s') (mmem s') u"
    "t \<le> u \<Longrightarrow> u < next_task (mrt s') \<Longrightarrow> ms_inside (mmem s') a n u"
    "t \<le> u \<Longrightarrow> u < next_task (mrt s') \<Longrightarrow> u \<noteq> t \<Longrightarrow> ahead (mrt s') u t"
    "t \<le> u \<Longrightarrow> u < next_task (mrt s') \<Longrightarrow> u \<noteq> t \<Longrightarrow> \<exists>v\<ge>t. out (tasks (mrt s') u) = [v]"
    "out (tasks (mrt s') t) = []" "edges_known (mrt s')"
    "t \<le> u \<Longrightarrow> u < next_task (mrt s') \<Longrightarrow> t \<le> v \<Longrightarrow> v < next_task (mrt s') \<Longrightarrow> u \<noteq> v \<Longrightarrow>
      \<not> ahead (mrt s') u v \<Longrightarrow> \<not> ahead (mrt s') v u \<Longrightarrow> apart (mmem s') u v"
    "conf (mrt s') = conf (mrt s)"
  using assms unfolding ms_tree_def by blast+

lemma new_ms_tao_sel:
  fixes s c a n offset
  defines "t \<equiv> next_task (mrt s)" and "s1 \<equiv> new_ms_tao c a n offset s"
  shows "next_task (mrt s1) = Suc t" "mmem s1 t = \<lparr>ms_left = None, ms_right = None, ms_n = n, ms_A = a\<rparr>"
    "u \<noteq> t \<Longrightarrow> mmem s1 u = mmem s u" "u \<noteq> t \<Longrightarrow> tasks (mrt s1) u = tasks (mrt s) u"
    "out (tasks (mrt s1) t) = []" "refcount (tasks (mrt s1) t) = 0" "mpushed s1 = mpushed s" "conf (mrt s1) = conf (mrt s)"
    "\<exists>ops. build (ms_rnd c) ops (mrt s) = Some (mrt s1)"
proof -
  let ?x = "ms_rnd c (ms_rnd c (real offset) / ms_rnd c (real (ms_N c)))"
  have "build (ms_rnd c) ([New_assembly (ms_type c) 1 0] @ (if use_workload_hint c then [Hint t (of_nat n)] else [])
      @ (if use_sta c then [Sta t ?x] else [])) (mrt s) = Some (mrt s1)"
    by (simp add: s1_def t_def new_ms_tao_def hint_length_def sta_offset_def AssemblyTask_def PolyTask_def XITAO_MAXTHREADS_def)
  then show "\<exists>ops. build (ms_rnd c) ops (mrt s) = Some (mrt s1)" by blast
qed (auto simp: s1_def t_def new_ms_tao_def hint_length_def sta_offset_def AssemblyTask_def PolyTask_def set_sta_def sta_to_queue_def count_new_task_def)

lemma ms_tree_leaf:
  assumes "n \<le> leaf c" and "edges_known (mrt s)"
  shows "ms_tree c a n s (next_task (mrt s)) (new_ms_tao c a n offset s\<lparr>mpushed := mpushed s @ [next_task (mrt s)]\<rparr>)"
proof -
  let ?t = "next_task (mrt s)" and ?s = "new_ms_tao c a n offset s"
  note n = new_ms_tao_sel [where s = s and c = c and a = a and n = n and offset = offset]
  have one: "?t \<le> u \<and> u < next_task (mrt ?s) \<longleftrightarrow> u = ?t" for u using n(1) by auto
  have e: "edge (mrt ?s) x y \<longleftrightarrow> edge (mrt s) x y" for x y
    using n(1,4,5) by (auto simp: edge_def less_Suc_eq)
  have "\<not> edge (mrt ?s) x ?t" for x using e assms(2) by (auto simp: edges_known_def)
  then have "ms_node (leaf c) (mrt ?s) (mmem ?s) ?t" using n(2,6) assms(1) by (simp add: ms_node_def)
  moreover have "edges_known (mrt ?s)" using assms(2) e n(1) by (fastforce simp: edges_known_def)
  moreover have "ms_inside (mmem ?s) a n ?t" using n(2) by (simp add: ms_inside_def)
  ultimately show ?thesis
    unfolding ms_tree_def
    using n(1,2,3,4,5,8,9) by (auto simp: less_Suc_eq)
qed

lemma link_ms_sel:
  assumes "a \<noteq> t"
  shows "next_task (mrt (link_left t a s)) = next_task (mrt s)" "next_task (mrt (link_right t a s)) = next_task (mrt s)"
    "mrt (link_left t a s) = make_edge a t (mrt s)" "mrt (link_right t a s) = make_edge a t (mrt s)"
    "mmem (link_left t a s) u = (if u = t then (mmem s t)\<lparr>ms_left := Some a\<rparr> else mmem s u)"
    "mmem (link_right t a s) u = (if u = t then (mmem s t)\<lparr>ms_right := Some a\<rparr> else mmem s u)"
    "mpushed (link_left t a s) = mpushed s" "mpushed (link_right t a s) = mpushed s"
  using assms by (simp_all add: link_left_def link_right_def make_edge_sel)

lemma ms_node_mono:
  assumes "ms_node lf r m u" and "\<And>x. edge r' x u \<longleftrightarrow> edge r x u" and "refcount (tasks r' u) = refcount (tasks r u)"
    and "ms_left (m' u) = ms_left (m u)" "ms_right (m' u) = ms_right (m u)"
    and "\<And>x. x = u \<or> edge r x u \<Longrightarrow> ms_A (m' x) = ms_A (m x) \<and> ms_n (m' x) = ms_n (m x)"
  shows "ms_node lf r' m' u"
  using assms(1,6) unfolding ms_node_def assms(2,3,4,5) by (auto split: option.splits)

lemma ms_tree_edge: "ms_tree c a n s t s' \<Longrightarrow> edge (mrt s) x y \<Longrightarrow> edge (mrt s') x y"
  using ms_treeD(1,2,5) [of c a n s t s'] by (auto simp: edge_def)

text \<open>An edge of the result is an old one or ends in the new tree.\<close>

lemma ms_tree_edge_back:
  assumes "ms_tree c a n s t s'" and "edge (mrt s') x y"
  shows "edge (mrt s) x y \<or> t \<le> y"
proof (cases "x < t")
  case True
  then show ?thesis using assms(2) ms_treeD(1,5) [OF assms(1)] by (simp add: edge_def)
next
  case False
  then show ?thesis using assms(2) ms_treeD(11) [OF assms(1), of x] ms_treeD(12) [OF assms(1)] by (cases "x = t") (auto simp: edge_def)
qed

text \<open>
  The situation after the two children \<open>l\<close> and \<open>b\<close> of a task \<open>t\<close> have been built, in the states
  \<open>s2\<close> and \<open>s4\<close>, and the facts about the state after the second link.
\<close>

definition ms_inner ::
    "ms_conf \<Rightarrow> nat \<Rightarrow> nat \<Rightarrow> nat \<Rightarrow> ms_state \<Rightarrow> ms_state \<Rightarrow> ms_state \<Rightarrow> tid \<Rightarrow> tid \<Rightarrow> tid \<Rightarrow> bool" where
  "ms_inner c a n offset s s2 s4 t l b \<longleftrightarrow> t = next_task (mrt s) \<and> edges_known (mrt s)
     \<and> ms_tree c a (n div 2) (new_ms_tao c a n offset s) l s2
     \<and> ms_tree c (a + n div 2) (n - n div 2) (link_left t l s2) b s4"

lemma inner_t: "ms_inner c a n offset s s2 s4 t l b \<Longrightarrow> t = next_task (mrt s)"
  unfolding ms_inner_def by blast

lemma inner_known: "ms_inner c a n offset s s2 s4 t l b \<Longrightarrow> edges_known (mrt s)"
  unfolding ms_inner_def by blast

lemma inner_A: "ms_inner c a n offset s s2 s4 t l b \<Longrightarrow> ms_tree c a (n div 2) (new_ms_tao c a n offset s) l s2"
  unfolding ms_inner_def by blast

lemma inner_B: "ms_inner c a n offset s s2 s4 t l b \<Longrightarrow> ms_tree c (a + n div 2) (n - n div 2) (link_left t l s2) b s4"
  unfolding ms_inner_def by blast

lemma inner_new:
  assumes H: "ms_inner c a n offset s s2 s4 t l b"
  defines "s1 \<equiv> new_ms_tao c a n offset s"
  shows "next_task (mrt s1) = Suc t" "mmem s1 t = \<lparr>ms_left = None, ms_right = None, ms_n = n, ms_A = a\<rparr>"
    "u \<noteq> t \<Longrightarrow> mmem s1 u = mmem s u" "u \<noteq> t \<Longrightarrow> tasks (mrt s1) u = tasks (mrt s) u"
    "out (tasks (mrt s1) t) = []" "refcount (tasks (mrt s1) t) = 0" "mpushed s1 = mpushed s" "conf (mrt s1) = conf (mrt s)"
    "\<exists>ops. build (ms_rnd c) ops (mrt s) = Some (mrt s1)"
  using new_ms_tao_sel [where s = s and c = c and a = a and n = n and offset = offset] inner_t [OF H] by (auto simp: s1_def)

lemma ahead_grows: "(\<And>x y. edge r x y \<Longrightarrow> edge r' x y) \<Longrightarrow> ahead r x y \<Longrightarrow> ahead r' x y"
  by (erule tranclp_induct) (auto intro: tranclp.trancl_into_trancl)

lemma inner_l:
  assumes H: "ms_inner c a n offset s s2 s4 t l b"
  shows "l = Suc t" "t < l" "l \<noteq> t"
  using ms_treeD(1) [OF inner_A [OF H]] inner_new(1) [OF H] by auto

lemma inner_b:
  assumes H: "ms_inner c a n offset s s2 s4 t l b"
  shows "b = next_task (mrt s2)" "l < b" "t < b" "b \<noteq> t" "b \<noteq> l" "b < next_task (mrt s4)"
  using ms_treeD(1,2) [OF inner_B [OF H]] ms_treeD(2) [OF inner_A [OF H]] inner_l [OF H] link_ms_sel(1) [OF inner_l(3) [OF H]] by auto

lemma inner_fields:
  assumes H: "ms_inner c a n offset s s2 s4 t l b"
  shows "ms_A (mmem (link_right t b s4) x) = ms_A (mmem s4 x)" "ms_n (mmem (link_right t b s4) x) = ms_n (mmem s4 x)"
  "x < b \<Longrightarrow> ms_A (mmem s4 x) = ms_A (mmem s2 x)" "x < b \<Longrightarrow> ms_n (mmem s4 x) = ms_n (mmem s2 x)"
  "x \<noteq> t \<Longrightarrow> mmem (link_right t b s4) x = mmem s4 x" "x \<noteq> t \<Longrightarrow> x < b \<Longrightarrow> mmem s4 x = mmem s2 x"
  "ms_A (mmem (link_right t b s4) t) = a" "ms_n (mmem (link_right t b s4) t) = n" "ms_left (mmem (link_right t b s4) t) = Some l" "ms_right (mmem (link_right t b s4) t) = Some b"
  using link_ms_sel(6) [OF inner_b(4) [OF H], of s4 x] link_ms_sel(6) [OF inner_b(4) [OF H], of s4 t] ms_treeD(7) [OF inner_B [OF H], of x] ms_treeD(7) [OF inner_B [OF H] inner_b(3) [OF H]] link_ms_sel(5) [OF inner_l(3) [OF H], of s2 x] link_ms_sel(5) [OF inner_l(3) [OF H], of s2 t] ms_treeD(7) [OF inner_A [OF H] inner_l(2) [OF H]] inner_new(2) [OF H] by auto

lemma inner_edges:
  assumes H: "ms_inner c a n offset s s2 s4 t l b"
  shows "edge (mrt (link_right t b s4)) x y \<longleftrightarrow> edge (mrt s4) x y \<or> x = b \<and> y = t"
  "edge (mrt (link_left t l s2)) x y \<longleftrightarrow> edge (mrt s2) x y \<or> x = l \<and> y = t"
  using edge_make_edge [OF inner_b(6,4) [OF H], of x y] edge_make_edge [OF ms_treeD(2) [OF inner_A [OF H]] inner_l(3) [OF H], of x y] by (simp_all add: link_ms_sel(4) [OF inner_b(4) [OF H]] link_ms_sel(3) [OF inner_l(3) [OF H]])

lemma inner_into_left:
  assumes H: "ms_inner c a n offset s s2 s4 t l b"
  shows "u < b \<Longrightarrow> u \<noteq> t \<Longrightarrow> edge (mrt (link_right t b s4)) x u \<longleftrightarrow> edge (mrt s2) x u"
  using ms_tree_edge_back [OF inner_B [OF H], of x u] ms_tree_edge [OF inner_B [OF H], of x u] inner_edges [OF H] by auto

lemma inner_into_right:
  assumes H: "ms_inner c a n offset s s2 s4 t l b"
  shows "b \<le> u \<Longrightarrow> edge (mrt (link_right t b s4)) x u \<longleftrightarrow> edge (mrt s4) x u"
  using inner_edges [OF H] inner_b(3) [OF H] by auto

lemma inner_into_root:
  assumes H: "ms_inner c a n offset s s2 s4 t l b"
  shows "edge (mrt (link_right t b s4)) x t \<longleftrightarrow> x = l \<or> x = b"
proof
  assume e: "edge (mrt (link_right t b s4)) x t"
  have old: "\<not> edge (mrt s2) x t"
  proof
    assume "edge (mrt s2) x t"
    from ms_tree_edge_back [OF inner_A [OF H] this] have "edge (mrt (new_ms_tao c a n offset s)) x t" using inner_l [OF H] by auto
    then have "edge (mrt s) x t" using inner_new(1,4,5) [OF H] inner_t [OF H] by (auto simp: edge_def less_Suc_eq)
    then show False using inner_known [OF H] inner_t [OF H] by (auto simp: edges_known_def)
  qed
  from e inner_edges [OF H] have "edge (mrt s4) x t \<or> x = b" by auto
  with ms_tree_edge_back [OF inner_B [OF H], of x t] inner_edges [OF H] inner_b(3) [OF H] old show "x = l \<or> x = b" by auto
next
  assume "x = l \<or> x = b"
  then show "edge (mrt (link_right t b s4)) x t" using inner_edges [OF H] ms_tree_edge [OF inner_B [OF H], of l t] by auto
qed

lemma inner_keeps:
  assumes H: "ms_inner c a n offset s s2 s4 t l b"
  shows "edge (mrt s2) x y \<Longrightarrow> edge (mrt (link_right t b s4)) x y" "edge (mrt s4) x y \<Longrightarrow> edge (mrt (link_right t b s4)) x y"
  using inner_edges [OF H] ms_tree_edge [OF inner_B [OF H], of x y] by auto

lemma inner_ahead_mono:
  assumes H: "ms_inner c a n offset s s2 s4 t l b"
  shows "ahead (mrt s2) x y \<Longrightarrow> ahead (mrt (link_right t b s4)) x y" "ahead (mrt s4) x y \<Longrightarrow> ahead (mrt (link_right t b s4)) x y"
  using ahead_grows [of "mrt s2" "mrt (link_right t b s4)"] ahead_grows [of "mrt s4" "mrt (link_right t b s4)"] inner_keeps [OF H] by blast+

lemma inner_cases:
  assumes H: "ms_inner c a n offset s s2 s4 t l b" and "t \<le> u" and "u < next_task (mrt (link_right t b s4))"
  obtains "u = t" | "l \<le> u" "u < b" "u \<noteq> t" "u < next_task (mrt s2)" | "b \<le> u" "u \<noteq> t" "u < next_task (mrt s4)"
  using assms inner_l [OF H] inner_b [OF H] link_ms_sel(2) [OF inner_b(4) [OF H]] that by (cases "u = t"; cases "u < b") auto

lemma inner_refs:
  assumes H: "ms_inner c a n offset s s2 s4 t l b"
  shows "u < b \<Longrightarrow> u \<noteq> t \<Longrightarrow> refcount (tasks (mrt (link_right t b s4)) u) = refcount (tasks (mrt s2) u)"
  "u \<noteq> t \<Longrightarrow> refcount (tasks (mrt (link_right t b s4)) u) = refcount (tasks (mrt s4) u)" "refcount (tasks (mrt (link_right t b s4)) t) = 2"
  using inner_new(6) [OF H] ms_treeD(6) [OF inner_A [OF H] inner_l(2) [OF H]] ms_treeD(6) [OF inner_B [OF H], of u] ms_treeD(6) [OF inner_B [OF H] inner_b(3) [OF H]] by (simp_all add: link_ms_sel(4) [OF inner_b(4) [OF H]] link_ms_sel(3) [OF inner_l(3) [OF H]] make_edge_sel(3) [OF inner_l(3) [OF H]] make_edge_sel(3) [OF inner_b(4) [OF H]])

lemma inner_outs:
  assumes H: "ms_inner c a n offset s s2 s4 t l b"
  shows "u < b \<Longrightarrow> u \<noteq> l \<Longrightarrow> out (tasks (mrt (link_right t b s4)) u) = out (tasks (mrt s2) u)" "out (tasks (mrt (link_right t b s4)) l) = [t]"
  "u \<noteq> b \<Longrightarrow> out (tasks (mrt (link_right t b s4)) u) = out (tasks (mrt s4) u)" "out (tasks (mrt (link_right t b s4)) b) = [t]" "out (tasks (mrt (link_right t b s4)) t) = []"
  using inner_new(5) [OF H] ms_treeD(5) [OF inner_A [OF H] inner_l(2) [OF H]] ms_treeD(12) [OF inner_A [OF H]] ms_treeD(5) [OF inner_B [OF H], of u] ms_treeD(5) [OF inner_B [OF H] inner_b(3) [OF H]] ms_treeD(5) [OF inner_B [OF H] inner_b(2) [OF H]] ms_treeD(12) [OF inner_B [OF H]] inner_l(2,3) [OF H] inner_b(4,5) [OF H]
  by (simp_all add: link_ms_sel(4) [OF inner_b(4) [OF H]] link_ms_sel(3) [OF inner_l(3) [OF H]] make_edge_sel(2) [OF inner_l(3) [OF H]] make_edge_sel(2) [OF inner_b(4) [OF H]])

lemma inner_node:
  assumes H: "ms_inner c a n offset s s2 s4 t l b" and "t \<le> u" and "u < next_task (mrt (link_right t b s4))"
  shows "ms_node (leaf c) (mrt (link_right t b s4)) (mmem (link_right t b s4)) u"
  using assms
proof (cases rule: inner_cases)
  case 1
  have "ms_n (mmem (link_right t b s4) l) = n div 2" "ms_A (mmem (link_right t b s4) l) = a" "ms_n (mmem (link_right t b s4) b) = n - n div 2" "ms_A (mmem (link_right t b s4) b) = a + n div 2"
    using inner_fields(1-4) [OF H, of l] inner_fields(1-2) [OF H, of b] ms_treeD(3,4) [OF inner_A [OF H]] ms_treeD(3,4) [OF inner_B [OF H]] inner_b(2) [OF H] by simp_all
  then show ?thesis using 1 inner_into_root [OF H] inner_refs(3) [OF H] inner_fields(7-10) [OF H] by (auto simp: ms_node_def)
next
  case 2
  show ?thesis
  proof (rule ms_node_mono [OF ms_treeD(8) [OF inner_A [OF H] 2(1,4)] inner_into_left [OF H 2(2,3)] inner_refs(1) [OF H 2(2,3)]])
    fix x assume "x = u \<or> edge (mrt s2) x u"
    then have "x < b" using 2(2) inner_b(1) [OF H] by (auto simp: edge_def)
    then show "ms_A (mmem (link_right t b s4) x) = ms_A (mmem s2 x) \<and> ms_n (mmem (link_right t b s4) x) = ms_n (mmem s2 x)" using inner_fields [OF H] by simp
  qed (use inner_fields(5,6) [OF H] 2 in simp_all)
next
  case 3
  show ?thesis
    by (rule ms_node_mono [OF ms_treeD(8) [OF inner_B [OF H] 3(1,3)] inner_into_right [OF H 3(1)] inner_refs(2) [OF H 3(2)]]) (use inner_fields [OF H] 3 in simp_all)
qed

lemma inner_inside:
  assumes H: "ms_inner c a n offset s s2 s4 t l b" and "t \<le> u" and "u < next_task (mrt (link_right t b s4))"
  shows "ms_inside (mmem (link_right t b s4)) a n u"
  using assms
proof (cases rule: inner_cases)
  case 1
  then show ?thesis using inner_fields(7,8) [OF H] by (simp add: ms_inside_def)
next
  case 2
  then show ?thesis using ms_treeD(9) [OF inner_A [OF H] 2(1,4)] inner_fields(1-4) [OF H, of u] by (auto simp: ms_inside_def)
next
  case 3
  then show ?thesis using ms_treeD(9) [OF inner_B [OF H] 3(1,3)] inner_fields(1,2) [OF H, of u] by (auto simp: ms_inside_def)
qed

lemma inner_ahead:
  assumes H: "ms_inner c a n offset s s2 s4 t l b" and "t \<le> u" and "u < next_task (mrt (link_right t b s4))" and "u \<noteq> t"
  shows "ahead (mrt (link_right t b s4)) u t \<and> (\<exists>v\<ge>t. out (tasks (mrt (link_right t b s4)) u) = [v])"
  using assms(1,2,3)
proof (cases rule: inner_cases)
  case 2
  show ?thesis
  proof (cases "u = l")
    case True
    then show ?thesis using inner_into_root [OF H] inner_outs(2) [OF H] by auto
  next
    case False
    then have "ahead (mrt (link_right t b s4)) u l" using ms_treeD(10) [OF inner_A [OF H] 2(1,4)] inner_ahead_mono(1) [OF H] by simp
    moreover have "edge (mrt (link_right t b s4)) l t" using inner_into_root [OF H] by simp
    ultimately have "ahead (mrt (link_right t b s4)) u t" by (rule tranclp.trancl_into_trancl)
    moreover obtain v where "l \<le> v" "out (tasks (mrt s2) u) = [v]" using ms_treeD(11) [OF inner_A [OF H] 2(1,4) False] by blast
    ultimately show ?thesis using inner_outs(1) [OF H 2(2) False] inner_l [OF H] by (intro conjI exI [of _ v]) auto
  qed
next
  case 3
  show ?thesis
  proof (cases "u = b")
    case True
    then show ?thesis using inner_into_root [OF H] inner_outs(4) [OF H] by auto
  next
    case False
    then have "ahead (mrt (link_right t b s4)) u b" using ms_treeD(10) [OF inner_B [OF H] 3(1,3)] inner_ahead_mono(2) [OF H] by simp
    moreover have "edge (mrt (link_right t b s4)) b t" using inner_into_root [OF H] by simp
    ultimately have "ahead (mrt (link_right t b s4)) u t" by (rule tranclp.trancl_into_trancl)
    moreover obtain v where "b \<le> v" "out (tasks (mrt s4) u) = [v]" using ms_treeD(11) [OF inner_B [OF H] 3(1,3) False] by blast
    ultimately show ?thesis using inner_outs(3) [OF H False] inner_b [OF H] by (intro conjI exI [of _ v]) auto
  qed
qed (use assms(4) in simp)

lemma apart_fields: "ms_A (m' u) = ms_A (m u) \<Longrightarrow> ms_n (m' u) = ms_n (m u) \<Longrightarrow> ms_A (m' v) = ms_A (m v) \<Longrightarrow> ms_n (m' v) = ms_n (m v)
    \<Longrightarrow> apart m u v \<Longrightarrow> apart m' u v"
  by (simp add: apart_def)

lemma inner_apart:
  assumes H: "ms_inner c a n offset s s2 s4 t l b" and u: "t \<le> u" "u < next_task (mrt (link_right t b s4))" and v: "t \<le> v" "v < next_task (mrt (link_right t b s4))" and "u \<noteq> v"
    and un: "\<not> ahead (mrt (link_right t b s4)) u v" "\<not> ahead (mrt (link_right t b s4)) v u"
  shows "apart (mmem (link_right t b s4)) u v"
proof -
  have nt: "u \<noteq> t" "v \<noteq> t" using inner_ahead [OF H u] inner_ahead [OF H v] un assms(6) by auto
  have left: "ms_A (mmem (link_right t b s4) x) + ms_n (mmem (link_right t b s4) x) \<le> a + n div 2" if "l \<le> x" "x < b" for x
    using ms_treeD(9) [OF inner_A [OF H] that(1)] that inner_b(1) [OF H] inner_fields(1-4) [OF H, of x] by (simp add: ms_inside_def)
  have right: "a + n div 2 \<le> ms_A (mmem (link_right t b s4) x)" if "b \<le> x" "x < next_task (mrt s4)" for x
    using ms_treeD(9) [OF inner_B [OF H] that] inner_fields(1) [OF H, of x] by (simp add: ms_inside_def)
  from H u show ?thesis
  proof (cases rule: inner_cases)
    case U: 2
    from H v show ?thesis
    proof (cases rule: inner_cases)
      case V: 2
      have "apart (mmem s2) u v" using ms_treeD(14) [OF inner_A [OF H] U(1,4) V(1,4) assms(6)] un inner_ahead_mono(1) [OF H] by blast
      then show ?thesis by (rule apart_fields [rotated 4]) (use inner_fields(1-4) [OF H] U V in simp_all)
    next
      case V: 3
      then show ?thesis using left [OF U(1,2)] right [OF V(1,3)] by (auto simp: apart_def)
    qed (use nt in simp)
  next
    case U: 3
    from H v show ?thesis
    proof (cases rule: inner_cases)
      case V: 2
      then show ?thesis using left [OF V(1,2)] right [OF U(1,3)] by (auto simp: apart_def)
    next
      case V: 3
      have "apart (mmem s4) u v" using ms_treeD(14) [OF inner_B [OF H] U(1,3) V(1,3) assms(6)] un inner_ahead_mono(2) [OF H] by blast
      then show ?thesis by (rule apart_fields [rotated 4]) (use inner_fields(1,2) [OF H] in simp_all)
    qed (use nt in simp)
  qed (use nt in simp)
qed

lemma inner_pushed:
  assumes H: "ms_inner c a n offset s s2 s4 t l b"
  shows "\<exists>ts. mpushed (link_right t b s4) = mpushed s @ ts
    \<and> set ts = {u. t \<le> u \<and> u < next_task (mrt (link_right t b s4)) \<and> ms_left (mmem (link_right t b s4) u) = None}"
proof -
  obtain ts1 ts2 where ts: "mpushed s2 = mpushed s @ ts1" "set ts1 = {u. l \<le> u \<and> u < next_task (mrt s2) \<and> ms_left (mmem s2 u) = None}"
    "mpushed s4 = mpushed s2 @ ts2" "set ts2 = {u. b \<le> u \<and> u < next_task (mrt s4) \<and> ms_left (mmem s4 u) = None}"
    using inner_A [OF H] inner_B [OF H] unfolding ms_tree_def inner_new(7) [OF H] link_ms_sel(7) [OF inner_l(3) [OF H]] by blast
  have "u \<in> set (ts1 @ ts2) \<longleftrightarrow> t \<le> u \<and> u < next_task (mrt (link_right t b s4)) \<and> ms_left (mmem (link_right t b s4) u) = None" for u
  proof (cases "t \<le> u \<and> u < next_task (mrt (link_right t b s4))")
    case True
    then have "t \<le> u" "u < next_task (mrt (link_right t b s4))" by auto
    with H show ?thesis by (cases rule: inner_cases) (use ts(2,4) inner_fields(5,6,9) [OF H] inner_l(2) [OF H] inner_b(1,3,6) [OF H] link_ms_sel(2) [OF inner_b(4) [OF H]] in auto)
  next
    case False
    then show ?thesis using ts(2,4) inner_l(2) [OF H] inner_b(1,3,6) [OF H] link_ms_sel(2) [OF inner_b(4) [OF H]] by auto
  qed
  then show ?thesis using ts(1,3) link_ms_sel(8) [OF inner_b(4) [OF H]] by (intro exI [of _ "ts1 @ ts2"]) auto
qed

lemma inner_tree:
  assumes H: "ms_inner c a n offset s s2 s4 t l b"
  shows "ms_tree c a n s t (link_right t b s4)"
proof -
  have "edges_known (mrt (link_right t b s4))" using ms_treeD(13) [OF inner_B [OF H]] inner_edges [OF H] inner_b(3,6) [OF H] link_ms_sel(2) [OF inner_b(4) [OF H]] by (auto simp: edges_known_def)
  moreover obtain ops0 ops1 ops2 where "build (ms_rnd c) ops0 (mrt s) = Some (mrt (new_ms_tao c a n offset s))"
    "build (ms_rnd c) ops1 (mrt (new_ms_tao c a n offset s)) = Some (mrt s2)"
    "build (ms_rnd c) ops2 (mrt (link_left t l s2)) = Some (mrt s4)" using inner_new(9) [OF H] inner_A [OF H] inner_B [OF H] unfolding ms_tree_def by blast
  then have "build (ms_rnd c) (ops0 @ ops1 @ [Edge l t] @ ops2 @ [Edge b t]) (mrt s) = Some (mrt (link_right t b s4))"
    unfolding build_append using ms_treeD(2) [OF inner_A [OF H]] inner_b(3,6) [OF H] inner_l(2) [OF H] by (simp add: link_ms_sel(3) [OF inner_l(3) [OF H]] link_ms_sel(4) [OF inner_b(4) [OF H]])
  then have "\<exists>ops. build (ms_rnd c) ops (mrt s) = Some (mrt (link_right t b s4))" by blast
  moreover have "conf (mrt (link_right t b s4)) = conf (mrt s)" using inner_new(8) [OF H] ms_treeD(15) [OF inner_A [OF H]] ms_treeD(15) [OF inner_B [OF H]] by (simp add: link_ms_sel(4) [OF inner_b(4) [OF H]] link_ms_sel(3) [OF inner_l(3) [OF H]] make_edge_sel(5) [OF inner_l(3) [OF H]] make_edge_sel(5) [OF inner_b(4) [OF H]])
  moreover have "out (tasks (mrt (link_right t b s4)) u) = out (tasks (mrt s) u) \<and> refcount (tasks (mrt (link_right t b s4)) u) = refcount (tasks (mrt s) u)
      \<and> mmem (link_right t b s4) u = mmem s u" if "u < t" for u
  proof -
    have "u < l" "u < b" "u \<noteq> t" "u \<noteq> l" using that inner_l(2) [OF H] inner_b(3) [OF H] by auto
    then show ?thesis using inner_outs(1) [OF H, of u] inner_refs(1) [OF H, of u] inner_fields(5,6) [OF H, of u] ms_treeD(5,6,7) [OF inner_A [OF H], of u] inner_new(3,4) [OF H, of u] by simp
  qed
  moreover have "t < next_task (mrt (link_right t b s4))" using inner_b(3,6) [OF H] link_ms_sel(2) [OF inner_b(4) [OF H]] by simp
  ultimately show ?thesis
    unfolding ms_tree_def using inner_node [OF H] inner_inside [OF H] inner_ahead [OF H] inner_apart [OF H] inner_pushed [OF H] inner_outs(5) [OF H] inner_fields(7,8) [OF H] inner_t [OF H] by blast
qed

text \<open>With a leaf size of at least 1 \<open>buildDAG\<close> returns the tree; with 0 it only returns for an empty part.\<close>

lemma ms_buildDAG_tree:
  assumes "1 \<le> leaf c" and "edges_known (mrt s)"
  shows "\<exists>t s'. ms_buildDAG c a n offset s = Some (t, s') \<and> ms_tree c a n s t s'"
  using assms(2)
proof (induction n arbitrary: a offset s rule: less_induct)
  case (less n)
  let ?t = "next_task (mrt s)" and ?s1 = "new_ms_tao c a n offset s"
  note new = new_ms_tao_sel [where s = s and c = c and a = a and n = n and offset = offset]
  show ?case
  proof (cases "n \<le> leaf c")
    case True
    then have "ms_buildDAG c a n offset s = Some (?t, ?s1\<lparr>mpushed := mpushed s @ [?t]\<rparr>)"
      using new(7) by (subst ms_buildDAG.simps) (simp add: Let_def)
    with ms_tree_leaf [OF True less.prems] show ?thesis by blast
  next
    case False
    then have lt: "n div 2 < n" "n - n div 2 < n" using assms(1) by auto
    have "edge (mrt ?s1) x y \<longleftrightarrow> edge (mrt s) x y" for x y using new(1,4,5) by (auto simp: edge_def less_Suc_eq)
    then have "edges_known (mrt ?s1)" using less.prems new(1) by (fastforce simp: edges_known_def)
    from less.IH [OF lt(1) this] obtain l s2 where A: "ms_buildDAG c a (n div 2) offset ?s1 = Some (l, s2)"
      "ms_tree c a (n div 2) ?s1 l s2" by blast
    have l: "l \<noteq> ?t" "?t < next_task (mrt s2)" "l < next_task (mrt s2)" using ms_treeD(1,2) [OF A(2)] new(1) by auto
    have "edges_known (mrt (link_left ?t l s2))"
      using ms_treeD(13) [OF A(2)] edge_make_edge [OF l(3,1)] l(2) link_ms_sel(1,3) [OF l(1)]
      by (auto simp: edges_known_def make_edge_sel)
    from less.IH [OF lt(2) this] obtain b s4 where
      B: "ms_buildDAG c (a + n div 2) (n - n div 2) (offset + n div 2) (link_left ?t l s2) = Some (b, s4)"
      "ms_tree c (a + n div 2) (n - n div 2) (link_left ?t l s2) b s4" by blast
    have "ms_buildDAG c a n offset s = Some (?t, link_right ?t b s4)"
      using False A(1) B(1) by (subst ms_buildDAG.simps) (simp add: Let_def)
    moreover have "ms_inner c a n offset s s2 s4 ?t l b" using less.prems A(2) B(2) by (simp add: ms_inner_def)
    ultimately show ?thesis using inner_tree by blast
  qed
qed

lemma ms_buildDAG_loops:
  assumes "leaf c = 0" and "ms_buildDAG c a n offset s = Some y"
  shows "n = 0"
proof -
  have "leaf c = 0 \<longrightarrow> n = 0"
  proof (rule ms_buildDAG.raw_induct [OF _ assms(2), where P = "\<lambda>c a n offset s y. leaf c = 0 \<longrightarrow> n = 0"], intro impI)
    fix f c a n offset s y
    assume IH: "\<And>c a n offset s y. f c a n offset s = Some y \<Longrightarrow> leaf c = 0 \<longrightarrow> n = 0"
      and y: "(let t = next_task (mrt s); s1 = new_ms_tao c a n offset s in
        if n \<le> leaf c then Some (t, s1\<lparr>mpushed := mpushed s1 @ [t]\<rparr>)
        else Option.bind (f c a (n div 2) offset s1) (\<lambda>x.
             Option.bind (f c (a + n div 2) (n - n div 2) (offset + n div 2) (link_left t (fst x) (snd x))) (\<lambda>y.
               Some (t, link_right t (fst y) (snd y))))) = Some y"
      and lf: "leaf c = 0"
    show "n = 0"
    proof (rule ccontr)
      assume n: "n \<noteq> 0"
      with y lf obtain x z where "f c (a + n div 2) (n - n div 2) (offset + n div 2) x = Some z"
        by (auto simp: Let_def bind_eq_Some)
      from IH [OF this] lf have "n - n div 2 = 0" by simp
      with n show False by simp
    qed
  qed
  with assms(1) show ?thesis by simp
qed

section \<open>The data\<close>

text \<open>The graph of a whole array of length \<open>k\<close>.\<close>

definition ms_shape :: "nat \<Rightarrow> rt \<Rightarrow> (tid \<Rightarrow> ms_tao) \<Rightarrow> nat \<Rightarrow> bool" where
  "ms_shape lf r m k \<longleftrightarrow> (\<forall>u<next_task r. ms_node lf r m u \<and> ms_inside m 0 k u)
     \<and> (\<forall>a u v. edge r a u \<and> edge r a v \<longrightarrow> u = v)
     \<and> (\<forall>u<next_task r. \<forall>v<next_task r. u \<noteq> v \<and> \<not> ahead r u v \<and> \<not> ahead r v u \<longrightarrow> apart m u v)"

definition ms_part :: "(tid \<Rightarrow> ms_tao) \<Rightarrow> tid \<Rightarrow> arr \<Rightarrow> arr" where
  "ms_part m t xs = slice xs (ms_A (m t)) (ms_n (m t))"

definition ms_data :: "nat \<Rightarrow> rt \<Rightarrow> (tid \<Rightarrow> ms_tao) \<Rightarrow> arr \<Rightarrow> ms_mem \<Rightarrow> bool" where
  "ms_data lf r m0 xs m \<longleftrightarrow> ms_shape lf r m0 (length xs) \<and> mtaos m = m0 \<and> length (marr m) = length xs \<and> mset (marr m) = mset xs"

definition ms_sorted :: "nat \<Rightarrow> rt \<Rightarrow> (tid \<Rightarrow> ms_tao) \<Rightarrow> arr \<Rightarrow> tid \<Rightarrow> ms_mem \<Rightarrow> bool" where
  "ms_sorted lf r m0 xs t m \<longleftrightarrow> ms_data lf r m0 xs m \<and> sorted (ms_part m0 t (marr m))"

text \<open>Before the leader has executed a task its predecessors' parts are sorted, then its own is.\<close>

definition ms_share :: "nat \<Rightarrow> rt \<Rightarrow> (tid \<Rightarrow> ms_tao) \<Rightarrow> arr \<Rightarrow> tid \<Rightarrow> place \<Rightarrow> nat set \<Rightarrow> ms_mem \<Rightarrow> bool" where
  "ms_share lf r m0 xs t p D m \<longleftrightarrow> ms_data lf r m0 xs m
     \<and> (if nat (fst p) \<in> D then sorted (ms_part m0 t (marr m)) else \<forall>a. edge r a t \<longrightarrow> sorted (ms_part m0 a (marr m)))"

definition ms_uses :: "nat \<Rightarrow> rt \<Rightarrow> (tid \<Rightarrow> ms_tao) \<Rightarrow> arr \<Rightarrow> tid \<Rightarrow> tid \<Rightarrow> bool" where
  "ms_uses lf r m0 xs a u \<longleftrightarrow> ms_shape lf r m0 (length xs) \<and> ahead r a u"

text \<open>The effect of a body, and that the leader never fails and leaves its part sorted.\<close>

lemma ms_execute_leader:
  assumes d: "ms_data lf r m0 xs m" and t: "t < next_task r" and p: "int n = fst p"
  shows "\<exists>ys. (\<forall>f. ms_execute f t p n m = Some (m\<lparr>marr := ys\<rparr>) \<or> ms_execute f t p n m = None)
    \<and> ms_execute (\<lambda>_. False) t p n m = Some (m\<lparr>marr := ys\<rparr>) \<and> only (ms_A (m0 t)) (ms_n (m0 t)) (marr m) ys
    \<and> ((\<forall>a. edge r a t \<longrightarrow> sorted (ms_part m0 a (marr m))) \<longrightarrow> sorted (ms_part m0 t ys))"
proof -
  have node: "ms_node lf r m0 t" and ins: "ms_A (m0 t) + ms_n (m0 t) \<le> length (marr m)" and m0: "mtaos m = m0"
    using d t by (auto simp: ms_data_def ms_shape_def ms_inside_def)
  show ?thesis
  proof (cases "ms_left (m0 t)")
    case None
    from mergesort_seq_sorts [OF ins] obtain ys where ys: "mergesort_seq (ms_A (m0 t)) (ms_n (m0 t)) (marr m) = Some ys"
      "only (ms_A (m0 t)) (ms_n (m0 t)) (marr m) ys" "sorted (slice ys (ms_A (m0 t)) (ms_n (m0 t)))" by blast
    show ?thesis
    proof (cases "ms_n (m0 t) > 1")
      case True
      then show ?thesis using ys p m0 None by (intro exI [of _ ys]) (auto simp: ms_execute_def ms_part_def)
    next
      case False
      then have "ys = marr m" using ys(1) by (subst (asm) mergesort_seq.simps) simp
      then show ?thesis using False ys p m0 None by (intro exI [of _ ys]) (auto simp: ms_execute_def ms_part_def)
    qed
  next
    case (Some a)
    with node obtain b where b: "ms_right (m0 t) = Some b" "edge r a t" "edge r b t" "ms_A (m0 a) = ms_A (m0 t)"
      "ms_A (m0 b) = ms_A (m0 t) + ms_n (m0 a)" "ms_n (m0 t) = ms_n (m0 a) + ms_n (m0 b)" by (auto simp: ms_node_def)
    have "ms_A (m0 t) + ms_n (m0 a) + ms_n (m0 b) \<le> length (marr m)" using ins b(6) by simp
    from ms_merge_adjacent [OF this] obtain ys where
      ys: "ms_merge (ms_A (m0 t)) (ms_A (m0 t)) (ms_n (m0 a)) (ms_A (m0 t) + ms_n (m0 a)) (ms_n (m0 b)) (marr m) = Some ys"
      "only (ms_A (m0 t)) (ms_n (m0 a) + ms_n (m0 b)) (marr m) ys"
      "slice ys (ms_A (m0 t)) (ms_n (m0 a) + ms_n (m0 b)) = mrg (ms_part m0 a (marr m)) (ms_part m0 b (marr m))"
      unfolding ms_part_def b(4,5) by blast
    have "sorted (ms_part m0 t ys)" if "\<forall>a. edge r a t \<longrightarrow> sorted (ms_part m0 a (marr m))"
      using that b(2,3) sorted_mrg ys(3) unfolding ms_part_def [of m0 t] b(6) by simp
    then show ?thesis using ys(1,2) b p m0 Some by (intro exI [of _ ys]) (auto simp: ms_execute_def)
  qed
qed

lemma ms_execute_effect:
  assumes "ms_execute f t p n m = Some m'" and "ms_data lf r m0 xs m" and "t < next_task r"
  shows "only (ms_A (m0 t)) (ms_n (m0 t)) (marr m) (marr m')" "ms_data lf r m0 xs m'"
proof -
  have "only (ms_A (m0 t)) (ms_n (m0 t)) (marr m) (marr m') \<and> mtaos m' = mtaos m"
  proof (cases "int n = fst p")
    case True
    from ms_execute_leader [OF assms(2,3) this] obtain ys where
      "ms_execute f t p n m = Some (m\<lparr>marr := ys\<rparr>) \<or> ms_execute f t p n m = None" "only (ms_A (m0 t)) (ms_n (m0 t)) (marr m) ys" by blast
    with assms(1) show ?thesis by auto
  next
    case False
    then show ?thesis using assms(1) by (simp add: ms_execute_def)
  qed
  then show "only (ms_A (m0 t)) (ms_n (m0 t)) (marr m) (marr m')" "ms_data lf r m0 xs m'"
    using assms(2) by (auto simp: ms_data_def only_def)
qed

text \<open>A task leaves the parts of tasks it is not ordered with alone.\<close>

lemma ms_execute_other:
  assumes "ms_execute f u p n m = Some m'" and "ms_data lf r m0 xs m" and "u < next_task r" "t < next_task r" and "u \<noteq> t"
    and "\<not> ahead r t u" "\<not> ahead r u t"
  shows "ms_part m0 t (marr m') = ms_part m0 t (marr m)"
proof -
  have "apart m0 t u" using assms(2-) unfolding ms_data_def ms_shape_def by blast
  then show ?thesis using only_slice [OF ms_execute_effect(1) [OF assms(1-3)]] by (auto simp: apart_def ms_part_def)
qed

text \<open>What the shape says of the order: a task has one successor.\<close>

lemma ms_one_successor:
  assumes "ms_shape lf r m k" and "edge r a t" and "ahead r a u"
  shows "u = t \<or> ahead r t u"
proof -
  have one: "v = t" if "edge r a v" for v using that assms(1,2) unfolding ms_shape_def by blast
  from tranclpD [OF assms(3)] one have "(edge r)\<^sup>*\<^sup>* t u" by auto
  then show ?thesis by (auto dest: rtranclpD)
qed

text \<open>The predecessors of a task are not ordered with a task that is not ordered with it.\<close>

lemma ms_pred_apart:
  assumes "ms_shape lf r m k" and "edge r a t" and "u \<noteq> t" "\<not> ahead r t u" "\<not> ahead r u t"
  shows "u \<noteq> a" "\<not> ahead r a u" "\<not> ahead r u a" "a < next_task r"
proof -
  show "u \<noteq> a" using assms(2,5) by auto
  show "\<not> ahead r a u" using ms_one_successor [OF assms(1,2)] assms(3,4) by blast
  show "\<not> ahead r u a" using assms(2,5) by (meson tranclp.trancl_into_trancl)
  show "a < next_task r" using assms(2) by (simp add: edge_def)
qed

lemma ms_share_data: "ms_share lf r m0 xs t p D m \<Longrightarrow> ms_data lf r m0 xs m"
  by (simp add: ms_share_def)

interpretation ms: total_task_program ms_execute r "\<lambda>_. ms_data lf r m0 xs" "ms_share lf r m0 xs" "ms_sorted lf r m0 xs"
    "ms_uses lf r m0 xs" for lf :: nat and r :: rt and m0 :: "tid \<Rightarrow> ms_tao" and xs :: arr
proof
  fix t m p D n f m'
  assume t: "t < next_task r" and J: "ms_share lf r m0 xs t p D m" and p: "0 \<le> fst p" and n: "n \<notin> D"
    and b: "ms_execute f t p n m = Some m'"
  note d = ms_share_data [OF J]
  show "ms_share lf r m0 xs t p (insert n D) m'"
  proof (cases "int n = fst p")
    case True
    then have "nat (fst p) = n" by auto
    with J n have pre: "\<forall>a. edge r a t \<longrightarrow> sorted (ms_part m0 a (marr m))" by (simp add: ms_share_def)
    from ms_execute_leader [OF d t True] obtain ys where
      "ms_execute f t p n m = Some (m\<lparr>marr := ys\<rparr>) \<or> ms_execute f t p n m = None" "sorted (ms_part m0 t ys)" using pre by blast
    with b have "sorted (ms_part m0 t (marr m'))" by auto
    with ms_execute_effect(2) [OF b d t] True show ?thesis by (auto simp: ms_share_def)
  next
    case False
    then have "m' = m" "nat (fst p) \<noteq> n" using b p by (auto simp: ms_execute_def)
    with J show ?thesis by (auto simp: ms_share_def)
  qed
next
  fix t p m n assume "in_place p n" "0 \<le> fst p" "ms_share lf r m0 xs t p (members p) m"
  then show "ms_sorted lf r m0 xs t m" by (auto simp: ms_share_def ms_sorted_def in_place_def split: if_splits)
next
  fix f u p n m m' t q D
  assume b: "ms_execute f u p n m = Some m'" and u: "u < next_task r" "t < next_task r" "u \<noteq> t" "\<not> ahead r t u" "\<not> ahead r u t"
    and J: "ms_share lf r m0 xs t q D m"
  note d = ms_share_data [OF J]
  have sh: "ms_shape lf r m0 (length xs)" using d by (simp add: ms_data_def)
  have "ms_part m0 a (marr m') = ms_part m0 a (marr m)" if "edge r a t" for a
    using ms_pred_apart [OF sh that u(3-5)] by (intro ms_execute_other [OF b d u(1)])
  with J ms_execute_effect(2) [OF b d u(1)] ms_execute_other [OF b d u] show "ms_share lf r m0 xs t q D m'"
    by (auto simp: ms_share_def split: if_splits)
next
  fix f u p n m m' t
  assume b: "ms_execute f u p n m = Some m'" and u: "u < next_task r" "t < next_task r" "u \<noteq> t" "\<not> ms_uses lf r m0 xs t u"
    "\<not> ahead r u t" and Q: "ms_sorted lf r m0 xs t m"
  have d: "ms_data lf r m0 xs m" using Q by (simp add: ms_sorted_def)
  then have "\<not> ahead r t u" using u(4) by (simp add: ms_uses_def ms_data_def)
  with Q ms_execute_effect(2) [OF b d u(1)] ms_execute_other [OF b d u(1-3) _ u(5)] show "ms_sorted lf r m0 xs t m'"
    by (simp add: ms_sorted_def)
next
  fix a t u assume "edge r a t" "ms_uses lf r m0 xs a u"
  then show "u = t \<or> ahead r t u" using ms_one_successor [of lf r m0 "length xs" a t u] by (simp add: ms_uses_def)
next
  fix t p D m n assume t: "t < next_task r" and J: "ms_share lf r m0 xs t p D m"
  show "ms_execute (\<lambda>_. False) t p n m \<noteq> None"
  proof (cases "int n = fst p")
    case True
    from ms_execute_leader [OF ms_share_data [OF J] t this] show ?thesis by auto
  qed (simp add: ms_execute_def)
qed (auto simp: ms_share_def ms_sorted_def dest: ms_execute_effect(2))

text \<open>What \<open>buildDAG\<close> gives the scheduler to start with.\<close>

lemma ms_start:
  assumes "n \<le> leaf c \<or> 1 \<le> leaf c"
  shows "\<exists>b. ms_buildDAG c a n offset (ms_init (init_rt cf l blank) mem) = Some (0, b)
    \<and> ms_tree c a n (ms_init (init_rt cf l blank) mem) 0 b"
proof -
  let ?s = "ms_init (init_rt cf l blank) mem"
  have z: "next_task (mrt ?s) = 0" "edges_known (mrt ?s)" by (auto simp: ms_init_def init_rt_def edges_known_def edge_def)
  show ?thesis
  proof (cases "n \<le> leaf c")
    case True
    then show ?thesis
      using ms_tree_leaf [OF True z(2), of a offset] new_ms_tao_sel(7) [of c a n offset ?s] z(1)
      by (subst ms_buildDAG.simps) (simp add: Let_def)
  next
    case False
    then have "1 \<le> leaf c" using assms by simp
    from ms_buildDAG_tree [OF this z(2), of a n offset] obtain t b where
      "ms_buildDAG c a n offset ?s = Some (t, b)" "ms_tree c a n ?s t b" by blast
    moreover from this(2) z(1) have "t = 0" using ms_treeD(1) by metis
    ultimately show ?thesis by blast
  qed
qed

lemma ms_tree_shape:
  assumes "ms_tree c 0 k (ms_init (init_rt cf l blank) mem) 0 b"
  shows "ms_shape (leaf c) (mrt b) (mmem b) k"
proof -
  note T = ms_treeD [OF assms]
  have "u = v" if e: "edge (mrt b) a u" "edge (mrt b) a v" for a u v
  proof -
    from e(1) have "a < next_task (mrt b)" "a \<noteq> 0" using T(12) by (auto simp: edge_def intro: gr0I)
    with T(11) [of a] e show ?thesis by (auto simp: edge_def)
  qed
  then have "\<forall>a u v. edge (mrt b) a u \<and> edge (mrt b) a v \<longrightarrow> u = v" by blast
  moreover have "\<forall>u<next_task (mrt b). ms_node (leaf c) (mrt b) (mmem b) u \<and> ms_inside (mmem b) 0 k u" using T(8,9) by simp
  moreover have "\<forall>u<next_task (mrt b). \<forall>v<next_task (mrt b). u \<noteq> v \<and> \<not> ahead (mrt b) u v \<and> \<not> ahead (mrt b) v u \<longrightarrow> apart (mmem b) u v"
    using T(14) by simp
  ultimately show ?thesis unfolding ms_shape_def by (intro conjI)
qed

section \<open>Properties\<close>

text \<open>C7.
  The merge sort sorts. With a leaf size of at least 1, for every array, layout, number of
  workers up to 64, interleaving and choice of places: if executed tasks are kept, no task
  ever fails, and when a worker has left the loop or nothing is pending the array is sorted
  and holds the elements it had.
\<close>

theorem merge_sort_program_correct:
  assumes "1 \<le> leaf c" and "ms_buildDAG c 0 (length xs) 0 (ms_init (init_rt cf l blank) mem) = Some (parent, b)"
    and "\<not> delete_executed_taos cf" and "N \<le> XITAO_MAXTHREADS"
    and "(prog_step ms_execute (ms_rnd c) N)\<^sup>*\<^sup>* (boot (mrt b), \<lparr>marr = xs, mtaos = mmem b\<rparr>) (s, m)" and "fault_free N s"
  shows "(\<forall>k<N. \<forall>t. executes (pcs s k) = Some t \<longrightarrow> run_body ms_execute s t k m \<noteq> None)
    \<and> (\<forall>k<N. pcs s k = PDone \<or> pending_tasks (rts s) \<le> 0 \<longrightarrow> sorted (marr m) \<and> mset (marr m) = mset xs)"
proof -
  let ?s = "ms_init (init_rt cf l blank) mem" and ?m = "\<lparr>marr = xs, mtaos = mmem b\<rparr>"
  have T: "ms_tree c 0 (length xs) ?s 0 b"
    using ms_start [of "length xs" c 0 0 cf l blank mem] assms(1,2) by auto
  note sh = ms_tree_shape [OF T]
  obtain ops where R: "prog_reached ms_execute (ms_rnd c) N ops (mrt b) ?m s m"
    using T assms(4-6) unfolding prog_reached_def ms_tree_def by (auto simp: ms_init_def)
  have I: "ms_data (leaf c) (mrt b) (mmem b) xs ?m" using sh by (simp add: ms_data_def)
  have nf: "\<not> freed s t" for t
    using nothing_freed [OF prog_reached_sched [OF R]] assms(3) ms_treeD(15) [OF T] by (simp add: ms_init_def init_rt_def)
  have leave: "\<not> ms_uses (leaf c) (mrt b) (mmem b) xs 0 u" for u
    using ms_treeD(12) [OF T] by (auto simp: ms_uses_def edge_def dest: tranclpD)
  have "sorted (marr m) \<and> mset (marr m) = mset xs" if "k < N" "pcs s k = PDone \<or> pending_tasks (rts s) \<le> 0" for k
  proof -
    have "ms_sorted (leaf c) (mrt b) (mmem b) xs 0 m"
      by (rule ms.results_at_exit [OF R I that ms_treeD(2) [OF T] leave])
    then show ?thesis using ms_treeD(3,4) [OF T] by (auto simp: ms_sorted_def ms_data_def ms_part_def slice_def)
  qed
  moreover have "run_body ms_execute s t k m \<noteq> None" if "k < N" "executes (pcs s k) = Some t" for k t
    using ms.bodies_never_fail [OF R I nf that] .
  ultimately show ?thesis by blast
qed

text \<open>\<open>buildDAG\<close> of the merge sort returns unless the leaf size is 0 and the array is not empty,
  and it pushes exactly the tasks without predecessors.
\<close>

theorem merge_sort_build_returns:
  "(ms_buildDAG c 0 n 0 (ms_init (init_rt cf l blank) mem) = None \<longleftrightarrow> leaf c = 0 \<and> 0 < n)
   \<and> (\<forall>t b. ms_buildDAG c 0 n 0 (ms_init (init_rt cf l blank) mem) = Some (t, b) \<longrightarrow>
        set (mpushed b) = {u. unpushed (boot (mrt b)) u})"
proof -
  let ?s = "ms_init (init_rt cf l blank) mem"
  have none: "leaf c \<noteq> 0 \<or> n = 0" if "ms_buildDAG c 0 n 0 ?s = Some y" for y using ms_buildDAG_loops [OF _ that] by auto
  have some: "\<exists>b. ms_buildDAG c 0 n 0 ?s = Some (0, b) \<and> ms_tree c 0 n ?s 0 b" if "leaf c \<noteq> 0 \<or> n = 0"
    using ms_start [of n c 0 0 cf l blank mem] that by auto
  have "set (mpushed b) = {u. unpushed (boot (mrt b)) u}" if "ms_tree c 0 n ?s 0 b" for b
  proof -
    have "set (mpushed b) = {u. u < next_task (mrt b) \<and> ms_left (mmem b u) = None}"
      using that by (auto simp: ms_tree_def ms_init_def)
    also have "\<dots> = {u. unpushed (boot (mrt b)) u}"
      using ms_treeD(8) [OF that] by (force simp: boot_def ms_node_def split: option.splits)
    finally show ?thesis .
  qed
  moreover have "t = 0 \<and> ms_tree c 0 n ?s 0 b" if "ms_buildDAG c 0 n 0 ?s = Some (t, b)" for t b
    using some [OF none [OF that]] that by auto
  ultimately show ?thesis using none some by (metis gr0I not_None_eq option.distinct(1) not_gr_zero)
qed

text \<open>An example: two elements, leaf size 1, one worker.\<close>

definition ms_demo_conf :: ms_conf where
  "ms_demo_conf = \<lparr>leaf = 1, ms_N = 2, use_sta = False, use_workload_hint = True, ms_type = 0, ms_rnd = (\<lambda>x. x)\<rparr>"

definition ms_demo_mem :: "tid \<Rightarrow> ms_tao" where
  "ms_demo_mem = (\<lambda>_. \<lparr>ms_left = None, ms_right = None, ms_n = 0, ms_A = 0\<rparr>)"

definition ms_demo_init :: ms_state where
  "ms_demo_init = ms_init (init_rt (two_conf\<lparr>delete_executed_taos := False\<rparr>) small_layout blank_task) ms_demo_mem"

definition ms_demo_leaf :: "nat \<Rightarrow> ms_state \<Rightarrow> ms_state" where
  "ms_demo_leaf a s = (new_ms_tao ms_demo_conf a 1 a s)\<lparr>mpushed := mpushed s @ [next_task (mrt s)]\<rparr>"

definition ms_demo_built :: ms_state where
  "ms_demo_built = link_right 0 2 (ms_demo_leaf 1 (link_left 0 1 (ms_demo_leaf 0 (new_ms_tao ms_demo_conf 0 2 0 ms_demo_init))))"

lemma ms_demo_leaf: "ms_buildDAG ms_demo_conf a (Suc 0) a s = Some (next_task (mrt s), ms_demo_leaf a s)"
  by (subst ms_buildDAG.simps) (simp add: Let_def ms_demo_leaf_def new_ms_tao_sel(7), simp add: ms_demo_conf_def)

lemma ms_demo_build: "ms_buildDAG ms_demo_conf 0 2 0 ms_demo_init = Some (0, ms_demo_built)"
proof -
  have n: "next_task (mrt ms_demo_init) = 0" "next_task (mrt (ms_demo_leaf a s)) = Suc (next_task (mrt s))" for a s
    by (simp_all add: ms_demo_init_def ms_init_def init_rt_def ms_demo_leaf_def new_ms_tao_sel(1))
  have "\<not> 2 \<le> leaf ms_demo_conf" by (simp add: ms_demo_conf_def)
  then show ?thesis
    by (subst ms_buildDAG.simps) (simp add: Let_def ms_demo_leaf n ms_demo_built_def new_ms_tao_sel(1) link_ms_sel(1) numeral_2_eq_2)
qed

definition ms_demo :: "nat \<Rightarrow> (sys \<times> ms_mem) option" where
  "ms_demo k = prog_run ms_execute 1 ([Fini, Push 1 0, Push 2 0] @ replicate k (Worker 0))
     (boot (mrt ms_demo_built), \<lparr>marr = [2, 1], mtaos = mmem ms_demo_built\<rparr>)"

theorem merge_sort_program_correct_witness:
  "\<exists>s m. ms_demo 57 = Some (s, m) \<and> sorted (marr m) \<and> mset (marr m) = {#1, 2#}"
proof -
  have lf: "1 \<le> leaf ms_demo_conf" by (simp add: ms_demo_conf_def)
  have B: "ms_buildDAG ms_demo_conf 0 (length [2, 1 :: 32 word]) 0 ms_demo_init = Some (0, ms_demo_built)"
    using ms_demo_build by (simp add: numeral_2_eq_2)
  have "(case ms_demo 57 of None \<Rightarrow> False | Some (s, m) \<Rightarrow> pcs s 0 = PDone)" by code_simp
  then obtain s m where s: "ms_demo 57 = Some (s, m)" "pcs s 0 = PDone" by (auto split: option.splits)
  have "prog_run ms_execute 1 ([Fini, Push 1 0, Push 2 0] @ replicate 57 (Worker 0)) (boot (mrt ms_demo_built), \<lparr>marr = [2, 1], mtaos = mmem ms_demo_built\<rparr>) = Some (s, m)"
    using s(1) unfolding ms_demo_def by (simp del: prog_run.simps)
  then have "(prog_step ms_execute (ms_rnd ms_demo_conf) 1)\<^sup>*\<^sup>* (boot (mrt ms_demo_built), \<lparr>marr = [2, 1], mtaos = mmem ms_demo_built\<rparr>) (s, m)"
    using prog_run_steps by (simp add: ms_demo_conf_def del: prog_run.simps)
  moreover have "fault_free 1 s" using s(2) by (simp add: fault_free_def)
  ultimately have "sorted (marr m) \<and> mset (marr m) = mset [2, 1]"
    using merge_sort_program_correct [OF lf B [unfolded ms_demo_init_def], of 1 s m] s(2) by (simp add: XITAO_MAXTHREADS_def)
  with s(1) show ?thesis by (simp add: add_mset_commute)
qed

theorem merge_sort_build_returns_witness:
  "\<exists>t b. ms_buildDAG ms_demo_conf 0 2 0 ms_demo_init = Some (t, b) \<and> set (mpushed b) = {u. unpushed (boot (mrt b)) u}"
proof -
  have "leaf ms_demo_conf \<noteq> 0" by (simp add: ms_demo_conf_def)
  with merge_sort_build_returns [of ms_demo_conf 2 "two_conf\<lparr>delete_executed_taos := False\<rparr>" small_layout blank_task ms_demo_mem]
  show ?thesis unfolding ms_demo_init_def by fastforce
qed

end
