(* ===== verification/Barriers.thy ===== *)
theory Barriers
  imports Prelude "HOL-Library.Word"
begin

text \<open>
  The two thread barriers of \<open>src/barriers.cpp\<close> and \<open>include/barriers.h\<close> as step
  relations over any number of threads: \<open>spin_barrier\<close> with one step per atomic
  operation of \<open>wait()\<close>, and \<open>cxx_barrier\<close> with one step per critical section of its
  monitor. Each thread carries two counters that are no part of the code: how often it
  has arrived at the barrier and how often it has left it. The contract of a barrier is
  stated over these counters and both models are instances of it.
\<close>

section \<open>The contract\<close>

locale barrier_contract =
  fixes initial :: "nat \<Rightarrow> 's"
    and step :: "nat \<Rightarrow> 's \<Rightarrow> 's \<Rightarrow> bool"
    and arrived :: "'s \<Rightarrow> nat \<Rightarrow> nat"
    and departed :: "'s \<Rightarrow> nat \<Rightarrow> nat"
    and limit :: nat
  assumes no_early_departure:
      "0 < N \<Longrightarrow> N < limit \<Longrightarrow> (step N)\<^sup>*\<^sup>* (initial N) s \<Longrightarrow> i < N \<Longrightarrow> j < N \<Longrightarrow>
       departed s i \<le> arrived s j"
    and one_visit_at_a_time:
      "0 < N \<Longrightarrow> N < limit \<Longrightarrow> (step N)\<^sup>*\<^sup>* (initial N) s \<Longrightarrow> i < N \<Longrightarrow> arrived s i \<le> Suc (departed s i)"
begin

lemma phases_overlap_by_one:
  "0 < N \<Longrightarrow> N < limit \<Longrightarrow> (step N)\<^sup>*\<^sup>* (initial N) s \<Longrightarrow> i < N \<Longrightarrow> j < N \<Longrightarrow>
   departed s i \<le> Suc (departed s j)"
  using no_early_departure [of N s i j] one_visit_at_a_time [of N s j] by linarith

lemma waiting_until_all_arrive:
  "0 < N \<Longrightarrow> N < limit \<Longrightarrow> (step N)\<^sup>*\<^sup>* (initial N) s \<Longrightarrow> i < N \<Longrightarrow> j < N \<Longrightarrow>
   arrived s j < arrived s i \<Longrightarrow> arrived s i = Suc (departed s i)"
  using no_early_departure [of N s i j] one_visit_at_a_time [of N s i] by linarith

end

section \<open>The spinning barrier\<close>

text \<open>
  Where a thread is in \<open>wait()\<close>: outside, after the load of \<open>step_atmc\<close>, spinning on the
  value it loaded, or (the last one to come) before the store of \<open>nwait_atmc\<close> and before
  the increment of \<open>step_atmc\<close>. The three members are 32-bit and wrap around.
\<close>

datatype spin_pc = SOut | SLoaded "32 word" | SSpin "32 word" | SReset | SRelease

record spin_barrier =
  sb_nthreads :: "32 word"
  sb_nwait :: "32 word"
  sb_step :: "32 word"

record spin_sys =
  sb :: spin_barrier
  spc :: "nat \<Rightarrow> spin_pc"
  sarr :: "nat \<Rightarrow> nat"
  sdep :: "nat \<Rightarrow> nat"
  srets :: "nat \<Rightarrow> bool list"
  strues :: nat

definition spin_init :: "32 word \<Rightarrow> spin_barrier" where
  "spin_init threads = \<lparr>sb_nthreads = threads, sb_nwait = 0, sb_step = 0\<rparr>"

definition spin_sys_init :: "nat \<Rightarrow> spin_sys" where
  "spin_sys_init N = \<lparr>sb = spin_init (of_nat N), spc = (\<lambda>_. SOut), sarr = (\<lambda>_. 0), sdep = (\<lambda>_. 0),
                      srets = (\<lambda>_. []), strues = 0\<rparr>"

text \<open>
  One rule per atomic operation of \<open>wait()\<close>: the load, the \<open>fetch_add\<close> (whose old value
  decides between the two branches), the two stores of the last thread, and the exit from
  the spin loop. \<open>srets\<close> keeps what the calls of each thread have returned, and \<open>strues\<close>
  counts the increments of \<open>step_atmc\<close> without wrapping around.
\<close>

inductive spin_step :: "nat \<Rightarrow> spin_sys \<Rightarrow> spin_sys \<Rightarrow> bool" for N :: nat where
  spin_load: "i < N \<Longrightarrow> spc s i = SOut \<Longrightarrow>
    spin_step N s (s\<lparr>spc := (spc s)(i := SLoaded (sb_step (sb s)))\<rparr>)"
| spin_last: "i < N \<Longrightarrow> spc s i = SLoaded l \<Longrightarrow> sb_nwait (sb s) = sb_nthreads (sb s) - 1 \<Longrightarrow>
    spin_step N s (s\<lparr>sb := (sb s)\<lparr>sb_nwait := sb_nwait (sb s) + 1\<rparr>,
      spc := (spc s)(i := SReset), sarr := (sarr s)(i := Suc (sarr s i))\<rparr>)"
| spin_not_last: "i < N \<Longrightarrow> spc s i = SLoaded l \<Longrightarrow> sb_nwait (sb s) \<noteq> sb_nthreads (sb s) - 1 \<Longrightarrow>
    spin_step N s (s\<lparr>sb := (sb s)\<lparr>sb_nwait := sb_nwait (sb s) + 1\<rparr>,
      spc := (spc s)(i := SSpin l), sarr := (sarr s)(i := Suc (sarr s i))\<rparr>)"
| spin_reset: "i < N \<Longrightarrow> spc s i = SReset \<Longrightarrow>
    spin_step N s (s\<lparr>sb := (sb s)\<lparr>sb_nwait := 0\<rparr>, spc := (spc s)(i := SRelease)\<rparr>)"
| spin_release: "i < N \<Longrightarrow> spc s i = SRelease \<Longrightarrow>
    spin_step N s (s\<lparr>sb := (sb s)\<lparr>sb_step := sb_step (sb s) + 1\<rparr>,
      spc := (spc s)(i := SOut), sdep := (sdep s)(i := Suc (sdep s i)), srets := (srets s)(i := srets s i @ [True]),
      strues := Suc (strues s)\<rparr>)"
| spin_exit: "i < N \<Longrightarrow> spc s i = SSpin l \<Longrightarrow> sb_step (sb s) \<noteq> l \<Longrightarrow>
    spin_step N s (s\<lparr>spc := (spc s)(i := SOut), sdep := (sdep s)(i := Suc (sdep s i)),
      srets := (srets s)(i := srets s i @ [False])\<rparr>)"

text \<open>
  The invariant. \<open>strues s\<close> is the number of completed rounds \<open>R\<close>. Each thread is in
  round \<open>R\<close>, or still has to notice that round \<open>R - 1\<close> is over; \<open>nwait\<close> counts the
  arrivals of round \<open>R\<close> until the last thread clears it.
\<close>

fun spin_local :: "nat \<Rightarrow> spin_pc \<Rightarrow> nat \<Rightarrow> nat \<Rightarrow> bool" where
  "spin_local R SOut a d \<longleftrightarrow> a = R \<and> d = R"
| "spin_local R (SLoaded l) a d \<longleftrightarrow> a = R \<and> d = R \<and> l = of_nat R"
| "spin_local R (SSpin l) a d \<longleftrightarrow> a = Suc d \<and> l = of_nat d \<and> (a = R \<or> a = Suc R)"
| "spin_local R SReset a d \<longleftrightarrow> a = Suc R \<and> d = R"
| "spin_local R SRelease a d \<longleftrightarrow> a = Suc R \<and> d = R"

definition in_round :: "nat \<Rightarrow> nat \<Rightarrow> int" where
  "in_round R a = (if a = Suc R then 1 else 0)"

definition closing :: "spin_pc \<Rightarrow> int" where
  "closing p = (if p = SReset \<or> p = SRelease then 1 else 0)"

definition releasing :: "spin_pc \<Rightarrow> int" where
  "releasing p = (if p = SRelease then 1 else 0)"

definition spin_inv :: "nat \<Rightarrow> spin_sys \<Rightarrow> bool" where
  "spin_inv N s \<longleftrightarrow>
     sb_nthreads (sb s) = of_nat N \<and> sb_step (sb s) = of_nat (strues s)
   \<and> (\<forall>i<N. spin_local (strues s) (spc s i) (sarr s i) (sdep s i))
   \<and> tsum N closing (spc s) = (if tsum N (in_round (strues s)) (sarr s) = int N then 1 else 0)
   \<and> sb_nwait (sb s) = (if tsum N releasing (spc s) > 0 then 0
                        else of_int (tsum N (in_round (strues s)) (sarr s)))"

lemma tsum_le_N: "(\<And>i. i < N \<Longrightarrow> g (p i) \<le> 1) \<Longrightarrow> tsum N g p \<le> int N"
  using sum_mono [of "{..<N}" "\<lambda>i. g (p i)" "\<lambda>_. 1"] by (auto simp: tsum_def)

lemma tsum_eq_N_iff:
  assumes "\<And>i. i < N \<Longrightarrow> g (p i) \<le> 1"
  shows "tsum N g p = int N \<longleftrightarrow> (\<forall>i<N. g (p i) = 1)"
proof -
  have "tsum N (\<lambda>x. 1 - g x) p = int N - tsum N g p" by (simp add: tsum_def sum_subtractf)
  moreover have "tsum N (\<lambda>x. 1 - g x) p = 0 \<longleftrightarrow> (\<forall>i<N. 1 - g (p i) = 0)"
    by (rule tsum_zero_iff) (use assms in auto)
  ultimately show ?thesis by auto
qed

lemma in_round_bounds [simp]: "0 \<le> in_round R a" "in_round R a \<le> 1"
  by (auto simp: in_round_def)

lemma closing_bounds [simp]: "0 \<le> closing p" "closing p \<le> 1" "0 \<le> releasing p" "releasing p \<le> closing p"
  by (auto simp: closing_def releasing_def)

lemma closing_simps [simp]:
  "closing SOut = 0" "closing (SLoaded l) = 0" "closing (SSpin l) = 0" "closing SReset = 1" "closing SRelease = 1"
  "releasing SOut = 0" "releasing (SLoaded l) = 0" "releasing (SSpin l) = 0" "releasing SReset = 0"
  "releasing SRelease = 1"
  by (auto simp: closing_def releasing_def)

lemma releasing_le_closing: "tsum N releasing p \<le> tsum N closing p"
  unfolding tsum_def by (rule sum_mono) simp

lemma spin_inv_init: "0 < N \<Longrightarrow> spin_inv N (spin_sys_init N)"
  by (auto simp: spin_inv_def spin_sys_init_def spin_init_def tsum_def in_round_def)

text \<open>Below \<open>2^32\<close> threads the word comparison with \<open>nthreads - 1\<close> counts correctly.\<close>

lemma of_int_word_eq_minus_1_iff:
  assumes "0 \<le> k" and "k < int N" and "N < 2 ^ 32"
  shows "(of_int k :: 32 word) = of_nat N - 1 \<longleftrightarrow> k = int N - 1"
proof -
  have "(of_nat N :: 32 word) - 1 = of_int (int N - 1)" by simp
  then show ?thesis using assms by (simp add: word_of_int_eq_iff take_bit_int_eq_self del: of_int_diff)
qed

lemma tsum_unique:
  assumes "tsum N g p = 1" and "i < N" and "g (p i) = 1" and "j < N" and "j \<noteq> i"
    and "\<And>k. k < N \<Longrightarrow> 0 \<le> g (p k)" and "g x = 0"
  shows "g (p j) = 0"
proof -
  have "tsum N g (p(i := x)) = 0" using assms by simp
  then have "\<forall>k<N. g ((p(i := x)) k) = 0"
    by (subst (asm) tsum_zero_iff) (use assms in auto)
  with assms(4,5) show ?thesis by (metis fun_upd_other)
qed

text \<open>The increment of \<open>nwait\<close>, for the last thread and for the others.\<close>

lemma spin_inv_arrive:
  assumes inv: "spin_inv N s" and N: "N < 2 ^ 32" and i: "i < N" and pc: "spc s i = SLoaded l"
    and p: "p = (if sb_nwait (sb s) = sb_nthreads (sb s) - 1 then SReset else SSpin l)"
  shows "spin_inv N (s\<lparr>sb := (sb s)\<lparr>sb_nwait := sb_nwait (sb s) + 1\<rparr>,
      spc := (spc s)(i := p), sarr := (sarr s)(i := Suc (sarr s i))\<rparr>)"
proof -
  let ?R = "strues s" and ?A = "tsum N (in_round (strues s)) (sarr s)"
  have loc: "sarr s i = ?R" "sdep s i = ?R" "l = of_nat ?R"
    using inv i pc unfolding spin_inv_def by force+
  have "?A \<noteq> int N"
  proof
    assume "?A = int N"
    then have "\<forall>j<N. in_round ?R (sarr s j) = 1" by (subst (asm) tsum_eq_N_iff) auto
    with i loc(1) show False by (auto simp: in_round_def)
  qed
  moreover have "?A \<le> int N" and A0: "0 \<le> ?A" by (rule tsum_le_N tsum_nonneg; simp)+
  ultimately have A: "?A < int N" by linarith
  then have C: "tsum N closing (spc s) = 0" using inv by (simp add: spin_inv_def)
  have L: "tsum N releasing (spc s) = 0"
    using C releasing_le_closing [of N "spc s"] tsum_nonneg [of N releasing "spc s"] by simp
  then have w: "sb_nwait (sb s) = of_int ?A" using inv by (simp add: spin_inv_def)
  have last: "sb_nwait (sb s) = sb_nthreads (sb s) - 1 \<longleftrightarrow> ?A = int N - 1"
    using of_int_word_eq_minus_1_iff [OF A0 A N] inv w by (simp add: spin_inv_def)
  show ?thesis
    using inv i pc loc C L w last unfolding spin_inv_def by (auto simp: p in_round_def)
qed

lemma spin_inv_release:
  assumes inv: "spin_inv N s" and N: "0 < N" and i: "i < N" and pc: "spc s i = SRelease"
  shows "spin_inv N (s\<lparr>sb := (sb s)\<lparr>sb_step := sb_step (sb s) + 1\<rparr>,
      spc := (spc s)(i := SOut), sdep := (sdep s)(i := Suc (sdep s i)), srets := b, strues := Suc (strues s)\<rparr>)"
proof -
  let ?R = "strues s" and ?A = "tsum N (in_round (strues s)) (sarr s)"
  have C1: "1 \<le> tsum N closing (spc s)" and L1: "1 \<le> tsum N releasing (spc s)"
    using tsum_member_le [OF i, of closing "spc s"] tsum_member_le [OF i, of releasing "spc s"] pc by auto
  then have A: "?A = int N" and C: "tsum N closing (spc s) = 1"
    using inv by (auto simp: spin_inv_def split: if_splits)
  from A have "\<forall>j<N. in_round ?R (sarr s j) = 1" by (subst (asm) tsum_eq_N_iff) auto
  then have ar: "\<forall>j<N. sarr s j = Suc ?R" by (auto simp: in_round_def split: if_splits)
  have others: "closing (spc s j) = 0" if "j < N" "j \<noteq> i" for j
    by (rule tsum_unique [OF C i _ that, of SOut]) (use pc in auto)
  have loc: "spin_local (Suc ?R) (((spc s)(i := SOut)) j) (sarr s j) (((sdep s)(i := Suc (sdep s i))) j)"
    if j: "j < N" for j
  proof (cases "j = i")
    case True
    with inv i pc ar show ?thesis unfolding spin_inv_def by force
  next
    case False
    from inv j have "spin_local ?R (spc s j) (sarr s j) (sdep s j)" unfolding spin_inv_def by blast
    with False ar j others [OF j False] show ?thesis by (cases "spc s j") auto
  qed
  have "tsum N (in_round (Suc ?R)) (sarr s) = 0"
    by (subst tsum_zero_iff) (use ar in \<open>auto simp: in_round_def\<close>)
  moreover have "tsum N closing ((spc s)(i := SOut)) = 0" using i pc C by simp
  moreover have "tsum N releasing ((spc s)(i := SOut)) = 0"
    using calculation(2) releasing_le_closing [of N "(spc s)(i := SOut)"]
      tsum_nonneg [of N releasing "(spc s)(i := SOut)"] by simp
  ultimately show ?thesis using inv loc L1 N by (simp add: spin_inv_def)
qed

lemma spin_step_inv: "spin_step N s s' \<Longrightarrow> 0 < N \<Longrightarrow> N < 2 ^ 32 \<Longrightarrow> spin_inv N s \<Longrightarrow> spin_inv N s'"
proof (induction rule: spin_step.induct)
  case (spin_load i s)
  then show ?case unfolding spin_inv_def by force
next
  case (spin_last i s l)
  then show ?case using spin_inv_arrive [of N s i l SReset] by simp
next
  case (spin_not_last i s l)
  then show ?case using spin_inv_arrive [of N s i l "SSpin l"] by simp
next
  case (spin_reset i s)
  then have "spin_local (strues s) SReset (sarr s i) (sdep s i)" unfolding spin_inv_def by metis
  moreover have "0 \<le> tsum N releasing (spc s)" by (rule tsum_nonneg) simp
  ultimately show ?case using spin_reset unfolding spin_inv_def by simp
next
  case (spin_release i s)
  then show ?case by (intro spin_inv_release)
next
  case (spin_exit i s l)
  then have "spin_local (strues s) (SSpin l) (sarr s i) (sdep s i)" unfolding spin_inv_def by metis
  moreover have "sb_step (sb s) = of_nat (strues s)" using spin_exit unfolding spin_inv_def by blast
  ultimately have "sarr s i = strues s" "Suc (sdep s i) = strues s" using spin_exit by auto
  with spin_exit show ?case unfolding spin_inv_def by simp
qed

lemma spin_reach_inv:
  "(spin_step N)\<^sup>*\<^sup>* (spin_sys_init N) s \<Longrightarrow> 0 < N \<Longrightarrow> N < 2 ^ 32 \<Longrightarrow> spin_inv N s"
  by (induction rule: rtranclp_induct) (auto intro: spin_inv_init spin_step_inv)

lemma spin_local_bounds: "spin_local R p a d \<Longrightarrow> d \<le> R \<and> R \<le> a \<and> a \<le> Suc d"
  by (cases p) auto

text \<open>
  The returned values: one per round a thread has left, and in each completed round one \<open>true\<close>.
\<close>

definition spin_rets :: "nat \<Rightarrow> spin_sys \<Rightarrow> bool" where
  "spin_rets N s \<longleftrightarrow> (\<forall>i<N. length (srets s i) = sdep s i)
     \<and> (\<forall>k < strues s. \<exists>!i. i < N \<and> k < sdep s i \<and> srets s i ! k)"

lemma spin_rets_keep:
  assumes "spin_rets N s" "\<forall>i<N. srets s' i = srets s i \<and> sdep s' i = sdep s i" "strues s' = strues s"
  shows "spin_rets N s'"
proof -
  have "(i < N \<and> k < sdep s' i \<and> srets s' i ! k) = (i < N \<and> k < sdep s i \<and> srets s i ! k)" for i k
    using assms(2) by auto
  with assms show ?thesis unfolding spin_rets_def by (simp only:) simp
qed

lemma spin_rets_exit:
  assumes "spin_rets N s" "i < N"
  shows "spin_rets N (s\<lparr>spc := p, sdep := (sdep s)(i := Suc (sdep s i)), srets := (srets s)(i := srets s i @ [False])\<rparr>)"
    (is "spin_rets N ?s")
proof -
  have "length (srets s i) = sdep s i" using assms by (simp add: spin_rets_def)
  then have "(j < N \<and> k < sdep ?s j \<and> srets ?s j ! k) = (j < N \<and> k < sdep s j \<and> srets s j ! k)" for j k
    by (auto simp: nth_append less_Suc_eq)
  with assms(1) show ?thesis unfolding spin_rets_def by (simp only:) (simp add: spin_rets_def)
qed

lemma spin_rets_release:
  assumes "spin_rets N s" "spin_inv N s" "i < N" "spc s i = SRelease"
  shows "spin_rets N (s\<lparr>sb := b, spc := p, sdep := (sdep s)(i := Suc (sdep s i)),
    srets := (srets s)(i := srets s i @ [True]), strues := Suc (strues s)\<rparr>)" (is "spin_rets N ?s")
proof -
  have le: "sdep s j \<le> strues s" if "j < N" for j
    using assms(2) that unfolding spin_inv_def by (meson spin_local_bounds)
  have i: "sdep s i = strues s" "length (srets s i) = sdep s i"
    using assms unfolding spin_inv_def spin_rets_def by (metis spin_local.simps(5))+
  have "\<exists>!j. j < N \<and> k < sdep ?s j \<and> srets ?s j ! k" if "k < Suc (strues s)" for k
  proof (cases "k = strues s")
    case True
    then have "(j < N \<and> k < sdep ?s j \<and> srets ?s j ! k) = (j = i)" for j
      using le [of j] i assms(3) by (auto simp: nth_append)
    then show ?thesis by simp
  next
    case False
    with that i have "(j < N \<and> k < sdep ?s j \<and> srets ?s j ! k) = (j < N \<and> k < sdep s j \<and> srets s j ! k)" for j
      by (auto simp: nth_append)
    with assms(1) False that show ?thesis unfolding spin_rets_def by simp
  qed
  with assms(1) i show ?thesis unfolding spin_rets_def by simp
qed

lemma spin_step_rets: "spin_step N s s' \<Longrightarrow> spin_inv N s \<Longrightarrow> spin_rets N s \<Longrightarrow> spin_rets N s'"
  by (induction rule: spin_step.induct) (auto simp: spin_rets_exit spin_rets_release intro: spin_rets_keep)

lemma spin_reach_rets:
  "(spin_step N)\<^sup>*\<^sup>* (spin_sys_init N) s \<Longrightarrow> 0 < N \<Longrightarrow> N < 2 ^ 32 \<Longrightarrow> spin_rets N s"
proof (induction rule: rtranclp_induct)
  case base
  then show ?case by (simp add: spin_rets_def spin_sys_init_def)
qed (blast intro: spin_step_rets spin_reach_inv)

text \<open>The next step of a thread, to evaluate runs.\<close>

definition spin_next :: "nat \<Rightarrow> spin_sys \<Rightarrow> spin_sys" where
  "spin_next i s = (case spc s i of
     SOut \<Rightarrow> s\<lparr>spc := (spc s)(i := SLoaded (sb_step (sb s)))\<rparr>
   | SLoaded l \<Rightarrow> s\<lparr>sb := (sb s)\<lparr>sb_nwait := sb_nwait (sb s) + 1\<rparr>,
       spc := (spc s)(i := (if sb_nwait (sb s) = sb_nthreads (sb s) - 1 then SReset else SSpin l)), sarr := (sarr s)(i := Suc (sarr s i))\<rparr>
   | SSpin l \<Rightarrow> if sb_step (sb s) = l then s
       else s\<lparr>spc := (spc s)(i := SOut), sdep := (sdep s)(i := Suc (sdep s i)), srets := (srets s)(i := srets s i @ [False])\<rparr>
   | SReset \<Rightarrow> s\<lparr>sb := (sb s)\<lparr>sb_nwait := 0\<rparr>, spc := (spc s)(i := SRelease)\<rparr>
   | SRelease \<Rightarrow> s\<lparr>sb := (sb s)\<lparr>sb_step := sb_step (sb s) + 1\<rparr>, spc := (spc s)(i := SOut),
       sdep := (sdep s)(i := Suc (sdep s i)), srets := (srets s)(i := srets s i @ [True]), strues := Suc (strues s)\<rparr>)"

lemma spin_next_step: "i < N \<Longrightarrow> (spin_step N)\<^sup>*\<^sup>* s (spin_next i s)"
  using spin_last [of i N s] spin_not_last [of i N s] by (cases "spc s i") (auto simp: spin_next_def intro: spin_step.intros)

lemma spin_run: "\<forall>i\<in>set is. i < N \<Longrightarrow> (spin_step N)\<^sup>*\<^sup>* s (fold spin_next is s)"
  by (induction "is" arbitrary: s) (auto intro: rtranclp_trans spin_next_step)

interpretation spin: barrier_contract spin_sys_init spin_step sarr sdep "2 ^ 32"
proof (unfold_locales, goal_cases)
  case (1 N s i j)
  then have "spin_inv N s" by (intro spin_reach_inv)
  with 1 show ?case unfolding spin_inv_def by (meson le_trans spin_local_bounds)
next
  case (2 N s i)
  then have "spin_inv N s" by (intro spin_reach_inv)
  with 2 show ?case unfolding spin_inv_def by (meson spin_local_bounds)
qed

text \<open>
  When every thread is inside \<open>wait()\<close>, one of them can make a step: either it has yet to
  increment \<open>nwait\<close>, or it is the last one, or the step counter has moved on.
\<close>

lemma spin_progress:
  assumes inv: "spin_inv N s" and N: "0 < N"
  shows "\<exists>s'. spin_step N s s'"
proof (rule ccontr)
  assume no: "\<nexists>s'. spin_step N s s'"
  let ?R = "strues s" and ?A = "tsum N (in_round (strues s)) (sarr s)"
  have pc: "\<exists>l. spc s i = SSpin l \<and> sb_step (sb s) = l" if i: "i < N" for i
  proof (cases "spc s i")
    case SOut
    then show ?thesis using no spin_load [OF i] by blast
  next
    case (SLoaded l)
    then show ?thesis using no spin_last [OF i] spin_not_last [OF i] by blast
  next
    case (SSpin l)
    then show ?thesis using no spin_exit [OF i] by blast
  next
    case SReset
    then show ?thesis using no spin_reset [OF i] by blast
  next
    case SRelease
    then show ?thesis using no spin_release [OF i] by blast
  qed
  have step: "sb_step (sb s) = of_nat ?R" using inv by (simp add: spin_inv_def)
  have "in_round ?R (sarr s i) = 1" if i: "i < N" for i
  proof -
    from pc [OF i] step have p: "spc s i = SSpin (of_nat ?R)" by auto
    with inv i have d: "(of_nat ?R :: 32 word) = of_nat (sdep s i)" "sarr s i = Suc (sdep s i)"
      "sarr s i = ?R \<or> sarr s i = Suc ?R" unfolding spin_inv_def by (metis spin_local.simps(3))+
    have "sarr s i \<noteq> ?R"
    proof
      assume "sarr s i = ?R"
      with d have "(of_nat (Suc (sdep s i)) :: 32 word) = of_nat (sdep s i)" by simp
      then show False by simp
    qed
    with d show ?thesis by (simp add: in_round_def)
  qed
  then have "?A = int N" by (subst tsum_eq_N_iff) auto
  then have "tsum N closing (spc s) = 1" using inv by (simp add: spin_inv_def)
  moreover have "tsum N closing (spc s) = 0"
    by (subst tsum_zero_iff) (use pc in force)+
  ultimately show False by simp
qed

section \<open>The sleeping barrier\<close>

text \<open>
  \<open>cxx_barrier::wait\<close> holds the mutex throughout, except while it sleeps on the condition
  variable. A thread is outside, asleep, or notified (awake but not yet back from
  \<open>wait\<close>). The C++ standard allows \<open>condition_variable::wait\<close> to return without a
  notification; the parameter \<open>spurious\<close> says whether such wake-ups happen.
\<close>

datatype cxx_pc = COut | CAsleep | CAwake

record cxx_barrier =
  cb_pending :: int
  cb_nthreads :: int

record cxx_sys =
  cb :: cxx_barrier
  cpc :: "nat \<Rightarrow> cxx_pc"
  carr :: "nat \<Rightarrow> nat"
  cdep :: "nat \<Rightarrow> nat"

definition cxx_init :: "int \<Rightarrow> cxx_barrier" where
  "cxx_init threads = \<lparr>cb_pending = threads, cb_nthreads = threads\<rparr>"

definition cxx_sys_init :: "nat \<Rightarrow> cxx_sys" where
  "cxx_sys_init N = \<lparr>cb = cxx_init (int N), cpc = (\<lambda>_. COut), carr = (\<lambda>_. 0), cdep = (\<lambda>_. 0)\<rparr>"

text \<open>
  The critical section of \<open>wait()\<close>: refill the counter if the previous round used it up,
  count down, and go to sleep or wake everybody.
\<close>

definition cxx_count_down :: "cxx_barrier \<Rightarrow> cxx_barrier" where
  "cxx_count_down b = (let p = (if cb_pending b = 0 then cb_nthreads b else cb_pending b)
                       in b\<lparr>cb_pending := p - 1\<rparr>)"

definition notify_all :: "cxx_pc \<Rightarrow> cxx_pc" where
  "notify_all p = (if p = CAsleep then CAwake else p)"

inductive cxx_step :: "bool \<Rightarrow> nat \<Rightarrow> cxx_sys \<Rightarrow> cxx_sys \<Rightarrow> bool" for spurious :: bool and N :: nat where
  cxx_sleep: "i < N \<Longrightarrow> cpc s i = COut \<Longrightarrow> 0 < cb_pending (cxx_count_down (cb s)) \<Longrightarrow>
    cxx_step spurious N s (s\<lparr>cb := cxx_count_down (cb s), cpc := (cpc s)(i := CAsleep),
      carr := (carr s)(i := Suc (carr s i))\<rparr>)"
| cxx_notify: "i < N \<Longrightarrow> cpc s i = COut \<Longrightarrow> \<not> 0 < cb_pending (cxx_count_down (cb s)) \<Longrightarrow>
    cxx_step spurious N s (s\<lparr>cb := cxx_count_down (cb s), cpc := notify_all \<circ> cpc s,
      carr := (carr s)(i := Suc (carr s i)), cdep := (cdep s)(i := Suc (cdep s i))\<rparr>)"
| cxx_wake: "i < N \<Longrightarrow> cpc s i = CAwake \<Longrightarrow>
    cxx_step spurious N s (s\<lparr>cpc := (cpc s)(i := COut), cdep := (cdep s)(i := Suc (cdep s i))\<rparr>)"
| cxx_spurious: "spurious \<Longrightarrow> i < N \<Longrightarrow> cpc s i = CAsleep \<Longrightarrow>
    cxx_step spurious N s (s\<lparr>cpc := (cpc s)(i := CAwake)\<rparr>)"

fun cxx_local :: "nat \<Rightarrow> cxx_pc \<Rightarrow> nat \<Rightarrow> nat \<Rightarrow> bool" where
  "cxx_local R COut a d \<longleftrightarrow> a = R \<and> d = R"
| "cxx_local R CAsleep a d \<longleftrightarrow> a = Suc R \<and> d = R"
| "cxx_local R CAwake a d \<longleftrightarrow> a = R \<and> Suc d = R"

definition cxx_inv :: "nat \<Rightarrow> nat \<Rightarrow> cxx_sys \<Rightarrow> bool" where
  "cxx_inv N R s \<longleftrightarrow> cb_nthreads (cb s) = int N
     \<and> (\<forall>i<N. cxx_local R (cpc s i) (carr s i) (cdep s i))
     \<and> (let A = tsum N (in_round R) (carr s) in
        A < int N \<and> (cb_pending (cb s) = int N - A \<or> cb_pending (cb s) = 0 \<and> A = 0))"

lemma cxx_inv_init: "0 < N \<Longrightarrow> cxx_inv N 0 (cxx_sys_init N)"
  by (auto simp: cxx_inv_def cxx_sys_init_def cxx_init_def tsum_def in_round_def)

lemma cxx_step_inv:
  "cxx_step False N s s' \<Longrightarrow> 0 < N \<Longrightarrow> cxx_inv N R s \<Longrightarrow> \<exists>R'. cxx_inv N R' s'"
proof (induction rule: cxx_step.induct)
  case (cxx_sleep i s)
  then have "cxx_local R COut (carr s i) (cdep s i)" unfolding cxx_inv_def by metis
  with cxx_sleep have "cxx_inv N R (s\<lparr>cb := cxx_count_down (cb s), cpc := (cpc s)(i := CAsleep),
      carr := (carr s)(i := Suc (carr s i))\<rparr>)"
    by (auto simp: cxx_inv_def Let_def in_round_def cxx_count_down_def split: if_splits)
  then show ?case ..
next
  case (cxx_notify i s)
  let ?A = "tsum N (in_round R) (carr s)"
  have i: "cxx_local R COut (carr s i) (cdep s i)" using cxx_notify unfolding cxx_inv_def by metis
  have A: "?A = int N - 1"
    using cxx_notify by (auto simp: cxx_inv_def Let_def cxx_count_down_def split: if_splits)
  have "tsum N (in_round R) ((carr s)(i := Suc R)) = int N"
    using cxx_notify(1) i A by (simp add: in_round_def)
  then have "\<forall>j<N. in_round R (((carr s)(i := Suc R)) j) = 1"
    by (subst (asm) tsum_eq_N_iff) auto
  then have ar: "j < N \<Longrightarrow> j \<noteq> i \<Longrightarrow> carr s j = Suc R" for j
    by (auto simp: in_round_def split: if_splits)
  have loc: "j < N \<Longrightarrow> cxx_local R (cpc s j) (carr s j) (cdep s j)" for j
    using cxx_notify unfolding cxx_inv_def by blast
  have "cxx_local (Suc R) (notify_all (cpc s j)) (((carr s)(i := Suc (carr s i))) j)
          (((cdep s)(i := Suc (cdep s i))) j)" if "j < N" for j
    using loc [OF that] ar [OF that] i cxx_notify(2)
    by (cases "j = i"; cases "cpc s j") (auto simp: notify_all_def)
  moreover have "tsum N (in_round (Suc R)) ((carr s)(i := Suc (carr s i))) = 0"
    by (subst tsum_zero_iff) (use ar i in \<open>auto simp: in_round_def\<close>)
  moreover have "cb_pending (cxx_count_down (cb s)) = 0"
    using cxx_notify A by (auto simp: cxx_inv_def Let_def cxx_count_down_def split: if_splits)
  moreover have "cb_nthreads (cxx_count_down (cb s)) = int N"
    using cxx_notify by (simp add: cxx_inv_def cxx_count_down_def Let_def)
  ultimately have "cxx_inv N (Suc R) (s\<lparr>cb := cxx_count_down (cb s), cpc := notify_all \<circ> cpc s,
      carr := (carr s)(i := Suc (carr s i)), cdep := (cdep s)(i := Suc (cdep s i))\<rparr>)"
    using cxx_notify by (simp add: cxx_inv_def)
  then show ?case ..
next
  case (cxx_wake i s)
  then have "cxx_local R CAwake (carr s i) (cdep s i)" unfolding cxx_inv_def by metis
  with cxx_wake have "cxx_inv N R (s\<lparr>cpc := (cpc s)(i := COut), cdep := (cdep s)(i := Suc (cdep s i))\<rparr>)"
    by (auto simp: cxx_inv_def)
  then show ?case ..
next
  case (cxx_spurious i s)
  then show ?case by simp
qed

lemma cxx_reach_inv:
  "(cxx_step False N)\<^sup>*\<^sup>* (cxx_sys_init N) s \<Longrightarrow> 0 < N \<Longrightarrow> \<exists>R. cxx_inv N R s"
  by (induction rule: rtranclp_induct) (auto intro: cxx_inv_init dest: cxx_step_inv)

lemma cxx_local_bounds: "cxx_local R p a d \<Longrightarrow> d \<le> R \<and> R \<le> a \<and> a \<le> Suc d"
  by (cases p) auto

interpretation cxx: barrier_contract cxx_sys_init "cxx_step False" carr cdep "2 ^ 31"
proof (unfold_locales, goal_cases)
  case (1 N s i j)
  then obtain R where "cxx_inv N R s" using cxx_reach_inv by blast
  with 1 show ?case unfolding cxx_inv_def by (meson le_trans cxx_local_bounds)
next
  case (2 N s i)
  then obtain R where "cxx_inv N R s" using cxx_reach_inv by blast
  with 2 show ?case unfolding cxx_inv_def by (meson cxx_local_bounds)
qed

section \<open>Properties\<close>

text \<open>C22.
  The spinning barrier, used any number of times by its \<open>N\<close> threads (with the 32-bit
  counters wrapping around), never lets a thread out of a round before every thread has
  arrived in it, so two threads are never more than one round apart; each call that leaves a round
  returns a value, and of the calls of a round that any thread has left exactly one has returned \<open>true\<close>;
  and it does not deadlock: some thread can always make a step.
\<close>

theorem spin_barrier_correct:
  assumes "0 < N" and "N < 2 ^ 32" and "(spin_step N)\<^sup>*\<^sup>* (spin_sys_init N) s" and "i < N" and "j < N"
  shows "sdep s i \<le> sarr s j \<and> sdep s i \<le> Suc (sdep s j) \<and> length (srets s i) = sdep s i
    \<and> (\<forall>k < sdep s i. \<exists>!m. m < N \<and> k < length (srets s m) \<and> srets s m ! k) \<and> (\<exists>s'. spin_step N s s')"
proof -
  have inv: "spin_inv N s" and rets: "spin_rets N s" using spin_reach_inv spin_reach_rets assms by blast+
  then have "sdep s i \<le> strues s" using assms(4) unfolding spin_inv_def by (meson spin_local_bounds)
  moreover have "(m < N \<and> k < length (srets s m) \<and> srets s m ! k) = (m < N \<and> k < sdep s m \<and> srets s m ! k)" for m k
    using rets by (auto simp: spin_rets_def)
  ultimately show ?thesis
    using rets spin.no_early_departure [OF assms] spin.phases_overlap_by_one [OF assms] spin_progress [OF inv assms(1)] assms(4)
    unfolding spin_rets_def by simp
qed

text \<open>Two threads in their first round: thread 1 comes last and thread 0 has left.\<close>

theorem spin_barrier_correct_witness:
  "\<exists>s. (spin_step 2)\<^sup>*\<^sup>* (spin_sys_init 2) s \<and> srets s 0 = [False] \<and> srets s 1 = [True]
     \<and> sdep s 0 = 1 \<and> 1 \<le> sarr s 1 \<and> (\<exists>s'. spin_step 2 s s')"
proof -
  let ?run = "[0, 1, 0, 1, 1, 1, 0]"
  have "(spin_step 2)\<^sup>*\<^sup>* (spin_sys_init 2) (fold spin_next ?run (spin_sys_init 2))" by (rule spin_run) simp
  moreover have "srets (fold spin_next ?run (spin_sys_init 2)) 0 = [False]" "srets (fold spin_next ?run (spin_sys_init 2)) 1 = [True]"
    by code_simp+
  ultimately obtain s where s: "(spin_step 2)\<^sup>*\<^sup>* (spin_sys_init 2) s" "srets s 0 = [False]" "srets s 1 = [True]" by blast
  from spin_barrier_correct [OF _ _ s(1), of 0 1] s show ?thesis by auto
qed

text \<open>Without spurious wake-ups the sleeping barrier keeps the same contract: no thread
  leaves a round before every thread has arrived in it.
\<close>

theorem cxx_barrier_correct:
  assumes "0 < N" and "N < 2 ^ 31" and "(cxx_step False N)\<^sup>*\<^sup>* (cxx_sys_init N) s" and "i < N" and "j < N"
  shows "cdep s i \<le> carr s j \<and> cdep s i \<le> Suc (cdep s j)"
  using cxx.no_early_departure [OF assms] cxx.phases_overlap_by_one [OF assms] by blast

theorem cxx_barrier_correct_witness:
  "\<exists>s. (cxx_step False 2)\<^sup>*\<^sup>* (cxx_sys_init 2) s \<and> carr s 0 = 1 \<and> cdep s 0 \<le> carr s 1"
proof -
  let ?s = "cxx_sys_init 2"
  have st: "cxx_step False 2 ?s (?s\<lparr>cb := cxx_count_down (cb ?s), cpc := (cpc ?s)(0 := CAsleep),
      carr := (carr ?s)(0 := Suc (carr ?s 0))\<rparr>)" (is "cxx_step _ _ _ ?t")
    by (rule cxx_sleep) (simp_all add: cxx_sys_init_def cxx_init_def cxx_count_down_def)
  then have r: "(cxx_step False 2)\<^sup>*\<^sup>* ?s ?t" by (rule r_into_rtranclp)
  moreover have "carr ?t 0 = 1" by (simp add: cxx_sys_init_def)
  moreover have "cdep ?t 0 \<le> carr ?t 1" using cxx_barrier_correct [OF _ _ r, of 0 1] by simp
  ultimately show ?thesis by blast
qed

text \<open>With spurious wake-ups, which the C++ standard allows and \<open>wait()\<close> does not guard
  against (it waits without a predicate), the sleeping barrier is broken: one of two
  threads can pass it while the other has never arrived.
\<close>

theorem cxx_barrier_spurious_wakeup:
  "\<exists>s. (cxx_step True 2)\<^sup>*\<^sup>* (cxx_sys_init 2) s \<and> cdep s 0 = 1 \<and> carr s 1 = 0"
proof -
  let ?s = "cxx_sys_init 2"
  let ?t = "?s\<lparr>cb := cxx_count_down (cb ?s), cpc := (cpc ?s)(0 := CAsleep),
      carr := (carr ?s)(0 := Suc (carr ?s 0))\<rparr>"
  let ?u = "?t\<lparr>cpc := (cpc ?t)(0 := CAwake)\<rparr>"
  let ?v = "?u\<lparr>cpc := (cpc ?u)(0 := COut), cdep := (cdep ?u)(0 := Suc (cdep ?u 0))\<rparr>"
  have "cxx_step True 2 ?s ?t"
    by (rule cxx_sleep) (simp_all add: cxx_sys_init_def cxx_init_def cxx_count_down_def)
  moreover have "cxx_step True 2 ?t ?u" by (rule cxx_spurious) simp_all
  moreover have "cxx_step True 2 ?u ?v" by (rule cxx_wake) simp_all
  ultimately have "(cxx_step True 2)\<^sup>*\<^sup>* ?s ?v" by (meson converse_rtranclp_into_rtranclp rtranclp.rtrancl_refl)
  moreover have "cdep ?v 0 = 1 \<and> carr ?v 1 = 0" by (simp add: cxx_sys_init_def)
  ultimately show ?thesis by blast
qed

end
