(* ===== verification/Runtime_Api.thy ===== *)
theory Runtime_Api
  imports Wakeup Barriers
begin

text \<open>
  The interface of the runtime (\<open>src/tao_sched.cpp\<close> up to \<open>worker_loop\<close>, and the parts of
  \<open>worker_loop\<close> before its loop): the CPU mask, initialisation, start and end of the
  workers, and the choice of a ready queue by \<open>xitao_push\<close>. The environment, the files,
  the CPU mask, \<open>sched_getcpu\<close> and \<open>rand\<close> are parameters.
\<close>

section \<open>State\<close>

text \<open>\<open>t[i]\<close>: a null pointer, a thread that runs, or one that has been joined.\<close>

datatype thread_state = No_thread | Created | Joined

text \<open>Errors: \<open>exit(0)\<close> with a message, an access outside an array, a division by zero, a null pointer, an exception.\<close>

datatype api_error = Api_exit | Api_out_of_bounds | Api_division | Api_null | Api_exception | Api_overflow

record api =
  alay :: layout
  resources_runtime_controlled :: bool
  runtime_resource_mapper :: "nat list"
  gotao_initialized :: bool
  gotao_started :: bool
  gotao_can_exit :: bool
  suppress_init_warnings :: bool
  gotao_ncontexts :: int
  gotao_thread_base :: int
  tao_total_steals :: int
  starting_barrier :: "int option"
  tao_barrier :: "cxx_barrier option"
  smpd_region_lock :: "nat option"
  threads :: "thread_state list"

definition init_api :: api where
  "init_api = \<lparr>alay = init_layout, resources_runtime_controlled = False, runtime_resource_mapper = [],
     gotao_initialized = False, gotao_started = False, gotao_can_exit = False, suppress_init_warnings = False,
     gotao_ncontexts = 0, gotao_thread_base = 0, tao_total_steals = 0, starting_barrier = None, tao_barrier = None, smpd_region_lock = None,
     threads = replicate XITAO_MAXTHREADS No_thread\<rparr>"

section \<open>The CPU mask\<close>

text \<open>The number of CPUs a \<open>cpu_set_t\<close> can hold.\<close>

definition CPU_SETSIZE :: nat where "CPU_SETSIZE = 1024"

definition cpu_count :: "(nat \<Rightarrow> bool) \<Rightarrow> nat" where
  "cpu_count cpus = length (filter cpus [0..<CPU_SETSIZE])"

definition resize :: "nat \<Rightarrow> nat list \<Rightarrow> nat list" where
  "resize n v = take n v @ replicate (n - length v) 0"

text \<open>The loop over the first \<open>XITAO_MAXTHREADS\<close> CPUs; \<open>j\<close> is where the next set one goes.\<close>

fun fill_mapper :: "(nat \<Rightarrow> bool) \<Rightarrow> nat list \<Rightarrow> nat \<Rightarrow> nat list \<Rightarrow> nat list" where
  "fill_mapper cpus [] j v = v"
| "fill_mapper cpus (i # is) j v =
     (if cpus i then fill_mapper cpus is (j + 1) (v[j := i]) else fill_mapper cpus is j v)"

definition set_xitao_mask :: "(nat \<Rightarrow> bool) \<Rightarrow> api \<Rightarrow> api" where
  "set_xitao_mask cpus a =
     (if gotao_initialized a then a
      else a\<lparr>resources_runtime_controlled := True,
             runtime_resource_mapper := fill_mapper cpus [0..<XITAO_MAXTHREADS] 0
               (resize (cpu_count cpus) (runtime_resource_mapper a))\<rparr>)"

section \<open>Initialisation\<close>

text \<open>A non-negative argument, else the environment variable, else the default.\<close>

definition arg_env :: "(string \<Rightarrow> string option) \<Rightarrow> string \<Rightarrow> int \<Rightarrow> int \<Rightarrow> int" where
  "arg_env getenv name dflt v = (if v \<ge> 0 then v else case getenv name of Some s \<Rightarrow> atoi s | None \<Rightarrow> dflt)"

definition set_nthreads :: "int \<Rightarrow> api \<Rightarrow> api" where
  "set_nthreads n a = a\<lparr>alay := (alay a)\<lparr>xitao_nthreads := n\<rparr>\<rparr>"

definition init_tables ::
    "(string \<Rightarrow> string option) \<Rightarrow> (string \<Rightarrow> string list option) \<Rightarrow> api \<Rightarrow> api_error + api" where
  "init_tables getenv files a =
     (case getenv ''XITAO_LAYOUT_PATH'' of
        Some path \<Rightarrow>
          if resources_runtime_controlled a then Inr a
          else (case read_layout_table (files path) (alay a) of
                  Inl Fatal_exit \<Rightarrow> Inl Api_exit
                | Inl Invalid_number \<Rightarrow> Inl Api_exception
                | Inl Out_of_bounds \<Rightarrow> Inl Api_out_of_bounds
                | Inr L \<Rightarrow> Inr (a\<lparr>alay := L\<rparr>))
      | None \<Rightarrow>
          let L = (if resources_runtime_controlled a then alay a
                   else (alay a)\<lparr>static_resource_mapper := map int [0..<XITAO_MAXTHREADS]\<rparr>)
          in case prepare_default_layout (xitao_nthreads L) L of
               None \<Rightarrow> Inl Api_out_of_bounds
             | Some L' \<Rightarrow> Inr (a\<lparr>alay := L'\<rparr>))"

definition xitao_init_hw ::
    "(string \<Rightarrow> string option) \<Rightarrow> (string \<Rightarrow> string list option) \<Rightarrow> int \<Rightarrow> int \<Rightarrow> int \<Rightarrow> api \<Rightarrow> api_error + api" where
  "xitao_init_hw getenv files nthr thrb nhwc a =
     (let a1 = (if gotao_initialized a then a\<lparr>alay := clear_layout_partitions (alay a)\<rparr> else a);
          n = arg_env getenv ''GOTAO_NTHREADS'' (int XITAO_MAXTHREADS) nthr
      in if n > int XITAO_MAXTHREADS then Inl Api_exit
         else let a2 = set_nthreads
                (if resources_runtime_controlled a1 then int (length (runtime_resource_mapper a1)) else n) a1
         in case init_tables getenv files a2 of
              Inl e \<Rightarrow> Inl e
            | Inr a3 \<Rightarrow> Inr (a3\<lparr>gotao_ncontexts := arg_env getenv ''GOTAO_HW_CONTEXTS'' 1 nhwc,
                gotao_thread_base := arg_env getenv ''GOTAO_THREAD_BASE'' 0 thrb,
                suppress_init_warnings := True, gotao_initialized := True\<rparr>))"

definition xitao_init ::
    "(string \<Rightarrow> string option) \<Rightarrow> (string \<Rightarrow> string list option) \<Rightarrow> config \<Rightarrow> api \<Rightarrow> api_error + api" where
  "xitao_init getenv files c = xitao_init_hw getenv files (cfg_nthreads c) (thread_base c) (hw_contexts c)"

section \<open>Start, end and the core of a worker\<close>

definition xitao_start :: "api \<Rightarrow> api_error + api" where
  "xitao_start a =
     (if gotao_started a then Inr a
      else if xitao_nthreads (alay a) > int (length (threads a)) then Inl Api_out_of_bounds
      else Inr (a\<lparr>starting_barrier := Some (xitao_nthreads (alay a) + 1), tao_barrier := Some (cxx_init 2),
                  threads := map (\<lambda>i. if int i < xitao_nthreads (alay a) then Created else threads a ! i)
                    [0..<length (threads a)],
                  gotao_started := True\<rparr>))"

text \<open>\<open>t[i]->join()\<close> for \<open>k\<close> threads from \<open>i\<close>; it returns when the worker has left its loop.\<close>

fun join_threads :: "nat \<Rightarrow> nat \<Rightarrow> thread_state list \<Rightarrow> api_error + thread_state list" where
  "join_threads 0 i ts = Inr ts"
| "join_threads (Suc k) i ts =
     (if length ts \<le> i then Inl Api_out_of_bounds
      else case ts ! i of
             No_thread \<Rightarrow> Inl Api_null
           | Joined \<Rightarrow> Inl Api_exception
           | Created \<Rightarrow> join_threads k (i + 1) (ts[i := Joined]))"

definition xitao_fini :: "api \<Rightarrow> api_error + api" where
  "xitao_fini a =
     (let a1 = a\<lparr>resources_runtime_controlled := False, gotao_can_exit := True, gotao_started := False, tao_total_steals := 0\<rparr>
      in case join_threads (nat (xitao_nthreads (alay a1))) 0 (threads a1) of
           Inl e \<Rightarrow> Inl e
         | Inr ts \<Rightarrow> Inr (a1\<lparr>threads := ts\<rparr>))"

text \<open>The condition \<open>xitao_drain\<close> waits for.\<close>

definition xitao_drain_done :: "rt \<Rightarrow> bool" where
  "xitao_drain_done r \<longleftrightarrow> pending_tasks r \<le> 0"

text \<open>The barrier between the master and a task, and the calls that wait at it: a null pointer before the first start.\<close>

definition xitao_barrier :: "api \<Rightarrow> api_error + cxx_sys" where
  "xitao_barrier a = (case tao_barrier a of
     None \<Rightarrow> Inl Api_null
   | Some b \<Rightarrow> Inr \<lparr>cb = b, cpc = (\<lambda>_. COut), carr = (\<lambda>_. 0), cdep = (\<lambda>_. 0)\<rparr>)"

text \<open>
  The mutex of single regions, with the thread that holds it: a call that waits, or an unlock by
  another thread (which is undefined), is \<open>None\<close>.
\<close>

definition xitao_lock :: "nat \<Rightarrow> api \<Rightarrow> api option" where
  "xitao_lock n a = (if smpd_region_lock a = None then Some (a\<lparr>smpd_region_lock := Some n\<rparr>) else None)"

definition xitao_unlock :: "nat \<Rightarrow> api \<Rightarrow> api option" where
  "xitao_unlock n a = (if smpd_region_lock a = Some n then Some (a\<lparr>smpd_region_lock := None\<rparr>) else None)"

lemma xitao_barrier_of_two:
  assumes "\<not> gotao_started a" "xitao_start a = Inr b" "xitao_barrier b = Inr s0" "(cxx_step False 2)\<^sup>*\<^sup>* s0 s" "i < 2" "j < 2"
  shows "cdep s i \<le> carr s j"
proof -
  have "s0 = cxx_sys_init 2"
    using assms(1-3) by (auto simp: xitao_start_def xitao_barrier_def cxx_sys_init_def split: if_splits)
  then show ?thesis using cxx.no_early_departure [of 2 s i j] assms(4-6) by simp
qed

lemma region_lock_excludes:
  assumes "xitao_lock m a = Some b"
  shows "xitao_lock n b = None" "xitao_unlock m b = Some a" "n \<noteq> m \<Longrightarrow> xitao_unlock n b = None"
  using assms by (auto simp: xitao_lock_def xitao_unlock_def split: if_splits)

text \<open>The physical core a worker binds itself to.\<close>

definition worker_core :: "api \<Rightarrow> nat \<Rightarrow> api_error + int" where
  "worker_core a n =
     (if resources_runtime_controlled a
      then if length (runtime_resource_mapper a) \<le> n then Inl Api_exit else Inr (int (runtime_resource_mapper a ! n))
      else let d = int XITAO_MAXTHREADS - gotao_thread_base a in
        if d = 0 then Inl Api_division
        else let i = gotao_thread_base a + int n smod d in
          if 0 \<le> i \<and> i < int (length (static_resource_mapper (alay a)))
          then Inr (static_resource_mapper (alay a) ! nat i) else Inl Api_out_of_bounds)"

section \<open>The choice of a queue\<close>

text \<open>\<open>queue >= runtime_resource_mapper.size()\<close> compares unsigned numbers: a negative queue is large.\<close>

definition check_and_get_available_queue :: "nat \<Rightarrow> api \<Rightarrow> int \<Rightarrow> api_error + int" where
  "check_and_get_available_queue rand a qu =
     (let sz = length (runtime_resource_mapper a) in
      if qu < 0 \<or> int sz \<le> qu
      then if sz = 0 then Inl Api_division else Inr (int (rand mod sz))
      else Inr qu)"

text \<open>The search for a queue whose thread is in some place; \<open>None\<close> is a loop that does not end.\<close>

partial_function (option) find_queue :: "place list list \<Rightarrow> int \<Rightarrow> int \<Rightarrow> (api_error + int) option" where
  "find_queue parts n q =
     (if \<not> (0 \<le> q \<and> q < int (length parts)) then Some (Inl Api_out_of_bounds)
      else if parts ! nat q \<noteq> [] then Some (Inr q)
      else if n = 0 then Some (Inl Api_division)
      else find_queue parts n ((q + 1) smod n))"

definition wanted_queue :: "config \<Rightarrow> int \<Rightarrow> poly_task \<Rightarrow> int \<Rightarrow> int" where
  "wanted_queue c cpu pt qu =
     (if qu = -1 \<and> affinity_queue pt \<noteq> -1 \<and> sta c \<noteq> 0 then affinity_queue pt
      else if qu = -1 then cpu else qu)"

definition push_queue :: "nat \<Rightarrow> int \<Rightarrow> api \<Rightarrow> config \<Rightarrow> poly_task \<Rightarrow> int \<Rightarrow> (api_error + int) option" where
  "push_queue rand cpu a c pt qu =
     (let q = wanted_queue c cpu pt qu in
      if resources_runtime_controlled a then Some (check_and_get_available_queue rand a q)
      else find_queue (inclusive_partitions (alay a)) (xitao_nthreads (alay a)) q)"

definition xitao_push :: "nat \<Rightarrow> int \<Rightarrow> api \<Rightarrow> tid \<Rightarrow> int \<Rightarrow> rt \<Rightarrow> (api_error + rt) option" where
  "xitao_push rand cpu a t qu r =
     (case push_queue rand cpu a (conf r) (tasks r t) qu of
        None \<Rightarrow> None
      | Some (Inl e) \<Rightarrow> Some (Inl e)
      | Some (Inr q) \<Rightarrow>
          let r' = (if use_performance_modeling (conf r) then attach_ptt t r else r)
          in if 0 \<le> q \<and> q < int XITAO_MAXTHREADS then Some (Inr (insert_in_ready_queue t (nat q) r'))
             else Some (Inl Api_out_of_bounds))"

definition gotao_push_init :: "nat \<Rightarrow> api \<Rightarrow> tid \<Rightarrow> int \<Rightarrow> rt \<Rightarrow> api_error + rt" where
  "gotao_push_init rand a t qu r =
     (let q = (if qu = -1 \<and> affinity_queue (tasks r t) \<noteq> -1 then affinity_queue (tasks r t)
               else if qu = -1 then gotao_thread_base a else qu)
      in case (if resources_runtime_controlled a then check_and_get_available_queue rand a q else Inr q) of
           Inl e \<Rightarrow> Inl e
         | Inr q' \<Rightarrow> if 0 \<le> q' \<and> q' < int XITAO_MAXTHREADS then Inr (insert_in_ready_queue t (nat q') r)
                     else Inl Api_out_of_bounds)"

section \<open>The choice of a victim\<close>

text \<open>
  The inner loop of a steal: it repeats while it has chosen the thread itself and, as only
  the local variant counts, \<open>local_steal_tries\<close> is below 2. The argument \<open>rs k\<close> is the
  result of the \<open>k\<close>-th call of \<open>rand_r\<close>. The local choice is among the places of the
  thread's last partition, the global among all threads.
\<close>

definition pick_core :: "bool \<Rightarrow> place \<Rightarrow> int \<Rightarrow> nat \<Rightarrow> int" where
  "pick_core locally part nthreads v =
     (if locally then fst part + int v mod snd part else int v mod nthreads)"

partial_function (option) pick_victim ::
    "bool \<Rightarrow> place \<Rightarrow> int \<Rightarrow> nat \<Rightarrow> (nat \<Rightarrow> nat) \<Rightarrow> nat \<Rightarrow> nat \<Rightarrow> int option" where
  "pick_victim locally part nthreads n rs k tries =
     (let c = pick_core locally part nthreads (rs k); tries' = (if locally then tries + 1 else tries)
      in if c = int n \<and> tries' < 2 then pick_victim locally part nthreads n rs (k + 1) tries' else Some c)"

section \<open>Lemmas\<close>

text \<open>The loop of \<open>set_xitao_mask\<close> overwrites a prefix of the vector.\<close>

lemma fill_mapper_spec:
  "j + length (filter cpus is) \<le> length v \<Longrightarrow>
   fill_mapper cpus is j v = take j v @ filter cpus is @ drop (j + length (filter cpus is)) v"
proof (induction "is" arbitrary: j v)
  case (Cons i "is")
  show ?case
  proof (cases "cpus i")
    case True
    then have "fill_mapper cpus (i # is) j v
        = take (j + 1) (v[j := i]) @ filter cpus is @ drop (j + 1 + length (filter cpus is)) (v[j := i])"
      using Cons.IH [of "j + 1" "v[j := i]"] Cons.prems by simp
    moreover have "take (j + 1) (v[j := i]) = take j v @ [i]"
      using Cons.prems True by (simp add: take_Suc_conv_app_nth)
    ultimately show ?thesis using True by simp
  qed (use Cons in simp)
qed simp

lemma length_resize [simp]: "length (resize n v) = n"
  by (simp add: resize_def)

lemma filter_first_cpus:
  assumes "\<forall>i<CPU_SETSIZE. cpus i \<longrightarrow> i < XITAO_MAXTHREADS"
  shows "cpu_count cpus = length (filter cpus [0..<XITAO_MAXTHREADS])"
proof -
  have "[0..<CPU_SETSIZE] = [0..<XITAO_MAXTHREADS] @ [XITAO_MAXTHREADS..<CPU_SETSIZE]"
    using upt_add_eq_append [of 0 64 960] by (simp add: CPU_SETSIZE_def XITAO_MAXTHREADS_def)
  moreover have "filter cpus [XITAO_MAXTHREADS..<CPU_SETSIZE] = []"
    using assms by (auto simp: filter_empty_conv)
  ultimately show ?thesis by (simp add: cpu_count_def)
qed

lemma mapper_of_small_mask:
  assumes "\<forall>i<CPU_SETSIZE. cpus i \<longrightarrow> i < XITAO_MAXTHREADS" and "\<not> gotao_initialized a"
  shows "runtime_resource_mapper (set_xitao_mask cpus a) = filter cpus [0..<XITAO_MAXTHREADS]"
  using assms filter_first_cpus [OF assms(1)] by (simp add: set_xitao_mask_def fill_mapper_spec)

text \<open>An insertion outside the vector anywhere in the sequence makes the sequence undefined.\<close>

lemma push_back_all_bad: "(i, x) \<in> set ps \<Longrightarrow> int (length v) \<le> i \<Longrightarrow> push_back_all ps v = None"
proof (induction ps arbitrary: v)
  case (Cons p ps)
  obtain k y where p: "p = (k, y)" by fastforce
  show ?case
  proof (cases "push_back_at k y v")
    case (Some v')
    then have "length v' = length v" "\<not> int (length v) \<le> k" by (auto simp: push_back_at_def split: if_splits)
    with Cons p Some show ?thesis by auto
  qed (simp add: p)
qed simp

lemma default_layout_overflows:
  assumes "int (length (ptt_layout L)) < n" and "length (ptt_layout L) = XITAO_MAXTHREADS"
  shows "prepare_default_layout n L = None"
proof -
  have n: "64 < n" using assms by (simp add: XITAO_MAXTHREADS_def)
  then have "(64, 1) \<in> set (layout_pushes n (default_widths n))"
    by (simp add: set_layout_pushes set_default_widths set_stride)
  then have "push_back_all (layout_pushes n (default_widths n)) (ptt_layout L) = None"
    using assms(2) by (intro push_back_all_bad) (auto simp: XITAO_MAXTHREADS_def)
  then show ?thesis by (simp add: prepare_default_layout_def)
qed

lemma init_tables_sel:
  "init_tables getenv files a = Inr a' \<Longrightarrow> runtime_resource_mapper a' = runtime_resource_mapper a
    \<and> resources_runtime_controlled a' = resources_runtime_controlled a \<and> gotao_can_exit a' = gotao_can_exit a
    \<and> gotao_started a' = gotao_started a \<and> threads a' = threads a"
  by (auto simp: init_tables_def Let_def split: option.splits sum.splits layout_error.splits if_splits)

lemma init_tables_controlled:
  "init_tables getenv files a = Inr a' \<Longrightarrow> resources_runtime_controlled a \<Longrightarrow>
   \<exists>lay inc. alay a' = (alay a)\<lparr>ptt_layout := lay, inclusive_partitions := inc\<rparr>"
  by (auto simp: init_tables_def prepare_default_layout_def Let_def split: option.splits bind_splits)
    (metis layout.surjective layout.update_convs(1,2))+

text \<open>The default layout depends on nothing but the tables it extends.\<close>

lemma prepare_default_layout_cong:
  "ptt_layout L = ptt_layout L0 \<Longrightarrow> inclusive_partitions L = inclusive_partitions L0 \<Longrightarrow>
   prepare_default_layout n L0 = Some L0' \<Longrightarrow>
   \<exists>L'. prepare_default_layout n L = Some L' \<and> ptt_layout L' = ptt_layout L0'
     \<and> inclusive_partitions L' = inclusive_partitions L0'
     \<and> static_resource_mapper L' = static_resource_mapper L \<and> xitao_nthreads L' = xitao_nthreads L"
  by (auto simp: prepare_default_layout_def split: bind_splits)

text \<open>The tables \<open>xitao_init_hw\<close> starts from, and what it does when no layout file is named.\<close>

definition cleared :: "api \<Rightarrow> api" where
  "cleared a = (if gotao_initialized a then a\<lparr>alay := clear_layout_partitions (alay a)\<rparr> else a)"

lemma cleared_sel [simp]:
  "resources_runtime_controlled (cleared a) = resources_runtime_controlled a"
  "runtime_resource_mapper (cleared a) = runtime_resource_mapper a" "gotao_can_exit (cleared a) = gotao_can_exit a"
  "gotao_started (cleared a) = gotao_started a" "threads (cleared a) = threads a"
  by (simp_all add: cleared_def)

definition init_threads :: "(string \<Rightarrow> string option) \<Rightarrow> int \<Rightarrow> api \<Rightarrow> int" where
  "init_threads getenv nthr a =
     (if resources_runtime_controlled a then int (length (runtime_resource_mapper a))
      else arg_env getenv ''GOTAO_NTHREADS'' (int XITAO_MAXTHREADS) nthr)"

lemma init_hw_tables:
  assumes "xitao_init_hw getenv files nthr thrb nhwc a = Inr a2"
  shows "\<exists>a3. init_tables getenv files (set_nthreads (init_threads getenv nthr a) (cleared a)) = Inr a3
    \<and> alay a2 = alay a3 \<and> runtime_resource_mapper a2 = runtime_resource_mapper a
    \<and> resources_runtime_controlled a2 = resources_runtime_controlled a
    \<and> gotao_can_exit a2 = gotao_can_exit a \<and> gotao_started a2 = gotao_started a \<and> threads a2 = threads a
    \<and> gotao_initialized a2"
proof -
  obtain a3 where t: "init_tables getenv files (set_nthreads (init_threads getenv nthr a) (cleared a)) = Inr a3"
    and a2: "a2 = a3\<lparr>gotao_ncontexts := arg_env getenv ''GOTAO_HW_CONTEXTS'' 1 nhwc,
        gotao_thread_base := arg_env getenv ''GOTAO_THREAD_BASE'' 0 thrb, suppress_init_warnings := True,
        gotao_initialized := True\<rparr>"
    using assms cleared_sel(1,2) [of a] unfolding xitao_init_hw_def init_threads_def Let_def cleared_def [symmetric]
    by (auto split: if_splits sum.splits)
  from init_tables_sel [OF t] have "runtime_resource_mapper a3 = runtime_resource_mapper a"
    "resources_runtime_controlled a3 = resources_runtime_controlled a" "gotao_can_exit a3 = gotao_can_exit a"
    "gotao_started a3 = gotao_started a" "threads a3 = threads a" by (simp_all add: set_nthreads_def)
  with t a2 show ?thesis by simp
qed

lemma init_hw_default:
  assumes "ptt_layout (alay (cleared a)) = ptt_layout init_layout"
    and "inclusive_partitions (alay (cleared a)) = inclusive_partitions init_layout"
    and "getenv ''XITAO_LAYOUT_PATH'' = None" and "arg_env getenv ''GOTAO_NTHREADS'' (int XITAO_MAXTHREADS) nthr \<le> 64"
    and L: "prepare_default_layout (init_threads getenv nthr a) init_layout = Some L"
  shows "\<exists>a2. xitao_init_hw getenv files nthr thrb nhwc a = Inr a2
    \<and> ptt_layout (alay a2) = ptt_layout L \<and> inclusive_partitions (alay a2) = inclusive_partitions L
    \<and> xitao_nthreads (alay a2) = init_threads getenv nthr a
    \<and> (\<not> resources_runtime_controlled a \<longrightarrow> static_resource_mapper (alay a2) = map int [0..<XITAO_MAXTHREADS])"
proof -
  let ?n = "init_threads getenv nthr a"
  let ?L = "if resources_runtime_controlled a then (alay (cleared a))\<lparr>xitao_nthreads := ?n\<rparr>
    else (alay (cleared a))\<lparr>xitao_nthreads := ?n, static_resource_mapper := map int [0..<XITAO_MAXTHREADS]\<rparr>"
  have "ptt_layout ?L = ptt_layout init_layout" "inclusive_partitions ?L = inclusive_partitions init_layout"
    using assms(1,2) by simp_all
  from prepare_default_layout_cong [OF this L] obtain L' where L': "prepare_default_layout ?n ?L = Some L'"
    "ptt_layout L' = ptt_layout L" "inclusive_partitions L' = inclusive_partitions L"
    "static_resource_mapper L' = static_resource_mapper ?L" "xitao_nthreads L' = xitao_nthreads ?L" by blast
  have "init_tables getenv files (set_nthreads ?n (cleared a)) = Inr ((set_nthreads ?n (cleared a))\<lparr>alay := L'\<rparr>)"
    using L'(1) assms(3) by (auto simp: init_tables_def set_nthreads_def Let_def)
  then have "xitao_init_hw getenv files nthr thrb nhwc a = Inr (((set_nthreads ?n (cleared a))\<lparr>alay := L'\<rparr>)
      \<lparr>gotao_ncontexts := arg_env getenv ''GOTAO_HW_CONTEXTS'' 1 nhwc,
        gotao_thread_base := arg_env getenv ''GOTAO_THREAD_BASE'' 0 thrb, suppress_init_warnings := True,
        gotao_initialized := True\<rparr>)"
    using assms(4) cleared_sel(1,2) [of a]
    unfolding xitao_init_hw_def init_threads_def Let_def cleared_def [symmetric]
    by (cases "resources_runtime_controlled a"; simp add: XITAO_MAXTHREADS_def)
  with L'(2-5) show ?thesis by auto
qed

lemma default_layout_exists: "n \<le> 64 \<Longrightarrow> \<exists>L. prepare_default_layout n init_layout = Some L"
  using default_layout_spec [of n init_layout] by (auto simp: init_layout_def XITAO_MAXTHREADS_def)

section \<open>Properties\<close>

text \<open>The CPU mask. Before initialisation, and when the mask names only CPUs below 64, the
  runtime gets exactly one worker for each CPU of the mask, whatever number of threads is
  asked for, and the workers are bound to those CPUs in ascending order; a further worker
  refuses to run.
\<close>

theorem mask_gives_one_worker_per_cpu:
  assumes "\<not> gotao_initialized a" and "\<forall>i<1024. cpus i \<longrightarrow> i < 64"
    and "xitao_init_hw getenv files nthr thrb nhwc (set_xitao_mask cpus a) = Inr a2"
  shows "xitao_nthreads (alay a2) = int (length (filter cpus [0..<64]))
    \<and> map (worker_core a2) [0..<length (filter cpus [0..<64])] = map (\<lambda>c. Inr (int c)) (filter cpus [0..<64])
    \<and> (\<forall>n\<ge>length (filter cpus [0..<64]). worker_core a2 n = Inl Api_exit)"
proof -
  let ?a1 = "set_xitao_mask cpus a"
  define F where "F = filter cpus [0..<64]"
  have m: "runtime_resource_mapper ?a1 = F"
    using mapper_of_small_mask [of cpus a, unfolded CPU_SETSIZE_def XITAO_MAXTHREADS_def, OF assms(2,1)] unfolding F_def .
  have c: "resources_runtime_controlled ?a1" "\<not> gotao_initialized ?a1" using assms(1) by (simp_all add: set_xitao_mask_def)
  from init_hw_tables [OF assms(3)] obtain a3 where
    t: "init_tables getenv files (set_nthreads (init_threads getenv nthr ?a1) (cleared ?a1)) = Inr a3"
    and a2: "alay a2 = alay a3" "runtime_resource_mapper a2 = F" "resources_runtime_controlled a2"
    using c m by auto
  have "xitao_nthreads (alay a2) = int (length F)"
    using init_tables_controlled [OF t] c m a2(1) by (auto simp: set_nthreads_def init_threads_def)
  moreover have "map (worker_core a2) [0..<length F] = map (\<lambda>c. Inr (int c)) F"
    using a2(2,3) by (intro nth_equalityI) (simp_all add: worker_core_def)
  moreover have "\<forall>n\<ge>length F. worker_core a2 n = Inl Api_exit" using a2(2,3) by (simp add: worker_core_def)
  ultimately show ?thesis unfolding F_def by blast
qed

theorem mask_gives_one_worker_per_cpu_witness:
  "\<exists>a. xitao_init_hw (\<lambda>_. None) (\<lambda>_. None) 8 0 1 (set_xitao_mask (\<lambda>i. i = 3 \<or> i = 9) init_api) = Inr a
     \<and> xitao_nthreads (alay a) = 2 \<and> worker_core a 1 = Inr 9 \<and> worker_core a 2 = Inl Api_exit"
proof -
  let ?a = "set_xitao_mask (\<lambda>i. i = 3 \<or> i = 9) init_api"
  have f: "filter (\<lambda>i. i = 3 \<or> i = 9) [0..<64] = [3, 9::nat]" by code_simp
  have m: "runtime_resource_mapper ?a = [3, 9]"
    using mapper_of_small_mask [of "\<lambda>i. i = 3 \<or> i = 9" init_api] f by (simp add: init_api_def XITAO_MAXTHREADS_def)
  obtain L where "prepare_default_layout 2 init_layout = Some L" using default_layout_exists [of 2] by auto
  moreover have c: "cleared ?a = ?a" "alay ?a = init_layout" "resources_runtime_controlled ?a"
    by (simp_all add: cleared_def set_xitao_mask_def init_api_def)
  ultimately obtain a where a: "xitao_init_hw (\<lambda>_. None) (\<lambda>_. None) 8 0 1 ?a = Inr a"
    using init_hw_default [of ?a "\<lambda>_. None" 8 L "\<lambda>_. None" 0 1] m by (auto simp: arg_env_def init_threads_def)
  from mask_gives_one_worker_per_cpu [OF _ _ a, unfolded f]
  have "xitao_nthreads (alay a) = 2 \<and> map (worker_core a) [0..<2] = [Inr 3, Inr 9] \<and> worker_core a 2 = Inl Api_exit"
    by (auto simp: init_api_def numeral_2_eq_2)
  with a show ?thesis by (auto simp: numeral_2_eq_2)
qed

text \<open>The number of CPUs in a mask is not checked against the tables: with more than 64 CPUs
  in the mask and no layout file, initialisation writes outside \<open>ptt_layout\<close>.
\<close>

theorem large_mask_leaves_tables:
  assumes "64 < cpu_count cpus" and "getenv ''XITAO_LAYOUT_PATH'' = None" and "0 \<le> nthr" and "nthr \<le> 64"
  shows "xitao_init_hw getenv files nthr thrb nhwc (set_xitao_mask cpus init_api) = Inl Api_out_of_bounds"
proof -
  let ?a = "set_xitao_mask cpus init_api"
  have len: "length (runtime_resource_mapper ?a) = cpu_count cpus"
  proof -
    have "length (fill_mapper cpus is j v) = length v" for "is" j v
      by (induction "is" arbitrary: j v) auto
    then show ?thesis by (simp add: set_xitao_mask_def init_api_def)
  qed
  have "prepare_default_layout (int (cpu_count cpus)) L = None" if "ptt_layout L = ptt_layout init_layout" for L
    using that assms(1) by (intro default_layout_overflows) (auto simp: init_layout_def XITAO_MAXTHREADS_def)
  moreover have "alay ?a = init_layout" "resources_runtime_controlled ?a" "\<not> gotao_initialized ?a"
    by (simp_all add: set_xitao_mask_def init_api_def)
  ultimately have "init_tables getenv files (set_nthreads (int (cpu_count cpus)) ?a) = Inl Api_out_of_bounds"
    using assms(2) by (simp add: init_tables_def set_nthreads_def Let_def)
  then show ?thesis
    using assms(3,4) len \<open>resources_runtime_controlled ?a\<close> \<open>\<not> gotao_initialized ?a\<close>
    by (simp add: xitao_init_hw_def arg_env_def XITAO_MAXTHREADS_def)
qed

theorem large_mask_leaves_tables_witness:
  "xitao_init_hw (\<lambda>_. None) (\<lambda>_. None) 8 0 1 (set_xitao_mask (\<lambda>i. i < 65) init_api) = Inl Api_out_of_bounds"
proof -
  have "filter (\<lambda>i. i < 65) [0..<CPU_SETSIZE] = [0..<65]"
  proof -
    have "[0..<CPU_SETSIZE] = [0..<65] @ [65..<CPU_SETSIZE]" using upt_add_eq_append [of 0 65 959] by (simp add: CPU_SETSIZE_def)
    then show ?thesis by simp
  qed
  then have "64 < cpu_count (\<lambda>i. i < 65)" by (simp add: cpu_count_def)
  then show ?thesis by (intro large_mask_leaves_tables) auto
qed

text \<open>Initialising again forgets the previous layout. On a runtime that was initialised before,
  whatever its tables hold, and without mask and layout file, initialisation with any
  number of threads the tables can hold succeeds and gives the tables, the affinities and
  the number of threads that a first initialisation gives.
\<close>

theorem reinit_forgets_previous_layout:
  assumes "gotao_initialized a" and "\<not> resources_runtime_controlled a"
    and "length (ptt_layout (alay a)) = 64" and "length (inclusive_partitions (alay a)) = 64"
    and "getenv ''XITAO_LAYOUT_PATH'' = None" and "0 \<le> n" and "n \<le> 64"
  shows "\<exists>a2 b2. xitao_init_hw getenv files n thrb nhwc a = Inr a2 \<and> xitao_init_hw getenv files n thrb nhwc init_api = Inr b2
    \<and> ptt_layout (alay a2) = ptt_layout (alay b2) \<and> inclusive_partitions (alay a2) = inclusive_partitions (alay b2)
    \<and> static_resource_mapper (alay a2) = static_resource_mapper (alay b2)
    \<and> xitao_nthreads (alay a2) = n \<and> xitao_nthreads (alay b2) = n"
proof -
  obtain L where L: "prepare_default_layout n init_layout = Some L" using default_layout_exists [OF assms(7)] by blast
  have n: "init_threads getenv n a = n" "init_threads getenv n init_api = n"
    "arg_env getenv ''GOTAO_NTHREADS'' (int XITAO_MAXTHREADS) n \<le> 64"
    using assms(2,6,7) by (simp_all add: init_threads_def arg_env_def init_api_def)
  have "ptt_layout (alay (cleared a)) = ptt_layout init_layout"
    "inclusive_partitions (alay (cleared a)) = inclusive_partitions init_layout"
    using assms(1,3,4) by (simp_all add: cleared_def clear_layout_partitions_def init_layout_def XITAO_MAXTHREADS_def map_replicate_const)
  note A = init_hw_default [OF this assms(5) n(3), unfolded n, OF L, of files thrb nhwc]
  have "ptt_layout (alay (cleared init_api)) = ptt_layout init_layout"
    "inclusive_partitions (alay (cleared init_api)) = inclusive_partitions init_layout"
    "\<not> resources_runtime_controlled init_api"
    by (simp_all add: cleared_def init_api_def)
  with init_hw_default [OF this(1,2) assms(5) n(3), unfolded n, OF L, of files thrb nhwc] A assms(2)
  show ?thesis by metis
qed

theorem reinit_forgets_previous_layout_witness:
  "\<exists>a a2 b2. xitao_init_hw (\<lambda>_. None) (\<lambda>_. None) 8 0 1 init_api = Inr a
     \<and> xitao_init_hw (\<lambda>_. None) (\<lambda>_. None) 6 0 1 a = Inr a2 \<and> xitao_init_hw (\<lambda>_. None) (\<lambda>_. None) 6 0 1 init_api = Inr b2
     \<and> ptt_layout (alay a2) = ptt_layout (alay b2)"
proof -
  obtain L where L: "prepare_default_layout 8 init_layout = Some L" "length (ptt_layout L) = 64"
    "length (inclusive_partitions L) = 64"
    using default_layout_spec [of 8 init_layout] by (auto simp: init_layout_def XITAO_MAXTHREADS_def)
  have i: "init_threads (\<lambda>_. None) 8 init_api = 8" "cleared init_api = init_api" "alay init_api = init_layout"
    "\<not> resources_runtime_controlled init_api"
    by (simp_all add: init_threads_def arg_env_def init_api_def cleared_def)
  with init_hw_default [of init_api "\<lambda>_. None" 8 L "\<lambda>_. None" 0 1] L obtain a where
    a: "xitao_init_hw (\<lambda>_. None) (\<lambda>_. None) 8 0 1 init_api = Inr a"
    "ptt_layout (alay a) = ptt_layout L" "inclusive_partitions (alay a) = inclusive_partitions L"
    by (auto simp: arg_env_def)
  with init_hw_tables [OF a(1)] i L have "gotao_initialized a" "\<not> resources_runtime_controlled a"
    "length (ptt_layout (alay a)) = 64" "length (inclusive_partitions (alay a)) = 64" by auto
  from reinit_forgets_previous_layout [OF this refl, of 6 "\<lambda>_. None" 0 1] a show ?thesis by auto
qed

text \<open>The queue looked at in the \<open>k\<close>-th round of the search.\<close>

definition candidate :: "int \<Rightarrow> int \<Rightarrow> nat \<Rightarrow> int" where
  "candidate n q k = (if k = 0 then q else (q + int k) mod n)"

lemma candidate_Suc: "0 < n \<Longrightarrow> 0 \<le> q \<Longrightarrow> candidate n ((q + 1) smod n) k = candidate n q (Suc k)"
  using mod_add_left_eq [of "1 + q" n "int k"]
  by (simp add: candidate_def signed_modulo_int_def algebra_simps)

lemma find_queue_stops:
  assumes "0 < n" and "n \<le> int (length parts)" and "0 \<le> q" and "q < int (length parts)"
    and "\<forall>j<k. parts ! nat (candidate n q j) = []" and "parts ! nat (candidate n q k) \<noteq> []"
  shows "find_queue parts n q = Some (Inr (candidate n q k))"
  using assms(3-)
proof (induction k arbitrary: q)
  case 0
  then show ?case by (subst find_queue.simps) (simp add: candidate_def)
next
  case (Suc k)
  let ?q = "(q + 1) smod n"
  have q: "0 \<le> ?q" "?q < n" using assms(1) Suc.prems(1) by (simp_all add: signed_modulo_int_def)
  have "\<forall>j<k. parts ! nat (candidate n ?q j) = []" "parts ! nat (candidate n ?q k) \<noteq> []"
    using Suc.prems candidate_Suc [OF assms(1) Suc.prems(1)] by auto
  with Suc.IH [of ?q] q assms(2) have "find_queue parts n ?q = Some (Inr (candidate n ?q k))" by simp
  moreover have "parts ! nat q = []" using Suc.prems(3) by (auto simp: candidate_def dest: spec [of _ 0])
  ultimately show ?case
    using Suc.prems(1,2) assms(1) candidate_Suc [OF assms(1) Suc.prems(1)] by (subst find_queue.simps) simp
qed

lemma find_queue_result:
  assumes "find_queue parts n q = Some y"
  shows "0 < n \<longrightarrow> n \<le> int (length parts) \<longrightarrow> 0 \<le> q \<longrightarrow> q < int (length parts)
    \<longrightarrow> (\<exists>k. parts ! nat (candidate n q k) \<noteq> [])"
proof (rule find_queue.raw_induct [OF _ assms, where P = "\<lambda>parts n q y. 0 < n \<longrightarrow> n \<le> int (length parts) \<longrightarrow> 0 \<le> q
    \<longrightarrow> q < int (length parts) \<longrightarrow> (\<exists>k. parts ! nat (candidate n q k) \<noteq> [])"], intro impI)
  fix f and parts :: "place list list" and n q :: int and y :: "api_error + int"
  assume IH: "\<And>parts n q y. f parts n q = Some y \<Longrightarrow> 0 < n \<longrightarrow> n \<le> int (length parts) \<longrightarrow> 0 \<le> q
      \<longrightarrow> q < int (length parts) \<longrightarrow> (\<exists>k. parts ! nat (candidate n q k) \<noteq> [])"
    and step: "(if \<not> (0 \<le> q \<and> q < int (length parts)) then Some (Inl Api_out_of_bounds)
      else if parts ! nat q \<noteq> [] then Some (Inr q) else if n = 0 then Some (Inl Api_division)
      else f parts n ((q + 1) smod n)) = Some y"
    and r: "0 < n" "n \<le> int (length parts)" "0 \<le> q" "q < int (length parts)"
  show "\<exists>k. parts ! nat (candidate n q k) \<noteq> []"
  proof (cases "parts ! nat q = []")
    case True
    then have "f parts n ((q + 1) smod n) = Some y" using step r by (simp split: if_splits)
    moreover have "0 \<le> (q + 1) smod n" "(q + 1) smod n < n" using r by (simp_all add: signed_modulo_int_def)
    ultimately obtain k where "parts ! nat (candidate n ((q + 1) smod n) k) \<noteq> []" using IH r by fastforce
    then show ?thesis using candidate_Suc [OF r(1,3)] by metis
  next
    case False
    then show ?thesis by (intro exI [of _ 0]) (simp add: candidate_def)
  qed
qed

lemma find_queue_first:
  assumes "0 < n" and "n \<le> int (length parts)" and "find_queue parts n q = Some (Inr p)"
  shows "0 \<le> q \<and> q < int (length parts) \<and> (\<exists>k. p = candidate n q k \<and> parts ! nat (candidate n q k) \<noteq> []
    \<and> (\<forall>j<k. parts ! nat (candidate n q j) = []))"
proof -
  have q: "0 \<le> q" "q < int (length parts)" using assms(3) by (subst (asm) find_queue.simps; simp split: if_splits)+
  then obtain k where k: "parts ! nat (candidate n q k) \<noteq> []" "\<forall>j<k. parts ! nat (candidate n q j) = []"
    using find_queue_result [OF assms(3)] assms(1,2)
      exists_least_iff [of "\<lambda>k. parts ! nat (candidate n q k) \<noteq> []"] by auto
  with find_queue_stops [OF assms(1,2) q] assms(3) q show ?thesis by auto
qed

text \<open>C40.
  The search for a ready queue in \<open>xitao_push\<close>, when no mask is in force and the wanted queue
  is one of the array: the task goes to the first queue, from the wanted one upwards and
  cyclically below the number of threads, whose thread is in some place; and the search
  never ends exactly when there is none.
\<close>

theorem push_queue_search:
  assumes "\<not> resources_runtime_controlled a" and "n = xitao_nthreads (alay a)" and "0 < n" and "n \<le> 64"
    and parts: "parts = inclusive_partitions (alay a)" "length parts = 64" and q: "q = wanted_queue c cpu pt qu" "0 \<le> q" "q < 64"
  shows "(\<forall>k. (\<forall>j<k. parts ! nat (if j = 0 then q else (q + int j) mod n) = [])
        \<and> parts ! nat (if k = 0 then q else (q + int k) mod n) \<noteq> []
        \<longrightarrow> push_queue r cpu a c pt qu = Some (Inr (if k = 0 then q else (q + int k) mod n)))
    \<and> (push_queue r cpu a c pt qu = None \<longleftrightarrow> (\<forall>k. parts ! nat (if k = 0 then q else (q + int k) mod n) = []))"
proof -
  have p: "push_queue r cpu a c pt qu = find_queue parts n q"
    using assms(1,2) parts(1) q(1) by (simp add: push_queue_def Let_def)
  note stops = find_queue_stops [of n parts q]
  have "find_queue parts n q = None \<longleftrightarrow> (\<forall>k. parts ! nat (candidate n q k) = [])"
  proof
    assume none: "find_queue parts n q = None"
    show "\<forall>k. parts ! nat (candidate n q k) = []"
    proof (rule ccontr)
      assume "\<not> ?thesis"
      then obtain k where k: "parts ! nat (candidate n q k) \<noteq> []" "\<forall>j<k. parts ! nat (candidate n q j) = []"
        using exists_least_iff [of "\<lambda>k. parts ! nat (candidate n q k) \<noteq> []"] by auto
      with stops [of k] assms(3,4) parts(2) q(2,3) none show False by simp
    qed
  next
    assume "\<forall>k. parts ! nat (candidate n q k) = []"
    with find_queue_result [of parts n q] assms(3,4) parts(2) q(2,3) show "find_queue parts n q = None" by fastforce
  qed
  with stops assms(3,4) parts(2) q(2,3) show ?thesis unfolding p candidate_def [symmetric] by simp
qed

theorem push_queue_search_witness:
  "push_queue 0 5 (init_api\<lparr>alay := init_layout\<lparr>xitao_nthreads := 4,
     inclusive_partitions := (inclusive_partitions init_layout)[1 := [(0, 2)]]\<rparr>\<rparr>) (default_config 4) blank_task (-1) = Some (Inr 1)"
proof -
  let ?a = "init_api\<lparr>alay := init_layout\<lparr>xitao_nthreads := 4, inclusive_partitions := (inclusive_partitions init_layout)[1 := [(0, 2)]]\<rparr>\<rparr>"
  have w: "wanted_queue (default_config 4) 5 blank_task (-1) = 5"
    by (simp add: wanted_queue_def blank_task_def)
  have p: "inclusive_partitions (alay ?a) = (replicate 64 [])[1 := [(0, 2)]]" "length (inclusive_partitions (alay ?a)) = 64"
    by (simp_all add: init_layout_def XITAO_MAXTHREADS_def)
  have "\<forall>j<(4::nat). inclusive_partitions (alay ?a) ! nat (if j = 0 then 5 else (5 + int j) mod 4) = []"
    unfolding p by code_simp
  moreover have "inclusive_partitions (alay ?a) ! nat ((5 + int 4) mod 4) \<noteq> []" unfolding p by code_simp
  ultimately show ?thesis
    using push_queue_search [of ?a 4 "inclusive_partitions (alay ?a)" 5 "default_config 4" 5 blank_task "-1" 0] w p(2)
    by (auto simp: init_api_def dest: spec [of _ 4])
qed

lemma pick_victim_local:
  "pick_victim True part N n rs k 0 =
     Some (if pick_core True part N (rs k) \<noteq> int n then pick_core True part N (rs k) else pick_core True part N (rs (k + 1)))"
  by (subst pick_victim.simps, subst pick_victim.simps) (simp add: Let_def)

lemma pick_victim_global:
  "\<forall>j<m. pick_core False part N (rs (k + j)) = int n \<Longrightarrow> pick_core False part N (rs (k + m)) \<noteq> int n \<Longrightarrow>
   pick_victim False part N n rs k 0 = Some (pick_core False part N (rs (k + m)))"
proof (induction m arbitrary: k)
  case 0
  then show ?case by (subst pick_victim.simps) (simp add: Let_def)
next
  case (Suc m)
  from Suc.prems have "\<forall>j<m. pick_core False part N (rs (k + 1 + j)) = int n"
    by (metis Suc_eq_plus1 Suc_mono add.assoc add.commute)
  with Suc.IH [of "k + 1"] Suc.prems(2) have "pick_victim False part N n rs (k + 1) 0 = Some (pick_core False part N (rs (k + Suc m)))"
    by simp
  moreover have "pick_core False part N (rs k) = int n" using Suc.prems(1) by (auto dest: spec [of _ 0])
  ultimately show ?case by (subst pick_victim.simps) (simp add: Let_def)
qed

lemma pick_victim_alone: "pick_victim False part 1 0 rs 0 0 = None"
proof -
  have "\<not> locally \<longrightarrow> N = 1 \<longrightarrow> n = 0 \<longrightarrow> tries = 0 \<longrightarrow> False"
    if "pick_victim locally part N n rs k tries = Some c" for locally part N n rs k tries c
    by (rule pick_victim.raw_induct [OF _ that, where P = "\<lambda>locally part N n rs k tries c.
        \<not> locally \<longrightarrow> N = 1 \<longrightarrow> n = 0 \<longrightarrow> tries = 0 \<longrightarrow> False"])
      (auto simp: Let_def pick_core_def split: if_splits)
  then have "pick_victim False part 1 0 rs 0 0 \<noteq> Some c" for c by blast
  then show ?thesis by (cases "pick_victim False part 1 0 rs 0 0") auto
qed

text \<open>The choice of a victim. With local stealing the inner loop ends after at most two random
  numbers. With global stealing it ends as soon as the random numbers name another thread,
  and then with that thread; when there is only one thread it never ends, whatever the
  random numbers.
\<close>

theorem victim_choice_ends:
  "(\<exists>c. pick_victim True part N n rs 0 0 = Some c)
   \<and> (\<forall>m. (\<forall>j<m. int (rs j) mod N = int n) \<and> int (rs m) mod N \<noteq> int n \<longrightarrow>
        pick_victim False part N n rs 0 0 = Some (int (rs m) mod N))
   \<and> pick_victim False part 1 0 rs 0 0 = None"
  using pick_victim_local [of part N n rs 0] pick_victim_global [of _ part N rs 0 n] pick_victim_alone [of part rs]
  by (auto simp: pick_core_def)

theorem victim_choice_ends_witness:
  "pick_victim False (0, 1) 4 2 (\<lambda>k. k + 2) 0 0 = Some 3 \<and> pick_victim False (0, 1) 1 0 (\<lambda>k. k) 0 0 = None"
  using victim_choice_ends [of "(0, 1)" 4 2 "\<lambda>k. k + 2"] victim_choice_ends [of "(0, 1)" 1 0 "\<lambda>k. k"]
  by (auto dest: spec [of _ 1])

end
