(* ===== verification/Vec_Tasks.thy ===== *)
theory Vec_Tasks
  imports Runtime_Api
begin

text \<open>
  Data-parallel loops: \<open>ParForTask\<close> of \<open>include/tao.h\<close> and the \<open>xitao_vec\<close> functions of
  \<open>include/xitao_api.h\<close>, for the index type \<open>int\<close>. Each sum that can leave the type is checked;
  the other values lie between the bounds of the loop. A call \<open>(s, e, n)\<close> is the execution of the loop body for the
  indices from \<open>s\<close> up to but not including \<open>e\<close> by thread \<open>n\<close>.
\<close>

section \<open>The task\<close>

datatype sched_type = Vec_static | Vec_dynamic | Vec_other

record par_for =
  pf_sched :: sched_type
  pf_start :: int
  pf_end :: int
  pf_block_size :: int
  pf_blocks :: int
  pf_size :: int

text \<open>\<open>width * slackness\<close> is computed on 64-bit unsigned numbers; \<open>slackness\<close> is 8.\<close>

definition dynamic_block_size :: "int \<Rightarrow> int \<Rightarrow> int option" where
  "dynamic_block_size sz w =
     (let d = (w * 8) mod 2 ^ 64 in
      if d = 0 then None else Some (if sz div d \<le> 0 then 1 else sz div d))"

definition par_for_fields :: "sched_type \<Rightarrow> int \<Rightarrow> int \<Rightarrow> int \<Rightarrow> api_error + par_for" where
  "par_for_fields sched st en w =
     (let sz = en - st; p = \<lparr>pf_sched = sched, pf_start = st, pf_end = en, pf_block_size = 0, pf_blocks = 0, pf_size = sz\<rparr>
      in if \<not> fits_int sz then Inl Api_overflow
         else if sz \<le> 0 then Inl Api_exit
         else case sched of
           Vec_static \<Rightarrow> Inr p
         | Vec_dynamic \<Rightarrow>
             (case dynamic_block_size sz w of
                None \<Rightarrow> Inl Api_division
              | Some b \<Rightarrow> if fits_int (sz + b) then Inr (p\<lparr>pf_block_size := b, pf_blocks := (sz + b - 1) div b\<rparr>)
                          else Inl Api_overflow)
         | Vec_other \<Rightarrow> Inl Api_exit)"

text \<open>The constructor: the base class first, which counts the task, then the fields.\<close>

definition ParForTask :: "nat \<Rightarrow> sched_type \<Rightarrow> int \<Rightarrow> int \<Rightarrow> int \<Rightarrow> rt \<Rightarrow> api_error + (tid \<times> par_for \<times> rt)" where
  "ParForTask ty sched st en w r =
     (case AssemblyTask ty w 0 r of (t, r') \<Rightarrow>
        (case par_for_fields sched st en w of Inl e \<Rightarrow> Inl e | Inr p \<Rightarrow> Inr (t, p, r')))"

section \<open>Execution\<close>

text \<open>The part a thread gets under static scheduling; too little work ends the program.\<close>

definition static_range :: "par_for \<Rightarrow> int \<Rightarrow> int \<Rightarrow> nat \<Rightarrow> api_error + (int \<times> int)" where
  "static_range p ldr w thread =
     (if w = 0 then Inl Api_division
      else let b = pf_size p sdiv w in
        if b < 1 then Inl Api_exit
        else let k = int thread - ldr; s = pf_start p + k * b
             in Inr (s, if k \<ge> w - 1 then pf_end p else s + b))"

definition block_range :: "par_for \<Rightarrow> int \<Rightarrow> int \<times> int" where
  "block_range p k =
     (let s = pf_start p + k * pf_block_size p in (s, if k \<ge> pf_blocks p - 1 then pf_end p else s + pf_block_size p))"

text \<open>
  Under dynamic scheduling the threads take block numbers from a shared atomic counter. A thread
  is about to take a number, executes a block, or has left the loop.
\<close>

datatype dyn_pc = DTake | DRun int | DDone

record dyn =
  next_block :: int
  dpc :: "nat \<Rightarrow> dyn_pc"
  dcalls :: "(int \<times> int \<times> nat) list"

definition dyn_init :: dyn where
  "dyn_init = \<lparr>next_block = 0, dpc = (\<lambda>_. DTake), dcalls = []\<rparr>"

inductive dyn_step :: "nat \<Rightarrow> par_for \<Rightarrow> dyn \<Rightarrow> dyn \<Rightarrow> bool" for N :: nat and p :: par_for where
  take_block: "n < N \<Longrightarrow> dpc s n = DTake \<Longrightarrow> next_block s < pf_blocks p \<Longrightarrow>
    dyn_step N p s (s\<lparr>next_block := wrap_int (next_block s + 1), dpc := (dpc s)(n := DRun (next_block s))\<rparr>)"
| take_none: "n < N \<Longrightarrow> dpc s n = DTake \<Longrightarrow> \<not> next_block s < pf_blocks p \<Longrightarrow>
    dyn_step N p s (s\<lparr>next_block := wrap_int (next_block s + 1), dpc := (dpc s)(n := DDone)\<rparr>)"
| run_block: "n < N \<Longrightarrow> dpc s n = DRun k \<Longrightarrow>
    dyn_step N p s (s\<lparr>dpc := (dpc s)(n := DTake),
      dcalls := dcalls s @ [(fst (block_range p k), snd (block_range p k), n)]\<rparr>)"

text \<open>
  The region function that a call executes: \<open>looper\<close> of a body with index and thread, and
  the loop that the macros of \<open>include/xitao_macros.h\<close> put around a body. The list has the calls of
  the body.
\<close>

definition xitao_looper :: "int \<Rightarrow> int \<Rightarrow> nat \<Rightarrow> (int \<times> nat) list" where
  "xitao_looper s e thread = map (\<lambda>i. (i, thread)) [s..e - 1]"

definition vec_region_body :: "int \<Rightarrow> int \<Rightarrow> nat \<Rightarrow> int list" where
  "vec_region_body loop_begin loop_end thread = [loop_begin..loop_end - 1]"

section \<open>The interface\<close>

definition xitao_vec :: "nat \<Rightarrow> int \<Rightarrow> int \<Rightarrow> int \<Rightarrow> sched_type \<Rightarrow> rt \<Rightarrow> api_error + (tid \<times> par_for \<times> rt)" where
  "xitao_vec ty parallelism iter_start en sched r = ParForTask ty sched iter_start en parallelism r"

definition xitao_vec_immediate ::
    "nat \<Rightarrow> int \<Rightarrow> nat \<Rightarrow> int \<Rightarrow> int \<Rightarrow> int \<Rightarrow> sched_type \<Rightarrow> api \<Rightarrow> rt \<Rightarrow> (api_error + (tid \<times> par_for \<times> api \<times> rt)) option" where
  "xitao_vec_immediate rand cpu ty parallelism iter_start en sched a r =
     (case ParForTask ty sched iter_start en parallelism r of
        Inl e \<Rightarrow> Some (Inl e)
      | Inr (t, p, r1) \<Rightarrow>
          (case xitao_push rand cpu a t 0 r1 of
             None \<Rightarrow> None
           | Some (Inl e) \<Rightarrow> Some (Inl e)
           | Some (Inr r2) \<Rightarrow>
               (case xitao_start a of Inl e \<Rightarrow> Some (Inl e) | Inr a' \<Rightarrow> Some (Inr (t, p, a', r2)))))"

text \<open>The subdivision of a loop into tasks of \<open>block_size\<close> indices: the bounds of block \<open>i\<close>.\<close>

definition multi_blocks :: "int \<Rightarrow> int \<Rightarrow> int \<Rightarrow> api_error + int" where
  "multi_blocks iter_start en block_size =
     (let d = en - iter_start; n = d + block_size - 1 in
      if \<not> (fits_int d \<and> fits_int (d + block_size) \<and> fits_int n) then Inl Api_overflow
      else if block_size = 0 then Inl Api_division
      else if \<not> fits_int (n sdiv block_size) then Inl Api_overflow
      else Inr (n sdiv block_size))"

definition multi_range :: "int \<Rightarrow> int \<Rightarrow> int \<Rightarrow> int \<Rightarrow> int \<times> int" where
  "multi_range nblocks en block_size i =
     (let s = i * block_size in (s, if i < nblocks - 1 then s + block_size else en))"

text \<open>The loop over the blocks, from \<open>i\<close> on, without pushing.\<close>

fun multi_loop :: "nat \<Rightarrow> sched_type \<Rightarrow> int \<Rightarrow> int \<Rightarrow> int \<Rightarrow> int \<Rightarrow> nat \<Rightarrow> int \<Rightarrow> rt \<Rightarrow> api_error + ((tid \<times> par_for) list \<times> rt)" where
  "multi_loop ty sched w nblocks en block_size 0 i r = Inr ([], r)"
| "multi_loop ty sched w nblocks en block_size (Suc k) i r =
     (case multi_range nblocks en block_size i of (s, e) \<Rightarrow>
        (case ParForTask ty sched s e w r of
           Inl err \<Rightarrow> Inl err
         | Inr (t, p, r1) \<Rightarrow>
             (case multi_loop ty sched w nblocks en block_size k (i + 1) r1 of
                Inl err \<Rightarrow> Inl err | Inr (ts, r2) \<Rightarrow> Inr ((t, p) # ts, r2))))"

definition xitao_vec_multiparallel ::
    "nat \<Rightarrow> int \<Rightarrow> int \<Rightarrow> int \<Rightarrow> sched_type \<Rightarrow> int \<Rightarrow> rt \<Rightarrow> api_error + ((tid \<times> par_for) list \<times> rt)" where
  "xitao_vec_multiparallel ty w iter_start en sched block_size r =
     (case multi_blocks iter_start en block_size of
        Inl e \<Rightarrow> Inl e
      | Inr nblocks \<Rightarrow> multi_loop ty sched w nblocks en block_size (nat nblocks) 0 r)"

text \<open>The variant that pushes block \<open>i\<close> to queue \<open>i mod xitao_nthreads\<close> and starts the workers.\<close>

fun multi_push_loop ::
    "nat \<Rightarrow> int \<Rightarrow> api \<Rightarrow> nat \<Rightarrow> sched_type \<Rightarrow> int \<Rightarrow> int \<Rightarrow> int \<Rightarrow> int \<Rightarrow> nat \<Rightarrow> int \<Rightarrow> rt
     \<Rightarrow> (api_error + ((tid \<times> par_for) list \<times> rt)) option" where
  "multi_push_loop rand cpu a ty sched w nblocks en block_size 0 i r = Some (Inr ([], r))"
| "multi_push_loop rand cpu a ty sched w nblocks en block_size (Suc k) i r =
     (case multi_range nblocks en block_size i of (s, e) \<Rightarrow>
        (case ParForTask ty sched s e w r of
           Inl err \<Rightarrow> Some (Inl err)
         | Inr (t, p, r1) \<Rightarrow>
             if xitao_nthreads (alay a) = 0 then Some (Inl Api_division)
             else (case xitao_push rand cpu a t (i smod xitao_nthreads (alay a)) r1 of
                None \<Rightarrow> None
              | Some (Inl err) \<Rightarrow> Some (Inl err)
              | Some (Inr r2) \<Rightarrow>
                  (case multi_push_loop rand cpu a ty sched w nblocks en block_size k (i + 1) r2 of
                     None \<Rightarrow> None
                   | Some (Inl err) \<Rightarrow> Some (Inl err)
                   | Some (Inr (ts, r3)) \<Rightarrow> Some (Inr ((t, p) # ts, r3))))))"

definition xitao_vec_immediate_multiparallel ::
    "nat \<Rightarrow> int \<Rightarrow> nat \<Rightarrow> int \<Rightarrow> int \<Rightarrow> int \<Rightarrow> sched_type \<Rightarrow> int \<Rightarrow> api \<Rightarrow> rt
     \<Rightarrow> (api_error + ((tid \<times> par_for) list \<times> api \<times> rt)) option" where
  "xitao_vec_immediate_multiparallel rand cpu ty w iter_start en sched block_size a r =
     (case multi_blocks iter_start en block_size of
        Inl e \<Rightarrow> Some (Inl e)
      | Inr nblocks \<Rightarrow>
          (case multi_push_loop rand cpu a ty sched w nblocks en block_size (nat nblocks) 0 r of
             None \<Rightarrow> None
           | Some (Inl err) \<Rightarrow> Some (Inl err)
           | Some (Inr (ts, r1)) \<Rightarrow>
               (case xitao_start a of Inl err \<Rightarrow> Some (Inl err) | Inr a' \<Rightarrow> Some (Inr (ts, a', r1)))))"

section \<open>Lemmas\<close>

text \<open>How often an index is executed by a list of ranges; consecutive ranges.\<close>

definition covers :: "int \<Rightarrow> int \<times> int \<Rightarrow> int" where
  "covers i r = (if fst r \<le> i \<and> i < snd r then 1 else 0)"

definition times :: "int \<Rightarrow> (int \<times> int) list \<Rightarrow> int" where
  "times i rs = sum_list (map (covers i) rs)"

lemma times_simps [simp]: "times i [] = 0" "times i (r # rs) = covers i r + times i rs" "times i (rs @ rs') = times i rs + times i rs'"
  by (simp_all add: times_def)

text \<open>Equal blocks from \<open>s\<close>, the last of which ends at \<open>e\<close>, cover each index between once.\<close>

lemma times_equal_blocks:
  assumes "0 < b" and "\<And>k. k < m \<Longrightarrow> f k = (s + int k * b, if int k \<ge> int m - 1 then e else s + (int k + 1) * b)"
    and "0 < m" and "s + (int m - 1) * b \<le> e"
  shows "times i (map f [0..<m]) = (if s \<le> i \<and> i < e then 1 else 0)"
proof -
  have pre: "times i (map f [0..<k]) = (if s \<le> i \<and> i < s + int k * b then 1 else 0)" if "k < m" for k
    using that
  proof (induction k)
    case (Suc k)
    define c where "c = int k * b"
    have c: "0 \<le> c" using assms(1) by (simp add: c_def)
    have "f k = (s + c, s + c + b)" using Suc.prems assms(2) [of k] by (simp add: c_def algebra_simps)
    moreover have "times i (map f [0..<k]) = (if s \<le> i \<and> i < s + c then 1 else 0)" using Suc by (simp add: c_def)
    moreover have "s + int (Suc k) * b = s + c + b" by (simp add: c_def algebra_simps)
    ultimately show ?case using c assms(1) by (auto simp: covers_def)
  qed simp
  obtain k where k: "m = Suc k" using assms(3) by (cases m) auto
  define c where "c = int k * b"
  have "0 \<le> c" using assms(1) by (simp add: c_def)
  moreover have "f k = (s + c, e)" using assms(2) [of k] k by (simp add: c_def)
  moreover have "times i (map f [0..<k]) = (if s \<le> i \<and> i < s + c then 1 else 0)" using pre [of k] k by (simp add: c_def)
  moreover have "s + c \<le> e" using assms(4) k by (simp add: c_def)
  ultimately show ?thesis using k by (auto simp: covers_def)
qed

lemma par_for_dynamic:
  assumes "par_for_fields Vec_dynamic st en w = Inr p"
  shows "pf_start p = st" "pf_end p = en" "0 < pf_block_size p" "0 < pf_blocks p"
    "st + (pf_blocks p - 1) * pf_block_size p < en" "en \<le> st + pf_blocks p * pf_block_size p" "st < en"
proof -
  from assms obtain b where b: "dynamic_block_size (en - st) w = Some b" and
    p: "p = \<lparr>pf_sched = Vec_dynamic, pf_start = st, pf_end = en, pf_block_size = b,
        pf_blocks = (en - st + b - 1) div b, pf_size = en - st\<rparr>" and s: "st < en"
    by (auto simp: par_for_fields_def Let_def split: if_splits option.splits)
  have b1: "0 < b" using b by (auto simp: dynamic_block_size_def Let_def split: if_splits)
  let ?q = "(en - st + b - 1) div b"
  have "?q * b \<le> en - st + b - 1" "en - st + b - 1 < ?q * b + b"
    using b1 div_mult_mod_eq [of "en - st + b - 1" b] pos_mod_bound [of b "en - st + b - 1"]
      pos_mod_sign [of b "en - st + b - 1"] by linarith+
  moreover have "0 < ?q" using b1 s by (simp add: pos_imp_zdiv_pos_iff)
  ultimately show "pf_start p = st" "pf_end p = en" "0 < pf_block_size p" "0 < pf_blocks p"
    "st + (pf_blocks p - 1) * pf_block_size p < en" "en \<le> st + pf_blocks p * pf_block_size p" "st < en"
    using p b1 s by (simp_all add: algebra_simps)
qed

text \<open>What the threads are executing, and the invariant of the shared counter.\<close>

definition running_range :: "par_for \<Rightarrow> int \<Rightarrow> dyn_pc \<Rightarrow> int" where
  "running_range p i q = (case q of DRun k \<Rightarrow> covers i (block_range p k) | _ \<Rightarrow> 0)"

definition call_times :: "int \<Rightarrow> (int \<times> int \<times> nat) list \<Rightarrow> int" where
  "call_times i cs = times i (map (\<lambda>(s, e, n). (s, e)) cs)"

definition taken :: "par_for \<Rightarrow> dyn \<Rightarrow> nat" where
  "taken p s = nat (min (next_block s) (pf_blocks p))"

definition left_loop :: "dyn_pc \<Rightarrow> int" where
  "left_loop q = (if q = DDone then 1 else 0)"

definition dyn_inv :: "nat \<Rightarrow> par_for \<Rightarrow> dyn \<Rightarrow> bool" where
  "dyn_inv N p s \<longleftrightarrow> 0 \<le> next_block s \<and> next_block s \<le> pf_blocks p + tsum N left_loop (dpc s)
     \<and> (\<forall>i. call_times i (dcalls s) + tsum N (running_range p i) (dpc s)
          = times i (map (\<lambda>k. block_range p (int k)) [0..<taken p s]))
     \<and> (\<forall>n<N. dpc s n = DDone \<longrightarrow> pf_blocks p \<le> next_block s)"

definition dyn_left :: "par_for \<Rightarrow> dyn_pc \<Rightarrow> int" where
  "dyn_left p q = (case q of DTake \<Rightarrow> 1 | DRun k \<Rightarrow> 2 | DDone \<Rightarrow> 0)"

definition dyn_measure :: "nat \<Rightarrow> par_for \<Rightarrow> dyn \<Rightarrow> int" where
  "dyn_measure N p s = tsum N (dyn_left p) (dpc s) + 2 * max 0 (pf_blocks p - next_block s)"

text \<open>The counter does not wrap around while a thread has not left the loop.\<close>

lemma counter_fits:
  assumes "dyn_inv N p s" and "pf_blocks p + int N < 2 ^ 31" and "n < N" and "dpc s n = DTake"
  shows "wrap_int (next_block s + 1) = next_block s + 1"
proof -
  have "tsum N left_loop (dpc s) + 1 \<le> int N"
    using tsum_le [of N left_loop "(dpc s)(n := DDone)"] assms(3,4) by (simp add: left_loop_def)
  then have "fits_int (next_block s + 1)" using assms(1,2) by (simp add: dyn_inv_def fits_int_def)
  then show ?thesis by (rule wrap_int_fits)
qed

lemma dyn_inv_step:
  assumes "dyn_step N p s s'" and inv: "dyn_inv N p s" and "0 < pf_blocks p" and fits: "pf_blocks p + int N < 2 ^ 31"
  shows "dyn_inv N p s' \<and> dyn_measure N p s' + 1 \<le> dyn_measure N p s"
  using assms(1)
proof cases
  case (take_block n)
  note w = counter_fits [OF inv fits take_block(2,3)]
  have "taken p s' = Suc (taken p s)" "int (taken p s) = next_block s"
    using take_block inv w by (simp_all add: taken_def dyn_inv_def nat_add_distrib)
  then show ?thesis
    using take_block inv w tsum_nonneg [of N left_loop "dpc s"]
    by (auto simp: dyn_inv_def dyn_measure_def running_range_def dyn_left_def left_loop_def)
next
  case (take_none n)
  note w = counter_fits [OF inv fits take_none(2,3)]
  have "taken p s' = taken p s" using take_none w by (simp add: taken_def)
  then show ?thesis
    using take_none inv w by (auto simp: dyn_inv_def dyn_measure_def running_range_def dyn_left_def left_loop_def)
next
  case (run_block n k)
  then have "taken p s' = taken p s" by (simp add: taken_def)
  then show ?thesis
    using run_block inv by (auto simp: dyn_inv_def dyn_measure_def running_range_def dyn_left_def call_times_def left_loop_def)
qed

lemma dyn_inv_run:
  assumes "(dyn_step N p ^^ m) dyn_init s" and "0 < pf_blocks p" and "pf_blocks p + int N < 2 ^ 31"
  shows "dyn_inv N p s \<and> dyn_measure N p s + int m \<le> dyn_measure N p dyn_init"
  using assms(1)
proof (induction m arbitrary: s)
  case 0
  have "dyn_inv N p dyn_init"
    using assms(2) by (simp add: dyn_inv_def dyn_init_def taken_def running_range_def call_times_def tsum_def left_loop_def)
  with 0 show ?case by simp
next
  case (Suc m)
  then obtain s1 where "(dyn_step N p ^^ m) dyn_init s1" "dyn_step N p s1 s" by auto
  with Suc.IH [of s1] dyn_inv_step [of N p s1 s] assms(2,3) show ?case by auto
qed

lemma dyn_measure_nonneg: "0 \<le> dyn_measure N p s"
  unfolding dyn_measure_def by (intro add_nonneg_nonneg tsum_nonneg) (simp_all add: dyn_left_def split: dyn_pc.splits)

section \<open>Properties\<close>

text \<open>The executions of the body for an index are those of the ranges that contain it.\<close>

lemma count_distinct: "distinct xs \<Longrightarrow> count_list xs x = (if x \<in> set xs then 1 else 0)"
  by (induction xs) auto

lemma count_upto: "int (count_list [s..e - 1] i) = covers i (s, e)"
  by (simp add: count_distinct covers_def)

lemma body_calls:
  "int (count_list (concat (map (\<lambda>(s, e, n). map fst (xitao_looper s e n)) calls)) i) = call_times i calls"
  "int (count_list (concat (map (\<lambda>(s, e, n). vec_region_body s e n) calls)) i) = call_times i calls"
  by (induction calls) (auto simp: xitao_looper_def vec_region_body_def comp_def count_upto call_times_def)

text \<open>C21.
  Dynamic scheduling executes a loop exactly once. For every loop whose construction succeeds
  (the size of the loop, and the sum of it and the block size, fit an \<open>int\<close>), every number of
  threads that with the number of blocks fits the atomic counter, and every
  interleaving: the threads take at most two steps per block and one each, no index is
  ever executed twice or outside the loop, and when all threads have left the loop every
  index from the start up to the end has been executed once: the ranges they were given contain it
  once, and a body made by \<open>looper\<close> or by the macro for regions has been run for it once.
\<close>

theorem dynamic_loop_runs_once:
  assumes "par_for_fields Vec_dynamic st en w = Inr p" and "pf_blocks p + int N < 2 ^ 31" and "(dyn_step N p ^^ m) dyn_init s"
  shows "int m \<le> int N + 2 * pf_blocks p
    \<and> (\<forall>i. call_times i (dcalls s) \<le> (if st \<le> i \<and> i < en then 1 else 0))
    \<and> (0 < N \<and> (\<forall>n<N. dpc s n = DDone) \<longrightarrow> (\<forall>i. call_times i (dcalls s) = (if st \<le> i \<and> i < en then 1 else 0)
        \<and> count_list (concat (map (\<lambda>(b, e, n). map fst (xitao_looper b e n)) (dcalls s))) i = (if st \<le> i \<and> i < en then 1 else 0)
        \<and> count_list (concat (map (\<lambda>(b, e, n). vec_region_body b e n) (dcalls s))) i = (if st \<le> i \<and> i < en then 1 else 0)))"
proof -
  note P = par_for_dynamic [OF assms(1)]
  from dyn_inv_run [OF assms(3) P(4) assms(2)] have inv: "dyn_inv N p s"
    and m: "dyn_measure N p s + int m \<le> dyn_measure N p dyn_init" by blast+
  have "dyn_measure N p dyn_init = int N + 2 * pf_blocks p"
    using P(4) by (simp add: dyn_measure_def dyn_init_def tsum_def dyn_left_def)
  with m dyn_measure_nonneg [of N p s] have bound: "int m \<le> int N + 2 * pf_blocks p" by linarith
  let ?M = "nat (pf_blocks p)" and ?f = "\<lambda>k. block_range p (int k)"
  have all: "times i (map ?f [0..<?M]) = (if st \<le> i \<and> i < en then 1 else 0)" for i
    using P by (intro times_equal_blocks [of "pf_block_size p"]) (auto simp: block_range_def Let_def algebra_simps)
  have part: "times i (map ?f [0..<taken p s]) \<le> times i (map ?f [0..<?M])" for i
  proof -
    have "[0..<?M] = [0..<taken p s] @ [taken p s..<?M]"
    proof -
      have "taken p s \<le> ?M" by (simp add: taken_def)
      then show ?thesis using upt_add_eq_append [of 0 "taken p s" "?M - taken p s"] by simp
    qed
    moreover have "0 \<le> times i (map ?f ks)" for ks by (induction ks) (simp_all add: covers_def)
    ultimately show ?thesis by simp
  qed
  have run: "0 \<le> tsum N (running_range p i) (dpc s)" for i
    by (rule tsum_nonneg) (simp add: running_range_def covers_def split: dyn_pc.splits)
  have eq: "call_times i (dcalls s) + tsum N (running_range p i) (dpc s) = times i (map ?f [0..<taken p s])" for i
    using inv by (simp add: dyn_inv_def)
  have upper: "call_times i (dcalls s) \<le> (if st \<le> i \<and> i < en then 1 else 0)" for i
    using eq [of i] run [of i] part [of i] all [of i] by linarith
  have "call_times i (dcalls s) = (if st \<le> i \<and> i < en then 1 else 0)" if d: "0 < N" "\<forall>n<N. dpc s n = DDone" for i
  proof -
    have "taken p s = ?M" using d inv P(4) by (auto simp: dyn_inv_def taken_def)
    moreover have "tsum N (running_range p i) (dpc s) = 0" using d(2) by (simp add: tsum_def running_range_def)
    ultimately show ?thesis using eq [of i] all [of i] by simp
  qed
  moreover have "call_times i cs = (if c then 1 else 0) \<Longrightarrow>
      count_list (concat (map (\<lambda>(b, e, n). map fst (xitao_looper b e n)) cs)) i = (if c then 1 else 0)
      \<and> count_list (concat (map (\<lambda>(b, e, n). vec_region_body b e n) cs)) i = (if c then 1 else 0)" for i cs c
    using body_calls [where calls = cs and i = i] by (auto split: if_splits)
  ultimately show ?thesis using bound upper by blast
qed

theorem dynamic_loop_runs_once_witness:
  "\<exists>p s. par_for_fields Vec_dynamic 3 5 1 = Inr p \<and> (dyn_step 1 p ^^ 5) dyn_init s \<and> call_times 4 (dcalls s) = 1"
proof -
  let ?p = "\<lparr>pf_sched = Vec_dynamic, pf_start = 3, pf_end = 5, pf_block_size = 1, pf_blocks = 2, pf_size = 2\<rparr>"
  let ?s = "\<lambda>k b cs. \<lparr>next_block = k, dpc = (\<lambda>_. DTake)(0 := b), dcalls = cs\<rparr>"
  have p: "par_for_fields Vec_dynamic 3 5 1 = Inr ?p" by (simp add: par_for_fields_def dynamic_block_size_def Let_def fits_int_def)
  have i: "dyn_init = ?s 0 DTake []" by (simp add: dyn_init_def fun_eq_iff)
  have "dyn_step 1 ?p (?s 0 DTake []) (?s 1 (DRun 0) [])" "dyn_step 1 ?p (?s 1 (DRun 0) []) (?s 1 DTake [(3, 4, 0)])"
    "dyn_step 1 ?p (?s 1 DTake [(3, 4, 0)]) (?s 2 (DRun 1) [(3, 4, 0)])"
    "dyn_step 1 ?p (?s 2 (DRun 1) [(3, 4, 0)]) (?s 2 DTake [(3, 4, 0), (4, 5, 0)])"
    "dyn_step 1 ?p (?s 2 DTake [(3, 4, 0), (4, 5, 0)]) (?s 3 DDone [(3, 4, 0), (4, 5, 0)])"
    by (auto simp: dyn_step.simps block_range_def Let_def wrap_int_def)
  then have run: "(dyn_step 1 ?p ^^ 5) dyn_init (?s 3 DDone [(3, 4, 0), (4, 5, 0)])"
    unfolding i by (simp add: numeral_eq_Suc relcompp_apply) blast
  from dynamic_loop_runs_once [OF p _ run] have "call_times 4 (dcalls (?s 3 DDone [(3, 4, 0), (4, 5, 0)])) = 1" by simp
  with p run show ?thesis by blast
qed

text \<open>The ranges of the threads of a place that is not too wide.\<close>

lemma static_ranges_cover:
  assumes "par_for_fields Vec_static st en w0 = Inr p" and "0 < w" and "0 \<le> ldr" and le: "w \<le> en - st"
  shows "\<exists>f. (\<forall>k<nat w. static_range p ldr w (nat ldr + k) = Inr (f k))
      \<and> (\<forall>i. times i (map f [0..<nat w]) = (if st \<le> i \<and> i < en then 1 else 0))"
proof -
  have p: "pf_start p = st" "pf_end p = en" "pf_size p = en - st" and s: "st < en"
    using assms(1) by (auto simp: par_for_fields_def Let_def split: if_splits)
  let ?b = "(en - st) div w"
  have d: "pf_size p sdiv w = ?b" using p(3) s assms(2) by (simp add: signed_divide_int_def)
  let ?f = "\<lambda>k. (st + int k * ?b, if int k \<ge> w - 1 then en else st + (int k + 1) * ?b)"
  have b: "0 < ?b" using le assms(2) by (simp add: pos_imp_zdiv_pos_iff)
  have "\<forall>k<nat w. static_range p ldr w (nat ldr + k) = Inr (?f k)"
    using b assms(2,3) p d by (auto simp: static_range_def Let_def algebra_simps)
  moreover have "w * ?b \<le> en - st"
    using assms(2) mult_div_mod_eq [of w "en - st"] pos_mod_sign [of w "en - st"] by linarith
  then have "(w - 1) * ?b \<le> en - st" using b by (simp add: left_diff_distrib)
  then have "times i (map ?f [0..<nat w]) = (if st \<le> i \<and> i < en then 1 else 0)" for i
    using b assms(2) by (intro times_equal_blocks [of ?b]) auto
  ultimately show ?thesis by (intro exI [of _ ?f]) blast
qed

lemma static_range_too_wide:
  assumes "par_for_fields Vec_static st en w0 = Inr p" and "0 < w" and "en - st < w"
  shows "static_range p ldr w n = Inl Api_exit"
proof -
  have "pf_size p = en - st" "st < en" using assms(1) by (auto simp: par_for_fields_def Let_def split: if_splits)
  then show ?thesis using assms(2,3) by (simp add: static_range_def Let_def signed_divide_int_def)
qed

text \<open>Static scheduling executes a loop exactly once. When the place is not wider than the loop
  is long, the ranges of its threads are computed without error and together contain each
  index once; on a wider place (which molding may choose) every thread ends the program.
\<close>

theorem static_loop_runs_once:
  assumes "par_for_fields Vec_static st en w0 = Inr p" and "0 < w" and "0 \<le> ldr"
  shows "(w \<le> en - st \<longrightarrow> (\<exists>f. (\<forall>k<nat w. static_range p ldr w (nat ldr + k) = Inr (f k))
      \<and> (\<forall>i. times i (map f [0..<nat w]) = (if st \<le> i \<and> i < en then 1 else 0))))
    \<and> (en - st < w \<longrightarrow> (\<forall>n. static_range p ldr w n = Inl Api_exit))"
  using static_ranges_cover [OF assms] static_range_too_wide [OF assms(1,2)] by blast

theorem static_loop_runs_once_witness:
  "\<exists>p f. par_for_fields Vec_static 0 10 4 = Inr p \<and> (\<forall>k<3. static_range p 1 3 (1 + k) = Inr (f k))
     \<and> times 9 (map f [0..<3]) = 1 \<and> static_range p 0 11 0 = Inl Api_exit"
proof -
  obtain p where p: "par_for_fields Vec_static 0 10 4 = Inr p" by (simp add: par_for_fields_def Let_def fits_int_def)
  from static_loop_runs_once [OF p, of 3 1] static_loop_runs_once [OF p, of 11 0] p show ?thesis by auto
qed

lemma multi_loop_ranges:
  assumes "sched = Vec_static \<or> sched = Vec_dynamic" and "0 < w" and "w < 2 ^ 31"
    and "\<forall>j\<in>{i..<i + int k}. fst (multi_range nb en bs j) < snd (multi_range nb en bs j)
      \<and> 2 * (snd (multi_range nb en bs j) - fst (multi_range nb en bs j)) < 2 ^ 31"
  shows "\<exists>ts r'. multi_loop ty sched w nb en bs k i r = Inr (ts, r')
    \<and> map (\<lambda>(t, p). (pf_start p, pf_end p)) ts = map (\<lambda>j. multi_range nb en bs (i + int j)) [0..<k]"
  using assms(4)
proof (induction k arbitrary: i r)
  case (Suc k)
  obtain s e where se: "multi_range nb en bs i = (s, e)" by fastforce
  then have lt: "s < e" "2 * (e - s) < 2 ^ 31" using Suc.prems by (auto dest: bspec [of _ _ i])
  have "\<exists>b. dynamic_block_size (e - s) w = Some b \<and> 0 < b \<and> b \<le> e - s"
  proof -
    have "(e - s) div (w * 8 mod 2 ^ 64) \<le> e - s" using lt assms(2,3) zdiv_mono2 [of "e - s" 1 "w * 8"] by simp
    then show ?thesis using lt assms(2,3) by (auto simp: dynamic_block_size_def Let_def)
  qed
  then obtain p where p: "par_for_fields sched s e w = Inr p" "pf_start p = s" "pf_end p = e"
    using assms(1) lt by (auto simp: par_for_fields_def Let_def fits_int_def)
  obtain t r1 where t: "AssemblyTask ty w 0 r = (t, r1)" by fastforce
  have "\<forall>j\<in>{i + 1..<i + 1 + int k}. fst (multi_range nb en bs j) < snd (multi_range nb en bs j)
      \<and> 2 * (snd (multi_range nb en bs j) - fst (multi_range nb en bs j)) < 2 ^ 31" using Suc.prems by simp
  from Suc.IH [OF this, of r1] obtain ts r' where
    ts: "multi_loop ty sched w nb en bs k (i + 1) r1 = Inr (ts, r')"
    "map (\<lambda>(t, p). (pf_start p, pf_end p)) ts = map (\<lambda>j. multi_range nb en bs (i + 1 + int j)) [0..<k]" by blast
  have "map (\<lambda>j. multi_range nb en bs (i + int j)) [0..<Suc k]
      = multi_range nb en bs i # map (\<lambda>j. multi_range nb en bs (i + 1 + int j)) [0..<k]"
    by (simp add: upt_conv_Cons map_Suc_upt [symmetric] del: upt_Suc) (simp add: algebra_simps)
  with se p t ts show ?case by (auto simp: ParForTask_def)
qed simp

text \<open>Subdividing a loop into tasks ignores where it starts. For a loop from \<open>iter_start\<close> to
  \<open>en\<close> with \<open>0 \<le> iter_start\<close>, small enough not to overflow, the tasks \<open>xitao_vec_multiparallel\<close> creates together contain each
  index from 0 (not from \<open>iter_start\<close>) up to \<open>en\<close> exactly once.
\<close>

theorem multiparallel_ignores_start:
  assumes "0 \<le> iter_start" and "iter_start < en" and "0 < bs" and "sched = Vec_static \<or> sched = Vec_dynamic"
    and "0 < w" and "w < 2 ^ 31" and "2 * (en + bs) < 2 ^ 31"
  shows "\<exists>ts r'. xitao_vec_multiparallel ty w iter_start en sched bs r = Inr (ts, r')
    \<and> (\<forall>i. times i (map (\<lambda>(t, p). (pf_start p, pf_end p)) ts) = (if 0 \<le> i \<and> i < en then 1 else 0))"
proof -
  let ?q = "(en - iter_start + bs - 1) div bs"
  have "?q \<le> en - iter_start + bs - 1" using assms(2,3) zdiv_mono2 [of "en - iter_start + bs - 1" 1 bs] by simp
  moreover have "0 \<le> ?q" using assms(2,3) by (simp add: pos_imp_zdiv_nonneg_iff)
  ultimately have nb: "multi_blocks iter_start en bs = Inr ?q"
    using assms(1-3,7) by (simp add: multi_blocks_def signed_divide_int_def Let_def fits_int_def)
  have q: "0 < ?q" using assms(2,3) by (simp add: pos_imp_zdiv_pos_iff)
  have "?q * bs \<le> en - iter_start + bs - 1"
    using assms(3) div_mult_mod_eq [of "en - iter_start + bs - 1" bs] pos_mod_sign [of bs "en - iter_start + bs - 1"] by linarith
  then have last: "(?q - 1) * bs < en" using assms(1) by (simp add: left_diff_distrib)
  have "fst (multi_range ?q en bs j) < snd (multi_range ?q en bs j)
      \<and> 2 * (snd (multi_range ?q en bs j) - fst (multi_range ?q en bs j)) < 2 ^ 31" if "j \<in> {0..<0 + int (nat ?q)}" for j
  proof (cases "j < ?q - 1")
    case True
    then show ?thesis using assms(1-3,7) by (simp add: multi_range_def Let_def)
  next
    case False
    then have "j = ?q - 1" using that q by simp
    moreover have "0 \<le> (?q - 1) * bs" using q assms(3) by simp
    ultimately show ?thesis using last assms(3,7) by (simp add: multi_range_def Let_def)
  qed
  with multi_loop_ranges [OF assms(4-6), of 0 "nat ?q" ?q en bs ty r] obtain ts r' where
    ts: "multi_loop ty sched w ?q en bs (nat ?q) 0 r = Inr (ts, r')"
    "map (\<lambda>(t, p). (pf_start p, pf_end p)) ts = map (\<lambda>j. multi_range ?q en bs (0 + int j)) [0..<nat ?q]" by blast
  have "times i (map (\<lambda>j. multi_range ?q en bs (0 + int j)) [0..<nat ?q]) = (if 0 \<le> i \<and> i < en then 1 else 0)" for i
    using assms(3) q last by (intro times_equal_blocks [of bs]) (auto simp: multi_range_def Let_def algebra_simps)
  with ts nb show ?thesis by (auto simp: xitao_vec_multiparallel_def)
qed

theorem multiparallel_ignores_start_witness:
  "\<exists>ts r'. xitao_vec_multiparallel 0 2 10 20 Vec_static 5 (init_rt (default_config 4) init_layout blank_task) = Inr (ts, r')
     \<and> times 3 (map (\<lambda>(t, p). (pf_start p, pf_end p)) ts) = 1"
  using multiparallel_ignores_start [of 10 20 5 Vec_static 2 0 "init_rt (default_config 4) init_layout blank_task"] by auto

end
