(* ===== verification/Loop_Programs.thy ===== *)
theory Loop_Programs
  imports Programs Vec_Tasks
begin

text \<open>
  Programs of parallel loops: tasks made by \<open>xitao_vec\<close> with static scheduling and ordered
  by \<open>make_edge\<close>, run by the scheduler. Each thread of a task's place computes its part of
  the loop in \<open>ParForTask::execute\<close>. Whatever place the performance model chooses for a loop,
  the loop as a whole runs once per index.
\<close>

section \<open>The program\<close>

text \<open>The data: the members of the loops and the calls of their bodies so far.\<close>

record loop_mem =
  loops :: "tid \<Rightarrow> par_for"
  calls :: "tid \<Rightarrow> (int \<times> int \<times> nat) list"

text \<open>\<open>ParForTask::execute\<close> under static scheduling; a part of less than one index ends the program.\<close>

definition execute_static :: "loop_mem body" where
  "execute_static f t p n m = (case static_range (loops m t) (fst p) (snd p) n of
     Inl e \<Rightarrow> None
   | Inr (b, e) \<Rightarrow> Some (m\<lparr>calls := (calls m)(t := calls m t @ [(b, e, n)])\<rparr>))"

text \<open>A program makes loops (type, width, start, end) and orders them.\<close>

datatype loop_op = Loop nat int int int | Order tid tid

fun loop_step :: "loop_op \<Rightarrow> rt \<times> loop_mem \<Rightarrow> api_error + (rt \<times> loop_mem)" where
  "loop_step (Loop ty w st en) (r, m) = (case xitao_vec ty w st en Vec_static r of
     Inl e \<Rightarrow> Inl e
   | Inr (t, p, r') \<Rightarrow> Inr (r', m\<lparr>loops := (loops m)(t := p), calls := (calls m)(t := [])\<rparr>))"
| "loop_step (Order a b) (r, m) =
     (if a < next_task r \<and> b < next_task r then Inr (make_edge a b r, m) else Inl Api_null)"

fun loop_build :: "loop_op list \<Rightarrow> rt \<times> loop_mem \<Rightarrow> api_error + (rt \<times> loop_mem)" where
  "loop_build [] x = Inr x"
| "loop_build (y # ys) x = (case loop_step y x of Inl e \<Rightarrow> Inl e | Inr x' \<Rightarrow> loop_build ys x')"

text \<open>The bounds of the loops, in the order of their construction.\<close>

fun loop_bounds :: "loop_op list \<Rightarrow> (int \<times> int) list" where
  "loop_bounds [] = []"
| "loop_bounds (Loop ty w st en # ys) = (st, en) # loop_bounds ys"
| "loop_bounds (Order a b # ys) = loop_bounds ys"

section \<open>What is built\<close>

definition loop_ok :: "par_for \<Rightarrow> int \<times> int \<Rightarrow> bool" where
  "loop_ok p b \<longleftrightarrow> (\<exists>w. par_for_fields Vec_static (fst b) (snd b) w = Inr p)"

lemma loop_step_built:
  assumes "loop_step y (r, m) = Inr (r', m')" and "next_task r = length bs"
    and "\<forall>t<length bs. loop_ok (loops m t) (bs ! t) \<and> calls m t = []"
  shows "\<exists>op. (\<forall>rnd. build_step rnd op r = Some r') \<and> next_task r' = length (bs @ loop_bounds [y])
    \<and> (\<forall>t<length (bs @ loop_bounds [y]). loop_ok (loops m' t) ((bs @ loop_bounds [y]) ! t) \<and> calls m' t = [])"
proof (cases y)
  case (Loop ty w st en)
  with assms(1) obtain p where p: "par_for_fields Vec_static st en w = Inr p" "r' = snd (AssemblyTask ty w 0 r)"
    "m' = m\<lparr>loops := (loops m)(next_task r := p), calls := (calls m)(next_task r := [])\<rparr>"
    by (auto simp: xitao_vec_def ParForTask_def AssemblyTask_def PolyTask_def split: sum.splits prod.splits)
  moreover have "loop_ok p (st, en)" using p(1) by (auto simp: loop_ok_def)
  ultimately show ?thesis using assms(2,3) Loop
    by (intro exI [of _ "New_assembly ty w 0"]) (auto simp: AssemblyTask_def PolyTask_def nth_append XITAO_MAXTHREADS_def)
next
  case (Order a b)
  with assms show ?thesis
    by (intro exI [of _ "Edge a b"])
      (auto simp: make_edge_def Let_def attach_ptt_def split: if_splits prod.splits)
qed

lemma loop_build_built:
  assumes "loop_build ys (r, m) = Inr (r', m')" and "next_task r = length bs"
    and "\<forall>t<length bs. loop_ok (loops m t) (bs ! t) \<and> calls m t = []"
  shows "\<exists>ops. (\<forall>rnd. build rnd ops r = Some r') \<and> next_task r' = length (bs @ loop_bounds ys)
    \<and> (\<forall>t<length (bs @ loop_bounds ys). loop_ok (loops m' t) ((bs @ loop_bounds ys) ! t) \<and> calls m' t = [])"
  using assms
proof (induction ys arbitrary: r m bs)
  case Nil
  then show ?case by (intro exI [of _ "[]"]) simp
next
  case (Cons y ys)
  obtain r1 m1 where 1: "loop_step y (r, m) = Inr (r1, m1)" "loop_build ys (r1, m1) = Inr (r', m')"
    using Cons.prems(1) by (auto split: sum.splits)
  from loop_step_built [OF 1(1) Cons.prems(2,3)] obtain op where op: "\<forall>rnd. build_step rnd op r = Some r1"
    "next_task r1 = length (bs @ loop_bounds [y])"
    "\<forall>t<length (bs @ loop_bounds [y]). loop_ok (loops m1 t) ((bs @ loop_bounds [y]) ! t) \<and> calls m1 t = []" by blast
  from Cons.IH [OF 1(2) op(2,3)] obtain ops where "\<forall>rnd. build rnd ops r1 = Some r'"
    "next_task r' = length ((bs @ loop_bounds [y]) @ loop_bounds ys)"
    "\<forall>t<length ((bs @ loop_bounds [y]) @ loop_bounds ys).
       loop_ok (loops m' t) (((bs @ loop_bounds [y]) @ loop_bounds ys) ! t) \<and> calls m' t = []" by blast
  moreover have "loop_bounds (y # ys) = loop_bounds [y] @ loop_bounds ys" by (cases y) auto
  ultimately show ?case using op(1) by (intro exI [of _ "op # ops"]) simp
qed

section \<open>The data\<close>

text \<open>The part of a thread, and what the calls of a set of threads cover.\<close>

definition part :: "par_for \<Rightarrow> place \<Rightarrow> nat \<Rightarrow> int \<times> int" where
  "part q p n = (case static_range q (fst p) (snd p) n of Inl e \<Rightarrow> (0, 0) | Inr x \<Rightarrow> x)"

definition loop_fields :: "(int \<times> int) list \<Rightarrow> tid \<Rightarrow> loop_mem \<Rightarrow> bool" where
  "loop_fields bs t m \<longleftrightarrow> t < length bs \<and> loop_ok (loops m t) (bs ! t)"

definition loop_fresh :: "(int \<times> int) list \<Rightarrow> tid \<Rightarrow> loop_mem \<Rightarrow> bool" where
  "loop_fresh bs t m \<longleftrightarrow> loop_fields bs t m \<and> calls m t = []"

definition loop_share :: "(int \<times> int) list \<Rightarrow> tid \<Rightarrow> place \<Rightarrow> nat set \<Rightarrow> loop_mem \<Rightarrow> bool" where
  "loop_share bs t p D m \<longleftrightarrow> loop_fields bs t m \<and> (D \<noteq> {} \<longrightarrow> snd p \<le> snd (bs ! t) - fst (bs ! t))
     \<and> (\<forall>i. call_times i (calls m t) = (\<Sum>n\<in>D. covers i (part (loops m t) p n)))"

definition loop_done :: "(int \<times> int) list \<Rightarrow> tid \<Rightarrow> loop_mem \<Rightarrow> bool" where
  "loop_done bs t m \<longleftrightarrow> loop_fields bs t m
     \<and> (\<forall>i. call_times i (calls m t) = (if fst (bs ! t) \<le> i \<and> i < snd (bs ! t) then 1 else 0))"

lemma members_image: "0 \<le> fst p \<Longrightarrow> members p = (\<lambda>k. nat (fst p) + k) ` {..<nat (snd p)}"
proof -
  assume "0 \<le> fst p"
  then have "n \<in> (\<lambda>k. nat (fst p) + k) ` {..<nat (snd p)}" if "in_place p n" for n
    using that by (intro image_eqI [where x = "n - nat (fst p)"]) (auto simp: in_place_def)
  with \<open>0 \<le> fst p\<close> show ?thesis by (auto simp: in_place_def)
qed

lemma finite_members: "0 \<le> fst p \<Longrightarrow> finite (members p)"
  by (simp add: members_image)

lemma call_times_snoc: "call_times i (cs @ [(b, e, n)]) = call_times i cs + covers i (b, e)"
  by (simp add: call_times_def)

text \<open>One thread does its part.\<close>

lemma loop_share_step:
  assumes "loop_share bs t p D m" and "in_place p n" and "0 \<le> fst p" and "n \<notin> D" and "D \<subseteq> members p"
    and "execute_static f t p n m = Some m'"
  shows "loop_share bs t p (insert n D) m'"
proof -
  obtain w where w: "par_for_fields Vec_static (fst (bs ! t)) (snd (bs ! t)) w = Inr (loops m t)"
    using assms(1) by (auto simp: loop_share_def loop_fields_def loop_ok_def)
  obtain b e where be: "static_range (loops m t) (fst p) (snd p) n = Inr (b, e)"
    and m': "m' = m\<lparr>calls := (calls m)(t := calls m t @ [(b, e, n)])\<rparr>"
    using assms(6) by (auto simp: execute_static_def split: sum.splits)
  have "0 < snd p" using assms(2) by (simp add: in_place_def)
  then have "snd p \<le> snd (bs ! t) - fst (bs ! t)"
    using static_range_too_wide [OF w, of "snd p" "fst p" n] be by (cases "snd (bs ! t) - fst (bs ! t) < snd p") auto
  moreover have "part (loops m t) p n = (b, e)" using be by (simp add: part_def)
  moreover have "finite D" using finite_subset [OF assms(5) finite_members [OF assms(3)]] .
  ultimately show ?thesis using assms(1,4) m'
    by (simp add: loop_share_def loop_fields_def call_times_snoc)
qed

lemma loop_share_all:
  assumes "loop_share bs t p (members p) m" and "in_place p n" and "0 \<le> fst p"
  shows "loop_done bs t m"
proof -
  obtain w where w: "par_for_fields Vec_static (fst (bs ! t)) (snd (bs ! t)) w = Inr (loops m t)"
    using assms(1) by (auto simp: loop_share_def loop_fields_def loop_ok_def)
  have "members p \<noteq> {}" "0 < snd p" using assms(2) by (auto simp: in_place_def members_def)
  then have "snd p \<le> snd (bs ! t) - fst (bs ! t)" using assms(1) by (simp add: loop_share_def)
  from static_ranges_cover [OF w \<open>0 < snd p\<close> assms(3) this] obtain g where
    g: "\<forall>k<nat (snd p). static_range (loops m t) (fst p) (snd p) (nat (fst p) + k) = Inr (g k)"
      "\<And>i. times i (map g [0..<nat (snd p)]) = (if fst (bs ! t) \<le> i \<and> i < snd (bs ! t) then 1 else 0)" by blast
  have "(\<Sum>n\<in>members p. covers i (part (loops m t) p n)) = times i (map g [0..<nat (snd p)])" for i
  proof -
    have "(\<Sum>n\<in>members p. covers i (part (loops m t) p n)) = (\<Sum>k<nat (snd p). covers i (g k))"
      unfolding members_image [OF assms(3)] using g(1) by (subst sum.reindex) (auto simp: inj_on_def part_def intro!: sum.cong)
    also have "\<dots> = sum_list (map (covers i \<circ> g) [0..<nat (snd p)])"
      by (simp add: interv_sum_list_conv_sum_set_nat atLeast0LessThan)
    finally show ?thesis by (simp add: times_def)
  qed
  then show ?thesis using assms(1) g(2) by (simp add: loop_share_def loop_done_def)
qed

lemma execute_static_frame: "execute_static f u p n m = Some m' \<Longrightarrow> loops m' = loops m \<and> (t \<noteq> u \<longrightarrow> calls m' t = calls m t)"
  by (auto simp: execute_static_def split: sum.splits)

interpretation loop: task_program execute_static r "loop_fresh bs" "loop_share bs" "loop_done bs" "\<lambda>_ _. False"
  for r :: rt and bs :: "(int \<times> int) list"
proof
  fix t p m D n f m' assume "loop_share bs t p D m" "in_place p n" "0 \<le> fst p" "n \<notin> D" "D \<subseteq> members p"
    "execute_static f t p n m = Some m'"
  then show "loop_share bs t p (insert n D) m'" by (rule loop_share_step)
next
  fix t p n m assume "in_place p n" "0 \<le> fst p" "loop_share bs t p (members p) m"
  then show "loop_done bs t m" using loop_share_all by blast
next
  fix f u p n m m' t q D assume "execute_static f u p n m = Some m'" "u \<noteq> t" "loop_share bs t q D m"
  then show "loop_share bs t q D m'"
    using execute_static_frame [of f u p n m m' t] by (auto simp: loop_share_def loop_fields_def)
next
  fix f u p n m m' t assume "execute_static f u p n m = Some m'" "u \<noteq> t" "loop_fresh bs t m"
  then show "loop_fresh bs t m'"
    using execute_static_frame [of f u p n m m' t] by (auto simp: loop_fresh_def loop_fields_def)
next
  fix f u p n m m' t assume "execute_static f u p n m = Some m'" "u \<noteq> t" "loop_done bs t m"
  then show "loop_done bs t m'"
    using execute_static_frame [of f u p n m m' t] by (auto simp: loop_done_def loop_fields_def)
qed (auto simp: loop_fresh_def loop_share_def call_times_def times_def)

text \<open>The state of the data when the program may end.\<close>

lemma loops_done_at_exit:
  assumes "loop_build ys (init_rt c l blank, mem) = Inr (r, m0)" and "N \<le> XITAO_MAXTHREADS"
    and "(prog_step execute_static rnd N)\<^sup>*\<^sup>* (boot r, m0) (s, m)" and "fault_free N s"
    and "n < N" and "pcs s n = PDone \<or> pending_tasks (rts s) \<le> 0" and "t < length (loop_bounds ys)"
  shows "loop_done (loop_bounds ys) t m"
proof -
  from loop_build_built [OF assms(1), of "[]"] obtain ops where ops: "\<forall>rnd. build rnd ops (init_rt c l blank) = Some r"
    "next_task r = length (loop_bounds ys)"
    "\<forall>t<length (loop_bounds ys). loop_ok (loops m0 t) (loop_bounds ys ! t) \<and> calls m0 t = []" by (auto simp: init_rt_def)
  have "prog_reached execute_static rnd N ops r m0 s m"
    using ops(1) assms(2-4) unfolding prog_reached_def by blast
  from loop.results_at_exit [OF this, of "loop_bounds ys"] show ?thesis
    using ops(2,3) assms(5-7) by (simp add: loop_fresh_def loop_fields_def)
qed

section \<open>Properties\<close>

text \<open>C9.
  A program of parallel loops runs every loop exactly once. For every program that makes
  loops and orders them, every layout, every number of workers up to 64, every
  interleaving and every place the loops are molded to: if no worker fails (a place wider
  than its loop ends the program), then when a worker has left the loop of the scheduler or
  nothing is pending, the body of each loop has been called for each of its indices once
  and for no other index.
\<close>

theorem loop_program_runs_once:
  assumes "loop_build ys (init_rt c l blank, mem) = Inr (r, m0)" and "N \<le> XITAO_MAXTHREADS"
    and "(prog_step execute_static rnd N)\<^sup>*\<^sup>* (boot r, m0) (s, m)" and "fault_free N s"
    and "n < N" and "pcs s n = PDone \<or> pending_tasks (rts s) \<le> 0"
    and "t < length (loop_bounds ys)" and "loop_bounds ys ! t = (st, en)"
  shows "count_list (concat (map (\<lambda>(b, e, n). map fst (xitao_looper b e n)) (calls m t))) i = (if st \<le> i \<and> i < en then 1 else 0)"
proof -
  have "loop_done (loop_bounds ys) t m" by (rule loops_done_at_exit [OF assms(1-7)])
  then have "call_times i (calls m t) = (if st \<le> i \<and> i < en then 1 else 0)"
    using assms(8) by (simp add: loop_done_def)
  then show ?thesis using body_calls(1) [of "calls m t" i] by (auto split: if_splits)
qed

text \<open>An example: a loop on one thread before a loop on two.\<close>

definition loop_demo :: "loop_op list" where
  "loop_demo = [Loop 0 1 3 4, Loop 0 2 0 5, Order 0 1]"

definition loop_demo_mem :: loop_mem where
  "loop_demo_mem = \<lparr>loops = (\<lambda>_. \<lparr>pf_sched = Vec_other, pf_start = 0, pf_end = 0, pf_block_size = 0, pf_blocks = 0, pf_size = 0\<rparr>),
     calls = (\<lambda>_. [])\<rparr>"

definition loop_demo_run :: "(sys \<times> loop_mem) option" where
  "loop_demo_run = (case loop_build loop_demo (init_rt two_conf small_layout blank_task, loop_demo_mem) of
     Inl e \<Rightarrow> None
   | Inr (r, m0) \<Rightarrow> prog_run execute_static 2 one_left (boot r, m0))"

theorem loop_program_runs_once_witness:
  "\<exists>s m. loop_demo_run = Some (s, m)
     \<and> count_list (concat (map (\<lambda>(b, e, n). map fst (xitao_looper b e n)) (calls m 1))) 4 = 1"
proof -
  have "(case loop_build loop_demo (init_rt two_conf small_layout blank_task, loop_demo_mem) of Inl e \<Rightarrow> False | Inr x \<Rightarrow> True)"
    by code_simp
  then obtain r m0 where B: "loop_build loop_demo (init_rt two_conf small_layout blank_task, loop_demo_mem) = Inr (r, m0)"
    by (auto split: sum.splits)
  have "(case loop_demo_run of None \<Rightarrow> False | Some (s, m) \<Rightarrow> no_fault_2 s \<and> pcs s 0 = PDone)" by code_simp
  then obtain s m where s: "loop_demo_run = Some (s, m)" "no_fault_2 s" "pcs s 0 = PDone" by (auto split: option.splits)
  have "prog_run execute_static 2 one_left (boot r, m0) = Some (s, m)" using s(1) by (simp add: loop_demo_run_def B)
  then have run: "(prog_step execute_static (\<lambda>x. x) 2)\<^sup>*\<^sup>* (boot r, m0) (s, m)" by (rule prog_run_steps)
  have f: "fault_free 2 s" using s(2) by (auto simp: fault_free_def no_fault_2_def less_2_cases_iff)
  have "count_list (concat (map (\<lambda>(b, e, n). map fst (xitao_looper b e n)) (calls m 1))) 4 = 1"
    using loop_program_runs_once [OF B _ run f, of 0 1 0 5 4] s(3) by (simp add: loop_demo_def XITAO_MAXTHREADS_def)
  with s(1) show ?thesis by blast
qed

end
