(* ===== verification/Loop_Regions.thy ===== *)
theory Loop_Regions
  imports Loop_Programs Runtime_Api
begin

text \<open>
  From the macro of a parallel region to the executions of its body: what
  \<open>xitao_vec_immediate_multiparallel\<close> creates and pushes is a program of parallel loops whose tasks
  have been pushed, so the workers run each of its indices once, and \<open>xitao_drain\<close>, which
  the synchronous macro calls next, can only return when they have.
\<close>

section \<open>The macros\<close>

text \<open>
  \<open>__xitao_vec_multiparallel_region\<close> and \<open>__xitao_vec_non_immediate_multiparallel_region\<close>. The body they pass is
  the loop \<open>vec_region_body\<close> over the range a thread is given.
\<close>

definition vec_multiparallel_region ::
    "nat \<Rightarrow> int \<Rightarrow> nat \<Rightarrow> int \<Rightarrow> int \<Rightarrow> int \<Rightarrow> sched_type \<Rightarrow> int \<Rightarrow> api \<Rightarrow> rt
     \<Rightarrow> (api_error + ((tid \<times> par_for) list \<times> api \<times> rt)) option" where
  "vec_multiparallel_region rand cpu ty w iter en sched block_size a r =
     xitao_vec_immediate_multiparallel rand cpu ty w iter en sched block_size a r"

definition vec_non_immediate_multiparallel_region ::
    "nat \<Rightarrow> int \<Rightarrow> int \<Rightarrow> int \<Rightarrow> sched_type \<Rightarrow> int \<Rightarrow> rt \<Rightarrow> api_error + ((tid \<times> par_for) list \<times> rt)" where
  "vec_non_immediate_multiparallel_region ty w iter en sched block_size r =
     xitao_vec_multiparallel ty w iter en sched block_size r"

text \<open>The members of the created loops, which nobody has executed yet.\<close>

definition new_loops :: "(tid \<times> par_for) list \<Rightarrow> loop_mem \<Rightarrow> loop_mem" where
  "new_loops ts m = fold (\<lambda>(t, p) m. m\<lparr>loops := (loops m)(t := p), calls := (calls m)(t := [])\<rparr>) ts m"

text \<open>The state in which the workers start: all tasks have been pushed.\<close>

definition pushed_boot :: "rt \<Rightarrow> sys" where
  "pushed_boot r = (boot r)\<lparr>unpushed := (\<lambda>_. False)\<rparr>"

section \<open>Pushing\<close>

definition push_task :: "tid \<Rightarrow> nat \<Rightarrow> rt \<Rightarrow> rt" where
  "push_task t q r = insert_in_ready_queue t q (if use_performance_modeling (conf r) then attach_ptt t r else r)"

definition push_tasks :: "(tid \<times> nat) list \<Rightarrow> rt \<Rightarrow> rt" where
  "push_tasks = fold (\<lambda>(t, q). push_task t q)"

lemma push_result: "xitao_push rand cpu a t qu r = Some (Inr r') \<Longrightarrow> \<exists>q<XITAO_MAXTHREADS. r' = push_task t q r"
  by (auto simp: xitao_push_def push_task_def Let_def split: option.splits sum.splits if_splits intro!: exI [of _ "nat _"])

lemma push_task_sel [simp]: "next_task (push_task t q r) = next_task r" "conf (push_task t q r) = conf r"
  by (simp_all add: push_task_def insert_in_ready_queue_def)

lemma push_tasks_sel [simp]: "next_task (push_tasks tqs r) = next_task r" "conf (push_tasks tqs r) = conf r"
  by (induction tqs arbitrary: r) (auto simp: push_tasks_def split: prod.splits)

text \<open>Creating a task does not depend on what has been pushed.\<close>

lemma AssemblyTask_push:
  assumes "t < next_task r"
  shows "AssemblyTask ty w n (push_task t q r) = (next_task r, push_task t q (snd (AssemblyTask ty w n r)))"
  using assms
  by (cases r) (auto simp: AssemblyTask_def PolyTask_def push_task_def insert_in_ready_queue_def attach_ptt_def upd_task_def
      count_new_task_def fun_upd_twist split: prod.splits)

lemma AssemblyTask_next: "fst (AssemblyTask ty w n r) = next_task r" "next_task (snd (AssemblyTask ty w n r)) = Suc (next_task r)"
  by (simp_all add: AssemblyTask_def PolyTask_def)

lemma ParForTask_made: "ParForTask ty sched s e w r = Inr (t, p, r1) \<longleftrightarrow>
    t = next_task r \<and> par_for_fields sched s e w = Inr p \<and> r1 = snd (AssemblyTask ty w 0 r)"
  using AssemblyTask_next(1) [of ty w 0 r] by (auto simp: ParForTask_def split: sum.splits prod.splits)

lemma ParForTask_push:
  assumes "t < next_task r" and "ParForTask ty sched s e w r = Inr (u, p, r1)"
  shows "ParForTask ty sched s e w (push_task t q r) = Inr (u, p, push_task t q r1)"
  using assms AssemblyTask_push [OF assms(1), of ty w 0 q] by (simp add: ParForTask_made)

lemma ParForTask_unpush:
  assumes "t < next_task r" and "ParForTask ty sched s e w (push_task t q r) = Inr (u, p, r1)"
  shows "\<exists>r2. ParForTask ty sched s e w r = Inr (u, p, r2) \<and> r1 = push_task t q r2"
  using assms AssemblyTask_push [OF assms(1), of ty w 0 q] by (simp add: ParForTask_made)

lemma multi_loop_Suc: "multi_loop ty sched w nb en bs (Suc k) i r = Inr (ts, r') \<longleftrightarrow>
    (\<exists>p r1 ts'. ParForTask ty sched (fst (multi_range nb en bs i)) (snd (multi_range nb en bs i)) w r = Inr (next_task r, p, r1)
      \<and> multi_loop ty sched w nb en bs k (i + 1) r1 = Inr (ts', r') \<and> ts = (next_task r, p) # ts')"
proof -
  have "t = next_task r" if "ParForTask ty sched s e w r = Inr (t, p, r1)" for s e t p r1
    using that by (simp add: ParForTask_made)
  then show ?thesis by (auto split: sum.splits prod.splits)
qed

declare multi_loop.simps(2) [simp del]

lemma multi_loop_unpush:
  "t < next_task r \<Longrightarrow> multi_loop ty sched w nb en bs k i (push_task t q r) = Inr (ts, r') \<Longrightarrow>
   \<exists>r2. multi_loop ty sched w nb en bs k i r = Inr (ts, r2) \<and> r' = push_task t q r2"
proof (induction k arbitrary: i r ts)
  case (Suc k)
  let ?s = "fst (multi_range nb en bs i)" and ?e = "snd (multi_range nb en bs i)"
  obtain p r1 ts' where 1: "ParForTask ty sched ?s ?e w (push_task t q r) = Inr (next_task r, p, r1)"
    "multi_loop ty sched w nb en bs k (i + 1) r1 = Inr (ts', r')" "ts = (next_task r, p) # ts'"
    using Suc.prems(2) by (auto simp: multi_loop_Suc)
  from ParForTask_unpush [OF Suc.prems(1) 1(1)] obtain r2 where
    2: "ParForTask ty sched ?s ?e w r = Inr (next_task r, p, r2)" "r1 = push_task t q r2" by blast
  then have "t < next_task r2" using Suc.prems(1) AssemblyTask_next(2) [of ty w 0 r] by (simp add: ParForTask_made)
  from Suc.IH [OF this 1(2) [unfolded 2(2)]] 2(1) 1(3) show ?case by (auto simp: multi_loop_Suc)
qed auto

text \<open>Creating and pushing block by block is creating all blocks and then pushing them.\<close>

lemma multi_push_loop_form:
  "multi_push_loop rand cpu a ty sched w nb en bs k i r = Some (Inr (ts, r')) \<Longrightarrow>
   \<exists>r1 qs. multi_loop ty sched w nb en bs k i r = Inr (ts, r1) \<and> r' = push_tasks (zip (map fst ts) qs) r1
     \<and> length qs = length ts \<and> (\<forall>q\<in>set qs. q < XITAO_MAXTHREADS)"
proof (induction k arbitrary: i r ts r')
  case 0
  then show ?case by (auto simp: push_tasks_def)
next
  case (Suc k)
  let ?s = "fst (multi_range nb en bs i)" and ?e = "snd (multi_range nb en bs i)"
  obtain t p r1 r2 ts' where 1: "ParForTask ty sched ?s ?e w r = Inr (t, p, r1)"
    "xitao_push rand cpu a t (i smod xitao_nthreads (alay a)) r1 = Some (Inr r2)"
    "multi_push_loop rand cpu a ty sched w nb en bs k (i + 1) r2 = Some (Inr (ts', r'))" "ts = (t, p) # ts'"
    using Suc.prems by (auto split: prod.splits sum.splits option.splits if_splits)
  have t: "t = next_task r" "t < next_task r1" using 1(1) AssemblyTask_next(2) [of ty w 0 r] by (auto simp: ParForTask_made)
  from push_result [OF 1(2)] obtain q where q: "q < XITAO_MAXTHREADS" "r2 = push_task t q r1" by blast
  from Suc.IH [OF 1(3)] obtain r3 qs where 3: "multi_loop ty sched w nb en bs k (i + 1) r2 = Inr (ts', r3)"
    "r' = push_tasks (zip (map fst ts') qs) r3" "length qs = length ts'" "\<forall>q\<in>set qs. q < XITAO_MAXTHREADS" by blast
  from multi_loop_unpush [OF t(2) 3(1) [unfolded q(2)]] obtain r4 where
    4: "multi_loop ty sched w nb en bs k (i + 1) r1 = Inr (ts', r4)" "r3 = push_task t q r4" by blast
  have "multi_loop ty sched w nb en bs (Suc k) i r = Inr (ts, r4)" using 1(1,4) 4(1) t(1) by (auto simp: multi_loop_Suc)
  then show ?case using 1(4) 3(2-4) 4(2) q(1) by (intro exI [of _ r4] exI [of _ "q # qs"]) (simp add: push_tasks_def)
qed

text \<open>What is created is a program of loops.\<close>

definition block_loops :: "nat \<Rightarrow> int \<Rightarrow> int \<Rightarrow> int \<Rightarrow> int \<Rightarrow> nat \<Rightarrow> int \<Rightarrow> loop_op list" where
  "block_loops ty w nb en bs k i =
     map (\<lambda>j. Loop ty w (fst (multi_range nb en bs (i + int j))) (snd (multi_range nb en bs (i + int j)))) [0..<k]"

lemma block_loops_Suc: "block_loops ty w nb en bs (Suc k) i =
    Loop ty w (fst (multi_range nb en bs i)) (snd (multi_range nb en bs i)) # block_loops ty w nb en bs k (i + 1)"
  unfolding block_loops_def by (subst upt_conv_Cons, simp) (simp add: map_Suc_upt [symmetric] add_ac del: upt_Suc)

lemma block_loops_bounds:
  "length (loop_bounds (block_loops ty w nb en bs k i)) = k"
  "j < k \<Longrightarrow> loop_bounds (block_loops ty w nb en bs k i) ! j = multi_range nb en bs (i + int j)"
proof -
  have "loop_bounds (map (\<lambda>j. Loop ty w (fst (f j)) (snd (f j))) xs) = map f xs" for f :: "nat \<Rightarrow> int \<times> int" and xs
    by (induction xs) auto
  from this [of "\<lambda>j. multi_range nb en bs (i + int j)" "[0..<k]"]
  have b: "loop_bounds (block_loops ty w nb en bs k i) = map (\<lambda>j. multi_range nb en bs (i + int j)) [0..<k]"
    by (simp add: block_loops_def)
  show "length (loop_bounds (block_loops ty w nb en bs k i)) = k" by (simp add: b)
  show "j < k \<Longrightarrow> loop_bounds (block_loops ty w nb en bs k i) ! j = multi_range nb en bs (i + int j)" by (simp add: b)
qed

lemma multi_loop_build:
  "multi_loop ty Vec_static w nb en bs k i r = Inr (ts, r') \<Longrightarrow>
   loop_build (block_loops ty w nb en bs k i) (r, m) = Inr (r', new_loops ts m)
     \<and> map fst ts = [next_task r..<next_task r'] \<and> next_task r' = next_task r + k"
proof (induction k arbitrary: i r ts m)
  case 0
  then show ?case by (auto simp: block_loops_def new_loops_def)
next
  case (Suc k)
  obtain p r1 ts' where 1: "ParForTask ty Vec_static (fst (multi_range nb en bs i)) (snd (multi_range nb en bs i)) w r = Inr (next_task r, p, r1)"
    "multi_loop ty Vec_static w nb en bs k (i + 1) r1 = Inr (ts', r')" "ts = (next_task r, p) # ts'"
    using Suc.prems by (auto simp: multi_loop_Suc)
  have n: "next_task r1 = Suc (next_task r)" using 1(1) AssemblyTask_next(2) [of ty w 0 r] by (simp add: ParForTask_made)
  from Suc.IH [OF 1(2), of "m\<lparr>loops := (loops m)(next_task r := p), calls := (calls m)(next_task r := [])\<rparr>"] 1(1,3) n
  show ?case by (simp add: block_loops_Suc xitao_vec_def new_loops_def upt_conv_Cons)
qed

lemma multi_loop_fresh:
  "multi_loop ty sched w nb en bs k i r = Inr (ts, r') \<Longrightarrow> \<forall>t<next_task r. refcount (tasks r t) = 0 \<Longrightarrow>
   \<forall>t<next_task r'. refcount (tasks r' t) = 0"
proof (induction k arbitrary: i r ts)
  case (Suc k)
  obtain p r1 ts' where 1: "ParForTask ty sched (fst (multi_range nb en bs i)) (snd (multi_range nb en bs i)) w r = Inr (next_task r, p, r1)"
    "multi_loop ty sched w nb en bs k (i + 1) r1 = Inr (ts', r')" using Suc.prems(1) by (auto simp: multi_loop_Suc)
  have "\<forall>t<next_task r1. refcount (tasks r1 t) = 0"
    using 1(1) Suc.prems(2) by (auto simp: ParForTask_made AssemblyTask_def PolyTask_def count_new_task_def less_Suc_eq)
  from Suc.IH [OF 1(2) this] show ?case .
qed auto

text \<open>Pushing is steps of the master.\<close>

lemma push_steps:
  assumes "distinct (map fst tqs)" and "\<forall>(t, q)\<in>set tqs. unpushed s t \<and> q < XITAO_MAXTHREADS"
  shows "(prog_step body rnd N)\<^sup>*\<^sup>* (s, m)
    (s\<lparr>rts := push_tasks tqs (rts s), unpushed := (\<lambda>t. unpushed s t \<and> t \<notin> fst ` set tqs)\<rparr>, m)"
  using assms
proof (induction tqs arbitrary: s)
  case Nil
  then show ?case by (simp add: push_tasks_def)
next
  case (Cons x tqs)
  obtain t q where x: "x = (t, q)" by (cases x)
  let ?s = "s\<lparr>rts := push_task t q (rts s), unpushed := (unpushed s)(t := False)\<rparr>"
  have "sched_step rnd N s ?s"
    unfolding push_task_def using sched_step.master_push [of s t q _ rnd N] Cons.prems(2) x by simp
  then have 1: "prog_step body rnd N (s, m) (?s, m)" by (rule other_step) simp
  have "\<forall>(u, p)\<in>set tqs. unpushed ?s u \<and> p < XITAO_MAXTHREADS" using Cons.prems x by force
  from Cons.IH [OF _ this] Cons.prems(1) have "(prog_step body rnd N)\<^sup>*\<^sup>* (?s, m)
    (?s\<lparr>rts := push_tasks tqs (rts ?s), unpushed := (\<lambda>u. unpushed ?s u \<and> u \<notin> fst ` set tqs)\<rparr>, m)" by simp
  moreover have "(\<lambda>u. unpushed ?s u \<and> u \<notin> fst ` set tqs) = (\<lambda>u. unpushed s u \<and> u \<notin> fst ` set (x # tqs))"
    using x by auto
  ultimately show ?case using 1 x by (auto simp: push_tasks_def intro: converse_rtranclp_into_rtranclp)
qed

section \<open>Properties\<close>

text \<open>The blocks of a loop that starts at 0 contain each index once.\<close>

lemma multi_ranges_cover:
  assumes "0 < bs" and "multi_blocks 0 en bs = Inr nb"
  shows "times i (map (\<lambda>j. multi_range nb en bs (int j)) [0..<nat nb]) = (if 0 \<le> i \<and> i < en then 1 else 0)"
proof (cases "0 < en")
  case True
  then have nb: "nb = (en + bs - 1) div bs" using assms by (simp add: multi_blocks_def signed_divide_int_def Let_def split: if_splits)
  have "0 < nb" unfolding nb using assms(1) True by (simp add: pos_imp_zdiv_pos_iff)
  moreover have "nb * bs \<le> en + bs - 1"
    unfolding nb using assms(1) div_mult_mod_eq [of "en + bs - 1" bs] pos_mod_sign [of bs "en + bs - 1"] by linarith
  then have "(nb - 1) * bs < en" by (simp add: left_diff_distrib)
  ultimately show ?thesis
    using assms(1) by (intro times_equal_blocks [of bs]) (auto simp: multi_range_def Let_def algebra_simps)
next
  case False
  have "nb = (en + bs - 1) sdiv bs" using assms by (simp add: multi_blocks_def Let_def split: if_splits)
  moreover have "\<bar>en + bs - 1\<bar> div \<bar>bs\<bar> = 0" if "0 < en + bs" using that False assms(1) by (simp add: div_pos_pos_trivial)
  moreover have "0 \<le> \<bar>en + bs - 1\<bar> div \<bar>bs\<bar>" using assms(1) by (simp add: pos_imp_zdiv_nonneg_iff)
  ultimately have "nb \<le> 0"
    using assms(1) by (cases "0 < en + bs") (auto simp: signed_divide_int_def sgn_if mult_le_0_iff)
  then show ?thesis using False by simp
qed

text \<open>The executions for an index, over all blocks.\<close>

lemma calls_of_blocks:
  "int (count_list (concat (map (\<lambda>t. concat (map (\<lambda>(b, e, n). vec_region_body b e n) (calls m t))) ts)) i)
     = sum_list (map (\<lambda>t. call_times i (calls m t)) ts)"
  by (induction ts) (simp_all add: body_calls(2))

text \<open>C12.
  A parallel region from 0 to \<open>en\<close> runs its body once per index. For every block size, width,
  layout, number of workers up to 64, interleaving and choice of places, from the call that
  creates and pushes the tasks of the region: if the call succeeds (it does not when the sum of
  \<open>en\<close> and the block size overflows an \<open>int\<close>, or a push finds no queue) and no worker fails, then when the condition
  \<open>xitao_drain\<close> waits for holds, or a worker has left its loop, the tasks together have run the
  body once for each index and for no other.
\<close>

theorem region_runs_once:
  assumes "vec_multiparallel_region rand cpu ty w 0 en Vec_static bs a (init_rt c l blank) = Some (Inr (ts, a', r))"
    and "0 < bs" and "N \<le> XITAO_MAXTHREADS"
    and "(prog_step execute_static rnd N)\<^sup>*\<^sup>* (pushed_boot r, new_loops ts mem) (s, m)" and "fault_free N s"
    and "n < N" and "pcs s n = PDone \<or> xitao_drain_done (rts s)"
  shows "count_list (concat (map (\<lambda>t. concat (map (\<lambda>(b, e, n). vec_region_body b e n) (calls m t))) [0..<length ts])) i
    = (if 0 \<le> i \<and> i < en then 1 else 0)"
proof -
  obtain nb where nb: "multi_blocks 0 en bs = Inr nb"
    and push: "multi_push_loop rand cpu a ty Vec_static w nb en bs (nat nb) 0 (init_rt c l blank) = Some (Inr (ts, r))"
    using assms(1) by (auto simp: vec_multiparallel_region_def xitao_vec_immediate_multiparallel_def split: option.splits sum.splits)
  let ?ys = "block_loops ty w nb en bs (nat nb) 0"
  from multi_push_loop_form [OF push] obtain r1 qs where
    made: "multi_loop ty Vec_static w nb en bs (nat nb) 0 (init_rt c l blank) = Inr (ts, r1)"
    and r: "r = push_tasks (zip (map fst ts) qs) r1" "length qs = length ts" "\<forall>q\<in>set qs. q < XITAO_MAXTHREADS" by blast
  from multi_loop_build [OF made, of mem] have built: "loop_build ?ys (init_rt c l blank, mem) = Inr (r1, new_loops ts mem)"
    and ids: "map fst ts = [0..<nat nb]" "next_task r1 = nat nb" by (simp_all add: init_rt_def)
  have len: "length ts = nat nb" using arg_cong [OF ids(1), of length] by simp
  have fresh: "\<forall>t<nat nb. refcount (tasks r1 t) = 0" using multi_loop_fresh [OF made] ids(2) by (simp add: init_rt_def)
  let ?tqs = "zip (map fst ts) qs"
  have fst: "map fst ?tqs = [0..<nat nb]" using r(2) ids(1) by (metis length_map map_fst_zip)
  have "(prog_step execute_static rnd N)\<^sup>*\<^sup>* (boot r1, new_loops ts mem)
      ((boot r1)\<lparr>rts := push_tasks ?tqs (rts (boot r1)), unpushed := (\<lambda>t. unpushed (boot r1) t \<and> t \<notin> fst ` set ?tqs)\<rparr>, new_loops ts mem)"
    using r(3) fresh ids fst by (intro push_steps) (auto simp: boot_def dest: set_zip_leftD set_zip_rightD)
  moreover have "(boot r1)\<lparr>rts := push_tasks ?tqs (rts (boot r1)), unpushed := (\<lambda>t. unpushed (boot r1) t \<and> t \<notin> fst ` set ?tqs)\<rparr> = pushed_boot r"
  proof -
    have "fst ` set ?tqs = {..<nat nb}" using arg_cong [OF fst, of set] by (simp add: atLeast0LessThan lessThan_def)
    then show ?thesis using r(1) ids(2) by (auto simp: pushed_boot_def boot_def)
  qed
  ultimately have run: "(prog_step execute_static rnd N)\<^sup>*\<^sup>* (boot r1, new_loops ts mem) (s, m)" using assms(4) by simp
  have "call_times i (calls m t) = covers i (multi_range nb en bs (int t))" if t: "t < nat nb" for t
  proof -
    have "pcs s n = PDone \<or> pending_tasks (rts s) \<le> 0" using assms(7) by (simp add: xitao_drain_done_def)
    from loops_done_at_exit [OF built assms(3) run assms(5,6) this, of t] have "loop_done (loop_bounds ?ys) t m"
      using t by (simp add: block_loops_bounds)
    then show ?thesis using t by (simp add: loop_done_def block_loops_bounds covers_def)
  qed
  then have "map (\<lambda>t. call_times i (calls m t)) [0..<length ts] = map (\<lambda>t. covers i (multi_range nb en bs (int t))) [0..<nat nb]"
    using len by simp
  then have "sum_list (map (\<lambda>t. call_times i (calls m t)) [0..<length ts]) = (if 0 \<le> i \<and> i < en then 1 else 0)"
    using multi_ranges_cover [OF assms(2) nb, of i] by (simp add: times_def comp_def)
  then show ?thesis using calls_of_blocks [of m "[0..<length ts]" i] by (auto split: if_splits)
qed


text \<open>An example: two threads, a loop of two indices in one block, and one worker that runs it.\<close>

declare find_queue.simps [code]

definition region_api :: api where
  "region_api = (case xitao_init_hw (\<lambda>_. None) (\<lambda>_. None) 2 0 1 init_api of Inl e \<Rightarrow> init_api | Inr a \<Rightarrow> a)"

definition region_demo :: "nat \<Rightarrow> (sys \<times> loop_mem) option" where
  "region_demo k = (case vec_multiparallel_region 0 0 0 1 0 2 Vec_static 2 region_api (init_rt two_conf (alay region_api) blank_task) of
     Some (Inr (ts, a', r)) \<Rightarrow> prog_run execute_static 1 (replicate k (Worker 0)) (pushed_boot r, new_loops ts loop_demo_mem)
   | _ \<Rightarrow> None)"


theorem region_runs_once_witness:
  "\<exists>s m. region_demo 40 = Some (s, m) \<and> count_list (concat (map (\<lambda>(b, e, n). vec_region_body b e n) (calls m 0))) 1 = 1"
proof -
  let ?r0 = "init_rt two_conf (alay region_api) blank_task"
  have "(case vec_multiparallel_region 0 0 0 1 0 2 Vec_static 2 region_api ?r0 of
      Some (Inr (ts, a', r)) \<Rightarrow> length ts = 1 | _ \<Rightarrow> False)" by code_simp
  then obtain ts a' r where B: "vec_multiparallel_region 0 0 0 1 0 2 Vec_static 2 region_api ?r0 = Some (Inr (ts, a', r))" "length ts = 1"
    by (auto split: option.splits sum.splits)
  have "(case region_demo 40 of None \<Rightarrow> False | Some (s, m) \<Rightarrow> xitao_drain_done (rts s) \<and> pcs s 0 = PFlushP)" by code_simp
  then obtain s m where s: "region_demo 40 = Some (s, m)" "xitao_drain_done (rts s)" "pcs s 0 = PFlushP" by (auto split: option.splits)
  have "prog_run execute_static 1 (replicate 40 (Worker 0)) (pushed_boot r, new_loops ts loop_demo_mem) = Some (s, m)"
    using s(1) by (simp add: region_demo_def B(1) del: prog_run.simps)
  then have run: "(prog_step execute_static (\<lambda>x. x) 1)\<^sup>*\<^sup>* (pushed_boot r, new_loops ts loop_demo_mem) (s, m)" by (rule prog_run_steps)
  have f: "fault_free 1 s" using s(3) by (simp add: fault_free_def)
  have "count_list (concat (map (\<lambda>t. concat (map (\<lambda>(b, e, n). vec_region_body b e n) (calls m t))) [0..<length ts])) 1 = 1"
    using region_runs_once [OF B(1) _ _ run f, of 0 1] s(2) by (simp add: XITAO_MAXTHREADS_def)
  with s(1) B(2) show ?thesis by simp
qed

end
