(* ===== verification/Drain.thy ===== *)
theory Drain
  imports Sched_Refine Runtime_Api
begin

text \<open>
  \<open>xitao_drain\<close> of \<open>src/tao_sched.cpp\<close> beside the workers: callers sleep on a condition
  variable until nothing is pending, and a worker that finds nothing pending at the end of
  a round notifies one of them, without holding the mutex. The worker's steps are those of
  \<open>Sched_Model.thy\<close>, with the notification before it decides whether to leave the loop. When
  nothing is pending it stays so, hence the test of the worker and its notification are one step.
\<close>

section \<open>The model\<close>

text \<open>
  A caller is about to call, tests the condition with the mutex held, is about to sleep with
  the mutex held, sleeps, has been woken and needs the mutex again, or has returned.
\<close>

datatype drain_pc = DOut | DTest | DWait | DAsleep | DWoken | DBack

record dsys =
  base :: sys
  dpcs :: "nat \<Rightarrow> drain_pc"
  mutex :: "nat option"
  told :: "nat \<Rightarrow> bool"

definition drain_boot :: "rt \<Rightarrow> dsys" where
  "drain_boot r = \<lparr>base = boot r, dpcs = (\<lambda>_. DOut), mutex = None, told = (\<lambda>_. False)\<rparr>"

definition dgo :: "nat \<Rightarrow> drain_pc \<Rightarrow> nat option \<Rightarrow> dsys \<Rightarrow> dsys" where
  "dgo k p h x = x\<lparr>dpcs := (dpcs x)(k := p), mutex := h\<rparr>"

text \<open>\<open>K\<close> is the number of callers, \<open>sp\<close> whether a sleeping thread may wake up without notification.\<close>

inductive drain_step :: "(real \<Rightarrow> real) \<Rightarrow> nat \<Rightarrow> nat \<Rightarrow> bool \<Rightarrow> dsys \<Rightarrow> dsys \<Rightarrow> bool"
  for rnd :: "real \<Rightarrow> real" and N :: nat and K :: nat and sp :: bool where
  work: "sched_step rnd N (base x) s' \<Longrightarrow> \<forall>n<N. pcs (base x) n = PCheck \<and> pcs s' n \<noteq> PCheck \<longrightarrow> told x n \<Longrightarrow>
    drain_step rnd N K sp x (x\<lparr>base := s', told := (\<lambda>n. told x n \<and> pcs s' n = PCheck)\<rparr>)"
| notify: "n < N \<Longrightarrow> pcs (base x) n = PCheck \<Longrightarrow> \<not> told x n \<Longrightarrow> pending_tasks (rts (base x)) = 0 \<Longrightarrow> k < K \<Longrightarrow> dpcs x k = DAsleep \<Longrightarrow>
    drain_step rnd N K sp x (x\<lparr>dpcs := (dpcs x)(k := DWoken), told := (told x)(n := True)\<rparr>)"
| notify_nobody: "n < N \<Longrightarrow> pcs (base x) n = PCheck \<Longrightarrow> \<not> told x n \<Longrightarrow> pending_tasks (rts (base x)) = 0 \<Longrightarrow>
    \<forall>k<K. dpcs x k \<noteq> DAsleep \<Longrightarrow> drain_step rnd N K sp x (x\<lparr>told := (told x)(n := True)\<rparr>)"
| no_notify: "n < N \<Longrightarrow> pcs (base x) n = PCheck \<Longrightarrow> \<not> told x n \<Longrightarrow> pending_tasks (rts (base x)) \<noteq> 0 \<Longrightarrow>
    drain_step rnd N K sp x (x\<lparr>told := (told x)(n := True)\<rparr>)"
| lock: "k < K \<Longrightarrow> dpcs x k = DOut \<or> dpcs x k = DWoken \<Longrightarrow> mutex x = None \<Longrightarrow>
    drain_step rnd N K sp x (dgo k DTest (Some k) x)"
| test_done: "k < K \<Longrightarrow> dpcs x k = DTest \<Longrightarrow> xitao_drain_done (rts (base x)) \<Longrightarrow>
    drain_step rnd N K sp x (dgo k DBack None x)"
| test_wait: "k < K \<Longrightarrow> dpcs x k = DTest \<Longrightarrow> \<not> xitao_drain_done (rts (base x)) \<Longrightarrow>
    drain_step rnd N K sp x (dgo k DWait (mutex x) x)"
| sleep: "k < K \<Longrightarrow> dpcs x k = DWait \<Longrightarrow> drain_step rnd N K sp x (dgo k DAsleep None x)"
| spurious: "sp \<Longrightarrow> k < K \<Longrightarrow> dpcs x k = DAsleep \<Longrightarrow> drain_step rnd N K sp x (dgo k DWoken (mutex x) x)"

definition drain_reached :: "(real \<Rightarrow> real) \<Rightarrow> nat \<Rightarrow> nat \<Rightarrow> bool \<Rightarrow> build_op list \<Rightarrow> rt \<Rightarrow> dsys \<Rightarrow> bool" where
  "drain_reached rnd N K sp ops r x \<longleftrightarrow> (\<exists>c l blank. build rnd ops (init_rt c l blank) = Some r)
     \<and> (drain_step rnd N K sp)\<^sup>*\<^sup>* (drain_boot r) x \<and> N \<le> XITAO_MAXTHREADS \<and> fault_free N (base x)"

lemma dgo_sel [simp]:
  "base (dgo k p h x) = base x" "dpcs (dgo k p h x) = (dpcs x)(k := p)" "mutex (dgo k p h x) = h" "told (dgo k p h x) = told x"
  by (simp_all add: dgo_def)

section \<open>The workers\<close>

lemma drain_step_base:
  "drain_step rnd N K sp x y \<Longrightarrow> base y = base x \<or> sched_step rnd N (base x) (base y)"
  by (erule drain_step.cases) auto

lemma drain_steps_base: "(drain_step rnd N K sp)\<^sup>*\<^sup>* x y \<Longrightarrow> (sched_step rnd N)\<^sup>*\<^sup>* (base x) (base y)"
proof (induction rule: rtranclp_induct)
  case (step y z)
  with drain_step_base [of rnd N K sp y z] show ?case by (metis rtranclp.rtrancl_into_rtrancl)
qed simp

lemma drain_reached_base: "drain_reached rnd N K sp ops r x \<Longrightarrow> reached rnd N ops r (base x)"
  unfolding drain_reached_def reached_def by (fastforce dest: drain_steps_base simp: drain_boot_def)

text \<open>Nothing pending stays so.\<close>

lemma pending_nonneg: "sched_inv N s \<Longrightarrow> 0 \<le> pending_tasks (rts s)"
proof -
  assume "sched_inv N s"
  note P = sched_invD(10) [OF this]
  have "0 \<le> pool_total (task_pool (rts s))" "0 \<le> pool_total (task_completions (rts s))"
    using P by (auto simp: inv_pending_def pool_total_def intro!: tsum_nonneg)
  then show ?thesis using P unfinished_nonneg [of s] unfolding inv_pending_def by linarith
qed

lemma pending_zero_stays:
  assumes "sched_step rnd N s s'" and "fault_free N s'" and inv: "sched_inv N s" and N: "N \<le> XITAO_MAXTHREADS"
    and "pending_tasks (rts s) \<le> 0"
  shows "pending_tasks (rts s') = 0"
proof -
  have "sched_inv N s'" by (rule sched_inv_step [OF assms(1,2) inv N])
  from pending_nonneg [OF this] have "0 \<le> pending_tasks (rts s')" .
  moreover have "pending_tasks (rts s') \<le> pending_tasks (rts s)"
    using assms(1,2) by (cases rule: sched_step_explicit) (auto simp: flush_completions_def flush_pool_def)
  ultimately show ?thesis using assms(5) by linarith
qed

text \<open>When nothing is pending, an idle worker finds its queues empty.\<close>

lemma all_done_queues:
  assumes R: "reached rnd N ops r s" and "pending_tasks (rts s) \<le> 0"
  shows "assembly_q (rts s) n = []" "ready_q (rts s) n = []"
proof -
  note inv = reached_inv [OF R]
  note I = sched_invD [OF inv]
  have com: "committed s t" if "t < next_task (rts s)" for t
  proof -
    have "finished s t" using pending_zero [OF inv assms(2)] that by (simp add: unfinished_zero)
    moreover have "0 \<le> in_workers N (completing t) s" by (rule in_workers_nonneg) simp
    ultimately show ?thesis using I(2) unfolding inv_commit_def by (smt (verit))
  qed
  show "assembly_q (rts s) n = []"
  proof (rule ccontr)
    assume "\<not> ?thesis"
    then obtain t where "t \<in> set (assembly_q (rts s) n)" by (cases "assembly_q (rts s) n") auto
    then have o: "1 \<le> occ t (assembly_q (rts s) n)" using count_list_pos_iff [of "assembly_q (rts s) n" t] by linarith
    have eq: "(if sent_to s t n then in_workers N (to_push t n) s else 0) + occ t (assembly_q (rts s) n)
       + (if n < N then busy t (pcs s n) else 0) + ended s t n = (if sent_to s t n then 1 else 0)" "0 \<le> ended s t n"
      using I(5) by (simp_all add: inv_copies_def)
    have "0 \<le> in_workers N (to_push t n) s" by (rule in_workers_nonneg) simp
    with eq o counts_nonneg(3) [of t "pcs s n"] have e: "sent_to s t n" "ended s t n = 0" by (smt (verit))+
    then obtain p where p: "place_of s t = Some p" "in_place p n" by (auto simp: sent_to_def)
    have "t < next_task (rts s)" using sent_known(1) [OF I(3), of t] p by simp
    from committed_done [OF inv com [OF this]] p e(2) show False by auto
  qed
  show "ready_q (rts s) n = []"
  proof (rule ccontr)
    assume "\<not> ?thesis"
    then obtain t where "t \<in> set (ready_q (rts s) n)" by (cases "ready_q (rts s) n") auto
    note pl = ready_placeless [OF I(3) this]
    from committed_done [OF inv com [OF pl(2)]] pl(1) show False by auto
  qed
qed

section \<open>The callers\<close>

fun holds_mutex :: "drain_pc \<Rightarrow> bool" where
  "holds_mutex DTest = True"
| "holds_mutex DWait = True"
| "holds_mutex _ = False"

definition mutex_ok :: "nat \<Rightarrow> dsys \<Rightarrow> bool" where
  "mutex_ok K x \<longleftrightarrow> (\<forall>k. mutex x = Some k \<longleftrightarrow> k < K \<and> holds_mutex (dpcs x k))
     \<and> (\<forall>k. dpcs x k = DBack \<longrightarrow> pending_tasks (rts (base x)) \<le> 0)"

lemma mutex_ok_dgo:
  assumes "\<And>j. j \<noteq> k \<Longrightarrow> h \<noteq> Some j \<and> \<not> (j < K \<and> holds_mutex (dpcs x j))" and "h = Some k \<longleftrightarrow> k < K \<and> holds_mutex p"
    and "\<And>j. dpcs x j = DBack \<Longrightarrow> pending_tasks (rts (base x)) \<le> 0" and "p = DBack \<Longrightarrow> pending_tasks (rts (base x)) \<le> 0"
  shows "mutex_ok K (dgo k p h x)"
  unfolding mutex_ok_def
proof (intro conjI allI)
  fix j
  show "mutex (dgo k p h x) = Some j \<longleftrightarrow> j < K \<and> holds_mutex (dpcs (dgo k p h x) j)"
    using assms(1) [of j] assms(2) by (cases "j = k") auto
  show "dpcs (dgo k p h x) j = DBack \<longrightarrow> pending_tasks (rts (base (dgo k p h x))) \<le> 0"
    using assms(3) [of j] assms(4) by (cases "j = k") auto
qed

lemma mutex_ok_step:
  assumes "drain_step rnd N K sp x y" and "mutex_ok K x" and "reached rnd N ops r (base x)" and "fault_free N (base y)"
  shows "mutex_ok K y"
proof -
  have M: "mutex x = Some j \<longleftrightarrow> j < K \<and> holds_mutex (dpcs x j)" and B: "dpcs x j = DBack \<Longrightarrow> pending_tasks (rts (base x)) \<le> 0" for j
    using assms(2) unfolding mutex_ok_def by blast+
  have none: "\<not> holds_mutex (dpcs x j)" if "mutex x = None" "j < K" for j using M [of j] that by simp
  have only: "\<not> (j < K \<and> holds_mutex (dpcs x j))" if "k < K" "holds_mutex (dpcs x k)" "j \<noteq> k" for j k
    using M [of j] M [of k] that by auto
  from assms(1) show ?thesis
  proof cases
    case (work s')
    have "N \<le> XITAO_MAXTHREADS" using assms(3) by (simp add: reached_def)
    then have "pending_tasks (rts (base x)) \<le> 0 \<Longrightarrow> pending_tasks (rts s') \<le> 0"
      using pending_zero_stays [OF work(2) _ reached_inv [OF assms(3)]] assms(4) work(1) by simp
    then show ?thesis using M B work(1) by (simp add: mutex_ok_def)
  next
    case (notify n k)
    then show ?thesis using M B by (auto simp: mutex_ok_def)
  next
    case (lock k)
    show ?thesis unfolding lock(1) by (rule mutex_ok_dgo) (use lock B none [OF lock(4)] in auto)
  next
    case (test_done k)
    show ?thesis unfolding test_done(1)
      by (rule mutex_ok_dgo) (use test_done(2-4) B only [of k] in \<open>simp_all add: xitao_drain_done_def\<close>)
  next
    case (test_wait k)
    then show ?thesis using M B by (auto simp: mutex_ok_def)
  next
    case (sleep k)
    show ?thesis unfolding sleep(1) by (rule mutex_ok_dgo) (use sleep(2,3) B only [of k] in simp_all)
  next
    case (spurious k)
    then show ?thesis using M B by (auto simp: mutex_ok_def)
  qed (use M B in \<open>simp_all add: mutex_ok_def\<close>)
qed

lemma drain_reached_ok: "drain_reached rnd N K sp ops r x \<Longrightarrow> mutex_ok K x"
proof -
  assume "drain_reached rnd N K sp ops r x"
  then have b: "\<exists>c l blank. build rnd ops (init_rt c l blank) = Some r" "N \<le> XITAO_MAXTHREADS"
    and "(drain_step rnd N K sp)\<^sup>*\<^sup>* (drain_boot r) x" "fault_free N (base x)" by (auto simp: drain_reached_def)
  from this(3,4) show ?thesis
  proof (induction rule: rtranclp_induct)
    case base
    then show ?case by (simp add: mutex_ok_def drain_boot_def)
  next
    case (step y z)
    have f: "fault_free N (base y)" using drain_step_base [OF step(2)] fault_free_back [OF _ step(4)] step(4) by metis
    have "drain_reached rnd N K sp ops r y" using b step(1) f by (simp add: drain_reached_def)
    from mutex_ok_step [OF step(2) step(3) [OF f] drain_reached_base [OF this] step(4)] show ?case .
  qed
qed

section \<open>Runs\<close>

abbreviation drain_steps :: "(real \<Rightarrow> real) \<Rightarrow> nat \<Rightarrow> nat \<Rightarrow> bool \<Rightarrow> dsys \<Rightarrow> dsys \<Rightarrow> bool" where
  "drain_steps rnd N K sp \<equiv> (drain_step rnd N K sp)\<^sup>*\<^sup>*"

lemma drain_reached_steps:
  "drain_reached rnd N K sp ops r x \<Longrightarrow> drain_steps rnd N K sp x y \<Longrightarrow> fault_free N (base y) \<Longrightarrow> drain_reached rnd N K sp ops r y"
  by (auto simp: drain_reached_def)

text \<open>The mutex can always be had: its holder returns or goes to sleep.\<close>

lemma free_mutex:
  assumes ok: "mutex_ok K x" and "pending_tasks (rts (base x)) \<le> 0"
  shows "\<exists>y. drain_steps rnd N K sp x y \<and> mutex y = None \<and> base y = base x \<and> (\<forall>k. \<not> holds_mutex (dpcs x k) \<longrightarrow> dpcs y k = dpcs x k)"
proof (cases "mutex x")
  case (Some j)
  then have j: "j < K" "holds_mutex (dpcs x j)" using ok unfolding mutex_ok_def by blast+
  then consider "dpcs x j = DTest" | "dpcs x j = DWait" by (cases "dpcs x j") auto
  then obtain p where "drain_step rnd N K sp x (dgo j p None x)"
    using test_done [OF j(1)] sleep [OF j(1)] assms(2) by (metis xitao_drain_done_def)
  then show ?thesis using j(2) by (intro exI [of _ "dgo j p None x"]) auto
qed auto

lemma caller_returns:
  assumes "mutex_ok K x" and "pending_tasks (rts (base x)) \<le> 0" and "k < K" and "dpcs x k = DOut \<or> dpcs x k = DWoken"
  shows "\<exists>y. drain_steps rnd N K sp x y \<and> dpcs y k = DBack"
proof -
  have "\<not> holds_mutex (dpcs x k)" using assms(4) by auto
  with free_mutex [OF assms(1,2), of rnd N sp] obtain y where y: "drain_steps rnd N K sp x y" "mutex y = None" "base y = base x"
    "dpcs y k = dpcs x k" by blast
  let ?z = "dgo k DTest (Some k) y"
  have "drain_step rnd N K sp y ?z" using lock [OF assms(3)] y assms(4) by simp
  moreover have "drain_step rnd N K sp ?z (dgo k DBack None ?z)"
    using assms(2,3) y(3) by (intro test_done) (simp_all add: xitao_drain_done_def)
  ultimately have "drain_steps rnd N K sp x (dgo k DBack None ?z)" using y(1) by (meson rtranclp.rtrancl_into_rtrancl)
  then show ?thesis by (intro exI) auto
qed

text \<open>A worker at the head of its loop, with nothing pending, goes round once and wakes a sleeper.\<close>

lemma quiet_step:
  assumes "drain_reached rnd N K sp ops r x" and "sched_step rnd N (base x) (go n p s)" and "n < N" and "pcs (base x) n \<noteq> PCheck"
    and "pcs s = pcs (base x)" and "p \<noteq> PFault" and "p = PCheck \<Longrightarrow> \<not> told x n"
  shows "\<exists>y. drain_step rnd N K sp x y \<and> drain_reached rnd N K sp ops r y \<and> base y = go n p s \<and> dpcs y = dpcs x \<and> \<not> told y n"
proof -
  let ?y = "x\<lparr>base := go n p s, told := (\<lambda>m. told x m \<and> pcs (go n p s) m = PCheck)\<rparr>"
  have "drain_step rnd N K sp x ?y" using assms(2,4,5) by (intro work) auto
  moreover have "fault_free N (base ?y)" using assms(1,5,6) by (auto simp: drain_reached_def fault_free_def)
  moreover from calculation have "drain_reached rnd N K sp ops r ?y"
    using drain_reached_steps [OF assms(1), of ?y] by blast
  moreover have "\<not> told ?y n" using assms(7) by auto
  ultimately show ?thesis by (intro exI [of _ ?y] conjI) simp_all
qed

lemma round_wakes:
  assumes R: "drain_reached rnd N K sp ops r x" and n: "n < N" "pcs (base x) n = PTop None" and z: "pending_tasks (rts (base x)) \<le> 0"
    and k: "k < K" "dpcs x k = DAsleep"
  shows "\<exists>y. drain_steps rnd N K sp x y \<and> drain_reached rnd N K sp ops r y \<and> pending_tasks (rts (base y)) \<le> 0 \<and> dpcs y k = DWoken"
proof -
  have zero: "pending_tasks (rts (base z)) = 0" if "drain_reached rnd N K sp ops r y" "drain_reached rnd N K sp ops r z"
    "drain_step rnd N K sp y z" "pending_tasks (rts (base y)) \<le> 0" for y z
    using drain_step_base [OF that(3)] pending_zero_stays [of rnd N "base y" "base z"] reached_inv [OF drain_reached_base [OF that(1)]]
      pending_nonneg [of N "base y"] that by (auto simp: drain_reached_def)
  note q = all_done_queues [OF drain_reached_base [OF R] z]
  have 0: "sched_step rnd N (base x) (go n PReady (base x))"
    using n q by (intro no_assembly) (auto simp: ready_to_step_def try_pop_assembly_task_def)
  obtain x1 where 1: "drain_step rnd N K sp x x1" "drain_reached rnd N K sp ops r x1" "base x1 = go n PReady (base x)" "dpcs x1 = dpcs x" "\<not> told x1 n"
    using quiet_step [OF R 0 n(1)] n(2) by auto
  have "sched_step rnd N (base x1) (go n PFlushC (base x1))"
    using n(1) q 1(3) by (intro no_ready) (auto simp: ready_to_step_def)
  from quiet_step [OF 1(2) this n(1)] obtain x2 where 2: "drain_step rnd N K sp x1 x2" "drain_reached rnd N K sp ops r x2"
    "base x2 = go n PFlushC (base x1)" "dpcs x2 = dpcs x1" "\<not> told x2 n" using 1(3,5) by auto
  have "sched_step rnd N (base x2) (go n PFlushP (base x2\<lparr>rts := flush_completions n (rts (base x2))\<rparr>))"
    using n(1) 2(3) by (intro count_completions) (auto simp: ready_to_step_def)
  from quiet_step [OF 2(2) this n(1)] obtain x3 where 3: "drain_step rnd N K sp x2 x3" "drain_reached rnd N K sp ops r x3"
    "pcs (base x3) n = PFlushP" "dpcs x3 = dpcs x2" "\<not> told x3 n" using 2(3,5) by auto
  have "sched_step rnd N (base x3) (go n PCheck (base x3\<lparr>rts := flush_pool n (rts (base x3))\<rparr>))"
    using n(1) 3(3) by (intro return_pool) (auto simp: ready_to_step_def)
  from quiet_step [OF 3(2) this n(1)] obtain x4 where 4: "drain_step rnd N K sp x3 x4" "drain_reached rnd N K sp ops r x4"
    "pcs (base x4) n = PCheck" "dpcs x4 = dpcs x3" "\<not> told x4 n" using 3(3,5) by auto
  have z4: "pending_tasks (rts (base x4)) = 0"
    using zero [OF 3(2) 4(2,1)] zero [OF 2(2) 3(2,1)] zero [OF 1(2) 2(2,1)] zero [OF R 1(2,1) z] by simp
  let ?y = "x4\<lparr>dpcs := (dpcs x4)(k := DWoken), told := (told x4)(n := True)\<rparr>"
  have "drain_step rnd N K sp x4 ?y"
    using n(1) 4(3,5) z4 k 4(4) 3(4) 2(4) 1(4) by (intro notify) auto
  moreover from this have "drain_reached rnd N K sp ops r ?y"
    using 4(2) by (intro drain_reached_steps [OF 4(2)]) (auto simp: drain_reached_def)
  moreover have "drain_steps rnd N K sp x x4"
    using 1(1) 2(1) 3(1) 4(1) by (meson rtranclp.rtrancl_into_rtrancl r_into_rtranclp)
  ultimately show ?thesis using z4 by (intro exI [of _ ?y]) (auto intro: rtranclp.rtrancl_into_rtrancl)
qed

text \<open>While no caller sleeps the workers run as if there were none.\<close>

lemma tell_workers:
  assumes "\<forall>k<K. dpcs x k \<noteq> DAsleep" and "m \<le> N"
  shows "\<exists>y. drain_steps rnd N K sp x y \<and> base y = base x \<and> dpcs y = dpcs x \<and> mutex y = mutex x
    \<and> (\<forall>n<m. pcs (base x) n = PCheck \<longrightarrow> told y n)"
  using assms(2)
proof (induction m)
  case (Suc m)
  then obtain y where y: "drain_steps rnd N K sp x y" "base y = base x" "dpcs y = dpcs x" "mutex y = mutex x"
    "\<forall>n<m. pcs (base x) n = PCheck \<longrightarrow> told y n" by auto
  show ?case
  proof (cases "pcs (base x) m = PCheck \<and> \<not> told y m")
    case True
    let ?z = "y\<lparr>told := (told y)(m := True)\<rparr>"
    have "drain_step rnd N K sp y ?z"
      using notify_nobody [of m N y K rnd sp] no_notify [of m N y rnd K sp] True y(2,3) assms(1) Suc.prems by auto
    with y(1) have "drain_steps rnd N K sp x ?z" by (rule rtranclp.rtrancl_into_rtrancl)
    then show ?thesis using y by (intro exI [of _ ?z]) (auto simp: less_Suc_eq)
  next
    case False
    then show ?thesis using y by (intro exI [of _ y]) (auto simp: less_Suc_eq)
  qed
qed auto

lemma workers_run:
  assumes "(sched_step rnd N)\<^sup>*\<^sup>* (base x) s" and "\<forall>k<K. dpcs x k \<noteq> DAsleep"
  shows "\<exists>y. drain_steps rnd N K sp x y \<and> base y = s \<and> dpcs y = dpcs x \<and> mutex y = mutex x"
  using assms(1)
proof (induction rule: rtranclp_induct)
  case (step s s')
  then obtain y where y: "drain_steps rnd N K sp x y" "base y = s" "dpcs y = dpcs x" "mutex y = mutex x" by blast
  have "\<forall>k<K. dpcs y k \<noteq> DAsleep" using assms(2) y(3) by simp
  from tell_workers [OF this, of N N rnd sp] obtain z where z: "drain_steps rnd N K sp y z" "base z = s" "dpcs z = dpcs x" "mutex z = mutex x"
    "\<forall>n<N. pcs s n = PCheck \<longrightarrow> told z n" using y by auto
  let ?z = "z\<lparr>base := s', told := (\<lambda>n. told z n \<and> pcs s' n = PCheck)\<rparr>"
  have "drain_step rnd N K sp z ?z" using step(2) z(2,5) by (intro work) auto
  with y(1) z(1) have "drain_steps rnd N K sp x ?z" by (meson rtranclp_trans rtranclp.rtrancl_into_rtrancl)
  then show ?case using z by (intro exI [of _ ?z]) simp
qed auto

text \<open>Workers that have left the loop do nothing.\<close>

lemma done_stays: "sched_step rnd N s s' \<Longrightarrow> \<forall>n<N. pcs s n = PDone \<Longrightarrow> \<forall>n<N. pcs s' n = PDone"
  by (erule sched_step.cases) (auto simp: ready_to_step_def)

lemma hung_stays:
  assumes "drain_steps rnd N K False x y" and "\<forall>n<N. pcs (base x) n = PDone" and "dpcs x k = DAsleep"
  shows "dpcs y k = DAsleep \<and> (\<forall>n<N. pcs (base y) n = PDone)"
  using assms(1)
proof (induction rule: rtranclp_induct)
  case base
  then show ?case using assms(2,3) by simp
next
  case (step y z)
  from step(2) show ?case
  proof cases
    case (work s')
    then show ?thesis using step(3) done_stays [OF work(2)] by simp
  qed (use step(3) in auto)
qed

section \<open>Properties\<close>

text \<open>C13.
  \<open>xitao_drain\<close> returns only when the work is done. For any number of workers and of callers,
  with or without spurious wake-ups: when a call has returned every task is finished and
  every thread of its place has executed it. The mutex is never held by two callers.
\<close>

theorem drain_returns_when_finished:
  assumes "drain_reached rnd N K sp ops r x" and "0 < N"
  shows "(dpcs x k = DBack \<and> t < next_task r \<longrightarrow> finished (base x) t
      \<and> (\<exists>l w. place_of (base x) t = Some (l, w) \<and> (\<forall>m. l \<le> int m \<and> int m < l + w \<longrightarrow> ended (base x) t m = 1)))
    \<and> (i < K \<and> j < K \<and> holds_mutex (dpcs x i) \<and> holds_mutex (dpcs x j) \<longrightarrow> i = j)"
proof -
  note ok = drain_reached_ok [OF assms(1)] and R = drain_reached_base [OF assms(1)]
  have "i = j" if "i < K" "j < K" "holds_mutex (dpcs x i)" "holds_mutex (dpcs x j)"
    using ok that unfolding mutex_ok_def by (metis option.inject)
  moreover have "finished (base x) t
      \<and> (\<exists>l w. place_of (base x) t = Some (l, w) \<and> (\<forall>m. l \<le> int m \<and> int m < l + w \<longrightarrow> ended (base x) t m = 1))"
    if "dpcs x k = DBack" "t < next_task r"
  proof -
    have "pending_tasks (rts (base x)) \<le> 0" using ok that(1) by (auto simp: mutex_ok_def)
    then have c: "finished (base x) t" "committed (base x) t" using exit_committed [OF R assms(2) _ that(2)] by blast+
    from committed_done [OF reached_inv [OF R] c(2)] c(1) show ?thesis by (fastforce simp: in_place_def)
  qed
  ultimately show ?thesis by blast
qed

text \<open>C14.
  \<open>xitao_drain\<close> can always return as long as a worker is there to notify. From every
  reachable state in which nothing is pending and some worker is at the head of its loop,
  each caller, whatever it is doing, can return without a spurious wake-up.
\<close>

theorem drain_can_return:
  assumes "drain_reached rnd N K False ops r x" and "pending_tasks (rts (base x)) \<le> 0" and "n < N" and "pcs (base x) n = PTop None"
    and "k < K"
  shows "\<exists>y. drain_steps rnd N K False x y \<and> dpcs y k = DBack"
proof -
  have asleep: "\<exists>z. drain_steps rnd N K False y z \<and> dpcs z k = DBack"
    if y: "drain_reached rnd N K False ops r y" "base y = base x" "dpcs y k = DAsleep" for y
  proof -
    have "pcs (base y) n = PTop None" "pending_tasks (rts (base y)) \<le> 0" using assms(2,4) y(2) by simp_all
    from round_wakes [OF y(1) assms(3) this assms(5) y(3)] obtain z where z: "drain_steps rnd N K False y z"
      "drain_reached rnd N K False ops r z" "pending_tasks (rts (base z)) \<le> 0" "dpcs z k = DWoken" by blast
    from caller_returns [OF drain_reached_ok [OF z(2)] z(3) assms(5), of rnd N False] z(1,4) show ?thesis
      by (meson rtranclp_trans)
  qed
  note ok = drain_reached_ok [OF assms(1)]
  have f: "fault_free N (base x)" using assms(1) by (simp add: drain_reached_def)
  show ?thesis
  proof (cases "dpcs x k")
    case DTest
    then have "drain_step rnd N K False x (dgo k DBack None x)"
      using assms(2,5) by (intro test_done) (simp_all add: xitao_drain_done_def)
    then show ?thesis by (intro exI [of _ "dgo k DBack None x"]) auto
  next
    case DWait
    then have s: "drain_step rnd N K False x (dgo k DAsleep None x)" using assms(5) by (intro sleep)
    then have "drain_reached rnd N K False ops r (dgo k DAsleep None x)"
      using drain_reached_steps [OF assms(1)] f by (simp add: r_into_rtranclp)
    from asleep [OF this] s show ?thesis by (auto intro: converse_rtranclp_into_rtranclp)
  next
    case DAsleep
    then show ?thesis using asleep [OF assms(1)] by simp
  qed (use caller_returns [OF ok assms(2,5)] in \<open>auto intro: exI [of _ x]\<close>)
qed

text \<open>Examples: the two workers of \<open>Scheduler.thy\<close>, and one caller, who has or has not begun to call.\<close>

lemma two_drain:
  assumes "run 2 xs (boot two_rt) = Some s" and "no_fault_2 s" and "drain_steps (\<lambda>x. x) 2 1 False (drain_boot two_rt) x0"
    and "base x0 = boot two_rt" and "dpcs x0 0 \<noteq> DAsleep"
  shows "\<exists>x. drain_reached (\<lambda>x. x) 2 1 False two_ops two_rt x \<and> base x = s \<and> dpcs x = dpcs x0 \<and> mutex x = mutex x0"
proof -
  have "(sched_step (\<lambda>x. x) 2)\<^sup>*\<^sup>* (base x0) s" using run_steps [OF assms(1)] assms(4) by simp
  from workers_run [OF this, of 1 False] assms(5) obtain x where x: "drain_steps (\<lambda>x. x) 2 1 False x0 x" "base x = s" "dpcs x = dpcs x0"
    "mutex x = mutex x0" by auto
  have "drain_steps (\<lambda>x. x) 2 1 False (drain_boot two_rt) x" using assms(3) x(1) by (rule rtranclp_trans)
  moreover note two_reached [OF assms(1,2)]
  ultimately show ?thesis using x(2-4) by (auto simp: drain_reached_def reached_def)
qed

definition back_to_top :: "action list" where
  "back_to_top = all_done @ replicate 4 (Worker 1) @ replicate 5 (Worker 0)"

theorem drain_can_return_witness:
  "\<exists>x y. drain_reached (\<lambda>x. x) 2 1 False two_ops two_rt x \<and> drain_steps (\<lambda>x. x) 2 1 False x y \<and> dpcs y 0 = DBack"
proof -
  have "(case run 2 back_to_top (boot two_rt) of None \<Rightarrow> False
      | Some s \<Rightarrow> no_fault_2 s \<and> pending_tasks (rts s) = 0 \<and> pcs s 0 = PTop None)" by code_simp
  then obtain s where s: "run 2 back_to_top (boot two_rt) = Some s" "no_fault_2 s" "pending_tasks (rts s) = 0" "pcs s 0 = PTop None"
    by (auto split: option.splits)
  from two_drain [OF s(1,2), of "drain_boot two_rt"] obtain x where x: "drain_reached (\<lambda>x. x) 2 1 False two_ops two_rt x" "base x = s"
    by (auto simp: drain_boot_def)
  from drain_can_return [OF x(1), of 0 0] s x show ?thesis by auto
qed

theorem drain_returns_when_finished_witness:
  "\<exists>x. drain_reached (\<lambda>x. x) 2 1 False two_ops two_rt x \<and> dpcs x 0 = DBack \<and> finished (base x) 1"
proof -
  have "(case run 2 one_left (boot two_rt) of None \<Rightarrow> False | Some s \<Rightarrow> no_fault_2 s \<and> pending_tasks (rts s) = 0)" by code_simp
  then obtain s where s: "run 2 one_left (boot two_rt) = Some s" "no_fault_2 s" "pending_tasks (rts s) = 0" by (auto split: option.splits)
  from two_drain [OF s(1,2), of "drain_boot two_rt"] obtain x where x: "drain_reached (\<lambda>x. x) 2 1 False two_ops two_rt x" "base x = s"
    "dpcs x 0 = DOut" "mutex x = None" by (auto simp: drain_boot_def)
  let ?y = "dgo 0 DTest (Some 0) x" and ?z = "dgo 0 DBack None (dgo 0 DTest (Some 0) x)"
  have "drain_step (\<lambda>x. x) 2 1 False x ?y" using x by (intro lock) auto
  moreover have "drain_step (\<lambda>x. x) 2 1 False ?y ?z" using x s(3) by (intro test_done) (auto simp: xitao_drain_done_def)
  ultimately have "drain_steps (\<lambda>x. x) 2 1 False x ?z" by auto
  then have z: "drain_reached (\<lambda>x. x) 2 1 False two_ops two_rt ?z"
    using drain_reached_steps [OF x(1)] x(1) by (simp add: drain_reached_def)
  have "next_task two_rt = 2" by code_simp
  with drain_returns_when_finished [OF z, of 0 1] z show ?thesis by auto
qed

text \<open>\<open>xitao_drain\<close> can sleep for ever. The exit flag that an earlier \<open>xitao_fini\<close> has left set
  lets the workers leave as soon as nothing is pending. A caller that has found tasks pending
  but does not sleep yet misses the notification, because it is given without the mutex:
  the workers are gone, all tasks are finished, and the caller sleeps for good.
\<close>

theorem drain_can_sleep_forever:
  "\<exists>x. drain_reached (\<lambda>x. x) 2 1 False two_ops two_rt x \<and> finished (base x) 0 \<and> finished (base x) 1
     \<and> pending_tasks (rts (base x)) = 0 \<and> dpcs x 0 = DAsleep
     \<and> \<not> (\<exists>y. drain_steps (\<lambda>x. x) 2 1 False x y \<and> dpcs y 0 \<noteq> DAsleep)"
proof -
  let ?xs = "Fini # one_left @ [Worker 1]"
  have "(case run 2 ?xs (boot two_rt) of None \<Rightarrow> False
      | Some s \<Rightarrow> no_fault_2 s \<and> pending_tasks (rts s) = 0 \<and> pcs s 0 = PDone \<and> pcs s 1 = PDone \<and> finished s 0 \<and> finished s 1)" by code_simp
  then obtain s where s: "run 2 ?xs (boot two_rt) = Some s" "no_fault_2 s" "pending_tasks (rts s) = 0"
    "pcs s 0 = PDone" "pcs s 1 = PDone" "finished s 0" "finished s 1" by (auto split: option.splits)
  let ?y = "dgo 0 DTest (Some 0) (drain_boot two_rt)"
  let ?z = "dgo 0 DWait (mutex ?y) ?y"
  have "drain_step (\<lambda>x. x) 2 1 False (drain_boot two_rt) ?y" by (intro lock) (auto simp: drain_boot_def)
  moreover have "pending_tasks two_rt = 100" by code_simp
  then have "drain_step (\<lambda>x. x) 2 1 False ?y ?z" by (intro test_wait) (auto simp: xitao_drain_done_def drain_boot_def boot_def)
  ultimately have "drain_steps (\<lambda>x. x) 2 1 False (drain_boot two_rt) ?z" by auto
  from two_drain [OF s(1,2) this] obtain x where x: "drain_reached (\<lambda>x. x) 2 1 False two_ops two_rt x" "base x = s" "dpcs x 0 = DWait"
    by (auto simp: drain_boot_def)
  let ?h = "dgo 0 DAsleep None x"
  have "drain_step (\<lambda>x. x) 2 1 False x ?h" using x(3) by (intro sleep) auto
  then have h: "drain_reached (\<lambda>x. x) 2 1 False two_ops two_rt ?h"
    using drain_reached_steps [OF x(1)] x(1) by (simp add: drain_reached_def r_into_rtranclp)
  have "\<forall>n<2. pcs (base ?h) n = PDone" using s(4,5) x(2) by (auto simp: less_2_cases_iff)
  from hung_stays [OF _ this, of _ 1 _ 0] have "\<not> (\<exists>y. drain_steps (\<lambda>x. x) 2 1 False ?h y \<and> dpcs y 0 \<noteq> DAsleep)" by auto
  with h s x(2) show ?thesis by (intro exI [of _ ?h]) auto
qed

end
