(* ===== verification/Lfq.thy ===== *)
theory Lfq
  imports Prelude
begin

text \<open>
  The linked FIFO queue of \<open>include/lfq-fifo.h\<close> (class \<open>LFQueue\<close>), which holds the
  assembly tasks of each worker. The model keeps the heap of nodes, so that the shape
  of the list, the dummy node in front and the deletion of nodes are explicit; a read
  through a freed or missing node is \<open>None\<close>. The queue refines a list: the relation
  \<open>lfq_rep\<close> says which list a heap state stands for, and the locale \<open>fifo_queue\<close> is
  the contract the worker loop relies on.
\<close>

section \<open>The interface\<close>

locale fifo_queue =
  fixes rep :: "'q \<Rightarrow> 'a list \<Rightarrow> bool"
    and new_queue :: "'q"
    and enq :: "'a \<Rightarrow> 'q \<Rightarrow> 'q option"
    and deq :: "'q \<Rightarrow> ('a option \<times> 'q) option"
    and is_empty :: "'q \<Rightarrow> bool option"
  assumes rep_new: "rep new_queue []"
    and rep_enq: "rep q xs \<Longrightarrow> \<exists>q'. enq x q = Some q' \<and> rep q' (xs @ [x])"
    and rep_deq_Nil: "rep q [] \<Longrightarrow> deq q = Some (None, q)"
    and rep_deq_Cons: "rep q (x # xs) \<Longrightarrow> \<exists>q'. deq q = Some (Some x, q') \<and> rep q' xs"
    and rep_is_empty: "rep q xs \<Longrightarrow> is_empty q = Some (xs = [])"

text \<open>Clients of the interface: a run of pushes and a run of pops.\<close>

fun enq_all :: "('a \<Rightarrow> 'q \<Rightarrow> 'q option) \<Rightarrow> 'a list \<Rightarrow> 'q \<Rightarrow> 'q option" where
  "enq_all e [] q = Some q"
| "enq_all e (x # xs) q = do { q' \<leftarrow> e x q; enq_all e xs q' }"

fun deq_all :: "('q \<Rightarrow> ('a option \<times> 'q) option) \<Rightarrow> nat \<Rightarrow> 'q \<Rightarrow> ('a list \<times> 'q) option" where
  "deq_all d 0 q = Some ([], q)"
| "deq_all d (Suc n) q = do {
     (r, q') \<leftarrow> d q;
     case r of None \<Rightarrow> Some ([], q')
     | Some x \<Rightarrow> do { (xs, q'') \<leftarrow> deq_all d n q'; Some (x # xs, q'') } }"

context fifo_queue
begin

lemma rep_enq_all: "rep q ys \<Longrightarrow> \<exists>q'. enq_all enq xs q = Some q' \<and> rep q' (ys @ xs)"
proof (induction xs arbitrary: q ys)
  case Nil
  then show ?case by simp
next
  case (Cons x xs)
  then obtain q1 where q1: "enq x q = Some q1" "rep q1 (ys @ [x])"
    using rep_enq by blast
  from Cons.IH [OF q1(2)] q1(1) show ?case by simp
qed

lemma rep_deq_all:
  "rep q xs \<Longrightarrow> \<exists>q'. deq_all deq n q = Some (take n xs, q') \<and> rep q' (drop n xs)"
proof (induction n arbitrary: q xs)
  case 0
  then show ?case by simp
next
  case (Suc n)
  show ?case
  proof (cases xs)
    case Nil
    with Suc.prems show ?thesis by (auto simp: rep_deq_Nil)
  next
    case (Cons x ys)
    with Suc.prems obtain q1 where q1: "deq q = Some (Some x, q1)" "rep q1 ys"
      using rep_deq_Cons by blast
    from Suc.IH [OF q1(2)] q1(1) show ?thesis by (auto simp: Cons)
  qed
qed

lemma fifo_order:
  "\<exists>q q'. enq_all enq xs new_queue = Some q \<and> deq_all deq n q = Some (take n xs, q')"
proof -
  obtain q where q: "enq_all enq xs new_queue = Some q" "rep q xs"
    using rep_enq_all [OF rep_new, of xs] by auto
  with rep_deq_all [OF q(2), of n] show ?thesis by blast
qed

end

section \<open>The linked queue\<close>

text \<open>
  A node has a value (\<open>None\<close> is \<open>nullptr\<close>) and a \<open>next\<close> pointer. Addresses are natural
  numbers; \<open>q_fresh\<close> is the allocator's next address.
\<close>

record 'a lfq_node =
  nvalue :: "'a option"
  nnext :: "nat option"

record 'a lfqueue =
  q_heap :: "nat \<Rightarrow> 'a lfq_node option"
  q_first :: nat
  q_last :: nat
  q_fresh :: nat

text \<open>\<open>LFQueue()\<close>: one dummy node, which is both \<open>first\<close> and \<open>last\<close>.\<close>

definition lfq_new :: "'a lfqueue" where
  "lfq_new = \<lparr>q_heap = [0 \<mapsto> \<lparr>nvalue = None, nnext = None\<rparr>], q_first = 0, q_last = 0, q_fresh = 1\<rparr>"

definition lfq_front :: "'a lfqueue \<Rightarrow> 'a option option" where
  "lfq_front q = do {
     n \<leftarrow> q_heap q (q_first q);
     case nnext n of
       Some a \<Rightarrow> do { m \<leftarrow> q_heap q a; Some (nvalue m) }
     | None \<Rightarrow> Some (nvalue n) }"

definition lfq_empty :: "'a lfqueue \<Rightarrow> bool option" where
  "lfq_empty q = do { n \<leftarrow> q_heap q (q_first q); Some (nnext n = None) }"

text \<open>
  \<open>pop\<close> and \<open>pop_front\<close> move \<open>first\<close> to its successor, clear the value of the new dummy
  node and delete the old one.
\<close>

definition lfq_advance :: "'a lfqueue \<Rightarrow> nat \<Rightarrow> 'a lfq_node \<Rightarrow> 'a lfqueue" where
  "lfq_advance q a m = q\<lparr>q_heap := (q_heap q)(a := Some (m\<lparr>nvalue := None\<rparr>), q_first q := None),
                        q_first := a\<rparr>"

definition lfq_pop :: "'a lfqueue \<Rightarrow> 'a lfqueue option" where
  "lfq_pop q = do {
     n \<leftarrow> q_heap q (q_first q);
     case nnext n of
       None \<Rightarrow> Some q
     | Some a \<Rightarrow> do { m \<leftarrow> q_heap q a; Some (lfq_advance q a m) } }"

definition lfq_pop_front :: "'a lfqueue \<Rightarrow> ('a option \<times> 'a lfqueue) option" where
  "lfq_pop_front q = do {
     n \<leftarrow> q_heap q (q_first q);
     case nnext n of
       None \<Rightarrow> Some (None, q)
     | Some a \<Rightarrow> do { m \<leftarrow> q_heap q a; Some (nvalue m, lfq_advance q a m) } }"

text \<open>
  \<open>push\<close> has the two publication steps the source labels A and B: link the new node
  behind \<open>last\<close>, then move \<open>last\<close>. The node's address is returned by step A.
\<close>

definition lfq_push_A :: "'a \<Rightarrow> 'a lfqueue \<Rightarrow> (nat \<times> 'a lfqueue) option" where
  "lfq_push_A t q = do {
     l \<leftarrow> q_heap q (q_last q);
     let tmp = q_fresh q in
     Some (tmp, q\<lparr>q_heap := (q_heap q)(tmp := Some \<lparr>nvalue = Some t, nnext = None\<rparr>,
                                      q_last q := Some (l\<lparr>nnext := Some tmp\<rparr>)),
                  q_fresh := Suc tmp\<rparr>) }"

definition lfq_push_B :: "nat \<Rightarrow> 'a lfqueue \<Rightarrow> 'a lfqueue" where
  "lfq_push_B tmp q = q\<lparr>q_last := tmp\<rparr>"

definition lfq_push :: "'a \<Rightarrow> 'a lfqueue \<Rightarrow> 'a lfqueue option" where
  "lfq_push t q = do { (tmp, q') \<leftarrow> lfq_push_A t q; Some (lfq_push_B tmp q') }"

text \<open>
  The destructor follows \<open>next\<close> from \<open>first\<close> and deletes every node it meets; the result \<open>None\<close> is an
  access to a freed node.
\<close>

partial_function (option) lfq_delete_from :: "(nat \<Rightarrow> 'a lfq_node option) \<Rightarrow> nat option \<Rightarrow> (nat \<Rightarrow> 'a lfq_node option) option" where
  "lfq_delete_from h p = (case p of
     None \<Rightarrow> Some h
   | Some a \<Rightarrow> (case h a of None \<Rightarrow> None | Some n \<Rightarrow> lfq_delete_from (h(a := None)) (nnext n)))"

definition lfq_destroy :: "'a lfqueue \<Rightarrow> (nat \<Rightarrow> 'a lfq_node option) option" where
  "lfq_destroy q = lfq_delete_from (q_heap q) (Some (q_first q))"

section \<open>The list a queue stands for\<close>

text \<open>\<open>linked h as xs\<close>: the nodes \<open>as\<close> are chained by \<open>next\<close>, the last has none, and they hold \<open>xs\<close>.\<close>

fun linked :: "(nat \<Rightarrow> 'a lfq_node option) \<Rightarrow> nat list \<Rightarrow> 'a option list \<Rightarrow> bool" where
  "linked h [a] [x] \<longleftrightarrow> h a = Some \<lparr>nvalue = x, nnext = None\<rparr>"
| "linked h (a # b # as) (x # xs) \<longleftrightarrow> h a = Some \<lparr>nvalue = x, nnext = Some b\<rparr> \<and> linked h (b # as) xs"
| "linked h _ _ \<longleftrightarrow> False"

definition lfq_rep :: "'a lfqueue \<Rightarrow> 'a list \<Rightarrow> bool" where
  "lfq_rep q xs \<longleftrightarrow> (\<exists>as. as \<noteq> [] \<and> linked (q_heap q) as (None # map Some xs) \<and> distinct as
      \<and> hd as = q_first q \<and> last as = q_last q \<and> (\<forall>a\<in>set as. a < q_fresh q)
      \<and> (\<forall>a. q_heap q a \<noteq> None \<longrightarrow> a \<in> set as))"

lemma linked_length: "linked h as xs \<Longrightarrow> length as = length xs"
  by (induction h as xs rule: linked.induct) auto

lemma linked_cong: "(\<And>a. a \<in> set as \<Longrightarrow> h a = h' a) \<Longrightarrow> linked h as xs = linked h' as xs"
  by (induction h as xs rule: linked.induct) auto

lemma linked_in_heap: "linked h as xs \<Longrightarrow> a \<in> set as \<Longrightarrow> h a \<noteq> None"
  by (induction h as xs rule: linked.induct) auto

text \<open>Linking one more node behind the last.\<close>

lemma linked_snoc:
  "linked h as xs \<Longrightarrow> distinct as \<Longrightarrow> t \<notin> set as \<Longrightarrow>
   \<exists>l. h (last as) = Some l \<and>
     linked (h(t := Some \<lparr>nvalue = y, nnext = None\<rparr>, last as := Some (l\<lparr>nnext := Some t\<rparr>))) (as @ [t]) (xs @ [y])"
proof (induction h as xs rule: linked.induct)
  case (1 h a x)
  then show ?case by auto
next
  case (2 h a b as x xs)
  define e where "e = last (b # as)"
  from "2.prems" have p: "linked h (b # as) xs" "distinct (b # as)" "t \<notin> set (b # as)" by auto
  from "2.IH" [OF p] obtain l where l: "h e = Some l"
    and k: "linked (h(t := Some \<lparr>nvalue = y, nnext = None\<rparr>, e := Some (l\<lparr>nnext := Some t\<rparr>)))
              (b # (as @ [t])) (xs @ [y])"
    unfolding e_def by (simp only: append_Cons) blast
  have "e \<in> set (b # as)" unfolding e_def by (rule last_in_set) simp
  with "2.prems" have "a \<noteq> e" "a \<noteq> t" by auto
  with k "2.prems"(1)
  have k2: "linked (h(t := Some \<lparr>nvalue = y, nnext = None\<rparr>, e := Some (l\<lparr>nnext := Some t\<rparr>)))
          (a # b # (as @ [t])) (x # (xs @ [y]))"
    by (simp del: fun_upd_apply add: fun_upd_other)
  have e: "last (a # b # as) = e" by (simp add: e_def)
  from l k2 show ?case unfolding e by (simp only: append_Cons) blast
qed auto

text \<open>Unlinking the dummy node in front.\<close>

lemma linked_advance:
  assumes "linked h (a # as) (x # y # ys)" and "distinct (a # as)"
  shows "\<exists>b bs. as = b # bs \<and> h a = Some \<lparr>nvalue = x, nnext = Some b\<rparr> \<and>
    (\<exists>m. h b = Some m \<and> nvalue m = y \<and>
      linked (h(b := Some (m\<lparr>nvalue := None\<rparr>), a := None)) as (None # ys))"
proof -
  from assms(1) obtain b bs where as: "as = b # bs" by (cases as) auto
  with assms have h: "h a = Some \<lparr>nvalue = x, nnext = Some b\<rparr>" and k: "linked h (b # bs) (y # ys)"
    by auto
  show ?thesis
  proof (cases bs)
    case Nil
    with k h as assms(2) show ?thesis by (cases ys) auto
  next
    case (Cons c cs)
    with k obtain m where m: "h b = Some m" "m = \<lparr>nvalue = y, nnext = Some c\<rparr>" "linked h (c # cs) ys"
      by (cases ys) auto
    let ?h' = "h(b := Some (m\<lparr>nvalue := None\<rparr>), a := None)"
    have "linked ?h' (c # cs) ys"
      using m(3) assms(2) as Cons by (subst linked_cong [where h' = h]) auto
    with m assms(2) h as Cons show ?thesis by (cases ys) auto
  qed
qed

section \<open>The operations refine the list\<close>

lemma lfq_rep_new: "lfq_rep lfq_new []"
  unfolding lfq_rep_def by (rule exI [of _ "[0]"]) (simp add: lfq_new_def)

lemma lfq_rep_push:
  assumes "lfq_rep q xs"
  shows "\<exists>q'. lfq_push x q = Some q' \<and> lfq_rep q' (xs @ [x])"
proof -
  from assms obtain as where as: "as \<noteq> []" "linked (q_heap q) as (None # map Some xs)" "distinct as"
    "hd as = q_first q" "last as = q_last q" "\<forall>a\<in>set as. a < q_fresh q"
    "\<forall>a. q_heap q a \<noteq> None \<longrightarrow> a \<in> set as"
    unfolding lfq_rep_def by auto
  let ?t = "q_fresh q"
  have t: "?t \<notin> set as" using as(6) by auto
  from linked_snoc [OF as(2,3) t, of "Some x"] as(5) obtain l where
    l: "q_heap q (q_last q) = Some l" and
    k: "linked ((q_heap q)(?t := Some \<lparr>nvalue = Some x, nnext = None\<rparr>,
            q_last q := Some (l\<lparr>nnext := Some ?t\<rparr>))) (as @ [?t]) (None # map Some (xs @ [x]))"
    by auto
  let ?q' = "lfq_push_B ?t (q\<lparr>q_heap := (q_heap q)(?t := Some \<lparr>nvalue = Some x, nnext = None\<rparr>,
                 q_last q := Some (l\<lparr>nnext := Some ?t\<rparr>)), q_fresh := Suc ?t\<rparr>)"
  have "lfq_push x q = Some ?q'" using l by (simp add: lfq_push_def lfq_push_A_def Let_def)
  moreover have "lfq_rep ?q' (xs @ [x])"
    unfolding lfq_rep_def
  proof (rule exI [of _ "as @ [?t]"], intro conjI)
    show "\<forall>a\<in>set (as @ [?t]). a < q_fresh ?q'" using as(6) by (auto simp: lfq_push_B_def less_Suc_eq)
    show "\<forall>a. q_heap ?q' a \<noteq> None \<longrightarrow> a \<in> set (as @ [?t])"
      using as(1,5,7) last_in_set [OF as(1)] by (auto simp: lfq_push_B_def split: if_splits)
  qed (use k as t in \<open>auto simp: lfq_push_B_def\<close>)
  ultimately show ?thesis by blast
qed

lemma lfq_rep_Nil_next:
  assumes "lfq_rep q []"
  shows "q_heap q (q_first q) = Some \<lparr>nvalue = None, nnext = None\<rparr>"
proof -
  from assms obtain as where as: "linked (q_heap q) as [None]" "hd as = q_first q"
    unfolding lfq_rep_def by auto
  then show ?thesis using linked_length [OF as(1)] by (cases as) auto
qed

lemma lfq_rep_Cons_next:
  assumes "lfq_rep q (x # xs)"
  shows "\<exists>b m. q_heap q (q_first q) = Some \<lparr>nvalue = None, nnext = Some b\<rparr> \<and> q_heap q b = Some m
    \<and> nvalue m = Some x \<and> lfq_rep (lfq_advance q b m) xs"
proof -
  from assms obtain a as where as: "linked (q_heap q) (a # as) (None # Some x # map Some xs)"
    "distinct (a # as)" "a = q_first q" "last (a # as) = q_last q" "\<forall>c\<in>set (a # as). c < q_fresh q"
    "\<forall>c. q_heap q c \<noteq> None \<longrightarrow> c \<in> set (a # as)"
    unfolding lfq_rep_def by (metis list.collapse list.simps(9))
  from linked_advance [OF as(1,2)] obtain b bs m where
    b: "as = b # bs" "q_heap q a = Some \<lparr>nvalue = None, nnext = Some b\<rparr>" "q_heap q b = Some m"
       "nvalue m = Some x"
       "linked ((q_heap q)(b := Some (m\<lparr>nvalue := None\<rparr>), a := None)) as (None # map Some xs)"
    by blast
  have "lfq_rep (lfq_advance q b m) xs"
    unfolding lfq_rep_def
    by (rule exI [of _ as]) (use b as in \<open>auto simp: lfq_advance_def split: if_splits\<close>)
  with b as(3) show ?thesis by blast
qed

interpretation lfq: fifo_queue lfq_rep lfq_new lfq_push lfq_pop_front lfq_empty
proof (unfold_locales, goal_cases)
  case 1 show ?case by (rule lfq_rep_new)
next
  case 2 then show ?case by (rule lfq_rep_push)
next
  case 3 then show ?case by (auto simp: lfq_pop_front_def dest: lfq_rep_Nil_next)
next
  case 4 then show ?case using lfq_rep_Cons_next by (fastforce simp: lfq_pop_front_def)
next
  case (5 q xs) then show ?case
    by (cases xs) (auto simp: lfq_empty_def dest: lfq_rep_Nil_next lfq_rep_Cons_next)
qed

text \<open>
  \<open>front\<close> and \<open>pop\<close>, which the queue manager calls one after the other, together do what
  \<open>pop_front\<close> does; on an empty queue they read the dummy's \<open>nullptr\<close> and change nothing.
\<close>

lemma lfq_front_rep: "lfq_rep q xs \<Longrightarrow> lfq_front q = Some (case xs of [] \<Rightarrow> None | x # _ \<Rightarrow> Some x)"
  by (cases xs) (auto simp: lfq_front_def dest!: lfq_rep_Nil_next lfq_rep_Cons_next)

lemma lfq_pop_rep:
  "lfq_rep q xs \<Longrightarrow> \<exists>q'. lfq_pop q = Some q' \<and> lfq_rep q' (tl xs)"
proof (cases xs)
  case Nil
  assume "lfq_rep q xs"
  with Nil show ?thesis by (auto simp: lfq_pop_def lfq_rep_Nil_next)
next
  case (Cons x ys)
  assume "lfq_rep q xs"
  with Cons show ?thesis using lfq_rep_Cons_next [of q x ys] by (auto simp: lfq_pop_def)
qed

text \<open>The consumer reads neither \<open>last\<close> nor the allocator, so it commutes with step B of a push.\<close>

lemma lfq_pop_front_push_B:
  "lfq_pop_front (lfq_push_B t q) = map_option (\<lambda>(r, q'). (r, lfq_push_B t q')) (lfq_pop_front q)"
  by (auto simp: lfq_pop_front_def lfq_push_B_def lfq_advance_def split: option.splits Option.bind_splits)

lemma lfq_push_split:
  "lfq_push x q = Some q' \<longleftrightarrow> (\<exists>t q1. lfq_push_A x q = Some (t, q1) \<and> q' = lfq_push_B t q1)"
  by (auto simp: lfq_push_def)

text \<open>The destructor follows the chain and leaves no node behind.\<close>

lemma lfq_delete_from_linked:
  "linked h as xs \<Longrightarrow> distinct as \<Longrightarrow> (\<forall>a. h a \<noteq> None \<longrightarrow> a \<in> set as) \<Longrightarrow>
   lfq_delete_from h (Some (hd as)) = Some Map.empty"
proof (induction as arbitrary: h xs)
  case Nil
  then show ?case by simp
next
  case (Cons a as)
  from Cons.prems obtain n where n: "h a = Some n" using linked_in_heap [of h "a # as" xs a] by auto
  show ?case
  proof (cases as)
    case Nil
    with Cons.prems have x: "nnext n = None" using n by (cases "(h, a # as, xs)" rule: linked.cases) auto
    have "(h(a := None)) c = None" for c using Cons.prems(3) Nil by (cases "h c") auto
    then have "h(a := None) = Map.empty" by (rule ext)
    with x n show ?thesis by (simp add: lfq_delete_from.simps)
  next
    case (Cons b bs)
    with Cons.prems(1) obtain x ys where x: "xs = x # ys" "n = \<lparr>nvalue = x, nnext = Some b\<rparr>" "linked h as ys"
      using n by (cases xs) auto
    have l: "linked (h(a := None)) as ys"
      using x(3) Cons.prems(2) by (subst linked_cong [where h' = h]) auto
    have m: "\<forall>c. (h(a := None)) c \<noteq> None \<longrightarrow> c \<in> set as" using Cons.prems(3) by auto
    have "lfq_delete_from (h(a := None)) (Some (hd as)) = Some Map.empty"
      by (rule Cons.IH [OF l _ m]) (use Cons.prems(2) in auto)
    with x n Cons show ?thesis by (simp add: lfq_delete_from.simps [of h])
  qed
qed

section \<open>Properties\<close>

text \<open>C23.
  A queue to which the assembly inserts push \<open>xs\<close>, one after the other, hands the
  tasks back in exactly that order: popping \<open>n\<close> times returns the first \<open>n\<close> of them
  and leaves a queue that holds the rest; no operation reads a freed node.
\<close>

theorem lfq_is_fifo:
  "\<exists>q q'. enq_all lfq_push xs lfq_new = Some q \<and> lfq_rep q xs
     \<and> deq_all lfq_pop_front n q = Some (take n xs, q') \<and> lfq_rep q' (drop n xs)"
proof -
  obtain q where q: "enq_all lfq_push xs lfq_new = Some q" "lfq_rep q xs"
    using lfq.rep_enq_all [OF lfq.rep_new, of xs] by auto
  with lfq.rep_deq_all [OF q(2), of n] show ?thesis by blast
qed

text \<open>The push is published by its step A (linking the node). A consumer that pops between
  the producer's steps A and B gets the element a pop after the whole push would get,
  even when it deletes the node \<open>last\<close> still points to, and once B has run the queue
  holds the remaining elements.
\<close>

theorem lfq_pop_between_push_steps:
  assumes "lfq_rep q xs"
  shows "\<exists>tmp q1 q2. lfq_push_A x q = Some (tmp, q1)
    \<and> lfq_pop_front q1 = Some (Some (hd (xs @ [x])), q2)
    \<and> lfq_rep (lfq_push_B tmp q2) (tl (xs @ [x]))"
proof -
  from lfq_rep_push [OF assms, of x] obtain t q1 where
    p: "lfq_push_A x q = Some (t, q1)" "lfq_rep (lfq_push_B t q1) (xs @ [x])"
    by (auto simp: lfq_push_split)
  then have "lfq_rep (lfq_push_B t q1) (hd (xs @ [x]) # tl (xs @ [x]))" by simp
  from lfq.rep_deq_Cons [OF this] obtain q' where
    "lfq_pop_front (lfq_push_B t q1) = Some (Some (hd (xs @ [x])), q')" "lfq_rep q' (tl (xs @ [x]))"
    by blast
  then show ?thesis using p(1) by (auto simp: lfq_pop_front_push_B)
qed

theorem lfq_pop_between_push_steps_witness:
  "\<exists>tmp q1 q2. lfq_push_A (7::nat) lfq_new = Some (tmp, q1)
    \<and> lfq_pop_front q1 = Some (Some 7, q2) \<and> lfq_rep (lfq_push_B tmp q2) []"
  using lfq_pop_between_push_steps [OF lfq_rep_new, of "7::nat"] by simp

text \<open>The destructor terminates and deletes every node the queue allocated and has not yet
  deleted: the heap is empty afterwards.
\<close>

theorem lfq_destroy_frees_all:
  assumes "lfq_rep q xs"
  shows "lfq_destroy q = Some Map.empty"
proof -
  from assms obtain as where as: "linked (q_heap q) as (None # map Some xs)" "distinct as"
    "hd as = q_first q" "\<forall>a. q_heap q a \<noteq> None \<longrightarrow> a \<in> set as"
    unfolding lfq_rep_def by auto
  from lfq_delete_from_linked [OF as(1,2,4)] as(3) show ?thesis by (simp add: lfq_destroy_def)
qed

theorem lfq_destroy_frees_all_witness: "lfq_destroy (lfq_new :: nat lfqueue) = Some Map.empty"
  by (rule lfq_destroy_frees_all [OF lfq_rep_new])

end
