(* ===== verification/Locks.thy ===== *)
theory Locks
  imports Prelude
begin

text \<open>
  The lock of the queues (\<open>aligned_lock\<close>, \<open>LOCK_ACQUIRE\<close>, \<open>LOCK_RELEASE\<close> in
  \<open>include/xitao_workspace.h\<close>) as a step relation over any number of threads, one step per atomic
  operation, with critical sections of any length on shared data. The other theories take a critical
  section as one step; here is why they may.
\<close>

section \<open>The contract\<close>

text \<open>Whenever the lock is free, the data is as after whole sections, one after the other.\<close>

locale lock_contract =
  fixes reachable :: "'s \<Rightarrow> bool" and free :: "'s \<Rightarrow> bool" and shared :: "'s \<Rightarrow> 'd"
    and section_of :: "('d \<Rightarrow> 'd) \<Rightarrow> bool" and start :: 'd
  assumes serial: "reachable s \<Longrightarrow> free s \<Longrightarrow> \<exists>fs. list_all section_of fs \<and> shared s = fold (\<lambda>f. f) fs start"
begin

lemma holds_when_free:
  assumes "I start" and keep: "\<And>f d. section_of f \<Longrightarrow> I d \<Longrightarrow> I (f d)" and "reachable s" "free s"
  shows "I (shared s)"
proof -
  obtain fs where fs: "list_all section_of fs" "shared s = fold (\<lambda>f. f) fs start" using serial [OF assms(3,4)] by blast
  have "list_all section_of fs \<Longrightarrow> I d \<Longrightarrow> I (fold (\<lambda>f. f) fs d)" for d
    by (induction fs arbitrary: d) (auto simp: keep)
  with fs assms(1) show ?thesis by simp
qed

end

section \<open>The lock\<close>

text \<open>
  Where a thread is: outside, before the \<open>exchange\<close>, in the inner loop, or inside with the accesses it
  has still to make. \<open>entered\<close> is no part of the code: the sections in the order of their entry.
\<close>

datatype 'd lock_pc = LIdle | LTry "('d \<Rightarrow> 'd) list" | LSpin "('d \<Rightarrow> 'd) list" | LIn "('d \<Rightarrow> 'd) list"

record 'd lock_sys =
  lock :: bool
  lpc :: "nat \<Rightarrow> 'd lock_pc"
  data :: 'd
  entered :: "('d \<Rightarrow> 'd) list list"

definition lock_init :: "'d \<Rightarrow> 'd lock_sys" where
  "lock_init d = \<lparr>lock = False, lpc = (\<lambda>_. LIdle), data = d, entered = []\<rparr>"

inductive lock_step :: "(('d \<Rightarrow> 'd) list \<Rightarrow> bool) \<Rightarrow> nat \<Rightarrow> 'd lock_sys \<Rightarrow> 'd lock_sys \<Rightarrow> bool" for prog N where
  lock_begin: "n < N \<Longrightarrow> lpc s n = LIdle \<Longrightarrow> prog fs \<Longrightarrow> lock_step prog N s (s\<lparr>lpc := (lpc s)(n := LTry fs)\<rparr>)"
| exchange_free: "n < N \<Longrightarrow> lpc s n = LTry fs \<Longrightarrow> \<not> lock s \<Longrightarrow>
    lock_step prog N s (s\<lparr>lock := True, lpc := (lpc s)(n := LIn fs), entered := entered s @ [fs]\<rparr>)"
| exchange_taken: "n < N \<Longrightarrow> lpc s n = LTry fs \<Longrightarrow> lock s \<Longrightarrow> lock_step prog N s (s\<lparr>lock := True, lpc := (lpc s)(n := LSpin fs)\<rparr>)"
| load_taken: "n < N \<Longrightarrow> lpc s n = LSpin fs \<Longrightarrow> lock s \<Longrightarrow> lock_step prog N s s"
| load_free: "n < N \<Longrightarrow> lpc s n = LSpin fs \<Longrightarrow> \<not> lock s \<Longrightarrow> lock_step prog N s (s\<lparr>lpc := (lpc s)(n := LTry fs)\<rparr>)"
| access_data: "n < N \<Longrightarrow> lpc s n = LIn (f # fs) \<Longrightarrow> lock_step prog N s (s\<lparr>lpc := (lpc s)(n := LIn fs), data := f (data s)\<rparr>)"
| release: "n < N \<Longrightarrow> lpc s n = LIn [] \<Longrightarrow> lock_step prog N s (s\<lparr>lock := False, lpc := (lpc s)(n := LIdle)\<rparr>)"

definition whole_section :: "('d \<Rightarrow> 'd) list \<Rightarrow> 'd \<Rightarrow> 'd" where
  "whole_section fs d = fold (\<lambda>f. f) fs d"

definition serially :: "('d \<Rightarrow> 'd) list list \<Rightarrow> 'd \<Rightarrow> 'd" where
  "serially fss d = fold (\<lambda>f. f) (map whole_section fss) d"

definition inside :: "'d lock_sys \<Rightarrow> nat \<Rightarrow> bool" where
  "inside s n = (\<exists>fs. lpc s n = LIn fs)"

text \<open>The invariant: who is inside, and what the data will be once the section has ended.\<close>

definition lock_inv :: "(('d \<Rightarrow> 'd) list \<Rightarrow> bool) \<Rightarrow> nat \<Rightarrow> 'd \<Rightarrow> 'd lock_sys \<Rightarrow> bool" where
  "lock_inv prog N d s =
     ((lock s \<longrightarrow> (\<exists>n<N. inside s n)) \<and> (\<not> lock s \<longrightarrow> data s = serially (entered s) d)
      \<and> (\<forall>n fs. lpc s n = LIn fs \<longrightarrow> lock s \<and> n < N \<and> (\<forall>k. inside s k \<longrightarrow> k = n) \<and> whole_section fs (data s) = serially (entered s) d)
      \<and> (\<forall>n fs. lpc s n = LTry fs \<or> lpc s n = LSpin fs \<longrightarrow> n < N \<and> prog fs) \<and> list_all prog (entered s))"

lemma whole_section_simps [simp]: "whole_section [] d = d" "whole_section (f # fs) d = whole_section fs (f d)"
  by (simp_all add: whole_section_def)

lemma serially_simps [simp]: "serially [] d = d" "serially (fss @ [fs]) d = whole_section fs (serially fss d)"
  by (simp_all add: serially_def)

lemma lock_inv_init: "lock_inv prog N d (lock_init d)"
  by (simp add: lock_inv_def lock_init_def inside_def)

lemma lock_inv_inside:
  assumes "lock_inv prog N d s" "lpc s n = LIn fs"
  shows "lock s" "n < N" "inside s k \<Longrightarrow> k = n" "whole_section fs (data s) = serially (entered s) d"
  using assms by (auto simp: lock_inv_def)

lemma inside_LIn: "lpc s n = LIn fs \<Longrightarrow> inside s n"
  by (simp add: inside_def)

lemma inside_keep:
  assumes "\<not> inside s n" "\<forall>fs. x \<noteq> LIn fs"
  shows "inside (s\<lparr>lpc := (lpc s)(n := x)\<rparr>) = inside s" "inside (s\<lparr>lock := b, lpc := (lpc s)(n := x)\<rparr>) = inside s"
  using assms by (auto simp: inside_def fun_eq_iff)

lemma inside_only:
  "inside (s\<lparr>lpc := (lpc s)(n := LIn fs), data := x\<rparr>) k \<longleftrightarrow> k = n \<or> inside s k"
  "inside (s\<lparr>lock := b, lpc := (lpc s)(n := LIn fs), entered := es\<rparr>) k \<longleftrightarrow> k = n \<or> inside s k"
  "inside (s\<lparr>lock := b, lpc := (lpc s)(n := LIdle)\<rparr>) k \<longleftrightarrow> k \<noteq> n \<and> inside s k"
  by (auto simp: inside_def)

lemma lock_inv_step: "lock_step prog N s s' \<Longrightarrow> lock_inv prog N d s \<Longrightarrow> lock_inv prog N d s'"
proof (induction rule: lock_step.induct)
  case (lock_begin n s fs)
  then have "\<not> inside s n" by (simp add: inside_def)
  from lock_begin inside_keep(1) [OF this, of "LTry fs"] show ?case by (auto simp: lock_inv_def)
next
  case (exchange_free n s fs)
  then have "\<not> inside s k" for k by (auto simp: lock_inv_def inside_def)
  with exchange_free show ?case by (auto simp: lock_inv_def inside_only intro: inside_LIn)
next
  case (exchange_taken n s fs)
  then have "\<not> inside s n" by (simp add: inside_def)
  from exchange_taken inside_keep(2) [OF this, of "LSpin fs" True] show ?case by (auto simp: lock_inv_def)
next
  case (load_free n s fs)
  then have "\<not> inside s n" by (simp add: inside_def)
  from load_free inside_keep(1) [OF this, of "LTry fs"] show ?case by (auto simp: lock_inv_def)
next
  case (access_data n s f fs)
  from lock_inv_inside [OF access_data(3,2)] access_data show ?case
    by (auto simp: lock_inv_def inside_only dest: inside_LIn)
next
  case (release n s)
  from lock_inv_inside [OF release(3,2)] release show ?case by (auto simp: lock_inv_def inside_only dest: inside_LIn)
qed

lemma lock_inv_reachable: "(lock_step prog N)\<^sup>*\<^sup>* (lock_init d) s \<Longrightarrow> lock_inv prog N d s"
  by (induction rule: rtranclp_induct) (auto intro: lock_inv_init lock_inv_step)

text \<open>A thread inside ends its section by its own steps.\<close>

lemma leaves:
  "n < N \<Longrightarrow> lpc s n = LIn fs \<Longrightarrow> (lock_step prog N)\<^sup>*\<^sup>* s
    (s\<lparr>lock := False, lpc := (lpc s)(n := LIdle), data := whole_section fs (data s)\<rparr>)"
proof (induction fs arbitrary: s)
  case Nil
  have e: "s\<lparr>lock := False, lpc := (lpc s)(n := LIdle), data := whole_section [] (data s)\<rparr> = s\<lparr>lock := False, lpc := (lpc s)(n := LIdle)\<rparr>"
    by simp
  show ?case unfolding e by (rule r_into_rtranclp, rule lock_step.release [OF Nil])
next
  case (Cons f fs)
  let ?t = "s\<lparr>lpc := (lpc s)(n := LIn fs), data := f (data s)\<rparr>"
  have e: "?t\<lparr>lock := False, lpc := (lpc ?t)(n := LIdle), data := whole_section fs (data ?t)\<rparr>
      = s\<lparr>lock := False, lpc := (lpc s)(n := LIdle), data := whole_section (f # fs) (data s)\<rparr>" by simp
  have "lock_step prog N s ?t" by (rule lock_step.access_data [OF Cons.prems])
  moreover have "(lock_step prog N)\<^sup>*\<^sup>* ?t (?t\<lparr>lock := False, lpc := (lpc ?t)(n := LIdle), data := whole_section fs (data ?t)\<rparr>)"
    by (rule Cons.IH) (use Cons.prems in auto)
  ultimately show ?case unfolding e by (rule converse_rtranclp_into_rtranclp)
qed

lemma enters:
  assumes "n < N" "lpc s n = LTry fs \<or> lpc s n = LSpin fs" "\<not> lock s"
  shows "(lock_step prog N)\<^sup>*\<^sup>* s (s\<lparr>lock := True, lpc := (lpc s)(n := LIn fs), entered := entered s @ [fs]\<rparr>)"
  using assms(2)
proof
  assume "lpc s n = LTry fs"
  from lock_step.exchange_free [OF assms(1) this assms(3), of prog] show ?thesis by auto
next
  assume l: "lpc s n = LSpin fs"
  let ?t = "s\<lparr>lpc := (lpc s)(n := LTry fs)\<rparr>"
  have "lock_step prog N s ?t" by (rule lock_step.load_free [OF assms(1) l assms(3)])
  moreover have "lock_step prog N ?t (?t\<lparr>lock := True, lpc := (lpc ?t)(n := LIn fs), entered := entered ?t @ [fs]\<rparr>)"
    by (rule lock_step.exchange_free) (use assms(1,3) in auto)
  ultimately show ?thesis by (auto intro: converse_rtranclp_into_rtranclp)
qed

section \<open>Properties\<close>

text \<open>The free lock: the data is as after the sections that were entered, in that order, each as a whole.\<close>

interpretation spin_lock: lock_contract "\<lambda>s. (lock_step prog N)\<^sup>*\<^sup>* (lock_init d) s" "\<lambda>s. \<not> lock s" data
    "\<lambda>f. \<exists>fs. prog fs \<and> f = whole_section fs" d for prog N d
proof
  fix s assume "(lock_step prog N)\<^sup>*\<^sup>* (lock_init d) s" "\<not> lock s"
  then have "data s = serially (entered s) d" "list_all prog (entered s)"
    using lock_inv_reachable [of prog N d s] by (auto simp: lock_inv_def)
  then show "\<exists>fs. list_all (\<lambda>f. \<exists>fs. prog fs \<and> f = whole_section fs) fs \<and> data s = fold (\<lambda>f. f) fs d"
    by (intro exI [of _ "map whole_section (entered s)"]) (auto simp: serially_def list_all_iff)
qed

text \<open>C16. The lock makes critical sections atomic. In every reachable state at most one thread is inside, and one is
  exactly if the lock is set; once it has made its remaining accesses, the data is as after the
  sections in the order of their entry, each as a whole; what every whole section keeps holds whenever
  the lock is free. A thread that waits can always still enter.\<close>

theorem lock_makes_sections_atomic:
  assumes "(lock_step prog N)\<^sup>*\<^sup>* (lock_init d) s"
  shows "(lock s \<longleftrightarrow> (\<exists>n<N. inside s n)) \<and> (\<forall>m n. inside s m \<and> inside s n \<longrightarrow> m = n)
    \<and> (\<forall>n fs. lpc s n = LIn fs \<longrightarrow> whole_section fs (data s) = serially (entered s) d)
    \<and> (\<forall>I. I d \<and> (\<forall>fs x. prog fs \<and> I x \<longrightarrow> I (whole_section fs x)) \<and> \<not> lock s \<longrightarrow> I (data s))
    \<and> (\<forall>n fs. lpc s n = LTry fs \<or> lpc s n = LSpin fs \<longrightarrow> (\<exists>s'. (lock_step prog N)\<^sup>*\<^sup>* s s' \<and> lpc s' n = LIn fs))"
proof -
  have inv: "lock_inv prog N d s" by (rule lock_inv_reachable [OF assms])
  have "lock s \<longleftrightarrow> (\<exists>n<N. inside s n)" using inv by (auto simp: lock_inv_def inside_def split: if_splits)
  moreover have "m = n" if "inside s m" "inside s n" for m n
    using that lock_inv_inside(3) [OF inv] unfolding inside_def [of s n] by blast
  moreover have "I (data s)" if "I d" "\<forall>fs x. prog fs \<and> I x \<longrightarrow> I (whole_section fs x)" "\<not> lock s" for I
    by (rule spin_lock.holds_when_free [where I = I, OF that(1) _ assms that(3)]) (use that(2) in auto)
  moreover have "\<exists>s'. (lock_step prog N)\<^sup>*\<^sup>* s s' \<and> lpc s' n = LIn fs" if w: "lpc s n = LTry fs \<or> lpc s n = LSpin fs" for n fs
  proof (cases "lock s")
    case False
    have "n < N" using inv w by (auto simp: lock_inv_def)
    from enters [OF this w False, of prog] show ?thesis by (intro exI conjI) auto
  next
    case True
    have n: "n < N" using inv w by (auto simp: lock_inv_def)
    obtain m gs where m: "m < N" "lpc s m = LIn gs" using inv True unfolding lock_inv_def inside_def [of s] by blast
    let ?t = "s\<lparr>lock := False, lpc := (lpc s)(m := LIdle), data := whole_section gs (data s)\<rparr>"
    have "m \<noteq> n" using m(2) w by auto
    then have "lpc ?t n = LTry fs \<or> lpc ?t n = LSpin fs" using w by simp
    from leaves [OF m, of prog] enters [OF n this, of prog] show ?thesis
      by (intro exI conjI, elim rtranclp_trans) auto
  qed
  ultimately show ?thesis using lock_inv_inside(4) [OF inv] by blast
qed

theorem lock_makes_sections_atomic_witness:
  "\<exists>s. (lock_step (\<lambda>fs. fs = [\<lambda>x. x + 1, \<lambda>x. 2 * x]) 2)\<^sup>*\<^sup>* (lock_init (3 :: int)) s \<and> data s = 4 \<and> lpc s 0 = LIn [\<lambda>x. 2 * x]
     \<and> \<not> inside s 1"
proof -
  let ?fs = "[\<lambda>x. x + 1, \<lambda>x. 2 * x] :: (int \<Rightarrow> int) list" and ?p = "\<lambda>fs. fs = [\<lambda>x. x + 1, \<lambda>x. 2 * x :: int]"
  let ?s0 = "lock_init (3 :: int)"
  let ?s1 = "?s0\<lparr>lpc := (lpc ?s0)(0 := LTry ?fs)\<rparr>"
  let ?s2 = "?s1\<lparr>lock := True, lpc := (lpc ?s1)(0 := LIn ?fs), entered := entered ?s1 @ [?fs]\<rparr>"
  let ?s3 = "?s2\<lparr>lpc := (lpc ?s2)(0 := LIn [\<lambda>x. 2 * x]), data := data ?s2 + 1\<rparr>"
  have "lock_step ?p 2 ?s0 ?s1" by (rule lock_step.lock_begin) (simp_all add: lock_init_def)
  moreover have "lock_step ?p 2 ?s1 ?s2" by (rule lock_step.exchange_free) (simp_all add: lock_init_def)
  moreover have "lock_step ?p 2 ?s2 ?s3" by (rule lock_step.access_data) simp_all
  ultimately have r: "(lock_step ?p 2)\<^sup>*\<^sup>* ?s0 ?s3" by (meson rtranclp.rtrancl_refl rtranclp.rtrancl_into_rtrancl)
  have i: "lpc ?s3 0 = LIn [\<lambda>x. 2 * x]" "data ?s3 = 4" by (simp_all add: lock_init_def)
  have "inside ?s3 0" using i(1) by (auto simp: inside_def)
  then have "\<not> inside ?s3 1" using lock_makes_sections_atomic [OF r] by (metis zero_neq_one)
  with r i show ?thesis by blast
qed

end
