(* ===== verification/Krd_Trace.thy ===== *)
theory Krd_Trace
  imports Prelude "HOL-Library.Word"
begin

text \<open>
  The access traces of the profiler (\<open>loi/krd.h\<close>, \<open>loi/krd_common.c\<close>, \<open>loi/krd_trace.c\<close>):
  allocation, recording, and writing and reading trace files. The results of \<open>calloc\<close>,
  \<open>mmap\<close>, \<open>read\<close> and \<open>write\<close> are parameters.
\<close>

section \<open>State\<close>

record elem =
  el_id :: "64 word"
  el_tsc :: "64 word"
  el_size :: "32 word"
  el_core :: "16 word"
  el_kernel :: "16 word"

definition zero_elem :: elem where
  "zero_elem = \<lparr>el_id = 0, el_tsc = 0, el_size = 0, el_core = 0, el_kernel = 0\<rparr>"

text \<open>The size field is signed.\<close>

definition el_bytes :: "elem \<Rightarrow> int" where
  "el_bytes e = sint (el_size e)"

text \<open>
  \<open>data_ids\<close>: null, what \<open>mmap\<close> returns when it fails (which is not null), or a buffer of
  some number of elements.
\<close>

datatype buffer = Null | Map_failed | Buffer nat "nat \<Rightarrow> elem"

record ttrace =
  num_elems :: nat
  tindex :: nat
  data_ids :: buffer

record krd =
  threadtraces :: "(int \<Rightarrow> ttrace) option"
  krd_trace_magic :: int

text \<open>\<open>exit(1)\<close>, and undefined behaviour.\<close>

datatype krd_error = Exit1 | Fault

definition LOI_MAXTHREADS :: int where "LOI_MAXTHREADS = 1024"
definition TRACE_LENGTH :: nat where "TRACE_LENGTH = 2 ^ 26"
definition RAW_TRACE_MAGIC :: int where "RAW_TRACE_MAGIC = 0xfff"
definition RWI_TRACE_MAGIC :: int where "RWI_TRACE_MAGIC = 0xffe"

definition krd_initial :: krd where
  "krd_initial = \<lparr>threadtraces = None, krd_trace_magic = -1\<rparr>"

definition empty_trace :: ttrace where
  "empty_trace = \<lparr>num_elems = 0, tindex = 0, data_ids = Null\<rparr>"

definition ebind :: "'e + 'a \<Rightarrow> ('a \<Rightarrow> 'e + 'b) \<Rightarrow> 'e + 'b" where
  "ebind x f = (case x of Inl e \<Rightarrow> Inl e | Inr a \<Rightarrow> f a)"

lemma ebind_simps [simp]: "ebind (Inl e) f = Inl e" "ebind (Inr a) f = f a"
  by (simp_all add: ebind_def)

lemma ebind_Inr: "ebind x f = Inr b \<longleftrightarrow> (\<exists>a. x = Inr a \<and> f a = Inr b)"
  by (cases x) simp_all

section \<open>Access\<close>

text \<open>\<open>threadtraces[tid]\<close>, and elements of its buffer.\<close>

definition get_trace :: "int \<Rightarrow> krd \<Rightarrow> krd_error + ttrace" where
  "get_trace tid st = (case threadtraces st of None \<Rightarrow> Inl Fault
     | Some tr \<Rightarrow> if 0 \<le> tid \<and> tid < LOI_MAXTHREADS then Inr (tr tid) else Inl Fault)"

definition put_trace :: "int \<Rightarrow> ttrace \<Rightarrow> krd \<Rightarrow> krd" where
  "put_trace tid t st = st\<lparr>threadtraces := map_option (\<lambda>tr. tr(tid := t)) (threadtraces st)\<rparr>"

definition buf_get :: "nat \<Rightarrow> buffer \<Rightarrow> krd_error + elem" where
  "buf_get j b = (case b of Buffer cap f \<Rightarrow> if j < cap then Inr (f j) else Inl Fault | _ \<Rightarrow> Inl Fault)"

definition buf_put :: "nat \<Rightarrow> elem \<Rightarrow> buffer \<Rightarrow> krd_error + buffer" where
  "buf_put j e b = (case b of Buffer cap f \<Rightarrow> if j < cap then Inr (Buffer cap (f(j := e))) else Inl Fault | _ \<Rightarrow> Inl Fault)"

section \<open>Allocation\<close>

definition mmap_buffer :: "bool \<Rightarrow> nat \<Rightarrow> buffer" where
  "mmap_buffer ok len = (if ok then Buffer len (\<lambda>_. zero_elem) else Map_failed)"

text \<open>One iteration: the check of \<open>data_ids\<close> against null comes after \<open>mmap\<close>.\<close>

definition alloc_trace :: "bool \<Rightarrow> nat \<Rightarrow> krd_error + ttrace" where
  "alloc_trace ok len = (let b = mmap_buffer ok len in
     if b = Null then Inl Exit1 else Inr \<lparr>num_elems = 0, tindex = 0, data_ids = b\<rparr>)"

fun alloc_traces :: "(int \<Rightarrow> bool) \<Rightarrow> nat \<Rightarrow> nat \<Rightarrow> int \<Rightarrow> krd \<Rightarrow> krd_error + krd" where
  "alloc_traces mmap_ok len 0 i st = Inr st"
| "alloc_traces mmap_ok len (Suc k) i st =
     (if \<not> i < LOI_MAXTHREADS then Inl Fault
      else ebind (alloc_trace (mmap_ok i) len) (\<lambda>t. alloc_traces mmap_ok len k (i + 1) (put_trace i t st)))"

definition krd_init :: "bool \<Rightarrow> (int \<Rightarrow> bool) \<Rightarrow> krd \<Rightarrow> krd_error + krd" where
  "krd_init calloc_ok mmap_ok st =
     (if \<not> calloc_ok then Inl Exit1
      else alloc_traces mmap_ok TRACE_LENGTH (nat LOI_MAXTHREADS) 0 (st\<lparr>threadtraces := Some (\<lambda>_. empty_trace)\<rparr>))"

definition calloc_traces :: "bool \<Rightarrow> krd \<Rightarrow> krd" where
  "calloc_traces calloc_ok st =
     (if threadtraces st = None \<and> calloc_ok then st\<lparr>threadtraces := Some (\<lambda>_. empty_trace)\<rparr> else st)"

definition krd_init_block :: "bool \<Rightarrow> (int \<Rightarrow> bool) \<Rightarrow> nat \<Rightarrow> nat \<Rightarrow> krd \<Rightarrow> krd_error + krd" where
  "krd_init_block calloc_ok mmap_ok numthreads tracelength st =
     (let st' = calloc_traces calloc_ok st in
      if threadtraces st' = None then Inl Exit1 else alloc_traces mmap_ok tracelength numthreads 0 st')"

text \<open>The result 0 or -1, and the state.\<close>

definition krd_init_index :: "bool \<Rightarrow> bool \<Rightarrow> int \<Rightarrow> int \<Rightarrow> krd \<Rightarrow> krd_error + (int \<times> krd)" where
  "krd_init_index calloc_ok mmap_ok threadindex tracelength st =
     (let st' = calloc_traces calloc_ok st in
      if threadindex < 0 \<or> threadindex \<ge> LOI_MAXTHREADS \<or> tracelength < 0 then Inr (-1, st')
      else if threadtraces st' = None then Inl Fault
      else ebind (alloc_trace mmap_ok (nat tracelength)) (\<lambda>t. Inr (0, put_trace threadindex t st')))"

section \<open>Recording\<close>

definition TTrace_add_and_incr :: "int \<Rightarrow> 64 word \<Rightarrow> 64 word \<Rightarrow> 32 word \<Rightarrow> 16 word \<Rightarrow> krd \<Rightarrow> krd_error + krd" where
  "TTrace_add_and_incr tid elem timestamp sz kid st =
     ebind (get_trace tid st) (\<lambda>t.
       if num_elems t < TRACE_LENGTH
       then ebind (buf_get (num_elems t) (data_ids t)) (\<lambda>e.
            ebind (buf_put (num_elems t) (e\<lparr>el_tsc := timestamp, el_id := elem, el_size := sz, el_kernel := kid\<rparr>) (data_ids t)) (\<lambda>b.
              Inr (put_trace tid (t\<lparr>data_ids := b, num_elems := num_elems t + 1\<rparr>) st)))
       else Inr st)"

definition TTrace_add_and_incr_entry ::
    "int \<Rightarrow> 64 word \<Rightarrow> 64 word \<Rightarrow> 32 word \<Rightarrow> nat \<Rightarrow> 16 word \<Rightarrow> krd \<Rightarrow> krd_error + krd" where
  "TTrace_add_and_incr_entry tid elem timestamp sz entry kid st =
     ebind (get_trace tid st) (\<lambda>t.
       if num_elems t < TRACE_LENGTH
       then ebind (buf_get entry (data_ids t)) (\<lambda>e.
            ebind (buf_put entry (e\<lparr>el_tsc := timestamp, el_id := elem, el_size := sz, el_kernel := kid\<rparr>) (data_ids t)) (\<lambda>b.
              Inr (put_trace tid (t\<lparr>data_ids := b\<rparr>) st)))
       else Inr st)"

section \<open>Trace files\<close>

text \<open>
  A file is a 32-bit header and the elements, 32 bytes each in little-endian order: the
  fields and 8 bytes of padding.
\<close>

fun le_bytes :: "nat \<Rightarrow> nat \<Rightarrow> 8 word list" where
  "le_bytes 0 n = []"
| "le_bytes (Suc k) n = of_nat (n mod 256) # le_bytes k (n div 256)"

fun le_val :: "8 word list \<Rightarrow> nat" where
  "le_val [] = 0"
| "le_val (b # bs) = unat b + 256 * le_val bs"

definition encode :: "elem \<Rightarrow> 8 word list" where
  "encode e = le_bytes 8 (unat (el_id e)) @ le_bytes 8 (unat (el_tsc e)) @ le_bytes 4 (unat (el_size e))
     @ le_bytes 2 (unat (el_core e)) @ le_bytes 2 (unat (el_kernel e)) @ replicate 8 0"

definition decode :: "8 word list \<Rightarrow> elem" where
  "decode bs = \<lparr>el_id = of_nat (le_val (take 8 bs)), el_tsc = of_nat (le_val (take 8 (drop 8 bs))),
     el_size = of_nat (le_val (take 4 (drop 16 bs))), el_core = of_nat (le_val (take 2 (drop 20 bs))),
     el_kernel = of_nat (le_val (take 2 (drop 22 bs)))\<rparr>"

definition trace_bytes :: "(nat \<Rightarrow> elem) \<Rightarrow> nat \<Rightarrow> 8 word list" where
  "trace_bytes f n = concat (map (\<lambda>j. encode (f j)) [0..<n])"

datatype trace_file = Raw int | Rwi int

type_synonym files = "trace_file \<Rightarrow> 8 word list option"

text \<open>
  The loop around \<open>write\<close>; the list holds the results of the calls. A result of -1 is not
  looked for. \<open>None\<close>: the loop needs more calls than the list has.
\<close>

fun write_loop :: "8 word list \<Rightarrow> int list \<Rightarrow> int \<Rightarrow> int \<Rightarrow> 8 word list \<Rightarrow> (krd_error + 8 word list) option" where
  "write_loop bs [] pending offset written = None"
| "write_loop bs (w # ws) pending offset written =
     (if offset < 0 then Some (Inl Fault)
      else let written' = (if w \<ge> 0 then written @ take (nat w) (drop (nat offset) bs) else written)
        in if pending - w > 0 then write_loop bs ws (pending - w) (offset + w) written' else Some (Inr written'))"

text \<open>\<open>krd_write_one_trace\<close> and \<open>krd_write_coherent_trace\<close>, which differ in name and magic number.\<close>

definition write_trace ::
    "(int \<Rightarrow> trace_file) \<Rightarrow> int \<Rightarrow> int \<Rightarrow> int list \<Rightarrow> int \<Rightarrow> krd \<Rightarrow> files \<Rightarrow> (krd_error + files) option" where
  "write_trace name magic header_result ws i st fs =
     (if header_result = -1 then Some (Inl Exit1)
      else case get_trace i st of
        Inl e \<Rightarrow> Some (Inl e)
      | Inr t \<Rightarrow>
          (case data_ids t of
             Buffer cap f \<Rightarrow>
               if cap < num_elems t then Some (Inl Fault)
               else (case write_loop (trace_bytes f (num_elems t)) ws (int (num_elems t) * 32) 0 [] of
                  None \<Rightarrow> None
                | Some (Inl e) \<Rightarrow> Some (Inl e)
                | Some (Inr bs) \<Rightarrow> Some (Inr (fs(name i \<mapsto> take (nat header_result) (le_bytes 4 (nat magic)) @ bs))))
           | _ \<Rightarrow> Some (Inl Fault)))"

definition krd_write_one_trace :: "int \<Rightarrow> int list \<Rightarrow> int \<Rightarrow> krd \<Rightarrow> files \<Rightarrow> (krd_error + files) option" where
  "krd_write_one_trace = write_trace Raw RAW_TRACE_MAGIC"

definition krd_write_coherent_trace :: "int \<Rightarrow> int list \<Rightarrow> int \<Rightarrow> krd \<Rightarrow> files \<Rightarrow> (krd_error + files) option" where
  "krd_write_coherent_trace = write_trace Rwi RWI_TRACE_MAGIC"

text \<open>\<open>krd_save_traces\<close>: one \<open>write\<close> per trace, which must write everything.\<close>

definition save_one :: "(int \<Rightarrow> int) \<Rightarrow> (int \<Rightarrow> int) \<Rightarrow> int \<Rightarrow> krd \<Rightarrow> files \<Rightarrow> krd_error + files" where
  "save_one header_result data_result i st fs =
     ebind (get_trace i st) (\<lambda>t.
       if data_ids t = Null then Inr fs
       else ebind (buf_get 0 (data_ids t)) (\<lambda>e.
         if el_id e = 0 then Inr fs
         else if header_result i = -1 then Inl Exit1
         else case data_ids t of
           Buffer cap f \<Rightarrow>
             if cap < num_elems t then Inl Fault
             else if data_result i \<noteq> int (num_elems t) * 32 then Inl Exit1
             else Inr (fs(Raw i \<mapsto> take (nat (header_result i)) (le_bytes 4 (nat RAW_TRACE_MAGIC)) @ trace_bytes f (num_elems t)))
         | _ \<Rightarrow> Inl Fault))"

fun save_loop :: "(int \<Rightarrow> int) \<Rightarrow> (int \<Rightarrow> int) \<Rightarrow> nat \<Rightarrow> int \<Rightarrow> krd \<Rightarrow> files \<Rightarrow> krd_error + files" where
  "save_loop hr dr 0 i st fs = Inr fs"
| "save_loop hr dr (Suc k) i st fs = ebind (save_one hr dr i st fs) (save_loop hr dr k (i + 1) st)"

definition krd_save_traces :: "(int \<Rightarrow> int) \<Rightarrow> (int \<Rightarrow> int) \<Rightarrow> krd \<Rightarrow> files \<Rightarrow> krd_error + files" where
  "krd_save_traces hr dr st fs = save_loop hr dr (nat LOI_MAXTHREADS) 0 st fs"

text \<open>The loop around \<open>read\<close>, from position \<open>offset\<close> of the data; -1 ends the program.\<close>

fun read_loop :: "8 word list \<Rightarrow> int list \<Rightarrow> int \<Rightarrow> nat \<Rightarrow> 8 word list \<Rightarrow> (krd_error + 8 word list) option" where
  "read_loop bs [] pending offset got = None"
| "read_loop bs (r # rs) pending offset got =
     (if r = -1 then Some (Inl Exit1)
      else let got' = got @ take (nat r) (drop offset bs)
        in if pending - r > 0 then read_loop bs rs (pending - r) (offset + nat r) got' else Some (Inr got'))"

text \<open>What the buffer holds after \<open>bs\<close> has been read over it.\<close>

definition overlay :: "8 word list \<Rightarrow> (nat \<Rightarrow> elem) \<Rightarrow> nat \<Rightarrow> elem" where
  "overlay bs f j = (let c = take 32 (drop (32 * j) bs) in decode (c @ drop (length c) (encode (f j))))"

definition load_trace :: "int list \<Rightarrow> int \<Rightarrow> 8 word list \<Rightarrow> krd \<Rightarrow> (krd_error + krd) option" where
  "load_trace rs i bs st =
     (case get_trace i st of
        Inl e \<Rightarrow> Some (Inl e)
      | Inr t \<Rightarrow>
          (case data_ids t of
             Buffer cap f \<Rightarrow>
               if 32 * cap < length bs then Some (Inl Fault)
               else (case read_loop bs rs (int (length bs)) 0 [] of
                 None \<Rightarrow> None
               | Some (Inl e) \<Rightarrow> Some (Inl e)
               | Some (Inr got) \<Rightarrow>
                   Some (Inr (put_trace i (t\<lparr>num_elems := length bs div 32, data_ids := Buffer cap (overlay got f)\<rparr>) st)))
           | _ \<Rightarrow> Some (Inl Fault)))"

definition krd_read_one_trace :: "int list \<Rightarrow> int \<Rightarrow> files \<Rightarrow> krd \<Rightarrow> (krd_error + (bool \<times> krd)) option" where
  "krd_read_one_trace rs i fs st =
     (case fs (Raw i) of
        None \<Rightarrow> Some (Inr (False, st))
      | Some bs \<Rightarrow>
          if length bs < 4 then Some (Inl Fault)
          else let header = int (le_val (take 4 bs)) in
            if header \<noteq> RAW_TRACE_MAGIC \<and> header \<noteq> RWI_TRACE_MAGIC then Some (Inl Exit1)
            else if krd_trace_magic st > 0 \<and> krd_trace_magic st \<noteq> header then Some (Inl Exit1)
            else (case load_trace rs i (drop 4 bs) (st\<lparr>krd_trace_magic := header\<rparr>) of
                    None \<Rightarrow> None
                  | Some (Inl e) \<Rightarrow> Some (Inl e)
                  | Some (Inr st') \<Rightarrow> Some (Inr (True, st'))))"

definition krd_read_coherent_trace :: "int list \<Rightarrow> int \<Rightarrow> files \<Rightarrow> krd \<Rightarrow> (krd_error + (bool \<times> krd)) option" where
  "krd_read_coherent_trace rs i fs st =
     (case fs (Rwi i) of
        None \<Rightarrow> Some (Inr (False, st))
      | Some bs \<Rightarrow>
          if length bs < 4 then Some (Inl Fault)
          else let header = int (le_val (take 4 bs)) in
            if header \<noteq> RWI_TRACE_MAGIC then Some (Inl Exit1)
            else (case load_trace rs i (drop 4 bs) (st\<lparr>krd_trace_magic := header\<rparr>) of
                    None \<Rightarrow> None
                  | Some (Inl e) \<Rightarrow> Some (Inl e)
                  | Some (Inr st') \<Rightarrow> Some (Inr (True, st'))))"

text \<open>The numbers of 4-byte accesses and invalidations both functions report.\<close>

definition raw_refs :: "(nat \<Rightarrow> elem) \<Rightarrow> nat \<Rightarrow> int" where
  "raw_refs f n = (\<Sum>j\<leftarrow>[0..<n]. \<bar>el_bytes (f j)\<bar> div 4)"

definition rwi_refs :: "(nat \<Rightarrow> elem) \<Rightarrow> nat \<Rightarrow> int \<times> int" where
  "rwi_refs f n = (\<Sum>j\<leftarrow>[0..<n]. if el_bytes (f j) > 0 then el_bytes (f j) div 4 else 0,
                   \<Sum>j\<leftarrow>[0..<n]. if el_bytes (f j) > 0 then 0 else \<bar>el_bytes (f j)\<bar> div 4)"

section \<open>Facts\<close>

lemma le_bytes_length [simp]: "length (le_bytes k n) = k"
  by (induction k arbitrary: n) auto

lemma le_val_le_bytes: "le_val (le_bytes k n) = n mod 256 ^ k"
proof (induction k arbitrary: n)
  case (Suc k)
  have "unat (of_nat (n mod 256) :: 8 word) = n mod 256"
    by (simp add: unat_of_nat take_bit_eq_mod)
  then show ?case by (simp add: Suc mod_mult2_eq)
qed simp

lemma le_val_unat:
  "le_val (le_bytes 8 (unat (x :: 64 word))) = unat x"
  "le_val (le_bytes 4 (unat (y :: 32 word))) = unat y"
  "le_val (le_bytes 2 (unat (z :: 16 word))) = unat z"
proof -
  have "unat x < 2 ^ 64" "unat y < 2 ^ 32" "unat z < 2 ^ 16"
    using unsigned_less [of x, where 'a = nat] unsigned_less [of y, where 'a = nat] unsigned_less [of z, where 'a = nat] by simp_all
  then show "le_val (le_bytes 8 (unat x)) = unat x" "le_val (le_bytes 4 (unat y)) = unat y" "le_val (le_bytes 2 (unat z)) = unat z"
    by (simp_all add: le_val_le_bytes)
qed

lemma encode_length [simp]: "length (encode e) = 32"
  by (simp add: encode_def)

lemma decode_encode [simp]: "decode (encode e) = e"
  by (simp add: encode_def decode_def le_val_unat)

lemma trace_bytes_length [simp]: "length (trace_bytes f n) = 32 * n"
  by (induction n) (simp_all add: trace_bytes_def)

lemma trace_bytes_Suc: "trace_bytes f (Suc n) = trace_bytes f n @ encode (f n)"
  by (simp add: trace_bytes_def)

lemma trace_bytes_nth: "j < n \<Longrightarrow> take 32 (drop (32 * j) (trace_bytes f n)) = encode (f j)"
proof (induction n)
  case (Suc n)
  then show ?case
    by (cases "j < n") (auto simp: trace_bytes_Suc less_Suc_eq)
qed simp

lemma overlay_trace_bytes: "overlay (trace_bytes f n) g = (\<lambda>j. if j < n then f j else g j)"
proof
  fix j
  show "overlay (trace_bytes f n) g j = (if j < n then f j else g j)"
    by (simp add: overlay_def Let_def trace_bytes_nth)
qed

text \<open>The documented results of \<open>read\<close> and \<open>write\<close>: between 0 and what is left, until nothing is.\<close>

fun transfers :: "int list \<Rightarrow> int \<Rightarrow> bool" where
  "transfers [] pending = False"
| "transfers (w # ws) pending = (0 \<le> w \<and> w \<le> pending \<and> (w < pending \<longrightarrow> transfers ws (pending - w)))"

lemma write_loop_transfers:
  "transfers ws p \<Longrightarrow> 0 \<le> off \<Longrightarrow> off + p = int (length bs)
   \<Longrightarrow> write_loop bs ws p off (take (nat off) bs) = Some (Inr bs)"
proof (induction ws arbitrary: p off)
  case (Cons w ws)
  have step: "take (nat off) bs @ take (nat w) (drop (nat off) bs) = take (nat (off + w)) bs"
    using Cons.prems by (simp add: take_add nat_add_distrib)
  show ?case
  proof (cases "w < p")
    case True
    have "write_loop bs ws (p - w) (off + w) (take (nat (off + w)) bs) = Some (Inr bs)"
      using Cons.prems True by (intro Cons.IH) auto
    then show ?thesis using Cons.prems True by (simp add: step)
  next
    case False
    then show ?thesis using Cons.prems by (simp add: step)
  qed
qed simp

lemma read_loop_transfers:
  "transfers rs p \<Longrightarrow> int off + p = int (length bs)
   \<Longrightarrow> read_loop bs rs p off (take off bs) = Some (Inr bs)"
proof (induction rs arbitrary: p off)
  case (Cons w ws)
  have step: "take off bs @ take (nat w) (drop off bs) = take (off + nat w) bs"
    by (simp add: take_add)
  show ?case
  proof (cases "w < p")
    case True
    have "read_loop bs ws (p - w) (off + nat w) (take (off + nat w) bs) = Some (Inr bs)"
      using Cons.prems True by (intro Cons.IH) auto
    then show ?thesis using Cons.prems True by (simp add: step)
  next
    case False
    then show ?thesis using Cons.prems by (simp add: step)
  qed
qed simp

lemma get_put_trace [simp]:
  "get_trace i st = Inr t \<Longrightarrow> get_trace j (put_trace i u st) = (if j = i then Inr u else get_trace j st)"
  by (auto simp: get_trace_def put_trace_def split: option.splits if_splits)

lemma put_trace_magic [simp]: "krd_trace_magic (put_trace i u st) = krd_trace_magic st"
  by (simp add: put_trace_def)

lemma get_trace_magic [simp]: "get_trace i (st\<lparr>krd_trace_magic := m\<rparr>) = get_trace i st"
  by (simp add: get_trace_def)

lemma write_trace_transfers:
  assumes "get_trace i st = Inr t" "data_ids t = Buffer cap f" "num_elems t \<le> cap"
    and "transfers ws (int (num_elems t) * 32)"
  shows "write_trace name magic 4 ws i st fs
    = Some (Inr (fs(name i \<mapsto> le_bytes 4 (nat magic) @ trace_bytes f (num_elems t))))"
  using assms write_loop_transfers [OF assms(4), of 0 "trace_bytes f (num_elems t)"]
  by (simp add: write_trace_def)

lemma load_trace_transfers:
  assumes "get_trace i st = Inr t" "data_ids t = Buffer cap g" "n \<le> cap" "transfers rs (int n * 32)"
  shows "load_trace rs i (trace_bytes f n) st
    = Some (Inr (put_trace i (t\<lparr>num_elems := n, data_ids := Buffer cap (\<lambda>j. if j < n then f j else g j)\<rparr>) st))"
  using assms read_loop_transfers [of rs "int n * 32" 0 "trace_bytes f n"]
  by (simp add: load_trace_def overlay_trace_bytes mult.commute)

lemma header_magic: "le_val (le_bytes 4 (nat RAW_TRACE_MAGIC)) = 0xfff" "le_val (le_bytes 4 (nat RWI_TRACE_MAGIC)) = 0xffe"
  by (simp_all add: le_val_le_bytes RAW_TRACE_MAGIC_def RWI_TRACE_MAGIC_def)

text \<open>C36. A trace file written by any sequence of calls of \<open>write\<close> that transfers it all, and read by
  any sequence of calls of \<open>read\<close> that does, gives the elements and their number back; the rest of the
  buffer is as it was.\<close>

theorem trace_file_roundtrip:
  assumes "get_trace i st = Inr t" "data_ids t = Buffer cap f" "num_elems t \<le> cap"
    and "transfers ws (int (num_elems t) * 32)"
    and "get_trace i st' = Inr t'" "data_ids t' = Buffer cap' g" "num_elems t \<le> cap'"
    and "transfers rs (int (num_elems t) * 32)" "krd_trace_magic st' \<le> 0"
  shows "\<exists>fs' st''. krd_write_one_trace 4 ws i st fs = Some (Inr fs')
    \<and> krd_read_one_trace rs i fs' st' = Some (Inr (True, st'')) \<and> krd_trace_magic st'' = RAW_TRACE_MAGIC
    \<and> get_trace i st'' = Inr (t'\<lparr>num_elems := num_elems t,
         data_ids := Buffer cap' (\<lambda>j. if j < num_elems t then f j else g j)\<rparr>)"
proof -
  define bs where "bs = trace_bytes f (num_elems t)"
  let ?st = "st'\<lparr>krd_trace_magic := RAW_TRACE_MAGIC\<rparr>"
  let ?t = "t'\<lparr>num_elems := num_elems t, data_ids := Buffer cap' (\<lambda>j. if j < num_elems t then f j else g j)\<rparr>"
  have w: "krd_write_one_trace 4 ws i st fs = Some (Inr (fs(Raw i \<mapsto> le_bytes 4 (nat RAW_TRACE_MAGIC) @ bs)))"
    unfolding krd_write_one_trace_def bs_def by (rule write_trace_transfers [OF assms(1-4)])
  have "load_trace rs i bs ?st = Some (Inr (put_trace i ?t ?st))"
    unfolding bs_def using assms by (intro load_trace_transfers) simp_all
  moreover have "RAW_TRACE_MAGIC = 4095" by (simp add: RAW_TRACE_MAGIC_def)
  ultimately have "krd_read_one_trace rs i (fs(Raw i \<mapsto> le_bytes 4 (nat RAW_TRACE_MAGIC) @ bs)) st'
      = Some (Inr (True, put_trace i ?t ?st))"
    using assms(9) header_magic(1) by (simp add: krd_read_one_trace_def)
  then show ?thesis using w assms(5) by simp
qed

subsection \<open>Recording\<close>

definition event_elem :: "(64 word \<times> 64 word \<times> 32 word \<times> 16 word) \<Rightarrow> elem \<Rightarrow> elem" where
  "event_elem ev e = (case ev of (x, time, sz, kid) \<Rightarrow> e\<lparr>el_tsc := time, el_id := x, el_size := sz, el_kernel := kid\<rparr>)"

fun record_events :: "int \<Rightarrow> (64 word \<times> 64 word \<times> 32 word \<times> 16 word) list \<Rightarrow> krd \<Rightarrow> krd_error + krd" where
  "record_events tid [] st = Inr st"
| "record_events tid ((x, time, sz, kid) # evs) st =
     ebind (TTrace_add_and_incr tid x time sz kid st) (record_events tid evs)"

lemma add_and_incr:
  assumes "get_trace tid st = Inr t" "data_ids t = Buffer cap f" "num_elems t < TRACE_LENGTH" "TRACE_LENGTH \<le> cap"
  shows "TTrace_add_and_incr tid x time sz kid st = Inr (put_trace tid
    (t\<lparr>data_ids := Buffer cap (f(num_elems t := event_elem (x, time, sz, kid) (f (num_elems t)))), num_elems := num_elems t + 1\<rparr>) st)"
  using assms by (simp add: TTrace_add_and_incr_def buf_get_def buf_put_def event_elem_def)

lemma add_full:
  "get_trace tid st = Inr t \<Longrightarrow> TRACE_LENGTH \<le> num_elems t \<Longrightarrow> TTrace_add_and_incr tid x time sz kid st = Inr st"
  by (simp add: TTrace_add_and_incr_def)

lemma record_full:
  "get_trace tid st = Inr t \<Longrightarrow> TRACE_LENGTH \<le> num_elems t \<Longrightarrow> record_events tid evs st = Inr st"
  by (induction evs) (auto simp: add_full)

text \<open>A thread's trace takes the first events up to \<open>TRACE_LENGTH\<close> elements, in order, after what
  it held; later events are dropped, and the traces of the other threads are not touched.\<close>

theorem recording_keeps_the_first_events:
  assumes "get_trace tid st = Inr t" "data_ids t = Buffer cap f" "num_elems t \<le> TRACE_LENGTH" "TRACE_LENGTH \<le> cap"
  shows "\<exists>st' t' g. record_events tid evs st = Inr st' \<and> get_trace tid st' = Inr t' \<and> data_ids t' = Buffer cap g
    \<and> num_elems t' = min TRACE_LENGTH (num_elems t + length evs)
    \<and> (\<forall>j. g j = (if num_elems t \<le> j \<and> j < num_elems t' then event_elem (evs ! (j - num_elems t)) (f j) else f j))
    \<and> (\<forall>i. i \<noteq> tid \<longrightarrow> get_trace i st' = get_trace i st)"
  using assms
proof (induction evs arbitrary: st t f)
  case Nil
  then show ?case by auto
next
  case (Cons ev evs)
  obtain x time sz kid where ev: "ev = (x, time, sz, kid)" by (cases ev)
  show ?case
  proof (cases "num_elems t < TRACE_LENGTH")
    case False
    then show ?thesis
      using record_full [OF Cons.prems(1), of "ev # evs"] Cons.prems by auto
  next
    case True
    define f1 where "f1 = f(num_elems t := event_elem ev (f (num_elems t)))"
    define t1 where "t1 = t\<lparr>data_ids := Buffer cap f1, num_elems := num_elems t + 1\<rparr>"
    have get: "get_trace tid (put_trace tid t1 st) = Inr t1" using Cons.prems by simp
    have t1: "data_ids t1 = Buffer cap f1" "num_elems t1 = Suc (num_elems t)" by (simp_all add: t1_def)
    obtain st' t' g where r: "record_events tid evs (put_trace tid t1 st) = Inr st'" "get_trace tid st' = Inr t'"
        "data_ids t' = Buffer cap g" "num_elems t' = min TRACE_LENGTH (num_elems t1 + length evs)"
        "\<forall>j. g j = (if num_elems t1 \<le> j \<and> j < num_elems t' then event_elem (evs ! (j - num_elems t1)) (f1 j) else f1 j)"
        "\<forall>i. i \<noteq> tid \<longrightarrow> get_trace i st' = get_trace i (put_trace tid t1 st)"
      using Cons.IH [OF get t1(1)] True Cons.prems(4) t1(2) by (metis Suc_leI)
    have "g j = (if num_elems t \<le> j \<and> j < num_elems t' then event_elem ((ev # evs) ! (j - num_elems t)) (f j) else f j)" for j
      using r(4) True t1(2) by (cases "j = num_elems t") (auto simp: r(5) f1_def)
    moreover have "record_events tid (ev # evs) st = Inr st'"
      using add_and_incr [OF Cons.prems(1,2) True Cons.prems(4)] r(1) by (simp add: ev t1_def f1_def)
    moreover have "\<forall>i. i \<noteq> tid \<longrightarrow> get_trace i st' = get_trace i st"
      using r(6) Cons.prems(1) by simp
    moreover have "num_elems t' = min TRACE_LENGTH (num_elems t + length (ev # evs))" using r(4) t1(2) by simp
    ultimately show ?thesis using r(2,3) by blast
  qed
qed

text \<open>One element that says which buffer it is in, and a state of traces of two such elements.\<close>

definition elem_of :: "nat \<Rightarrow> elem" where
  "elem_of j = \<lparr>el_id = of_nat (j + 7), el_tsc = of_nat (j + 1), el_size = -4, el_core = 3, el_kernel = 9\<rparr>"

definition two_elems :: krd where
  "two_elems = \<lparr>threadtraces = Some (\<lambda>_. \<lparr>num_elems = 2, tindex = 0, data_ids = Buffer 2 elem_of\<rparr>), krd_trace_magic = -1\<rparr>"

lemma get_two_elems: "get_trace 5 two_elems = Inr \<lparr>num_elems = 2, tindex = 0, data_ids = Buffer 2 elem_of\<rparr>"
  by (simp add: get_trace_def two_elems_def LOI_MAXTHREADS_def)

definition no_elems :: krd where
  "no_elems = \<lparr>threadtraces = Some (\<lambda>_. \<lparr>num_elems = 0, tindex = 0, data_ids = Buffer TRACE_LENGTH (\<lambda>_. zero_elem)\<rparr>),
     krd_trace_magic = -1\<rparr>"

lemma get_no_elems: "get_trace 5 no_elems = Inr \<lparr>num_elems = 0, tindex = 0, data_ids = Buffer TRACE_LENGTH (\<lambda>_. zero_elem)\<rparr>"
  by (simp add: get_trace_def no_elems_def LOI_MAXTHREADS_def)

theorem trace_file_roundtrip_witness:
  "\<exists>fs' st''. krd_write_one_trace 4 [40, 0, 24] 5 two_elems Map.empty = Some (Inr fs')
    \<and> krd_read_one_trace [1, 63] 5 fs' no_elems = Some (Inr (True, st'')) \<and> krd_trace_magic st'' = RAW_TRACE_MAGIC
    \<and> get_trace 5 st'' = Inr \<lparr>num_elems = 2, tindex = 0,
         data_ids = Buffer TRACE_LENGTH (\<lambda>j. if j < 2 then elem_of j else zero_elem)\<rparr>"
  using trace_file_roundtrip [OF get_two_elems, of 2 elem_of "[40, 0, 24]" no_elems _ TRACE_LENGTH "\<lambda>_. zero_elem" "[1, 63]" Map.empty,
      OF _ _ _ get_no_elems]
  by (simp add: no_elems_def TRACE_LENGTH_def)

theorem recording_keeps_the_first_events_witness:
  "\<exists>st' t' g. record_events 5 [(10, 1, 4, 0), (20, 2, 8, 0)] no_elems = Inr st' \<and> get_trace 5 st' = Inr t'
    \<and> data_ids t' = Buffer TRACE_LENGTH g \<and> num_elems t' = 2 \<and> el_id (g 1) = 20 \<and> el_tsc (g 0) = 1 \<and> g 2 = zero_elem"
proof -
  have *: "min TRACE_LENGTH 2 = 2" by (simp add: TRACE_LENGTH_def)
  show ?thesis
    using recording_keeps_the_first_events [OF get_no_elems, of TRACE_LENGTH "\<lambda>_. zero_elem" "[(10, 1, 4, 0), (20, 2, 8, 0)]"]
    by (auto simp: event_elem_def * numeral_2_eq_2 [symmetric])
qed

subsection \<open>Failures that are not looked for\<close>

text \<open>A call of \<open>write\<close> that fails is taken for one that wrote -1 bytes: the next call starts before
  the buffer.\<close>

theorem failed_write_leaves_the_buffer:
  assumes "get_trace i st = Inr t" "data_ids t = Buffer cap f" "num_elems t \<le> cap" "hr \<noteq> -1"
  shows "krd_write_one_trace hr (-1 # w # ws) i st fs = Some (Inl Fault)"
  using assms by (simp add: krd_write_one_trace_def write_trace_def)

theorem failed_write_leaves_the_buffer_witness:
  "krd_write_one_trace 4 [-1, 64] 5 two_elems Map.empty = Some (Inl Fault)"
  using failed_write_leaves_the_buffer [OF get_two_elems, of 2 elem_of 4 64 "[]" Map.empty] by simp

text \<open>A failed \<open>mmap\<close> is not null, so the allocation reports success; the first event recorded faults.\<close>

theorem failed_mmap_is_not_seen:
  assumes "0 \<le> i" "i < LOI_MAXTHREADS" "0 \<le> len" "threadtraces st \<noteq> None \<or> calloc_ok"
  shows "\<exists>st'. krd_init_index calloc_ok False i len st = Inr (0, st')
    \<and> TTrace_add_and_incr i x time sz kid st' = Inl Fault"
  using assms
  by (auto simp: krd_init_index_def calloc_traces_def alloc_trace_def mmap_buffer_def TTrace_add_and_incr_def
      get_trace_def put_trace_def buf_get_def TRACE_LENGTH_def)

theorem failed_mmap_is_not_seen_witness:
  "\<exists>st'. krd_init_index True False 3 100 krd_initial = Inr (0, st') \<and> TTrace_add_and_incr 3 64 1 4 0 st' = Inl Fault"
  by (rule failed_mmap_is_not_seen) (simp_all add: LOI_MAXTHREADS_def)

end
