(* ===== verification/Krd_Tools.thy ===== *)
theory Krd_Tools
  imports Krd_Trace "HOL-Library.Multiset"
begin

text \<open>
  The programs on traces (\<open>loi/krd_trace.c\<close>: merge, coherence, interleave and cut tools;
  \<open>loi/gentrace.c\<close>). The first two are a merge of sorted traces, which an abstract relation
  specifies and they implement.
\<close>

section \<open>The tools\<close>

definition obind :: "('e + 'a) option \<Rightarrow> ('a \<Rightarrow> ('e + 'b) option) \<Rightarrow> ('e + 'b) option" where
  "obind x f = (case x of None \<Rightarrow> None | Some (Inl e) \<Rightarrow> Some (Inl e) | Some (Inr a) \<Rightarrow> f a)"

text \<open>
  Reading the traces named on the command line, each into a fresh buffer; the flags say
  which of them exist. \<open>mem\<close> is the success of \<open>calloc\<close> and, per trace, of \<open>mmap\<close>.
\<close>

fun read_args :: "bool \<times> (int \<Rightarrow> bool) \<Rightarrow> nat \<Rightarrow> (int \<Rightarrow> int list) \<Rightarrow> files \<Rightarrow> int list \<Rightarrow> krd
    \<Rightarrow> (krd_error + (bool list \<times> krd)) option" where
  "read_args mem len rs fs [] st = Some (Inr ([], st))"
| "read_args mem len rs fs (a # as) st =
     obind (Some (krd_init_index (fst mem) (snd mem a) a (int len) st)) (\<lambda>(_, st1).
     obind (krd_read_one_trace (rs a) a fs st1) (\<lambda>(act, st2).
     obind (read_args mem len rs fs as st2) (\<lambda>(acts, st3). Some (Inr (act # acts, st3)))))"

definition elem_at :: "krd \<Rightarrow> int \<Rightarrow> krd_error + elem" where
  "elem_at st tid = ebind (get_trace tid st) (\<lambda>t. buf_get (tindex t) (data_ids t))"

definition advance :: "int \<Rightarrow> krd \<Rightarrow> krd_error + krd" where
  "advance tid st = ebind (get_trace tid st) (\<lambda>t. Inr (put_trace tid (t\<lparr>tindex := tindex t + 1\<rparr>) st))"

definition append_elem :: "int \<Rightarrow> elem \<Rightarrow> krd \<Rightarrow> krd_error + krd" where
  "append_elem target e st =
     ebind (get_trace target st) (\<lambda>t.
     ebind (buf_put (tindex t) e (data_ids t)) (\<lambda>b.
       Inr (put_trace target (t\<lparr>data_ids := b, tindex := tindex t + 1\<rparr>) st)))"

text \<open>The loop that looks for the lowest time stamp; a time stamp of 0 is taken for the end of a trace.\<close>

fun pick_lowest :: "krd \<Rightarrow> (int \<times> bool) list \<Rightarrow> 64 word \<Rightarrow> int \<Rightarrow> krd_error + int" where
  "pick_lowest st [] lowest src = Inr src"
| "pick_lowest st ((tid, act) # as) lowest src =
     (if \<not> act then pick_lowest st as lowest src
      else ebind (elem_at st tid) (\<lambda>e.
        if el_tsc e = 0 then pick_lowest st as lowest src
        else if el_tsc e < lowest then pick_lowest st as (el_tsc e) tid
        else pick_lowest st as lowest src))"

definition count_elems :: "(int \<times> bool) list \<Rightarrow> krd \<Rightarrow> nat" where
  "count_elems args st = (\<Sum>(tid, act)\<leftarrow>args.
     if act then (case get_trace tid st of Inr t \<Rightarrow> num_elems t | Inl _ \<Rightarrow> 0) else 0)"

subsection \<open>Merging\<close>

definition merge_step :: "(int \<times> bool) list \<Rightarrow> int \<Rightarrow> int \<Rightarrow> krd \<Rightarrow> krd_error + krd" where
  "merge_step args first_active target st =
     ebind (pick_lowest st args (-1) first_active) (\<lambda>src.
     ebind (elem_at st src) (\<lambda>e.
     ebind (append_elem target (e\<lparr>el_core := of_int src\<rparr>) st) (advance src)))"

fun merge_loop :: "(int \<times> bool) list \<Rightarrow> int \<Rightarrow> int \<Rightarrow> nat \<Rightarrow> krd \<Rightarrow> krd_error + krd" where
  "merge_loop args first_active target 0 st = Inr st"
| "merge_loop args first_active target (Suc k) st =
     ebind (merge_step args first_active target st) (merge_loop args first_active target k)"

definition set_num_elems :: "int \<Rightarrow> nat \<Rightarrow> krd \<Rightarrow> krd_error + krd" where
  "set_num_elems tid n st = ebind (get_trace tid st) (\<lambda>t. Inr (put_trace tid (t\<lparr>num_elems := n\<rparr>) st))"

definition first_of :: "(int \<times> bool) list \<Rightarrow> int" where
  "first_of args = (case filter snd args of [] \<Rightarrow> 0 | (tid, _) # _ \<Rightarrow> tid)"

text \<open>
  The merge tool notes which traces exist in \<open>active_indexes\<close>, by the position \<open>i\<close> of the argument: 1024
  entries, of which the first two are not used. Its loops look at the entry of every argument.
\<close>

definition MAX_ACTIVE :: nat where "MAX_ACTIVE = 1024"

fun read_active :: "bool \<times> (int \<Rightarrow> bool) \<Rightarrow> (int \<Rightarrow> int list) \<Rightarrow> files \<Rightarrow> nat \<Rightarrow> int list \<Rightarrow> krd
    \<Rightarrow> (krd_error + (bool list \<times> krd)) option" where
  "read_active mem rs fs i [] st = Some (if i \<le> MAX_ACTIVE then Inr ([], st) else Inl Fault)"
| "read_active mem rs fs i (a # as) st =
     obind (Some (krd_init_index (fst mem) (snd mem a) a (int TRACE_LENGTH) st)) (\<lambda>(_, st1).
     obind (krd_read_one_trace (rs a) a fs st1) (\<lambda>(act, st2).
     if act \<and> MAX_ACTIVE \<le> i then Some (Inl Fault)
     else obind (read_active mem rs fs (i + 1) as st2) (\<lambda>(acts, st3). Some (Inr (act # acts, st3)))))"

definition merge_tool ::
    "bool \<times> (int \<Rightarrow> bool) \<Rightarrow> (int \<Rightarrow> int list) \<Rightarrow> int list \<Rightarrow> int \<Rightarrow> files \<Rightarrow> int list \<Rightarrow> (krd_error + files) option" where
  "merge_tool mem rs ws hr fs argv =
     (case argv of [] \<Rightarrow> Some (Inl Exit1)
      | target # srcs \<Rightarrow>
          obind (Some (krd_init_index (fst mem) (snd mem target) target (int TRACE_LENGTH * 16) krd_initial)) (\<lambda>(_, st1).
          obind (read_active mem rs fs 2 srcs st1) (\<lambda>(acts, st2).
            let args = zip srcs acts; maxelems = count_elems args st2 in
            obind (Some (merge_loop args (first_of args) target maxelems st2)) (\<lambda>st3.
            obind (Some (set_num_elems target maxelems st3)) (\<lambda>st4.
              krd_write_one_trace hr ws target st4 fs)))))"

subsection \<open>Coherent traces\<close>

text \<open>
  What an element contributes: an access of the chosen trace with a positive size, a write
  of another trace as an invalidation, a read of another trace nothing. (The \<open>abs\<close> of the least 32-bit
  number, which is undefined in C, is that number here.)
\<close>

definition coherent_elem :: "int \<Rightarrow> int \<Rightarrow> elem \<Rightarrow> elem option" where
  "coherent_elem out_tid src e =
     (if src = out_tid then Some (e\<lparr>el_size := of_int \<bar>el_bytes e\<bar>\<rparr>)
      else if el_bytes e < 0 then Some e else None)"

text \<open>One round: the flags are per trace, and the source starts as the one of the round before.\<close>

definition coherence_step ::
    "int list \<Rightarrow> int \<Rightarrow> int \<Rightarrow> (int \<Rightarrow> bool) \<times> int \<times> krd \<Rightarrow> krd_error + ((int \<Rightarrow> bool) \<times> int \<times> krd)" where
  "coherence_step args out_tid target x =
     (case x of (act, src0, st) \<Rightarrow>
        ebind (pick_lowest st (map (\<lambda>a. (a, act a)) args) (-1) src0) (\<lambda>src.
        ebind (elem_at st src) (\<lambda>e.
        ebind (case coherent_elem out_tid src e of None \<Rightarrow> Inr st | Some e' \<Rightarrow> append_elem target e' st) (\<lambda>st1.
        ebind (advance src st1) (\<lambda>st2.
        ebind (get_trace src st2) (\<lambda>t.
          Inr (if tindex t \<ge> num_elems t then act(src := False) else act, src, st2)))))))"

fun coherence_loop ::
    "int list \<Rightarrow> int \<Rightarrow> int \<Rightarrow> nat \<Rightarrow> (int \<Rightarrow> bool) \<times> int \<times> krd \<Rightarrow> krd_error + ((int \<Rightarrow> bool) \<times> int \<times> krd)" where
  "coherence_loop args out_tid target 0 x = Inr x"
| "coherence_loop args out_tid target (Suc k) x =
     ebind (coherence_step args out_tid target x) (coherence_loop args out_tid target k)"

definition coherence_tool ::
    "bool \<times> (int \<Rightarrow> bool) \<Rightarrow> (int \<Rightarrow> int list) \<Rightarrow> int list \<Rightarrow> int \<Rightarrow> files \<Rightarrow> int list \<Rightarrow> (krd_error + files) option" where
  "coherence_tool mem rs ws hr fs argv =
     (case argv of [] \<Rightarrow> Some (Inl Exit1)
      | [target] \<Rightarrow> Some (Inl Fault)
      | target # args \<Rightarrow>
          obind (Some (krd_init_index (fst mem) (snd mem target) target (int TRACE_LENGTH * 16) krd_initial)) (\<lambda>(_, st1).
          obind (read_args mem (TRACE_LENGTH * 16) rs fs args st1) (\<lambda>(acts, st2).
            let act = (\<lambda>tid. (tid, True) \<in> set (zip args acts));
                maxelems = count_elems (map (\<lambda>a. (a, act a)) args) st2 in
            obind (Some (coherence_loop args (hd args) target maxelems (act, 0, st2))) (\<lambda>(_, _, st3).
            obind (Some (get_trace target st3)) (\<lambda>t.
            obind (Some (set_num_elems target (tindex t) st3)) (\<lambda>st4.
              krd_write_coherent_trace hr ws target st4 fs))))))"

subsection \<open>Interleaving\<close>

definition num_of :: "int \<Rightarrow> krd \<Rightarrow> nat" where
  "num_of tid st = (case get_trace tid st of Inr t \<Rightarrow> num_elems t | Inl _ \<Rightarrow> 0)"

definition copy_id :: "int \<Rightarrow> nat \<Rightarrow> int \<Rightarrow> nat \<Rightarrow> krd \<Rightarrow> krd_error + krd" where
  "copy_id target j src k st =
     ebind (get_trace src st) (\<lambda>s. ebind (buf_get k (data_ids s)) (\<lambda>e.
     ebind (get_trace target st) (\<lambda>t. ebind (buf_get j (data_ids t)) (\<lambda>o1.
     ebind (buf_put j (o1\<lparr>el_id := el_id e\<rparr>) (data_ids t)) (\<lambda>b. Inr (put_trace target (t\<lparr>data_ids := b\<rparr>) st))))))"

text \<open>The inner loop over the traces; it always runs to its end, whatever the counter.\<close>

fun intlv_round :: "nat \<Rightarrow> int \<Rightarrow> int list \<Rightarrow> nat \<Rightarrow> krd \<Rightarrow> krd_error + (nat \<times> krd)" where
  "intlv_round numThreads target [] counter st = Inr (counter, st)"
| "intlv_round numThreads target (a # as) counter st =
     (if counter div numThreads > num_of a st then intlv_round numThreads target as (counter + 1) st
      else ebind (copy_id target counter a (counter div numThreads) st) (intlv_round numThreads target as (counter + 1)))"

lemma intlv_round_counter:
  "intlv_round n target as counter st = Inr (c, st') \<Longrightarrow> c = counter + length as"
proof (induction as arbitrary: counter st)
  case (Cons a as)
  then obtain st1 where "intlv_round n target as (counter + 1) st1 = Inr (c, st')"
    by (auto simp: ebind_Inr split: if_splits)
  from Cons.IH [OF this] show ?case by simp
qed simp

text \<open>The product of two 32-bit unsigned numbers.\<close>

definition intlv_limit :: "nat \<Rightarrow> nat \<Rightarrow> nat" where
  "intlv_limit maxelems numThreads = (maxelems * numThreads) mod 2 ^ 32"

function intlv_loop :: "nat \<Rightarrow> int \<Rightarrow> int list \<Rightarrow> nat \<Rightarrow> krd \<Rightarrow> krd_error + (nat \<times> krd)" where
  "intlv_loop maxelems target srcs counter st =
     (if srcs = [] \<or> \<not> (counter < intlv_limit maxelems (length srcs) \<and> counter < TRACE_LENGTH) then Inr (counter, st)
      else case intlv_round (length srcs) target srcs counter st of
             Inl e \<Rightarrow> Inl e
           | Inr (c, st') \<Rightarrow> intlv_loop maxelems target srcs c st')"
  by pat_completeness auto
termination
  by (relation "measure (\<lambda>(maxelems, target, srcs, counter, st). TRACE_LENGTH - counter)")
    (auto dest!: intlv_round_counter simp: neq_Nil_conv)

declare intlv_loop.simps [simp del]

definition max_elems :: "int list \<Rightarrow> krd \<Rightarrow> nat" where
  "max_elems srcs st = fold (\<lambda>a m. if num_of a st > m then num_of a st mod 2 ^ 32 else m) srcs 0"

definition interleave_tool ::
    "bool \<times> (int \<Rightarrow> bool) \<Rightarrow> (int \<Rightarrow> int list) \<Rightarrow> int list \<Rightarrow> int \<Rightarrow> files \<Rightarrow> int list \<Rightarrow> (krd_error + files) option" where
  "interleave_tool mem rs ws hr fs argv =
     (case argv of [] \<Rightarrow> Some (Inl Exit1)
      | target # srcs \<Rightarrow>
          obind (Some (krd_init_index (fst mem) (snd mem target) target (int TRACE_LENGTH * 16) krd_initial)) (\<lambda>(_, st1).
          obind (read_args mem TRACE_LENGTH rs fs srcs st1) (\<lambda>(_, st2).
          obind (Some (intlv_loop (max_elems srcs st2) target srcs 0 st2)) (\<lambda>(counter, st3).
          obind (Some (set_num_elems target counter st3)) (\<lambda>st4.
            krd_write_one_trace hr ws target st4 fs)))))"

subsection \<open>Cutting\<close>

text \<open>\<open>do { j++; size = data[j].size; } while(size < 0)\<close>, from the index after \<open>j\<close>.\<close>

function next_access :: "(nat \<Rightarrow> elem) \<Rightarrow> nat \<Rightarrow> nat \<Rightarrow> krd_error + nat" where
  "next_access f cap j =
     (if cap \<le> j then Inl Fault else if el_bytes (f j) < 0 then next_access f cap (j + 1) else Inr j)"
  by pat_completeness auto
termination by (relation "measure (\<lambda>(f, cap, j). cap - j)") auto

declare next_access.simps [simp del]

lemma next_access_ge: "next_access f cap j = Inr k \<Longrightarrow> j \<le> k \<and> k < cap \<and> 0 \<le> el_bytes (f k)"
  by (induction f cap j rule: next_access.induct) (subst (asm) next_access.simps, auto split: if_splits)

record cut =
  cut_p :: nat
  cut_w :: nat
  p_p :: int
  w_p :: int
  cut_count :: int
  cut_out :: "(int \<times> nat \<times> nat) list"

text \<open>The part of the main loop before the search for the next access.\<close>

definition cut_round :: "(nat \<Rightarrow> elem) \<Rightarrow> nat \<Rightarrow> int \<Rightarrow> int \<Rightarrow> cut \<Rightarrow> krd_error + cut" where
  "cut_round f cap warmup part_size c =
     (let c1 = c\<lparr>p_p := p_p c + el_bytes (f (cut_p c))\<rparr> in
      ebind (if p_p c1 - w_p c1 > warmup
             then ebind (next_access f cap (cut_w c1 + 1)) (\<lambda>w.
                    Inr (c1\<lparr>w_p := w_p c1 + el_bytes (f (cut_w c1)), cut_w := w\<rparr>))
             else Inr c1) (\<lambda>c2.
        if part_size = 0 then Inl Fault
        else Inr (if p_p c2 div part_size > cut_count c2
                  then c2\<lparr>cut_out := cut_out c2 @ [(cut_count c2 + 1, cut_w c2, cut_p c2)], cut_count := cut_count c2 + 1\<rparr>
                  else c2)))"

lemma cut_round_p: "cut_round f cap wu pa c = Inr c' \<Longrightarrow> cut_p c' = cut_p c"
  by (auto simp: cut_round_def Let_def ebind_Inr split: if_splits)

function cut_loop :: "(nat \<Rightarrow> elem) \<Rightarrow> nat \<Rightarrow> nat \<Rightarrow> int \<Rightarrow> int \<Rightarrow> cut \<Rightarrow> krd_error + cut" where
  "cut_loop f cap n warmup part_size c =
     (if \<not> cut_p c < n then Inr c
      else case cut_round f cap warmup part_size c of
             Inl e \<Rightarrow> Inl e
           | Inr c1 \<Rightarrow> (case next_access f cap (cut_p c1 + 1) of
               Inl e \<Rightarrow> Inl e
             | Inr p \<Rightarrow> cut_loop f cap n warmup part_size (c1\<lparr>cut_p := p\<rparr>)))"
  by pat_completeness auto
termination
  by (relation "measure (\<lambda>(f, cap, n, wu, pa, c). n - cut_p c)") (auto dest!: next_access_ge cut_round_p)

declare cut_loop.simps [simp del]

definition cut_trace :: "(nat \<Rightarrow> elem) \<Rightarrow> nat \<Rightarrow> nat \<Rightarrow> int \<Rightarrow> int \<Rightarrow> krd_error + cut" where
  "cut_trace f cap n warmup part_size =
     ebind (next_access f cap 0) (\<lambda>p.
       cut_loop f cap n warmup part_size \<lparr>cut_p = p, cut_w = p, p_p = 0, w_p = 0, cut_count = 0, cut_out = []\<rparr>)"

text \<open>
  The whole tool: the numbers in the printed commands, one list per line, and the range of the
  last one. A failed reading goes unnoticed and leaves an empty trace.
\<close>

definition cut_tool ::
    "bool \<times> (int \<Rightarrow> bool) \<Rightarrow> int list \<Rightarrow> files \<Rightarrow> int list \<Rightarrow> (krd_error + (int list list \<times> int \<times> int)) option" where
  "cut_tool mem rs fs argv =
     (case argv of
        [data_model, i, index_offset, warmup, part_size] \<Rightarrow>
          obind (Some (krd_init_index (fst mem) (snd mem i) i (int TRACE_LENGTH * 16) krd_initial)) (\<lambda>(_, st1).
          obind (krd_read_coherent_trace rs i fs st1) (\<lambda>(_, st2).
          obind (Some (get_trace i st2)) (\<lambda>t.
            case data_ids t of
              Buffer cap f \<Rightarrow>
                obind (Some (cut_trace f cap (num_elems t) warmup part_size)) (\<lambda>c.
                  Some (Inr ([data_model, i, index_offset, 0, 0, part_size]
                      # map (\<lambda>(k, w, p). [data_model, i, index_offset + k, int w, int p, part_size]) (cut_out c),
                    index_offset, index_offset + cut_count c)))
            | _ \<Rightarrow> Some (Inl Fault))))
      | _ \<Rightarrow> Some (Inl Exit1))"

subsection \<open>Text traces\<close>

text \<open>\<open>strtok(line, '' '')\<close>: the non-empty words between spaces.\<close>

fun space_tokens :: "string \<Rightarrow> string \<Rightarrow> string list" where
  "space_tokens cur [] = (if cur = [] then [] else [cur])"
| "space_tokens cur (c # cs) =
     (if c = CHR '' '' then (if cur = [] then space_tokens [] cs else cur # space_tokens [] cs)
      else space_tokens (cur @ [c]) cs)"

text \<open>One line as \<open>fgets\<close> returns it; a missing word is a null pointer, and the kernel is whatever was on the stack.\<close>

definition gentrace_elem :: "16 word \<Rightarrow> string \<Rightarrow> krd_error + elem" where
  "gentrace_elem junk line =
     (case space_tokens [] line of
        a # b # c # d # _ \<Rightarrow> Inr \<lparr>el_id = of_int (atoi a), el_tsc = of_int (atoi b), el_size = of_int (atoi c),
          el_core = of_int (atoi d), el_kernel = junk\<rparr>
      | _ \<Rightarrow> Inl Fault)"

fun gentrace_elems :: "16 word \<Rightarrow> string list \<Rightarrow> krd_error + elem list" where
  "gentrace_elems junk [] = Inr []"
| "gentrace_elems junk (l # ls) = ebind (gentrace_elem junk l) (\<lambda>e. ebind (gentrace_elems junk ls) (\<lambda>es. Inr (e # es)))"

definition gentrace :: "16 word \<Rightarrow> string list option \<Rightarrow> int \<Rightarrow> files \<Rightarrow> krd_error + files" where
  "gentrace junk input rwinum fs =
     (case input of None \<Rightarrow> Inl Exit1
      | Some ls \<Rightarrow> ebind (gentrace_elems junk ls) (\<lambda>es.
          Inr (fs(Rwi rwinum \<mapsto> le_bytes 4 (nat RWI_TRACE_MAGIC) @ concat (map encode es)))))"

section \<open>Merging sorted traces\<close>

text \<open>The specification: in each step one trace of \<open>S\<close> with a lowest first element gives it to \<open>emit\<close>.\<close>

inductive kway :: "int set \<Rightarrow> (int \<Rightarrow> elem \<Rightarrow> elem list) \<Rightarrow> nat \<Rightarrow> (int \<Rightarrow> elem list) \<times> elem list
    \<Rightarrow> (int \<Rightarrow> elem list) \<times> elem list \<Rightarrow> bool"
  for S :: "int set" and emit :: "int \<Rightarrow> elem \<Rightarrow> elem list" where
  kway_0: "kway S emit 0 x x"
| kway_Suc: "r \<in> S \<Longrightarrow> q r = e # es \<Longrightarrow> \<forall>s\<in>S. q s \<noteq> [] \<longrightarrow> el_tsc e \<le> el_tsc (hd (q s))
    \<Longrightarrow> kway S emit n (q(r := es), ys @ emit r e) y \<Longrightarrow> kway S emit (Suc n) (q, ys) y"

definition by_tsc :: "elem list \<Rightarrow> bool" where
  "by_tsc xs = sorted (map el_tsc xs)"

lemma by_tsc_simps [simp]: "by_tsc []" "by_tsc (x # xs) \<longleftrightarrow> (\<forall>y\<in>set xs. el_tsc x \<le> el_tsc y) \<and> by_tsc xs"
  by (simp_all add: by_tsc_def)

lemma by_tsc_append: "by_tsc (xs @ ys) \<longleftrightarrow> by_tsc xs \<and> by_tsc ys \<and> (\<forall>x\<in>set xs. \<forall>y\<in>set ys. el_tsc x \<le> el_tsc y)"
  by (simp add: by_tsc_def sorted_append)

definition emitted :: "(int \<Rightarrow> elem \<Rightarrow> elem list) \<Rightarrow> int \<Rightarrow> elem list \<Rightarrow> elem multiset" where
  "emitted emit r xs = mset (concat (map (emit r) xs))"

locale emitter =
  fixes emit :: "int \<Rightarrow> elem \<Rightarrow> elem list"
  assumes emit_tsc: "e' \<in> set (emit r e) \<Longrightarrow> el_tsc e' = el_tsc e"
    and emit_one: "length (emit r e) \<le> 1"
begin

lemma emit_cases: "emit r e = [] \<or> (\<exists>e'. emit r e = [e'] \<and> el_tsc e' = el_tsc e)"
  using emit_one [of r e] emit_tsc [of _ r e] by (cases "emit r e") auto

lemma kway_sorted:
  "kway S emit n x y \<Longrightarrow> \<forall>s\<in>S. by_tsc (fst x s) \<Longrightarrow> by_tsc (snd x)
   \<Longrightarrow> \<forall>a\<in>set (snd x). \<forall>s\<in>S. \<forall>b\<in>set (fst x s). el_tsc a \<le> el_tsc b \<Longrightarrow> by_tsc (snd y)"
proof (induction rule: kway.induct)
  case (kway_Suc r q e es n ys y)
  have low: "el_tsc e \<le> el_tsc b" if "s \<in> S" "b \<in> set (q s)" for s b
  proof -
    from that obtain c cs where c: "q s = c # cs" by (cases "q s") auto
    then have "el_tsc e \<le> el_tsc c" using kway_Suc.hyps(3) that by force
    moreover have "el_tsc c \<le> el_tsc b" using kway_Suc.prems(1) that c by force
    ultimately show ?thesis by simp
  qed
  have "\<forall>s\<in>S. by_tsc ((q(r := es)) s)" using kway_Suc.prems(1) kway_Suc.hyps(1,2) by force
  moreover have "by_tsc (ys @ emit r e)"
    using emit_cases [of r e] kway_Suc.prems(2,3) kway_Suc.hyps(1,2) by (fastforce simp: by_tsc_append)
  moreover have "\<forall>a\<in>set (ys @ emit r e). \<forall>s\<in>S. \<forall>b\<in>set ((q(r := es)) s). el_tsc a \<le> el_tsc b"
  proof (intro ballI)
    fix a s b assume a: "a \<in> set (ys @ emit r e)" and s: "s \<in> S" and b: "b \<in> set ((q(r := es)) s)"
    have "b \<in> set (q s)" using b kway_Suc.hyps(2) by (auto split: if_splits)
    then show "el_tsc a \<le> el_tsc b"
      using a low [OF s] kway_Suc.prems(3) s emit_tsc [of a r e] by auto
  qed
  ultimately show ?case using kway_Suc.IH by simp
qed simp

lemma kway_mset:
  "kway S emit n x y \<Longrightarrow> finite S \<Longrightarrow>
   mset (snd y) + (\<Sum>s\<in>S. emitted emit s (fst y s)) = mset (snd x) + (\<Sum>s\<in>S. emitted emit s (fst x s))"
proof (induction rule: kway.induct)
  case (kway_Suc r q e es n ys y)
  have "(\<Sum>s\<in>S. emitted emit s (q s)) = emitted emit r (q r) + (\<Sum>s\<in>S - {r}. emitted emit s (q s))"
    using kway_Suc.hyps(1) kway_Suc.prems by (simp add: sum.remove)
  moreover have "(\<Sum>s\<in>S. emitted emit s ((q(r := es)) s))
      = emitted emit r es + (\<Sum>s\<in>S - {r}. emitted emit s (q s))"
    using kway_Suc.hyps(1) kway_Suc.prems by (simp add: sum.remove cong: sum.cong_simp)
  ultimately show ?case using kway_Suc.IH kway_Suc.prems kway_Suc.hyps(2) by (simp add: emitted_def)
qed simp

lemma kway_length:
  "kway S emit n x y \<Longrightarrow> finite S \<Longrightarrow> (\<Sum>s\<in>S. length (fst x s)) = n + (\<Sum>s\<in>S. length (fst y s))"
proof (induction rule: kway.induct)
  case (kway_Suc r q e es n ys y)
  have "(\<Sum>s\<in>S. length (q s)) = length (q r) + (\<Sum>s\<in>S - {r}. length (q s))"
    using kway_Suc.hyps(1) kway_Suc.prems by (simp add: sum.remove)
  moreover have "(\<Sum>s\<in>S. length ((q(r := es)) s)) = length es + (\<Sum>s\<in>S - {r}. length (q s))"
    using kway_Suc.hyps(1) kway_Suc.prems by (simp add: sum.remove cong: sum.cong_simp)
  ultimately show ?case using kway_Suc.IH kway_Suc.prems kway_Suc.hyps(2) by simp
qed simp

text \<open>A complete merge of sorted traces is sorted, and holds what the elements emit.\<close>

lemma kway_complete:
  assumes "kway S emit (\<Sum>s\<in>S. length (q s)) (q, []) (q', ys)" "finite S" "\<forall>s\<in>S. by_tsc (q s)"
  shows "by_tsc ys" "mset ys = (\<Sum>s\<in>S. emitted emit s (q s))"
proof -
  show "by_tsc ys" using kway_sorted [OF assms(1)] assms(3) by simp
  have "(\<Sum>s\<in>S. length (q' s)) = 0" using kway_length [OF assms(1,2)] by simp
  then have "\<forall>s\<in>S. q' s = []" using assms(2) by simp
  then have "(\<Sum>s\<in>S. emitted emit s (q' s)) = 0" by (simp add: emitted_def)
  then show "mset ys = (\<Sum>s\<in>S. emitted emit s (q s))" using kway_mset [OF assms(1,2)] by simp
qed

end

definition merge_emit :: "int \<Rightarrow> elem \<Rightarrow> elem list" where
  "merge_emit src e = [e\<lparr>el_core := of_int src\<rparr>]"

definition coherence_emit :: "int \<Rightarrow> int \<Rightarrow> elem \<Rightarrow> elem list" where
  "coherence_emit out_tid src e = (case coherent_elem out_tid src e of None \<Rightarrow> [] | Some e' \<Rightarrow> [e'])"

interpretation merging: emitter merge_emit
  by unfold_locales (auto simp: merge_emit_def)

interpretation coherence: emitter "coherence_emit out_tid" for out_tid
  by unfold_locales (auto simp: coherence_emit_def coherent_elem_def split: option.splits if_splits)

section \<open>Reading and writing positions\<close>

definition unread :: "krd \<Rightarrow> int \<Rightarrow> elem list" where
  "unread st tid = (case get_trace tid st of
     Inr t \<Rightarrow> (case data_ids t of Buffer cap f \<Rightarrow> map f [tindex t..<num_elems t] | _ \<Rightarrow> []) | Inl _ \<Rightarrow> [])"

definition written :: "krd \<Rightarrow> int \<Rightarrow> elem list" where
  "written st tid = (case get_trace tid st of
     Inr t \<Rightarrow> (case data_ids t of Buffer cap f \<Rightarrow> map f [0..<tindex t] | _ \<Rightarrow> []) | Inl _ \<Rightarrow> [])"

text \<open>A trace that can be read: no time stamp is 0 or the largest number, and an element of time stamp 0 follows.\<close>

definition readable :: "krd \<Rightarrow> int \<Rightarrow> bool" where
  "readable st tid = (\<exists>t cap f. get_trace tid st = Inr t \<and> data_ids t = Buffer cap f \<and> num_elems t < cap
     \<and> tindex t \<le> num_elems t \<and> (\<forall>j<num_elems t. el_tsc (f j) \<noteq> 0 \<and> el_tsc (f j) \<noteq> -1) \<and> el_tsc (f (num_elems t)) = 0)"

definition room :: "krd \<Rightarrow> int \<Rightarrow> nat \<Rightarrow> bool" where
  "room st tid k = (\<exists>t cap f. get_trace tid st = Inr t \<and> data_ids t = Buffer cap f \<and> tindex t + k \<le> cap)"

lemma readable_head:
  assumes "readable st tid"
  shows "\<exists>e. elem_at st tid = Inr e \<and>
    (case unread st tid of [] \<Rightarrow> el_tsc e = 0 | x # xs \<Rightarrow> e = x \<and> el_tsc x \<noteq> 0 \<and> el_tsc x < -1)"
proof -
  obtain t cap f where t: "get_trace tid st = Inr t" "data_ids t = Buffer cap f" "num_elems t < cap"
      "tindex t \<le> num_elems t" "\<forall>j<num_elems t. el_tsc (f j) \<noteq> 0 \<and> el_tsc (f j) \<noteq> -1" "el_tsc (f (num_elems t)) = 0"
    using assms by (auto simp: readable_def)
  have max: "w < -1" if "w \<noteq> -1" for w :: "64 word"
    using that using word_n1_ge [of w] by (simp add: order.strict_iff_order)
  show ?thesis
  proof (cases "tindex t < num_elems t")
    case True
    then show ?thesis using t max by (simp add: elem_at_def buf_get_def unread_def upt_conv_Cons)
  next
    case False
    then show ?thesis using t by (simp add: elem_at_def buf_get_def unread_def)
  qed
qed

lemma advance_readable:
  assumes "readable st r" "unread st r = e # es"
  shows "\<exists>st'. advance r st = Inr st' \<and> readable st' r \<and> unread st' r = es
    \<and> (\<forall>s. s \<noteq> r \<longrightarrow> get_trace s st' = get_trace s st)
    \<and> (\<forall>t t'. get_trace r st = Inr t \<longrightarrow> get_trace r st' = Inr t' \<longrightarrow> num_elems t' = num_elems t)"
proof -
  obtain t cap f where t: "get_trace r st = Inr t" "data_ids t = Buffer cap f" "num_elems t < cap"
      "tindex t \<le> num_elems t" "\<forall>j<num_elems t. el_tsc (f j) \<noteq> 0 \<and> el_tsc (f j) \<noteq> -1" "el_tsc (f (num_elems t)) = 0"
    using assms by (auto simp: readable_def)
  have un: "map f [tindex t..<num_elems t] = e # es" using assms(2) t by (simp add: unread_def)
  have lt: "tindex t < num_elems t"
  proof (rule ccontr)
    assume "\<not> tindex t < num_elems t"
    then show False using un by simp
  qed
  have es: "es = map f [Suc (tindex t)..<num_elems t]" using un lt by (simp add: upt_conv_Cons)
  show ?thesis
    using t lt es by (auto simp: advance_def readable_def unread_def)
qed

lemma append_room:
  assumes "room st target (Suc k)"
  shows "\<exists>st'. append_elem target e st = Inr st' \<and> room st' target k \<and> written st' target = written st target @ [e]
    \<and> (\<forall>s. s \<noteq> target \<longrightarrow> get_trace s st' = get_trace s st)"
proof -
  obtain t cap f where t: "get_trace target st = Inr t" "data_ids t = Buffer cap f" "tindex t + Suc k \<le> cap"
    using assms by (auto simp: room_def)
  then show ?thesis by (auto simp: append_elem_def buf_put_def room_def written_def)
qed

lemma same_trace:
  assumes "get_trace s st' = get_trace s st"
  shows "readable st' s = readable st s" "unread st' s = unread st s" "written st' s = written st s"
    "room st' s k = room st s k" "elem_at st' s = elem_at st s"
  using assms by (simp_all add: readable_def unread_def written_def room_def elem_at_def)

text \<open>The loop over the heads finds a lowest one.\<close>

definition next_tsc :: "krd \<Rightarrow> int \<Rightarrow> 64 word" where
  "next_tsc st tid = el_tsc (hd (unread st tid))"

lemma pick_lowest_step:
  assumes "readable st tid"
  shows "pick_lowest st ((tid, act) # as) lo src =
    (if act \<and> unread st tid \<noteq> [] \<and> next_tsc st tid < lo then pick_lowest st as (next_tsc st tid) tid
     else pick_lowest st as lo src)"
  using readable_head [OF assms] by (cases "unread st tid") (auto simp: next_tsc_def)

lemma pick_lowest_spec:
  assumes "\<forall>(tid, act)\<in>set as. readable st tid"
  shows "\<exists>r. pick_lowest st as lo src = Inr r
    \<and> (r = src \<and> (\<forall>tid. (tid, True) \<in> set as \<longrightarrow> unread st tid \<noteq> [] \<longrightarrow> lo \<le> next_tsc st tid)
       \<or> (r, True) \<in> set as \<and> unread st r \<noteq> [] \<and> next_tsc st r < lo
         \<and> (\<forall>tid. (tid, True) \<in> set as \<longrightarrow> unread st tid \<noteq> [] \<longrightarrow> next_tsc st r \<le> next_tsc st tid))"
  using assms
proof (induction as arbitrary: lo src)
  case (Cons a as)
  obtain tid act where a: "a = (tid, act)" by (cases a)
  have r: "readable st tid" and rs: "\<forall>(tid, act)\<in>set as. readable st tid" using Cons.prems a by auto
  show ?case
  proof (cases "act \<and> unread st tid \<noteq> [] \<and> next_tsc st tid < lo")
    case True
    then show ?thesis
      using Cons.IH [OF rs, of "next_tsc st tid" tid] by (auto simp: a pick_lowest_step [OF r] simp del: pick_lowest.simps)
  next
    case False
    then show ?thesis
      using Cons.IH [OF rs, of lo src] by (fastforce simp: a pick_lowest_step [OF r] simp del: pick_lowest.simps)
  qed
qed simp

text \<open>Some unread element is left: the source is a trace with a lowest head.\<close>

lemma pick_lowest_head:
  assumes "\<forall>(tid, act)\<in>set as. readable st tid" "(s, True) \<in> set as" "unread st s \<noteq> []"
    and "\<forall>(tid, act)\<in>set as. unread st tid \<noteq> [] \<longrightarrow> (tid, True) \<in> set as"
  shows "\<exists>r e es. pick_lowest st as (-1) src = Inr r \<and> (r, True) \<in> set as \<and> unread st r = e # es \<and> elem_at st r = Inr e
    \<and> (\<forall>tid\<in>fst ` set as. unread st tid \<noteq> [] \<longrightarrow> el_tsc e \<le> el_tsc (hd (unread st tid)))"
proof -
  have "next_tsc st s < -1"
    using readable_head [of st s] assms(1-3) by (cases "unread st s") (auto simp: next_tsc_def)
  then obtain r where r: "pick_lowest st as (-1) src = Inr r" "(r, True) \<in> set as" "unread st r \<noteq> []"
      "\<And>tid. (tid, True) \<in> set as \<Longrightarrow> unread st tid \<noteq> [] \<Longrightarrow> next_tsc st r \<le> next_tsc st tid"
    using pick_lowest_spec [OF assms(1), of "-1" src] assms(2,3) by (auto simp: not_le)
  obtain e es where e: "unread st r = e # es" using r(3) by (cases "unread st r") auto
  have "elem_at st r = Inr e" using readable_head [of st r] assms(1) r(2) e by fastforce
  moreover have "\<forall>tid\<in>fst ` set as. unread st tid \<noteq> [] \<longrightarrow> el_tsc e \<le> el_tsc (hd (unread st tid))"
    using r(4) assms(4) e by (force simp: next_tsc_def)
  ultimately show ?thesis using r e by blast
qed

section \<open>The loops implement the specification\<close>

definition heads :: "int set \<Rightarrow> krd \<Rightarrow> int \<Rightarrow> elem list" where
  "heads S st = (\<lambda>s. if s \<in> S then unread st s else [])"

text \<open>All of \<open>S\<close> can be read, the target is none of them, and has room for \<open>k\<close> elements.\<close>

definition merge_ready :: "int set \<Rightarrow> int \<Rightarrow> nat \<Rightarrow> krd \<Rightarrow> bool" where
  "merge_ready S target k st = ((\<forall>s\<in>S. readable st s) \<and> target \<notin> S \<and> room st target k)"

lemma take_and_append:
  assumes ready: "merge_ready S target (Suc k) st" and r: "r \<in> S" "unread st r = e # es"
    and ys: "ys = [] \<or> (\<exists>e'. ys = [e'])"
  shows "\<exists>st1 st2. (case ys of [] \<Rightarrow> Inr st | e' # _ \<Rightarrow> append_elem target e' st) = Inr st1 \<and> advance r st1 = Inr st2
    \<and> merge_ready S target k st2 \<and> heads S st2 = (heads S st)(r := es) \<and> written st2 target = written st target @ ys
    \<and> (\<forall>s\<in>S. s \<noteq> r \<longrightarrow> get_trace s st2 = get_trace s st)
    \<and> (\<forall>t t'. get_trace r st = Inr t \<longrightarrow> get_trace r st2 = Inr t' \<longrightarrow> num_elems t' = num_elems t)"
proof -
  have room: "room st target (Suc k)" and nt: "target \<notin> S" "r \<noteq> target"
    using ready r(1) by (auto simp: merge_ready_def)
  obtain st1 where st1: "(case ys of [] \<Rightarrow> Inr st | e' # _ \<Rightarrow> append_elem target e' st) = Inr st1"
      "room st1 target k" "written st1 target = written st target @ ys" "\<forall>s. s \<noteq> target \<longrightarrow> get_trace s st1 = get_trace s st"
  proof (cases ys)
    case Nil
    have "room st target k" using room by (auto simp: room_def)
    then show ?thesis using that [of st] Nil by simp
  next
    case (Cons e' zs)
    then show ?thesis using append_room [OF room, of e'] that ys by auto
  qed
  have same: "get_trace s st1 = get_trace s st" if "s \<in> S" for s using st1(4) nt that by auto
  have "readable st1 r" "unread st1 r = e # es"
    using same_trace [OF same [OF r(1)]] ready r by (simp_all add: merge_ready_def)
  then obtain st2 where st2: "advance r st1 = Inr st2" "readable st2 r" "unread st2 r = es"
      "\<forall>s. s \<noteq> r \<longrightarrow> get_trace s st2 = get_trace s st1"
      "\<forall>t t'. get_trace r st1 = Inr t \<longrightarrow> get_trace r st2 = Inr t' \<longrightarrow> num_elems t' = num_elems t"
    using advance_readable by blast
  have same2: "get_trace s st2 = get_trace s st" if "s \<in> S" "s \<noteq> r" for s
    using st2(4) same that by simp
  have tgt: "get_trace target st2 = get_trace target st1" using st2(4) nt by simp
  have "readable st2 s" if "s \<in> S" for s
    using st2(2) ready same_trace [OF same2 [OF that]] that by (cases "s = r") (auto simp: merge_ready_def)
  then have "merge_ready S target k st2"
    using st1(2) nt same_trace [OF tgt] by (simp add: merge_ready_def)
  moreover have "heads S st2 = (heads S st)(r := es)"
  proof
    fix s
    show "heads S st2 s = ((heads S st)(r := es)) s"
      using st2(3) r(1) same_trace(2) [OF same2, of s] by (cases "s \<in> S"; cases "s = r") (simp_all add: heads_def)
  qed
  moreover have "written st2 target = written st target @ ys" using same_trace(3) [OF tgt] st1(3) by simp
  moreover have "\<forall>s\<in>S. s \<noteq> r \<longrightarrow> get_trace s st2 = get_trace s st" using same2 by blast
  moreover have "\<forall>t t'. get_trace r st = Inr t \<longrightarrow> get_trace r st2 = Inr t' \<longrightarrow> num_elems t' = num_elems t"
    using st2(5) unfolding same [OF r(1)] .
  ultimately show ?thesis using st1(1) st2(1) by blast
qed

lemma some_unread:
  assumes "finite S" "Suc k \<le> (\<Sum>s\<in>S. length (heads S st s))"
  obtains s where "s \<in> S" "unread st s \<noteq> []"
proof -
  have "(\<Sum>s\<in>S. length (heads S st s)) \<noteq> 0" using assms(2) by simp
  then obtain s where "s \<in> S" "length (heads S st s) \<noteq> 0" using assms(1) by (auto simp: sum_eq_0_iff)
  then show ?thesis using that by (auto simp: heads_def)
qed

lemma heads_sum_Suc:
  assumes "finite S" "r \<in> S" "heads S st r = e # es"
  shows "(\<Sum>s\<in>S. length (heads S st s)) = Suc (\<Sum>s\<in>S. length (((heads S st)(r := es)) s))"
  using assms by (simp add: sum.remove cong: sum.cong_simp)

lemma merge_loop_kway:
  assumes "merge_ready (fst ` set as) target k st" "k \<le> (\<Sum>s\<in>fst ` set as. length (heads (fst ` set as) st s))"
    and "\<forall>(tid, act)\<in>set as. unread st tid \<noteq> [] \<longrightarrow> (tid, True) \<in> set as"
  shows "\<exists>st'. merge_loop as first target k st = Inr st'
    \<and> kway (fst ` set as) merge_emit k (heads (fst ` set as) st, written st target) (heads (fst ` set as) st', written st' target)
    \<and> merge_ready (fst ` set as) target 0 st'"
  using assms
proof (induction k arbitrary: st)
  case 0
  then show ?case by (auto intro: kway_0)
next
  case (Suc k)
  define S where "S = fst ` set as"
  have fin: "finite S" by (simp add: S_def)
  obtain s where s: "s \<in> S" "unread st s \<noteq> []" using some_unread [OF fin] Suc.prems(2) unfolding S_def [symmetric] by blast
  have rd: "\<forall>(tid, act)\<in>set as. readable st tid" using Suc.prems(1) by (auto simp: merge_ready_def)
  have "(s, True) \<in> set as" using s Suc.prems(3) by (auto simp: S_def)
  then obtain r e es where r: "pick_lowest st as (-1) first = Inr r" "(r, True) \<in> set as" "unread st r = e # es"
      "elem_at st r = Inr e" "\<forall>tid\<in>S. unread st tid \<noteq> [] \<longrightarrow> el_tsc e \<le> el_tsc (hd (unread st tid))"
    using pick_lowest_head [OF rd _ s(2) Suc.prems(3), of first] unfolding S_def by blast
  have rS: "r \<in> S" using r(2) by (force simp: S_def)
  have hr: "heads S st r = e # es" using rS r(3) by (simp add: heads_def)
  obtain st1 st2 where st: "append_elem target (e\<lparr>el_core := of_int r\<rparr>) st = Inr st1" "advance r st1 = Inr st2"
      "merge_ready S target k st2" "heads S st2 = (heads S st)(r := es)"
      "written st2 target = written st target @ [e\<lparr>el_core := of_int r\<rparr>]"
    using take_and_append [OF Suc.prems(1) [folded S_def] rS r(3), of "[e\<lparr>el_core := of_int r\<rparr>]"] by auto
  have step: "merge_step as first target st = Inr st2"
    using r(1,4) st(1,2) by (simp add: merge_step_def)
  have act: "\<forall>(tid, act)\<in>set as. unread st2 tid \<noteq> [] \<longrightarrow> (tid, True) \<in> set as"
  proof clarify
    fix tid act assume t: "(tid, act) \<in> set as" "unread st2 tid \<noteq> []"
    then have "tid \<in> S" by (force simp: S_def)
    then have "heads S st2 tid = unread st2 tid" by (simp add: heads_def)
    then have "heads S st tid \<noteq> []" using st(4) hr t(2) by (auto split: if_splits)
    then show "(tid, True) \<in> set as" using Suc.prems(3) t(1) \<open>tid \<in> S\<close> by (auto simp: heads_def)
  qed
  have "k \<le> (\<Sum>s\<in>S. length (heads S st2 s))"
    using Suc.prems(2) heads_sum_Suc [OF fin rS hr] by (simp add: S_def [symmetric] st(4))
  then obtain st' where st': "merge_loop as first target k st2 = Inr st'"
      "kway S merge_emit k (heads S st2, written st2 target) (heads S st', written st' target)" "merge_ready S target 0 st'"
    using Suc.IH [OF st(3) [unfolded S_def] _ act] unfolding S_def by blast
  have "kway S merge_emit (Suc k) (heads S st, written st target) (heads S st', written st' target)"
  proof (rule kway_Suc [where q = "heads S st", OF rS hr])
    show "\<forall>s\<in>S. heads S st s \<noteq> [] \<longrightarrow> el_tsc e \<le> el_tsc (hd (heads S st s))"
      using r(5) by (simp add: heads_def)
    show "kway S merge_emit k ((heads S st)(r := es), written st target @ merge_emit r e) (heads S st', written st' target)"
      using st'(2) by (simp add: st(4,5) merge_emit_def)
  qed
  then show ?case using step st'(1,3) unfolding S_def by auto
qed

section \<open>Reading the command line\<close>

definition raw_file :: "elem list \<Rightarrow> 8 word list" where
  "raw_file xs = le_bytes 4 (nat RAW_TRACE_MAGIC) @ concat (map encode xs)"

definition loaded :: "nat \<Rightarrow> elem list \<Rightarrow> ttrace" where
  "loaded len xs = \<lparr>num_elems = length xs, tindex = 0,
     data_ids = Buffer len (\<lambda>j. if j < length xs then xs ! j else zero_elem)\<rparr>"

text \<open>The files hold the traces \<open>xs\<close> (a missing file counts as an empty one), and the calls of \<open>read\<close> deliver them.\<close>

definition raw_files :: "(int \<Rightarrow> elem list) \<Rightarrow> (int \<Rightarrow> int list) \<Rightarrow> files \<Rightarrow> int list \<Rightarrow> bool" where
  "raw_files xs rs fs as = (\<forall>a\<in>set as. 0 \<le> a \<and> a < LOI_MAXTHREADS \<and>
     (case fs (Raw a) of None \<Rightarrow> xs a = []
      | Some bs \<Rightarrow> bs = raw_file (xs a) \<and> transfers (rs a) (int (length (xs a)) * 32)))"

lemma concat_encode: "concat (map encode xs) = trace_bytes (\<lambda>j. xs ! j) (length xs)"
proof -
  have "map encode xs = map (\<lambda>j. encode (xs ! j)) [0..<length xs]"
    by (rule nth_equalityI) simp_all
  then show ?thesis by (simp add: trace_bytes_def)
qed

lemma get_trace_range: "threadtraces st \<noteq> None \<Longrightarrow> 0 \<le> a \<Longrightarrow> a < LOI_MAXTHREADS \<Longrightarrow> \<exists>t. get_trace a st = Inr t"
  by (auto simp: get_trace_def)

lemma put_trace_some: "(threadtraces (put_trace a t st) \<noteq> None) = (threadtraces st \<noteq> None)"
  by (simp add: put_trace_def)

lemma init_index_fresh:
  assumes "threadtraces st \<noteq> None" "0 \<le> a" "a < LOI_MAXTHREADS" "0 \<le> len"
  shows "krd_init_index c True a len st = Inr (0, put_trace a (loaded (nat len) []) st)"
  using assms by (auto simp: krd_init_index_def calloc_traces_def alloc_trace_def mmap_buffer_def loaded_def)

lemma read_raw_file:
  assumes "get_trace a st = Inr (loaded len [])" "fs (Raw a) = Some (raw_file xs)" "length xs \<le> len"
    and "transfers rs (int (length xs) * 32)" "krd_trace_magic st \<le> 0 \<or> krd_trace_magic st = RAW_TRACE_MAGIC"
  shows "krd_read_one_trace rs a fs st
    = Some (Inr (True, put_trace a (loaded len xs) (st\<lparr>krd_trace_magic := RAW_TRACE_MAGIC\<rparr>)))"
proof -
  let ?st = "st\<lparr>krd_trace_magic := RAW_TRACE_MAGIC\<rparr>"
  have "load_trace rs a (trace_bytes ((!) xs) (length xs)) ?st = Some (Inr (put_trace a (loaded len xs) ?st))"
    using load_trace_transfers [of a ?st "loaded len []" len "\<lambda>_. zero_elem" "length xs" rs "(!) xs"] assms
    by (simp add: loaded_def)
  then show ?thesis
    using assms(2,5) header_magic(1) by (auto simp: krd_read_one_trace_def raw_file_def concat_encode RAW_TRACE_MAGIC_def)
qed

lemma read_args_raw_files:
  assumes "threadtraces st \<noteq> None" "krd_trace_magic st \<le> 0 \<or> krd_trace_magic st = RAW_TRACE_MAGIC" "distinct as"
    and "raw_files xs rs fs as" "\<forall>a\<in>set as. snd mem a" "\<forall>a\<in>set as. length (xs a) \<le> len"
  shows "\<exists>st'. read_args mem len rs fs as st = Some (Inr (map (\<lambda>a. fs (Raw a) \<noteq> None) as, st'))
    \<and> (\<forall>a\<in>set as. get_trace a st' = Inr (loaded len (xs a))) \<and> (\<forall>b. b \<notin> set as \<longrightarrow> get_trace b st' = get_trace b st)"
  using assms
proof (induction as arbitrary: st)
  case (Cons a as)
  define st1 where "st1 = put_trace a (loaded len []) st"
  have a: "0 \<le> a" "a < LOI_MAXTHREADS" using Cons.prems(4) by (simp_all add: raw_files_def)
  obtain t where t: "get_trace a st = Inr t" using get_trace_range [OF Cons.prems(1) a] by blast
  have init: "krd_init_index (fst mem) (snd mem a) a (int len) st = Inr (0, st1)"
    using init_index_fresh [OF Cons.prems(1) a, of "int len"] Cons.prems(5) by (simp add: st1_def)
  have get1: "get_trace b st1 = (if b = a then Inr (loaded len []) else get_trace b st)" for b
    using t by (simp add: st1_def)
  have some1: "threadtraces st1 \<noteq> None" unfolding st1_def put_trace_some by (rule Cons.prems(1))
  have "\<exists>st2. krd_read_one_trace (rs a) a fs st1 = Some (Inr (fs (Raw a) \<noteq> None, st2))
    \<and> (\<forall>b. get_trace b st2 = (if b = a then Inr (loaded len (xs a)) else get_trace b st))
    \<and> threadtraces st2 \<noteq> None \<and> (krd_trace_magic st2 \<le> 0 \<or> krd_trace_magic st2 = RAW_TRACE_MAGIC)"
  proof (cases "fs (Raw a)")
    case None
    then have "xs a = []" using Cons.prems(4) by (simp add: raw_files_def)
    then show ?thesis using None get1 some1 Cons.prems(2)
      by (intro exI [of _ st1]) (simp add: krd_read_one_trace_def, simp add: st1_def)
  next
    case (Some bs)
    then have bs: "bs = raw_file (xs a)" "transfers (rs a) (int (length (xs a)) * 32)"
      using Cons.prems(4) by (simp_all add: raw_files_def)
    have m: "krd_trace_magic st1 \<le> 0 \<or> krd_trace_magic st1 = RAW_TRACE_MAGIC" using Cons.prems(2) by (simp add: st1_def)
    have "krd_read_one_trace (rs a) a fs st1
        = Some (Inr (True, put_trace a (loaded len (xs a)) (st1\<lparr>krd_trace_magic := RAW_TRACE_MAGIC\<rparr>)))"
      by (rule read_raw_file [OF _ _ _ bs(2) m]) (use get1 Some bs(1) Cons.prems(6) in simp_all)
    moreover have "threadtraces (put_trace a (loaded len (xs a)) (st1\<lparr>krd_trace_magic := RAW_TRACE_MAGIC\<rparr>)) \<noteq> None"
      unfolding put_trace_some using some1 by simp
    ultimately show ?thesis using Some get1
      by (intro exI [of _ "put_trace a (loaded len (xs a)) (st1\<lparr>krd_trace_magic := RAW_TRACE_MAGIC\<rparr>)"]) simp
  qed
  then obtain st2 where st2: "krd_read_one_trace (rs a) a fs st1 = Some (Inr (fs (Raw a) \<noteq> None, st2))"
      "\<And>b. get_trace b st2 = (if b = a then Inr (loaded len (xs a)) else get_trace b st)"
      "threadtraces st2 \<noteq> None" "krd_trace_magic st2 \<le> 0 \<or> krd_trace_magic st2 = RAW_TRACE_MAGIC"
    by blast
  obtain st' where st': "read_args mem len rs fs as st2 = Some (Inr (map (\<lambda>a. fs (Raw a) \<noteq> None) as, st'))"
      "\<forall>a\<in>set as. get_trace a st' = Inr (loaded len (xs a))" "\<forall>b. b \<notin> set as \<longrightarrow> get_trace b st' = get_trace b st2"
    using Cons.IH [OF st2(3,4)] Cons.prems(3-6) by (auto simp: raw_files_def)
  have "read_args mem len rs fs (a # as) st = Some (Inr (map (\<lambda>a. fs (Raw a) \<noteq> None) (a # as), st'))"
    using init st2(1) st'(1) by (simp add: obind_def)
  then show ?case using st'(2,3) st2(2) Cons.prems(3) by (intro exI [of _ st']) auto
qed simp

lemma loaded_readable:
  assumes "get_trace a st = Inr (loaded len xs)" "length xs < len" "\<forall>e\<in>set xs. el_tsc e \<noteq> 0 \<and> el_tsc e \<noteq> -1"
  shows "readable st a" "unread st a = xs"
proof -
  show "readable st a" using assms by (simp add: readable_def loaded_def zero_elem_def)
  have "map (\<lambda>j. if j < length xs then xs ! j else zero_elem) [0..<length xs] = xs"
    by (rule nth_equalityI) simp_all
  then show "unread st a = xs" using assms(1) by (simp add: unread_def loaded_def)
qed

section \<open>The merge tool\<close>

definition timed :: "elem list \<Rightarrow> bool" where
  "timed xs = (by_tsc xs \<and> (\<forall>e\<in>set xs. el_tsc e \<noteq> 0 \<and> el_tsc e \<noteq> -1))"

lemma init_target:
  assumes "c" "0 \<le> target" "target < LOI_MAXTHREADS" "0 \<le> len"
  shows "krd_init_index c True target len krd_initial
    = Inr (0, put_trace target (loaded (nat len) []) (krd_initial\<lparr>threadtraces := Some (\<lambda>_. empty_trace)\<rparr>))"
  using assms by (auto simp: krd_init_index_def calloc_traces_def alloc_trace_def mmap_buffer_def loaded_def krd_initial_def)

lemma written_trace:
  assumes "room st target 0"
  obtains t cap f where "get_trace target st = Inr t" "data_ids t = Buffer cap f" "tindex t \<le> cap"
    "tindex t = length (written st target)" "trace_bytes f (tindex t) = concat (map encode (written st target))"
proof -
  obtain t cap f where t: "get_trace target st = Inr t" "data_ids t = Buffer cap f" "tindex t \<le> cap"
    using assms by (auto simp: room_def)
  have w: "written st target = map f [0..<tindex t]" using t by (simp add: written_def)
  have "trace_bytes f (tindex t) = concat (map encode (written st target))" unfolding w trace_bytes_def by (simp add: comp_def)
  then show ?thesis using that [OF t] w by simp
qed

lemma write_written:
  assumes "room st target 0" "n = length (written st target)" "transfers ws (int n * 32)"
  shows "obind (Some (set_num_elems target n st)) (\<lambda>st4. write_trace name magic 4 ws target st4 fs)
    = Some (Inr (fs(name target \<mapsto> le_bytes 4 (nat magic) @ concat (map encode (written st target)))))"
proof -
  obtain t cap f where t: "get_trace target st = Inr t" "data_ids t = Buffer cap f" "tindex t \<le> cap"
    "tindex t = length (written st target)" "trace_bytes f (tindex t) = concat (map encode (written st target))"
    using written_trace [OF assms(1)] .
  have "get_trace target (put_trace target (t\<lparr>num_elems := n\<rparr>) st) = Inr (t\<lparr>num_elems := n\<rparr>)" using t(1) by simp
  then show ?thesis
    using write_trace_transfers [of target "put_trace target (t\<lparr>num_elems := n\<rparr>) st" "t\<lparr>num_elems := n\<rparr>" cap f ws name magic fs]
      t assms(2,3) by (simp add: set_num_elems_def obind_def)
qed

lemma sum_list_args:
  "distinct srcs \<Longrightarrow> sum_list (map g srcs) = (\<Sum>s\<in>set srcs. g s)"
  for g :: "int \<Rightarrow> nat"
  by (simp add: sum_list_distinct_conv_sum_set)

lemma zip_map_self: "zip xs (map g xs) = map (\<lambda>a. (a, g a)) xs"
  by (induction xs) simp_all

text \<open>The files hold traces that can be merged into \<open>target\<close>.\<close>

definition mergeable :: "nat \<Rightarrow> (int \<Rightarrow> elem list) \<Rightarrow> (int \<Rightarrow> int list) \<Rightarrow> files \<Rightarrow> int \<Rightarrow> int list \<Rightarrow> bool" where
  "mergeable len xs rs fs target srcs = (raw_files xs rs fs srcs \<and> distinct srcs \<and> target \<notin> set srcs
     \<and> 0 \<le> target \<and> target < LOI_MAXTHREADS \<and> (\<forall>s\<in>set srcs. timed (xs s) \<and> length (xs s) < len)
     \<and> (\<Sum>s\<in>set srcs. length (xs s)) \<le> TRACE_LENGTH * 16)"

lemma tool_start:
  assumes m: "mergeable len xs rs fs target srcs" and mem: "fst mem" "\<forall>s\<in>set (target # srcs). snd mem s"
  shows "\<exists>st1 st2. krd_init_index (fst mem) (snd mem target) target (int TRACE_LENGTH * 16) krd_initial = Inr (0, st1)
    \<and> read_args mem len rs fs srcs st1 = Some (Inr (map (\<lambda>a. fs (Raw a) \<noteq> None) srcs, st2))
    \<and> (\<forall>s\<in>set srcs. get_trace s st2 = Inr (loaded len (xs s)))
    \<and> merge_ready (set srcs) target (\<Sum>s\<in>set srcs. length (xs s)) st2
    \<and> (\<forall>s\<in>set srcs. heads (set srcs) st2 s = xs s) \<and> written st2 target = []"
proof -
  define st1 where "st1 = put_trace target (loaded (nat (int TRACE_LENGTH * 16)) []) (krd_initial\<lparr>threadtraces := Some (\<lambda>_. empty_trace)\<rparr>)"
  have tgt: "0 \<le> target" "target < LOI_MAXTHREADS" and nt: "target \<notin> set srcs" using m by (simp_all add: mergeable_def)
  have init: "krd_init_index (fst mem) (snd mem target) target (int TRACE_LENGTH * 16) krd_initial = Inr (0, st1)"
    using init_target [OF mem(1) tgt, of "int TRACE_LENGTH * 16"] mem(2) by (simp add: st1_def)
  have some1: "threadtraces st1 \<noteq> None" unfolding st1_def put_trace_some by simp
  have mag: "krd_trace_magic st1 \<le> 0 \<or> krd_trace_magic st1 = RAW_TRACE_MAGIC" by (simp add: st1_def krd_initial_def)
  have g1: "get_trace target st1 = Inr (loaded (nat (int TRACE_LENGTH * 16)) [])"
    using tgt by (simp add: st1_def get_trace_def put_trace_def)
  obtain st2 where st2: "read_args mem len rs fs srcs st1 = Some (Inr (map (\<lambda>a. fs (Raw a) \<noteq> None) srcs, st2))"
      "\<forall>s\<in>set srcs. get_trace s st2 = Inr (loaded len (xs s))" "\<forall>b. b \<notin> set srcs \<longrightarrow> get_trace b st2 = get_trace b st1"
    using read_args_raw_files [OF some1 mag, of srcs xs rs fs mem len] m mem(2) by (force simp: mergeable_def)
  have rd: "readable st2 s" "unread st2 s = xs s" if "s \<in> set srcs" for s
    using loaded_readable [of s st2 len "xs s"] st2(2) m that by (auto simp: mergeable_def timed_def)
  have gt: "get_trace target st2 = Inr (loaded (nat (int TRACE_LENGTH * 16)) [])" using st2(3) nt g1 by simp
  have "merge_ready (set srcs) target (\<Sum>s\<in>set srcs. length (xs s)) st2"
    using rd nt gt m by (simp add: merge_ready_def room_def mergeable_def loaded_def nat_mult_distrib)
  moreover have "written st2 target = []" using gt by (simp add: written_def loaded_def)
  moreover have "\<forall>s\<in>set srcs. heads (set srcs) st2 s = xs s" using rd by (simp add: heads_def)
  ultimately show ?thesis using init st2(1,2) by blast
qed

lemma count_elems_files:
  assumes "raw_files xs rs fs srcs" "distinct srcs" "\<forall>s\<in>set srcs. get_trace s st = Inr (loaded len (xs s))"
  shows "count_elems (map (\<lambda>a. (a, fs (Raw a) \<noteq> None)) srcs) st = (\<Sum>s\<in>set srcs. length (xs s))"
proof -
  have "(if fs (Raw s) \<noteq> None then case get_trace s st of Inr t \<Rightarrow> num_elems t | Inl _ \<Rightarrow> 0 else 0) = length (xs s)"
    if "s \<in> set srcs" for s
    using assms(1,3) that by (auto simp: raw_files_def loaded_def split: option.splits)
  then have *: "map (\<lambda>(tid, act). if act then case get_trace tid st of Inr t \<Rightarrow> num_elems t | Inl _ \<Rightarrow> 0 else 0)
      (map (\<lambda>a. (a, fs (Raw a) \<noteq> None)) srcs) = map (\<lambda>s. length (xs s)) srcs"
    by (simp add: comp_def)
  show ?thesis unfolding count_elems_def * by (rule sum_list_args [OF assms(2)])
qed

lemma read_active_args:
  "i + length as \<le> MAX_ACTIVE \<Longrightarrow> read_active mem rs fs i as st = read_args mem TRACE_LENGTH rs fs as st"
proof (induction as arbitrary: i st)
  case (Cons a as)
  then have "\<not> MAX_ACTIVE \<le> i" "read_active mem rs fs (i + 1) as = read_args mem TRACE_LENGTH rs fs as" by auto
  then show ?case by simp
qed simp

lemma read_active_fault:
  "MAX_ACTIVE < i + length as \<Longrightarrow> read_active mem rs fs i as st \<noteq> Some (Inr y)"
proof (induction as arbitrary: i st y)
  case (Cons a as)
  then have "read_active mem rs fs (i + 1) as st2 \<noteq> Some (Inr y)" for st2 y by simp
  then show ?case by (auto simp: obind_def split: option.splits sum.splits prod.splits)
qed simp

text \<open>Two ways out of the arrays: 1023 traces, and a full trace that has been read to its end before the others.\<close>

lemma merge_tool_too_many: "1023 \<le> length srcs \<Longrightarrow> merge_tool mem rs ws hr fs (target # srcs) \<noteq> Some (Inr fs')"
  using read_active_fault [of 2 srcs mem rs fs] by (auto simp: merge_tool_def MAX_ACTIVE_def obind_def split: option.splits sum.splits)

lemma full_trace_read_to_its_end:
  "get_trace tid st = Inr t \<Longrightarrow> data_ids t = Buffer (num_elems t) f \<Longrightarrow> tindex t = num_elems t
    \<Longrightarrow> merge_step ((tid, True) # args) a target st = Inl Fault"
  by (simp add: merge_step_def elem_at_def buf_get_def)

text \<open>C29.
  Given at most 1022 different traces other than the target, each sorted, shorter than
  the buffer of \<open>TRACE_LENGTH\<close> elements and with time stamps other than 0 and the largest number, together not more
  than the target's buffer holds, the merge tool writes a sorted trace that holds all their elements, each
  with its trace as the core. (A trace may be missing: it counts as empty. The memory is allocated, and the
  calls of \<open>read\<close> and \<open>write\<close> transfer all the data.) With more traces, or with a trace that fills its buffer,
  the tool leaves its arrays: \<open>merge_tool_too_many\<close>, \<open>full_trace_read_to_its_end\<close>.
\<close>

theorem merge_tool_merges:
  assumes m: "mergeable TRACE_LENGTH xs rs fs target srcs" and few: "length srcs \<le> 1022" and mem: "fst mem" "\<forall>s\<in>set (target # srcs). snd mem s"
    and ws: "transfers ws (int (\<Sum>s\<in>set srcs. length (xs s)) * 32)"
  shows "\<exists>out. merge_tool mem rs ws 4 fs (target # srcs) = Some (Inr (fs(Raw target \<mapsto> raw_file out)))
    \<and> by_tsc out \<and> mset out = (\<Sum>s\<in>set srcs. mset (map (\<lambda>e. e\<lparr>el_core := of_int s\<rparr>) (xs s)))"
proof -
  have bound: "2 + length srcs \<le> MAX_ACTIVE" using few by (simp add: MAX_ACTIVE_def)
  define n where "n = (\<Sum>s\<in>set srcs. length (xs s))"
  let ?as = "map (\<lambda>a. (a, fs (Raw a) \<noteq> None)) srcs"
  obtain st1 st2 where st: "krd_init_index (fst mem) (snd mem target) target (int TRACE_LENGTH * 16) krd_initial = Inr (0, st1)"
      "read_args mem TRACE_LENGTH rs fs srcs st1 = Some (Inr (map (\<lambda>a. fs (Raw a) \<noteq> None) srcs, st2))"
      "\<forall>s\<in>set srcs. get_trace s st2 = Inr (loaded TRACE_LENGTH (xs s))" "merge_ready (set srcs) target n st2"
      "\<forall>s\<in>set srcs. heads (set srcs) st2 s = xs s" "written st2 target = []"
    using tool_start [OF m mem] unfolding n_def by blast
  have raw: "raw_files xs rs fs srcs" "distinct srcs" using m by (simp_all add: mergeable_def)
  have S: "fst ` set ?as = set srcs" by force
  have sum: "(\<Sum>s\<in>set srcs. length (heads (set srcs) st2 s)) = n" using st(5) by (simp add: n_def)
  have cnt: "count_elems ?as st2 = n" using count_elems_files [OF raw st(3)] by (simp add: n_def)
  have act: "\<forall>(tid, act)\<in>set ?as. unread st2 tid \<noteq> [] \<longrightarrow> (tid, True) \<in> set ?as"
  proof clarify
    fix tid act assume t: "(tid, act) \<in> set ?as" "unread st2 tid \<noteq> []"
    then have tid: "tid \<in> set srcs" by auto
    then have "xs tid \<noteq> []" using st(5) t(2) by (simp add: heads_def)
    then have "fs (Raw tid) \<noteq> None" using raw(1) tid by (fastforce simp: raw_files_def split: option.splits)
    then show "(tid, True) \<in> set ?as" using tid by simp
  qed
  obtain st3 where st3: "merge_loop ?as (first_of ?as) target n st2 = Inr st3"
      "kway (set srcs) merge_emit n (heads (set srcs) st2, []) (heads (set srcs) st3, written st3 target)"
      "merge_ready (set srcs) target 0 st3"
    using merge_loop_kway [of ?as target n st2 "first_of ?as"] st(4) sum act unfolding S st(6) by auto
  have fin: "finite (set srcs)" by simp
  have k: "kway (set srcs) merge_emit (\<Sum>s\<in>set srcs. length (heads (set srcs) st2 s)) (heads (set srcs) st2, [])
      (heads (set srcs) st3, written st3 target)"
    using st3(2) unfolding sum .
  have sorted: "\<forall>s\<in>set srcs. by_tsc (heads (set srcs) st2 s)"
    using m st(5) by (simp add: mergeable_def timed_def)
  have em: "emitted merge_emit s ys = mset (map (\<lambda>e. e\<lparr>el_core := of_int s\<rparr>) ys)" for s ys
    by (induction ys) (simp_all add: emitted_def merge_emit_def)
  have ms: "mset (written st3 target) = (\<Sum>s\<in>set srcs. mset (map (\<lambda>e. e\<lparr>el_core := of_int s\<rparr>) (xs s)))"
    using merging.kway_complete(2) [OF k fin sorted] st(5) by (simp add: em)
  have "length (written st3 target) = n"
    using arg_cong [OF ms, of size] by (simp add: n_def size_multiset_sum)
  then have "obind (Some (set_num_elems target n st3)) (\<lambda>st4. krd_write_one_trace 4 ws target st4 fs)
      = Some (Inr (fs(Raw target \<mapsto> raw_file (written st3 target))))"
    unfolding krd_write_one_trace_def raw_file_def using st3(3) ws
    by (intro write_written) (simp_all add: merge_ready_def n_def)
  then have "merge_tool mem rs ws 4 fs (target # srcs) = Some (Inr (fs(Raw target \<mapsto> raw_file (written st3 target))))"
    using st(1) st(2) [folded read_active_args [of 2 srcs, OF bound]] cnt st3(1) by (simp add: merge_tool_def zip_map_self obind_def)
  then show ?thesis using merging.kway_complete(1) [OF k fin sorted] ms by blast
qed

section \<open>The coherence tool\<close>

lemma coherence_step_kway:
  assumes ready: "merge_ready (set args) target (Suc k) st" and s: "s \<in> set args" "unread st s \<noteq> []"
    and act: "\<forall>a\<in>set args. unread st a \<noteq> [] \<longrightarrow> act a"
  shows "\<exists>r e es act' st'. coherence_step args out_tid target (act, src0, st) = Inr (act', r, st') \<and> r \<in> set args
    \<and> heads (set args) st r = e # es \<and> (\<forall>s\<in>set args. heads (set args) st s \<noteq> [] \<longrightarrow> el_tsc e \<le> el_tsc (hd (heads (set args) st s)))
    \<and> merge_ready (set args) target k st' \<and> heads (set args) st' = (heads (set args) st)(r := es)
    \<and> written st' target = written st target @ coherence_emit out_tid r e
    \<and> (\<forall>a\<in>set args. unread st' a \<noteq> [] \<longrightarrow> act' a)"
proof -
  let ?as = "map (\<lambda>a. (a, act a)) args"
  have rd: "\<forall>(tid, act)\<in>set ?as. readable st tid" using ready by (auto simp: merge_ready_def)
  have "(s, True) \<in> set ?as" using s act by auto
  moreover have "\<forall>(tid, b)\<in>set ?as. unread st tid \<noteq> [] \<longrightarrow> (tid, True) \<in> set ?as" using act by auto
  ultimately obtain r e es where r: "pick_lowest st ?as (-1) src0 = Inr r" "(r, True) \<in> set ?as" "unread st r = e # es"
      "elem_at st r = Inr e" "\<forall>tid\<in>fst ` set ?as. unread st tid \<noteq> [] \<longrightarrow> el_tsc e \<le> el_tsc (hd (unread st tid))"
    using pick_lowest_head [OF rd _ s(2), of src0] by blast
  have rS: "r \<in> set args" and ar: "act r" using r(2) by auto
  have low: "\<forall>s\<in>set args. heads (set args) st s \<noteq> [] \<longrightarrow> el_tsc e \<le> el_tsc (hd (heads (set args) st s))"
    using r(5) by (simp add: heads_def image_image)
  obtain st1 st2 where st: "(case coherence_emit out_tid r e of [] \<Rightarrow> Inr st | e' # _ \<Rightarrow> append_elem target e' st) = Inr st1"
      "advance r st1 = Inr st2" "merge_ready (set args) target k st2" "heads (set args) st2 = (heads (set args) st)(r := es)"
      "written st2 target = written st target @ coherence_emit out_tid r e"
      "\<forall>s\<in>set args. s \<noteq> r \<longrightarrow> get_trace s st2 = get_trace s st"
    using take_and_append [OF ready rS r(3), of "coherence_emit out_tid r e"] coherence.emit_cases [of out_tid r e] by blast
  have ap: "(case coherent_elem out_tid r e of None \<Rightarrow> Inr st | Some e' \<Rightarrow> append_elem target e' st) = Inr st1"
    using st(1) by (simp add: coherence_emit_def split: option.splits)
  obtain t cap f where t: "get_trace r st2 = Inr t" "data_ids t = Buffer cap f"
    using st(3) rS by (auto simp: merge_ready_def readable_def)
  let ?act = "if tindex t \<ge> num_elems t then act(r := False) else act"
  have "coherence_step args out_tid target (act, src0, st) = Inr (?act, r, st2)"
    using r(1,4) ap st(2) t(1) by (simp add: coherence_step_def)
  moreover have "\<forall>a\<in>set args. unread st2 a \<noteq> [] \<longrightarrow> ?act a"
  proof (intro ballI impI)
    fix a assume a: "a \<in> set args" "unread st2 a \<noteq> []"
    show "?act a"
    proof (cases "a = r")
      case True
      then show ?thesis using a(2) t ar by (auto simp: unread_def)
    next
      case False
      then show ?thesis using a act same_trace(2) [OF st(6) [rule_format, OF a(1) False]] by auto
    qed
  qed
  moreover have "heads (set args) st r = e # es" using rS r(3) by (simp add: heads_def)
  ultimately show ?thesis using rS low st(3-5) by blast
qed

lemma coherence_loop_kway:
  assumes "merge_ready (set args) target k st" "k \<le> (\<Sum>s\<in>set args. length (heads (set args) st s))"
    and "\<forall>a\<in>set args. unread st a \<noteq> [] \<longrightarrow> act a"
  shows "\<exists>act' src st'. coherence_loop args out_tid target k (act, src0, st) = Inr (act', src, st')
    \<and> kway (set args) (coherence_emit out_tid) k (heads (set args) st, written st target) (heads (set args) st', written st' target)
    \<and> room st' target 0"
  using assms
proof (induction k arbitrary: st act src0)
  case 0
  then show ?case by (auto intro: kway_0 simp: merge_ready_def)
next
  case (Suc k)
  have fin: "finite (set args)" by simp
  obtain s where s: "s \<in> set args" "unread st s \<noteq> []" using some_unread [OF fin Suc.prems(2)] .
  obtain r e es act1 st1 where st1: "coherence_step args out_tid target (act, src0, st) = Inr (act1, r, st1)" "r \<in> set args"
      "heads (set args) st r = e # es" "\<forall>s\<in>set args. heads (set args) st s \<noteq> [] \<longrightarrow> el_tsc e \<le> el_tsc (hd (heads (set args) st s))"
      "merge_ready (set args) target k st1" "heads (set args) st1 = (heads (set args) st)(r := es)"
      "written st1 target = written st target @ coherence_emit out_tid r e" "\<forall>a\<in>set args. unread st1 a \<noteq> [] \<longrightarrow> act1 a"
    using coherence_step_kway [OF Suc.prems(1) s Suc.prems(3), of out_tid src0] by blast
  have "k \<le> (\<Sum>s\<in>set args. length (heads (set args) st1 s))"
    using Suc.prems(2) heads_sum_Suc [OF fin st1(2,3)] by (simp add: st1(6))
  then obtain act' src st' where st': "coherence_loop args out_tid target k (act1, r, st1) = Inr (act', src, st')"
      "kway (set args) (coherence_emit out_tid) k (heads (set args) st1, written st1 target) (heads (set args) st', written st' target)"
      "room st' target 0"
    using Suc.IH [OF st1(5) _ st1(8)] by blast
  have "kway (set args) (coherence_emit out_tid) (Suc k) (heads (set args) st, written st target) (heads (set args) st', written st' target)"
    by (rule kway_Suc [where q = "heads (set args) st", OF st1(2,3,4)]) (use st'(2) in \<open>simp only: st1(6,7)\<close>)
  then show ?case using st1(1) st'(1,3) by auto
qed

text \<open>The coherent trace of \<open>own\<close>: its accesses, and the writes of the others.\<close>

definition coherent_mset :: "(int \<Rightarrow> elem list) \<Rightarrow> int \<Rightarrow> int list \<Rightarrow> elem multiset" where
  "coherent_mset xs own others = mset (map (\<lambda>e. e\<lparr>el_size := of_int \<bar>el_bytes e\<bar>\<rparr>) (xs own))
     + (\<Sum>s\<in>set others. mset (filter (\<lambda>e. el_bytes e < 0) (xs s)))"

definition rwi_file :: "elem list \<Rightarrow> 8 word list" where
  "rwi_file xs = le_bytes 4 (nat RWI_TRACE_MAGIC) @ concat (map encode xs)"

lemma emitted_coherence:
  "emitted (coherence_emit own) s ys = (if s = own then mset (map (\<lambda>e. e\<lparr>el_size := of_int \<bar>el_bytes e\<bar>\<rparr>) ys)
     else mset (filter (\<lambda>e. el_bytes e < 0) ys))"
  by (induction ys) (simp_all add: emitted_def coherence_emit_def coherent_elem_def)

text \<open>The tool up to the file it writes.\<close>

lemma coherence_run:
  assumes m: "mergeable (TRACE_LENGTH * 16) xs rs fs target (own # others)"
    and mem: "fst mem" "\<forall>s\<in>set (target # own # others). snd mem s"
  shows "\<exists>q st3 t. kway (set (own # others)) (coherence_emit own) (\<Sum>s\<in>set (own # others). length (q s)) (q, [])
      (heads (set (own # others)) st3, written st3 target)
    \<and> (\<forall>s\<in>set (own # others). q s = xs s) \<and> room st3 target 0 \<and> get_trace target st3 = Inr t
    \<and> tindex t = length (written st3 target)
    \<and> (\<forall>ws. coherence_tool mem rs ws 4 fs (target # own # others)
         = obind (Some (set_num_elems target (tindex t) st3)) (\<lambda>st4. krd_write_coherent_trace 4 ws target st4 fs))"
proof -
  let ?args = "own # others"
  define n where "n = (\<Sum>s\<in>set ?args. length (xs s))"
  obtain st1 st2 where st: "krd_init_index (fst mem) (snd mem target) target (int TRACE_LENGTH * 16) krd_initial = Inr (0, st1)"
      "read_args mem (TRACE_LENGTH * 16) rs fs ?args st1 = Some (Inr (map (\<lambda>a. fs (Raw a) \<noteq> None) ?args, st2))"
      "\<forall>s\<in>set ?args. get_trace s st2 = Inr (loaded (TRACE_LENGTH * 16) (xs s))" "merge_ready (set ?args) target n st2"
      "\<forall>s\<in>set ?args. heads (set ?args) st2 s = xs s" "written st2 target = []"
    using tool_start [OF m mem] unfolding n_def by blast
  have raw: "raw_files xs rs fs ?args" "distinct ?args" using m by (simp_all add: mergeable_def)
  define act where "act = (\<lambda>tid. (tid, True) \<in> set (zip ?args (map (\<lambda>a. fs (Raw a) \<noteq> None) ?args)))"
  have acts: "act a = (fs (Raw a) \<noteq> None)" if "a \<in> set ?args" for a
    using that unfolding act_def zip_map_self by auto
  have sum: "(\<Sum>s\<in>set ?args. length (heads (set ?args) st2 s)) = n" using st(5) unfolding n_def by (intro sum.cong) auto
  have eq: "map (\<lambda>a. (a, act a)) ?args = map (\<lambda>a. (a, fs (Raw a) \<noteq> None)) ?args"
    using acts by (intro map_cong) simp_all
  have cnt: "count_elems (map (\<lambda>a. (a, act a)) ?args) st2 = n"
    unfolding eq n_def by (rule count_elems_files [OF raw st(3)])
  have live: "\<forall>a\<in>set ?args. unread st2 a \<noteq> [] \<longrightarrow> act a"
  proof (intro ballI impI)
    fix a assume a: "a \<in> set ?args" "unread st2 a \<noteq> []"
    then have "xs a \<noteq> []" using st(5) by (auto simp: heads_def)
    then have "fs (Raw a) \<noteq> None" using raw(1) a(1) by (fastforce simp: raw_files_def split: option.splits)
    then show "act a" using acts [OF a(1)] by blast
  qed
  obtain act' src st3 where st3: "coherence_loop ?args own target n (act, 0, st2) = Inr (act', src, st3)"
      "kway (set ?args) (coherence_emit own) n (heads (set ?args) st2, []) (heads (set ?args) st3, written st3 target)"
      "room st3 target 0"
    using coherence_loop_kway [OF st(4) _ live, of own 0] sum unfolding st(6) by blast
  obtain t cap f where t: "get_trace target st3 = Inr t" "data_ids t = Buffer cap f" "tindex t \<le> cap"
      "tindex t = length (written st3 target)" "trace_bytes f (tindex t) = concat (map encode (written st3 target))"
    using written_trace [OF st3(3)] .
  have "coherence_tool mem rs ws 4 fs (target # ?args)
      = obind (Some (set_num_elems target (tindex t) st3)) (\<lambda>st4. krd_write_coherent_trace 4 ws target st4 fs)" for ws
    using st(1,2) cnt st3(1) t(1) unfolding coherence_tool_def act_def by (simp add: obind_def Let_def)
  then show ?thesis
    using st3(2) st(5) st3(3) t(1,4) unfolding sum [symmetric] by blast
qed

text \<open>C30. Given sorted traces, the coherence tool makes a sorted trace of the accesses of its second
  argument, with positive sizes, and of the writes of the others; it is written as a trace of that kind.\<close>

theorem coherence_tool_interleaves_invalidations:
  assumes m: "mergeable (TRACE_LENGTH * 16) xs rs fs target (own # others)"
    and mem: "fst mem" "\<forall>s\<in>set (target # own # others). snd mem s"
    and ws: "transfers ws (int (size (coherent_mset xs own others)) * 32)"
  shows "\<exists>out. coherence_tool mem rs ws 4 fs (target # own # others) = Some (Inr (fs(Rwi target \<mapsto> rwi_file out)))
    \<and> by_tsc out \<and> mset out = coherent_mset xs own others"
proof -
  let ?args = "own # others"
  obtain q st3 t where k: "kway (set ?args) (coherence_emit own) (\<Sum>s\<in>set ?args. length (q s)) (q, [])
      (heads (set ?args) st3, written st3 target)"
    and q: "\<forall>s\<in>set ?args. q s = xs s" and st3: "room st3 target 0" "get_trace target st3 = Inr t"
      "tindex t = length (written st3 target)"
    and tool: "\<And>ws. coherence_tool mem rs ws 4 fs (target # ?args)
         = obind (Some (set_num_elems target (tindex t) st3)) (\<lambda>st4. krd_write_coherent_trace 4 ws target st4 fs)"
    using coherence_run [OF m mem] by blast
  have fin: "finite (set ?args)" by simp
  have sorted: "\<forall>s\<in>set ?args. by_tsc (q s)" using m q by (simp add: mergeable_def timed_def)
  have own: "own \<notin> set others" using m by (simp add: mergeable_def)
  have "(\<Sum>s\<in>set ?args. emitted (coherence_emit own) s (q s)) = (\<Sum>s\<in>set ?args. emitted (coherence_emit own) s (xs s))"
    using q by (intro sum.cong) auto
  also have "\<dots> = coherent_mset xs own others"
  proof -
    have "(\<Sum>s\<in>set others. emitted (coherence_emit own) s (xs s)) = (\<Sum>s\<in>set others. mset (filter (\<lambda>e. el_bytes e < 0) (xs s)))"
      using own by (intro sum.cong) (auto simp: emitted_coherence)
    then show ?thesis using own by (simp add: emitted_coherence coherent_mset_def)
  qed
  finally have ms: "mset (written st3 target) = coherent_mset xs own others"
    using coherence.kway_complete(2) [OF k fin sorted] by simp
  have len: "size (coherent_mset xs own others) = length (written st3 target)" using ms by (metis size_mset)
  have "obind (Some (set_num_elems target (tindex t) st3)) (\<lambda>st4. krd_write_coherent_trace 4 ws target st4 fs)
      = Some (Inr (fs(Rwi target \<mapsto> rwi_file (written st3 target))))"
    unfolding krd_write_coherent_trace_def rwi_file_def using st3 ws [unfolded len] by (intro write_written) simp_all
  then show ?thesis using tool coherence.kway_complete(1) [OF k fin sorted] ms by auto
qed

section \<open>The interleave tool\<close>

text \<open>The address of element \<open>k\<close> of a trace, 0 after its end; the trace of round-robin slots.\<close>

definition id_at :: "elem list \<Rightarrow> nat \<Rightarrow> 64 word" where
  "id_at xs k = (if k < length xs then el_id (xs ! k) else 0)"

definition slots :: "(int \<Rightarrow> elem list) \<Rightarrow> int list \<Rightarrow> nat \<Rightarrow> nat \<Rightarrow> elem" where
  "slots xs srcs c j = (if j < c then zero_elem\<lparr>el_id := id_at (xs (srcs ! (j mod length srcs))) (j div length srcs)\<rparr> else zero_elem)"

definition intlv_state :: "(int \<Rightarrow> elem list) \<Rightarrow> int list \<Rightarrow> int \<Rightarrow> nat \<Rightarrow> nat \<Rightarrow> krd \<Rightarrow> bool" where
  "intlv_state xs srcs target cap c st =
     ((\<forall>s\<in>set srcs. s \<noteq> target \<and> length (xs s) < TRACE_LENGTH \<and> get_trace s st = Inr (loaded TRACE_LENGTH (xs s)))
      \<and> get_trace target st = Inr \<lparr>num_elems = 0, tindex = 0, data_ids = Buffer cap (slots xs srcs c)\<rparr>)"

lemma slots_Suc:
  "slots xs srcs (Suc c) = (slots xs srcs c)(c := zero_elem\<lparr>el_id := id_at (xs (srcs ! (c mod length srcs))) (c div length srcs)\<rparr>)"
  by (auto simp: slots_def fun_eq_iff less_Suc_eq)

lemma intlv_slot:
  assumes "intlv_state xs srcs target cap c st" "c < cap" "srcs \<noteq> []" "a = srcs ! (c mod length srcs)"
  shows "\<exists>st1. (if c div length srcs > num_of a st then Inr st else copy_id target c a (c div length srcs) st) = Inr st1
    \<and> intlv_state xs srcs target cap (Suc c) st1"
proof -
  have a: "a \<in> set srcs" using assms(3,4) by simp
  then have g: "get_trace a st = Inr (loaded TRACE_LENGTH (xs a))" "length (xs a) < TRACE_LENGTH" "a \<noteq> target"
    using assms(1) by (auto simp: intlv_state_def)
  show ?thesis
  proof (cases "c div length srcs > num_of a st")
    case True
    then have "\<not> c div length srcs < length (xs a)" using g by (simp add: num_of_def loaded_def)
    then have "slots xs srcs (Suc c) = slots xs srcs c"
      unfolding slots_Suc assms(4) [symmetric] by (auto simp: fun_eq_iff id_at_def slots_def zero_elem_def)
    then show ?thesis using assms(1) True by (simp add: intlv_state_def)
  next
    case False
    then have k: "c div length srcs \<le> length (xs a)" using g by (simp add: num_of_def loaded_def)
    let ?t = "\<lparr>num_elems = 0, tindex = 0, data_ids = Buffer cap (slots xs srcs (Suc c))\<rparr>"
    have t: "get_trace target st = Inr \<lparr>num_elems = 0, tindex = 0, data_ids = Buffer cap (slots xs srcs c)\<rparr>"
      using assms(1) by (simp add: intlv_state_def)
    have z: "slots xs srcs c c = zero_elem" by (simp add: slots_def)
    have e: "el_id (if c div length srcs < length (xs a) then xs a ! (c div length srcs) else zero_elem) = id_at (xs a) (c div length srcs)"
      by (simp add: id_at_def zero_elem_def)
    have "copy_id target c a (c div length srcs) st = Inr (put_trace target ?t st)"
      using g(1,2) t k assms(2) e unfolding slots_Suc assms(4) [symmetric]
      by (simp add: copy_id_def loaded_def buf_get_def buf_put_def z)
    moreover have "intlv_state xs srcs target cap (Suc c) (put_trace target ?t st)"
      using assms(1) t by (auto simp: intlv_state_def)
    ultimately show ?thesis using False by simp
  qed
qed

lemma intlv_round_slots:
  assumes "intlv_state xs srcs target cap (q * length srcs + i) st" "i \<le> length srcs" "q * length srcs + length srcs \<le> cap" "srcs \<noteq> []"
  shows "\<exists>st'. intlv_round (length srcs) target (drop i srcs) (q * length srcs + i) st = Inr (q * length srcs + length srcs, st')
    \<and> intlv_state xs srcs target cap (q * length srcs + length srcs) st'"
  using assms(1,2)
proof (induction "length srcs - i" arbitrary: i st)
  case 0
  then show ?case by auto
next
  case (Suc m)
  then have i: "i < length srcs" by simp
  let ?c = "q * length srcs + i"
  have c: "?c mod length srcs = i" "?c div length srcs = q" "?c < cap"
  proof -
    show "?c mod length srcs = i" using i by simp
    show "?c div length srcs = q" using i by (intro div_nat_eqI) (simp_all add: algebra_simps)
    show "?c < cap" using i assms(3) by simp
  qed
  have d: "drop i srcs = srcs ! i # drop (Suc i) srcs" using i by (simp add: Cons_nth_drop_Suc)
  obtain st1 where st1: "(if q > num_of (srcs ! i) st then Inr st else copy_id target ?c (srcs ! i) q st) = Inr st1"
      "intlv_state xs srcs target cap (q * length srcs + Suc i) st1"
    using intlv_slot [OF Suc.prems(1) c(3) assms(4) refl] unfolding c by auto
  obtain st' where st': "intlv_round (length srcs) target (drop (Suc i) srcs) (q * length srcs + Suc i) st1
      = Inr (q * length srcs + length srcs, st')" "intlv_state xs srcs target cap (q * length srcs + length srcs) st'"
    using Suc.hyps(1) [OF _ st1(2)] Suc.hyps(2) i by (metis Suc_leI diff_Suc_Suc diff_Suc Suc_diff_Suc nat.inject)
  have "intlv_round (length srcs) target (drop i srcs) ?c st = intlv_round (length srcs) target (drop (Suc i) srcs) (?c + 1) st1"
    using st1(1) c by (auto simp: d split: if_splits)
  then show ?case using st' by auto
qed

lemma intlv_loop_slots:
  assumes "intlv_state xs srcs target cap (q * length srcs) st" "srcs \<noteq> []" "TRACE_LENGTH + length srcs \<le> cap"
    and "q * length srcs < min (intlv_limit m (length srcs)) TRACE_LENGTH + length srcs"
  shows "\<exists>c st'. intlv_loop m target srcs (q * length srcs) st = Inr (c, st') \<and> intlv_state xs srcs target cap c st'
    \<and> length srcs dvd c \<and> min (intlv_limit m (length srcs)) TRACE_LENGTH \<le> c
    \<and> c < min (intlv_limit m (length srcs)) TRACE_LENGTH + length srcs"
  using assms(1,4)
proof (induction "TRACE_LENGTH - q * length srcs" arbitrary: q st rule: less_induct)
  case less
  let ?n = "length srcs"
  let ?limit = "intlv_limit m ?n"
  have n: "0 < ?n" using assms(2) by simp
  show ?case
  proof (cases "q * ?n < ?limit \<and> q * ?n < TRACE_LENGTH")
    case False
    then have "intlv_loop m target srcs (q * ?n) st = Inr (q * ?n, st)" by (subst intlv_loop.simps) auto
    then show ?thesis using less.prems False by (auto simp: min_def)
  next
    case True
    obtain st1 where st1: "intlv_round ?n target srcs (q * ?n) st = Inr (q * ?n + ?n, st1)"
        "intlv_state xs srcs target cap (q * ?n + ?n) st1"
      using intlv_round_slots [of xs srcs target cap q 0 st] less.prems(1) True assms(2,3) by auto
    have s: "q * ?n + ?n = Suc q * ?n" by simp
    have "intlv_loop m target srcs (q * ?n) st = intlv_loop m target srcs (Suc q * ?n) st1"
      using True st1(1) assms(2) unfolding s by (subst intlv_loop.simps) simp
    moreover have "TRACE_LENGTH - Suc q * ?n < TRACE_LENGTH - q * ?n" using True n by (simp add: diff_less_mono2)
    moreover have "Suc q * ?n < min ?limit TRACE_LENGTH + ?n" using True by simp
    ultimately show ?thesis using less.hyps [of "Suc q" st1] st1(2) unfolding s by simp
  qed
qed

text \<open>Interleaving makes whole rounds of one slot per trace until the limit is reached: slot \<open>j\<close> has
  the address of element \<open>j div n\<close> of trace \<open>j mod n\<close>, and 0 where that trace has ended.\<close>

theorem interleaving_is_round_robin:
  assumes "intlv_state xs srcs target cap 0 st" "srcs \<noteq> []" "TRACE_LENGTH + length srcs \<le> cap"
  shows "\<exists>c st'. intlv_loop m target srcs 0 st = Inr (c, st')
    \<and> get_trace target st' = Inr \<lparr>num_elems = 0, tindex = 0, data_ids = Buffer cap (slots xs srcs c)\<rparr>
    \<and> length srcs dvd c \<and> min (intlv_limit m (length srcs)) TRACE_LENGTH \<le> c
    \<and> c < min (intlv_limit m (length srcs)) TRACE_LENGTH + length srcs"
  using intlv_loop_slots [of xs srcs target cap 0 st m] assms by (auto simp: intlv_state_def)

text \<open>The limit is computed in 32 bits: for 64 full traces it is 0, and nothing is interleaved.\<close>

theorem interleaving_full_traces_gives_nothing:
  assumes "length srcs = 64"
  shows "intlv_loop TRACE_LENGTH target srcs 0 st = Inr (0, st)"
  using assms by (subst intlv_loop.simps) (simp add: intlv_limit_def TRACE_LENGTH_def)

section \<open>The cut tool\<close>

text \<open>The bytes accessed before element \<open>k\<close>: invalidations do not count.\<close>

definition accessed :: "(nat \<Rightarrow> elem) \<Rightarrow> nat \<Rightarrow> int" where
  "accessed f k = (\<Sum>j<k. max 0 (el_bytes (f j)))"

lemma accessed_mono: "j \<le> k \<Longrightarrow> accessed f j \<le> accessed f k"
  by (auto simp: accessed_def intro: sum_mono2)

lemma next_access_accessed: "next_access f cap j = Inr k \<Longrightarrow> accessed f k = accessed f j"
proof (induction f cap j rule: next_access.induct)
  case (1 f cap j)
  show ?case
  proof (cases "el_bytes (f j) < 0")
    case True
    then have "next_access f cap (j + 1) = Inr k" "\<not> cap \<le> j"
      using 1(2) by (subst (asm) next_access.simps, simp split: if_splits)+
    then have "accessed f k = accessed f (j + 1)" using 1(1) True by blast
    then show ?thesis using True by (simp add: accessed_def)
  next
    case False
    then have "k = j" using 1(2) by (subst (asm) next_access.simps) (simp split: if_splits)
    then show ?thesis by simp
  qed
qed

text \<open>A printed line: a number, the warm-up point and the partition point.\<close>

definition cut_line :: "(nat \<Rightarrow> elem) \<Rightarrow> nat \<Rightarrow> int \<Rightarrow> int \<times> nat \<times> nat \<Rightarrow> bool" where
  "cut_line f n part_size l = (case l of (i, w, p) \<Rightarrow>
     p < n \<and> 0 \<le> el_bytes (f p) \<and> 0 \<le> el_bytes (f w) \<and> i * part_size \<le> accessed f (p + 1))"

definition line_before :: "int \<times> nat \<times> nat \<Rightarrow> int \<times> nat \<times> nat \<Rightarrow> bool" where
  "line_before a b = (case a of (i, w, p) \<Rightarrow> case b of (i', w', p') \<Rightarrow> p < p' \<and> w \<le> w')"

definition cut_inv :: "(nat \<Rightarrow> elem) \<Rightarrow> nat \<Rightarrow> int \<Rightarrow> cut \<Rightarrow> bool" where
  "cut_inv f n part_size c = (map fst (cut_out c) = [1..cut_count c] \<and> 0 \<le> cut_count c
     \<and> (\<forall>l\<in>set (cut_out c). cut_line f n part_size l) \<and> sorted_wrt line_before (cut_out c)
     \<and> (\<forall>(i, w, p)\<in>set (cut_out c). p < cut_p c \<and> w \<le> cut_w c)
     \<and> 0 \<le> el_bytes (f (cut_p c)) \<and> 0 \<le> el_bytes (f (cut_w c)) \<and> p_p c = accessed f (cut_p c))"

lemma cut_round_inv:
  assumes inv: "cut_inv f n pa c" and p: "cut_p c < n" "0 < pa" and r: "cut_round f cap wu pa c = Inr c1"
    and np: "next_access f cap (cut_p c1 + 1) = Inr k"
  shows "cut_inv f n pa (c1\<lparr>cut_p := k\<rparr>)"
proof -
  have k: "cut_p c < k" "0 \<le> el_bytes (f k)" "cut_p c1 = cut_p c"
    using next_access_ge [OF np] cut_round_p [OF r] by auto
  have pp: "p_p c + el_bytes (f (cut_p c)) = accessed f (cut_p c + 1)"
    using inv by (simp add: cut_inv_def accessed_def)
  then have acc: "p_p c + el_bytes (f (cut_p c)) = accessed f k"
    using next_access_accessed [OF np] k(3) by simp
  obtain w wp where w: "cut_w c \<le> w" "0 \<le> el_bytes (f w)"
    and c1: "c1 = (let c2 = c\<lparr>p_p := accessed f k, cut_w := w, w_p := wp\<rparr> in
      if accessed f k div pa > cut_count c
      then c2\<lparr>cut_out := cut_out c @ [(cut_count c + 1, w, cut_p c)], cut_count := cut_count c + 1\<rparr> else c2)"
  proof (cases "accessed f k - w_p c > wu")
    case True
    then obtain w where nw: "next_access f cap (cut_w c + 1) = Inr w"
      using r p(2) acc by (auto simp: cut_round_def Let_def ebind_Inr)
    show ?thesis
      by (rule that [of w "w_p c + el_bytes (f (cut_w c))"])
        (use next_access_ge [OF nw] nw r p(2) acc True in \<open>auto simp: cut_round_def Let_def\<close>)
  next
    case False
    show ?thesis
      by (rule that [of "cut_w c" "w_p c"]) (use inv r p(2) acc False in \<open>auto simp: cut_round_def Let_def cut_inv_def\<close>)
  qed
  show ?thesis
  proof (cases "accessed f k div pa > cut_count c")
    case False
    then show ?thesis using inv k w by (fastforce simp: c1 cut_inv_def)
  next
    case True
    then have "cut_count c + 1 \<le> accessed f k div pa" by simp
    then have "(cut_count c + 1) * pa \<le> accessed f k div pa * pa" using p(2) by (intro mult_right_mono) auto
    also have "\<dots> \<le> accessed f k" using p(2) by (simp add: minus_mod_eq_div_mult [symmetric])
    finally have line: "cut_line f n pa (cut_count c + 1, w, cut_p c)"
      using inv p(1) w(2) pp acc by (simp add: cut_line_def cut_inv_def)
    have "[1..cut_count c + 1] = [1..cut_count c] @ [cut_count c + 1]"
      using inv by (simp add: cut_inv_def upto_rec2)
    then show ?thesis
      using inv k w line True by (fastforce simp: c1 cut_inv_def sorted_wrt_append line_before_def)
  qed
qed

lemma cut_loop_inv:
  "0 < pa \<Longrightarrow> cut_inv f n pa c \<Longrightarrow> cut_loop f cap n wu pa c = Inr c' \<Longrightarrow> cut_inv f n pa c'"
proof (induction f cap n wu pa c rule: cut_loop.induct)
  case (1 f cap n wu pa c)
  show ?case
  proof (cases "cut_p c < n")
    case False
    then show ?thesis using 1 by (subst (asm) cut_loop.simps) simp
  next
    case True
    then obtain c1 k where s: "cut_round f cap wu pa c = Inr c1" "next_access f cap (cut_p c1 + 1) = Inr k"
        "cut_loop f cap n wu pa (c1\<lparr>cut_p := k\<rparr>) = Inr c'"
      using "1.prems"(3) by (subst (asm) cut_loop.simps) (auto split: sum.splits)
    have "cut_inv f n pa (c1\<lparr>cut_p := k\<rparr>)" by (rule cut_round_inv [OF "1.prems"(2) True "1.prems"(1) s(1,2)])
    then show ?thesis using "1.IH" [OF _ s(1,2)] True "1.prems"(1) s(3) by simp
  qed
qed

text \<open>It ends when an element that is not an invalidation follows the trace.\<close>

lemma next_access_total:
  "j \<le> m \<Longrightarrow> m < cap \<Longrightarrow> 0 \<le> el_bytes (f m) \<Longrightarrow> \<exists>k. next_access f cap j = Inr k \<and> k \<le> m"
proof (induction f cap j rule: next_access.induct)
  case (1 f cap j)
  show ?case
  proof (cases "el_bytes (f j) < 0")
    case True
    then have "j + 1 \<le> m" using 1(2,4) by (cases "j = m") auto
    then show ?thesis using 1 True by (subst next_access.simps) simp
  next
    case False
    then show ?thesis using 1(2,3) by (subst next_access.simps) simp
  qed
qed

lemma cut_round_total:
  assumes "cut_w c \<le> cut_p c" "0 < pa" "next_access f cap (cut_p c + 1) = Inr k"
  shows "\<exists>c1. cut_round f cap wu pa c = Inr c1 \<and> cut_w c1 \<le> k"
proof -
  have k: "cut_p c < k" "k < cap" "0 \<le> el_bytes (f k)" using next_access_ge [OF assms(3)] by auto
  then obtain w where "next_access f cap (cut_w c + 1) = Inr w" "w \<le> k"
    using next_access_total [of "cut_w c + 1" k cap f] assms(1) by auto
  then show ?thesis using assms(1,2) k(1) by (simp add: cut_round_def Let_def)
qed

lemma cut_loop_total:
  "n < cap \<Longrightarrow> 0 \<le> el_bytes (f n) \<Longrightarrow> 0 < pa \<Longrightarrow> cut_w c \<le> cut_p c \<Longrightarrow> \<exists>c'. cut_loop f cap n wu pa c = Inr c'"
proof (induction f cap n wu pa c rule: cut_loop.induct)
  case (1 f cap n wu pa c)
  show ?case
  proof (cases "cut_p c < n")
    case False
    then show ?thesis by (subst cut_loop.simps) simp
  next
    case True
    obtain k where k: "next_access f cap (cut_p c + 1) = Inr k"
      using next_access_total [of "cut_p c + 1" n cap f] True "1.prems"(1,2) by auto
    obtain c1 where c1: "cut_round f cap wu pa c = Inr c1" "cut_w c1 \<le> k"
      using cut_round_total [OF "1.prems"(4,3) k] by blast
    have k1: "next_access f cap (cut_p c1 + 1) = Inr k" using k cut_round_p [OF c1(1)] by simp
    have "\<exists>c'. cut_loop f cap n wu pa (c1\<lparr>cut_p := k\<rparr>) = Inr c'"
      by (rule "1.IH" [OF _ c1(1) k1]) (use True "1.prems" c1(2) in simp_all)
    then show ?thesis using True c1(1) k1 by (subst cut_loop.simps) simp
  qed
qed

text \<open>When an access or an unused element follows the trace, the cut tool ends, its lines are
  numbered from 1 without gaps, their partition points are accesses of the trace in increasing order,
  their warm-up points are accesses and do not go back, and line \<open>i\<close> stands where at least \<open>i\<close>
  partitions have been accessed.\<close>

theorem cut_lines_are_in_order:
  assumes "n < cap" "0 \<le> el_bytes (f n)" "0 < part_size"
  shows "\<exists>c. cut_trace f cap n warmup part_size = Inr c
    \<and> map fst (cut_out c) = [1..cut_count c] \<and> sorted_wrt line_before (cut_out c)
    \<and> list_all (cut_line f n part_size) (cut_out c)"
proof -
  obtain p where p: "next_access f cap 0 = Inr p" using next_access_total [of 0 n cap f] assms(1,2) by auto
  define c0 where "c0 = \<lparr>cut_p = p, cut_w = p, p_p = 0, w_p = 0, cut_count = 0, cut_out = []\<rparr>"
  obtain c where c: "cut_loop f cap n warmup part_size c0 = Inr c"
    using cut_loop_total [of n cap f part_size c0] assms by (auto simp: c0_def)
  have "accessed f p = 0" using next_access_accessed [OF p] by (simp add: accessed_def)
  then have "cut_inv f n part_size c0" using next_access_ge [OF p] by (simp add: cut_inv_def c0_def)
  from cut_loop_inv [OF assms(3) this c] show ?thesis
    using c p by (simp add: cut_inv_def list_all_iff cut_trace_def c0_def)
qed

text \<open>Three accesses of 8 bytes and an invalidation.\<close>

definition cut_example :: "nat \<Rightarrow> elem" where
  "cut_example j = (if j = 1 then zero_elem\<lparr>el_size := -8\<rparr> else if j < 4 then zero_elem\<lparr>el_size := 8\<rparr> else zero_elem)"

theorem cut_lines_are_in_order_witness:
  "\<exists>c. cut_trace cut_example 10 4 8 12 = Inr c \<and> map fst (cut_out c) = [1..cut_count c]
    \<and> sorted_wrt line_before (cut_out c) \<and> list_all (cut_line cut_example 4 12) (cut_out c)"
  using cut_lines_are_in_order [of 4 10 cut_example 12 8] by (simp add: cut_example_def el_bytes_def zero_elem_def)

section \<open>Examples of the tools\<close>

text \<open>Two traces in files: of trace 1 a write and a read, of trace 2 a write between them.\<close>

definition ex_elem :: "64 word \<Rightarrow> 64 word \<Rightarrow> 32 word \<Rightarrow> elem" where
  "ex_elem x time sz = \<lparr>el_id = x, el_tsc = time, el_size = sz, el_core = 0, el_kernel = 0\<rparr>"

definition ex_traces :: "int \<Rightarrow> elem list" where
  "ex_traces s = (if s = 1 then [ex_elem 100 1 (-4), ex_elem 200 5 8] else if s = 2 then [ex_elem 100 3 (-4)] else [])"

definition ex_files :: files where
  "ex_files = [Raw 1 \<mapsto> raw_file (ex_traces 1), Raw 2 \<mapsto> raw_file (ex_traces 2)]"

definition ex_reads :: "int \<Rightarrow> int list" where
  "ex_reads s = (if s = 1 then [32, 32] else [32])"

lemma ex_mergeable: "16 \<le> len \<Longrightarrow> mergeable len ex_traces ex_reads ex_files 7 [1, 2, 3]"
  by (simp add: mergeable_def raw_files_def ex_files_def ex_reads_def ex_traces_def ex_elem_def timed_def
      LOI_MAXTHREADS_def TRACE_LENGTH_def)

theorem merge_tool_merges_witness:
  "\<exists>out. merge_tool (True, \<lambda>_. True) ex_reads [96] 4 ex_files [7, 1, 2, 3] = Some (Inr (ex_files(Raw 7 \<mapsto> raw_file out)))
    \<and> by_tsc out \<and> mset out = (\<Sum>s\<in>set [1, 2, 3]. mset (map (\<lambda>e. e\<lparr>el_core := of_int s\<rparr>) (ex_traces s)))"
  by (rule merge_tool_merges [OF ex_mergeable]) (simp_all add: TRACE_LENGTH_def ex_traces_def)

theorem coherence_tool_interleaves_invalidations_witness:
  "\<exists>out. coherence_tool (True, \<lambda>_. True) ex_reads [96] 4 ex_files [7, 1, 2, 3] = Some (Inr (ex_files(Rwi 7 \<mapsto> rwi_file out)))
    \<and> by_tsc out \<and> mset out = coherent_mset ex_traces 1 [2, 3]"
  by (rule coherence_tool_interleaves_invalidations [OF ex_mergeable])
    (simp_all add: TRACE_LENGTH_def coherent_mset_def ex_traces_def ex_elem_def el_bytes_def)

definition ex_loaded :: krd where
  "ex_loaded = \<lparr>threadtraces = Some (\<lambda>s. if s = 7 then loaded (TRACE_LENGTH * 16) [] else loaded TRACE_LENGTH (ex_traces s)),
     krd_trace_magic = RAW_TRACE_MAGIC\<rparr>"

theorem interleaving_is_round_robin_witness:
  "\<exists>c st'. intlv_loop 2 7 [1, 2] 0 ex_loaded = Inr (c, st')
    \<and> get_trace 7 st' = Inr \<lparr>num_elems = 0, tindex = 0, data_ids = Buffer (TRACE_LENGTH * 16) (slots ex_traces [1, 2] c)\<rparr>
    \<and> length [1, 2 :: int] dvd c \<and> min (intlv_limit 2 (length [1, 2 :: int])) TRACE_LENGTH \<le> c
    \<and> c < min (intlv_limit 2 (length [1, 2 :: int])) TRACE_LENGTH + length [1, 2 :: int]"
proof (rule interleaving_is_round_robin)
  have "slots ex_traces [1, 2] 0 = (\<lambda>_. zero_elem)" by (simp add: slots_def fun_eq_iff)
  then show "intlv_state ex_traces [1, 2] 7 (TRACE_LENGTH * 16) 0 ex_loaded"
    by (simp add: intlv_state_def get_trace_def ex_loaded_def loaded_def LOI_MAXTHREADS_def ex_traces_def TRACE_LENGTH_def)
qed (simp_all add: TRACE_LENGTH_def)

theorem interleaving_full_traces_gives_nothing_witness:
  "intlv_loop TRACE_LENGTH 7 (replicate 64 1) 0 ex_loaded = Inr (0, ex_loaded)"
  by (rule interleaving_full_traces_gives_nothing) simp


end
