(* ===== verification/Krd_Histogram.thy ===== *)
theory Krd_Histogram
  imports Krd_Trace
begin

unbundle bit_operations_syntax

text \<open>
  The reuse histograms (\<open>loi/krd.c\<close>): the stack of accessed blocks, the access and the
  invalidation of a block, the histogram of a trace, histogram files and their sum. The
  doubly linked stack is a list, its head first; a position in it is a pair of the entries
  before and from the position on; \<open>Krd_Heap\<close> has the pointers. Log files and clocks are left out.
\<close>

section \<open>Blocks\<close>

record stack_entry =
  se_elem :: "64 word"
  se_size :: "32 word"
  se_inv :: bool
  se_core :: "16 word"

definition ARRAY_PARTIAL :: int where "ARRAY_PARTIAL = 0"
definition ARRAY_DISJOINT :: int where "ARRAY_DISJOINT = 1"
definition SPARSE :: int where "SPARSE = 2"

text \<open>The common part of two blocks: its address and size.\<close>

definition overlap :: "int \<Rightarrow> 64 word \<Rightarrow> 32 word \<Rightarrow> 64 word \<Rightarrow> 32 word \<Rightarrow> (64 word \<times> 32 word) option" where
  "overlap model stackaddr stacksize inaddr insize =
     (if model = SPARSE \<or> model = ARRAY_DISJOINT
      then if inaddr = stackaddr then Some (inaddr, insize) else None
      else if inaddr + ucast insize > stackaddr \<and> inaddr < stackaddr + ucast stacksize
      then let start = if stackaddr > inaddr then stackaddr else inaddr in
        Some (start, ucast (if stackaddr + ucast stacksize < inaddr + ucast insize
                            then stackaddr + ucast stacksize - start else inaddr + ucast insize - start))
      else None)"

definition superset :: "stack_entry \<Rightarrow> 64 word \<Rightarrow> 32 word \<Rightarrow> bool" where
  "superset s element sz = (se_elem s \<ge> element \<and> se_elem s + ucast (se_size s) \<le> element + ucast sz)"

text \<open>The loop over the six masks.\<close>

fun log2_loop :: "(64 word \<times> nat) list \<Rightarrow> 64 word \<Rightarrow> nat \<Rightarrow> nat" where
  "log2_loop [] x y = y"
| "log2_loop ((mask_i, j) # ts) x y =
     (let k = if x AND mask_i = 0 then 0 else j in log2_loop ts (drop_bit k x) (y + k))"

definition log2_masks :: "(64 word \<times> nat) list" where
  "log2_masks = [(0xFFFFFFFF00000000, 32), (0x00000000FFFF0000, 16), (0x000000000000FF00, 8),
     (0x00000000000000F0, 4), (0x000000000000000C, 2), (0x0000000000000002, 1)]"

definition ceil_log2 :: "64 word \<Rightarrow> nat" where
  "ceil_log2 x = log2_loop log2_masks x (if x AND (x - 1) = 0 then 0 else 1)"

definition is_invalidation_probe :: "int \<Rightarrow> 32 word \<Rightarrow> krd_error + bool" where
  "is_invalidation_probe magic rsize =
     (if magic = RAW_TRACE_MAGIC then Inr False
      else if magic = RWI_TRACE_MAGIC then Inr (sint rsize < 0)
      else Inl Exit1)"

definition HASH_SIZE :: nat where "HASH_SIZE = 2 ^ 28 + 1"

definition hash_addr :: "64 word \<Rightarrow> nat" where
  "hash_addr a = unat (drop_bit 3 a) mod HASH_SIZE"

section \<open>Counters\<close>

record hist =
  cold_misses :: int
  inv_misses :: int
  distance_vector :: "nat \<Rightarrow> int"
  shared_vector :: "nat \<Rightarrow> int"
  inv_miss_vector :: "nat \<Rightarrow> int"

definition no_hist :: hist where
  "no_hist = \<lparr>cold_misses = 0, inv_misses = 0, distance_vector = (\<lambda>_. 0), shared_vector = (\<lambda>_. 0),
     inv_miss_vector = (\<lambda>_. 0)\<rparr>"

definition add_at :: "nat \<Rightarrow> int \<Rightarrow> (nat \<Rightarrow> int) \<Rightarrow> nat \<Rightarrow> int" where
  "add_at b n v = v(b := v b + n)"

definition words4 :: "32 word \<Rightarrow> int" where
  "words4 n = uint n div 4"

text \<open>The bytes of a match that belong to the current element.\<close>

definition matching_bytes :: "64 word \<Rightarrow> 32 word \<Rightarrow> 64 word \<Rightarrow> 32 word \<Rightarrow> 32 word" where
  "matching_bytes start bytes base_addr base_size =
     (let m = (if start < base_addr then bytes - ucast (base_addr - start) else bytes) in
      if start + ucast bytes > base_addr + ucast base_size
      then m - ucast (start + ucast bytes - (base_addr + ucast base_size)) else m)"

definition count_match :: "bool \<Rightarrow> bool \<Rightarrow> stack_entry \<Rightarrow> 16 word \<Rightarrow> 32 word \<Rightarrow> 32 word \<Rightarrow> hist \<Rightarrow> hist" where
  "count_match warm tracked s core bounded matching h =
     (let b = ceil_log2 (ucast bounded); n = words4 matching in
      if se_inv s \<and> \<not> warm \<and> tracked
      then h\<lparr>inv_misses := inv_misses h + n, cold_misses := cold_misses h + n,
             inv_miss_vector := add_at b n (inv_miss_vector h)\<rparr>
      else if \<not> warm \<and> tracked
      then h\<lparr>distance_vector := add_at b n (distance_vector h),
             shared_vector := (if se_core s \<noteq> core then add_at b n (shared_vector h) else shared_vector h)\<rparr>
      else h)"

section \<open>Accesses\<close>

text \<open>What remains of an entry that is not covered by the match.\<close>

definition split_access :: "stack_entry \<Rightarrow> 64 word \<Rightarrow> 32 word \<Rightarrow> stack_entry list" where
  "split_access s start bytes =
     (if start > se_elem s \<and> start + ucast bytes < se_elem s + ucast (se_size s)
      then [s\<lparr>se_size := ucast (start - se_elem s)\<rparr>,
            s\<lparr>se_elem := start + ucast bytes, se_size := ucast (se_elem s + ucast (se_size s) - (start + ucast bytes))\<rparr>]
      else if se_elem s = start then [s\<lparr>se_size := se_size s - bytes, se_elem := start + ucast bytes\<rparr>]
      else [s\<lparr>se_size := se_size s - bytes\<rparr>])"

record probe =
  pr_elem :: "64 word"
  pr_size :: "32 word"
  pr_core :: "16 word"

definition head_entry :: "probe \<Rightarrow> stack_entry" where
  "head_entry p = \<lparr>se_elem = pr_elem p, se_size = pr_size p, se_inv = False, se_core = pr_core p\<rparr>"

definition cold_miss :: "bool \<Rightarrow> 32 word \<Rightarrow> hist \<Rightarrow> hist" where
  "cold_miss warm pending h = (if warm then h else h\<lparr>cold_misses := cold_misses h + words4 pending\<rparr>)"

text \<open>
  The loop down the stack, with the bytes not yet matched and the reuse distance, and what
  follows it. A removed entry leaves the position at the one after it.
\<close>

partial_function (option) access_loop ::
    "int \<Rightarrow> bool \<Rightarrow> bool \<Rightarrow> probe \<Rightarrow> stack_entry list \<Rightarrow> stack_entry list \<Rightarrow> 32 word \<Rightarrow> 32 word \<Rightarrow> hist
     \<Rightarrow> (stack_entry list \<times> hist) option" where
  "access_loop model warm tracked p before rest pending dist h =
     (case rest of
        [] \<Rightarrow> Some (if pending \<noteq> 0 then (head_entry p # before, cold_miss warm pending h) else (before, h))
      | s # after \<Rightarrow>
          (let dist' = dist + se_size s in
           case overlap model (se_elem s) (se_size s) (pr_elem p) (pr_size p) of
             None \<Rightarrow>
               if pending = 0 then Some (head_entry p # before @ s # after, h)
               else access_loop model warm tracked p (before @ [s]) after pending dist' h
           | Some m \<Rightarrow>
               (let start = fst m; bytes = snd m;
                    bounded = (if dist' > pr_size p then dist' else pr_size p);
                    h' = count_match warm tracked s (pr_core p) bounded
                           (matching_bytes start bytes (pr_elem p) (pr_size p)) h;
                    pieces = (if superset s start bytes then [] else split_access s start bytes)
                in if pending - bytes = 0 then Some (head_entry p # before @ pieces @ after, h')
                   else access_loop model warm tracked p (before @ take 1 pieces) (drop 1 pieces @ after)
                          (pending - bytes) dist' h')))"

section \<open>Invalidations\<close>

text \<open>The entries that replace an entry which an invalidation meets.\<close>

definition split_invalidate :: "probe \<Rightarrow> stack_entry \<Rightarrow> 64 word \<Rightarrow> 32 word \<Rightarrow> stack_entry list" where
  "split_invalidate p s start bytes =
     (let inv_part = \<lparr>se_elem = start, se_size = bytes, se_inv = True, se_core = pr_core p\<rparr> in
      if superset s start bytes then [s\<lparr>se_inv := True, se_core := pr_core p\<rparr>]
      else if start > se_elem s \<and> start + ucast bytes < se_elem s + ucast (se_size s)
      then [s\<lparr>se_size := ucast (start - se_elem s)\<rparr>, inv_part,
            s\<lparr>se_elem := start + ucast bytes, se_size := ucast (se_elem s + ucast (se_size s) - (start + ucast bytes))\<rparr>]
      else if se_elem s = start
      then [inv_part, s\<lparr>se_elem := start + ucast bytes, se_size := se_size s - bytes\<rparr>]
      else [s\<lparr>se_size := se_size s - bytes\<rparr>, inv_part])"

text \<open>An invalid entry at the end of the stack is dropped, unless it is the only one.\<close>

partial_function (option) invalidate_loop ::
    "int \<Rightarrow> probe \<Rightarrow> stack_entry list \<Rightarrow> stack_entry list \<Rightarrow> 32 word \<Rightarrow> stack_entry list option" where
  "invalidate_loop model p before rest pending =
     (case rest of
        [] \<Rightarrow> Some before
      | s # after \<Rightarrow>
          (let m = overlap model (se_elem s) (se_size s) (pr_elem p) (pr_size p);
               pending' = (case m of None \<Rightarrow> pending | Some (start, bytes) \<Rightarrow> pending - bytes);
               pieces = (case m of None \<Rightarrow> [s] | Some (start, bytes) \<Rightarrow> split_invalidate p s start bytes);
               next_ones = drop 1 pieces @ after
           in if pending' = 0 then Some (before @ pieces @ after)
              else if next_ones = [] \<and> before \<noteq> [] \<and> se_inv (hd pieces) then Some before
              else invalidate_loop model p (before @ take 1 pieces) next_ones pending'))"

section \<open>The histogram of a trace\<close>

record run =
  stack :: "stack_entry list"
  counters :: hist
  bloom_hash :: "nat \<Rightarrow> bool"
  warmup_phase :: bool
  total_bytes :: "64 word"

definition filtered :: "int \<Rightarrow> bool" where
  "filtered model = (model = ARRAY_DISJOINT \<or> model = SPARSE)"

text \<open>\<open>partition == -1\<close>\<close>

definition whole :: "64 word" where "whole = -1"

definition probe_of :: "elem \<Rightarrow> probe" where
  "probe_of x = \<lparr>pr_elem = el_id x, pr_size = of_int \<bar>el_bytes x\<bar>, pr_core = el_core x\<rparr>"

text \<open>The two paths; the first reports whether the loop over the trace ends here.\<close>

definition access_path :: "int \<Rightarrow> 64 word \<Rightarrow> bool \<Rightarrow> probe \<Rightarrow> run \<Rightarrow> (bool \<times> run) option" where
  "access_path model part_size tracked p r =
     (let r1 = (if warmup_phase r then r else r\<lparr>total_bytes := total_bytes r + ucast (pr_size p)\<rparr>) in
      if \<not> warmup_phase r \<and> total_bytes r1 > part_size then Some (True, r1)
      else let a = hash_addr (pr_elem p); absent = filtered model \<and> \<not> bloom_hash r1 a;
               r2 = (if absent \<and> \<not> warmup_phase r then r1\<lparr>bloom_hash := (bloom_hash r1)(a := True)\<rparr> else r1)
        in (case access_loop model (warmup_phase r) tracked p (if absent then stack r2 else []) (if absent then [] else stack r2)
                   (pr_size p) 0 (counters r2) of
              None \<Rightarrow> None
            | Some (st, h) \<Rightarrow> Some (False, r2\<lparr>stack := st, counters := h\<rparr>)))"

definition invalidation_path :: "int \<Rightarrow> probe \<Rightarrow> run \<Rightarrow> run option" where
  "invalidation_path model p r =
     (if filtered model \<and> \<not> bloom_hash r (hash_addr (pr_elem p)) then Some r
      else map_option (\<lambda>st. r\<lparr>stack := st\<rparr>) (invalidate_loop model p [] (stack r) (pr_size p)))"

text \<open>One element, number \<open>i\<close>. The progress report divides by the size of the partition.\<close>

definition histo_step ::
    "int \<Rightarrow> int \<Rightarrow> nat \<Rightarrow> 64 word \<Rightarrow> 16 word \<Rightarrow> nat \<Rightarrow> elem \<Rightarrow> run \<Rightarrow> (krd_error + (bool \<times> run)) option" where
  "histo_step magic model start_histo part_size kid i x r =
     (case is_invalidation_probe magic (el_size x) of
        Inl e \<Rightarrow> Some (Inl e)
      | Inr inv_probe \<Rightarrow>
          let r1 = (if warmup_phase r \<and> i > start_histo then r\<lparr>warmup_phase := False\<rparr> else r);
              tracked = (kid = -1 \<or> sint kid = uint (el_kernel x))
          in (case (if inv_probe then map_option (\<lambda>r. (False, r)) (invalidation_path model (probe_of x) r1)
                    else access_path model part_size tracked (probe_of x) r1) of
                None \<Rightarrow> None
              | Some (ended, r2) \<Rightarrow>
                  Some (if \<not> ended \<and> part_size = 0 then Inl Fault else Inr (ended, r2))))"

fun histo_loop ::
    "int \<Rightarrow> int \<Rightarrow> nat \<Rightarrow> 64 word \<Rightarrow> 16 word \<Rightarrow> nat \<Rightarrow> elem list \<Rightarrow> run \<Rightarrow> (krd_error + run) option" where
  "histo_loop magic model start_histo part_size kid i [] r = Some (Inr r)"
| "histo_loop magic model start_histo part_size kid i (x # xs) r =
     (case histo_step magic model start_histo part_size kid i x r of
        None \<Rightarrow> None
      | Some (Inl e) \<Rightarrow> Some (Inl e)
      | Some (Inr (ended, r')) \<Rightarrow>
          if ended then Some (Inr r') else histo_loop magic model start_histo part_size kid (i + 1) xs r')"

definition run_start :: "nat \<Rightarrow> nat \<Rightarrow> stack_entry list \<Rightarrow> hist \<Rightarrow> run" where
  "run_start warmup start_histo st h = \<lparr>stack = st, counters = h, bloom_hash = (\<lambda>_. False),
     warmup_phase = (warmup < start_histo), total_bytes = 0\<rparr>"

text \<open>The stack and the counters are global; the tool calls it once, with both empty.\<close>

definition do_one_histogram_mem ::
    "int \<Rightarrow> int \<Rightarrow> elem list \<Rightarrow> nat \<Rightarrow> nat \<Rightarrow> 64 word \<Rightarrow> 16 word \<Rightarrow> stack_entry list \<Rightarrow> hist \<Rightarrow> (krd_error + run) option" where
  "do_one_histogram_mem magic model xs warmup start_histo part_size kid st h =
     histo_loop magic model start_histo part_size kid warmup (drop warmup xs) (run_start warmup start_histo st h)"

section \<open>Histogram files\<close>

text \<open>
  The counters are 8 bytes each, in little-endian order, but the sizes given to \<open>write\<close>
  and \<open>read\<close> count 4 per counter. A result of -1 of one of the five calls ends the program; otherwise
  the call transfers all it can.
\<close>

definition HISTOGRAM_LEN :: nat where "HISTOGRAM_LEN = 7"

definition counter_bytes :: "int \<Rightarrow> 8 word list" where
  "counter_bytes n = le_bytes 8 (nat (n mod 2 ^ 64))"

definition bytes_counter :: "8 word list \<Rightarrow> int" where
  "bytes_counter bs = (let n = int (le_val bs) in if n < 2 ^ 63 then n else n - 2 ^ 64)"

definition vector_bytes :: "(nat \<Rightarrow> int) \<Rightarrow> 8 word list" where
  "vector_bytes v = concat (map (\<lambda>b. counter_bytes (v b)) [0..<2 ^ HISTOGRAM_LEN])"

type_synonym hist_files = "int \<Rightarrow> 8 word list option"

definition hist_parts :: "hist \<Rightarrow> 8 word list list" where
  "hist_parts h = [take 4 (counter_bytes (cold_misses h)), take 4 (counter_bytes (inv_misses h)),
     take (4 * 2 ^ HISTOGRAM_LEN) (vector_bytes (distance_vector h)),
     take (4 * 2 ^ HISTOGRAM_LEN) (vector_bytes (shared_vector h)),
     take (4 * 2 ^ HISTOGRAM_LEN) (vector_bytes (inv_miss_vector h))]"

definition write_one_histogram :: "bool list \<Rightarrow> hist \<Rightarrow> int \<Rightarrow> hist_files \<Rightarrow> krd_error + hist_files" where
  "write_one_histogram writes_ok h newid fs =
     (if list_all id writes_ok then Inr (fs(newid \<mapsto> concat (hist_parts h))) else Inl Exit1)"

text \<open>Reading over a counter or a vector: bytes not read stay.\<close>

definition overlay_counter :: "8 word list \<Rightarrow> int \<Rightarrow> int" where
  "overlay_counter bs n = bytes_counter (bs @ drop (length bs) (counter_bytes n))"

definition overlay_vector :: "8 word list \<Rightarrow> (nat \<Rightarrow> int) \<Rightarrow> nat \<Rightarrow> int" where
  "overlay_vector bs v b = overlay_counter (take 8 (drop (8 * b) bs)) (v b)"

definition read_one_histogram :: "bool list \<Rightarrow> int \<Rightarrow> hist_files \<Rightarrow> hist \<Rightarrow> krd_error + hist" where
  "read_one_histogram reads_ok i fs h =
     (case fs i of
        None \<Rightarrow> Inr h
      | Some bs \<Rightarrow>
          if \<not> list_all id reads_ok then Inl Exit1
          else let n = 4 * 2 ^ HISTOGRAM_LEN in
            Inr \<lparr>cold_misses = overlay_counter (take 4 bs) (cold_misses h),
                 inv_misses = overlay_counter (take 4 (drop 4 bs)) (inv_misses h),
                 distance_vector = overlay_vector (take n (drop 8 bs)) (distance_vector h),
                 shared_vector = overlay_vector (take n (drop (8 + n) bs)) (shared_vector h),
                 inv_miss_vector = overlay_vector (take n (drop (8 + 2 * n) bs)) (inv_miss_vector h)\<rparr>)"

section \<open>Sums\<close>

record totals =
  hist_total :: hist
  total_refs :: int

definition accum_one :: "hist \<Rightarrow> totals \<Rightarrow> totals" where
  "accum_one h a = (let t = hist_total a; upto = [0..<2 ^ HISTOGRAM_LEN] in
     \<lparr>hist_total =
        \<lparr>cold_misses = cold_misses t + cold_misses h, inv_misses = inv_misses t + inv_misses h,
         distance_vector = fold (\<lambda>j v. add_at j (distance_vector h j) v) upto (distance_vector t),
         shared_vector = fold (\<lambda>j v. add_at j (shared_vector h j) v) upto (shared_vector t),
         inv_miss_vector = fold (\<lambda>j v. add_at j (inv_miss_vector h j) v) upto (inv_miss_vector t)\<rparr>,
      total_refs = fold (\<lambda>j n. n + distance_vector h j) upto (total_refs a) + cold_misses h\<rparr>)"

definition accum_vectors :: "(int \<Rightarrow> hist) \<Rightarrow> totals \<Rightarrow> totals" where
  "accum_vectors hs a = fold (\<lambda>tid. accum_one (hs (int tid))) [0..<nat LOI_MAXTHREADS] a"

text \<open>\<open>exp\<close> is not negative; the product wraps around at 64 bits.\<close>

fun ipow_loop :: "64 word \<Rightarrow> nat \<Rightarrow> 64 word \<Rightarrow> 64 word" where
  "ipow_loop base e result =
     (if e = 0 then result else ipow_loop (base * base) (e div 2) (if odd e then result * base else result))"

declare ipow_loop.simps [simp del]

definition ipow :: "64 word \<Rightarrow> nat \<Rightarrow> 64 word" where
  "ipow base e = ipow_loop base e 1"

section \<open>The tools\<close>

text \<open>The arguments of the histogram tool, in its two forms; the result is what \<open>main\<close> returns, and the files.\<close>

definition histo_args :: "int list \<Rightarrow> (int \<times> int \<times> int \<times> nat \<times> nat \<times> 64 word \<times> 16 word) option" where
  "histo_args argv = (case argv of
     [model, tid] \<Rightarrow> Some (model, tid, tid, 0, 0, whole, -1)
   | [model, tid, kid] \<Rightarrow> Some (model, tid, tid, 0, 0, whole, of_int kid)
   | [model, tid, newid, warmup, start, part_size, kid] \<Rightarrow>
       Some (model, tid, newid, nat (warmup mod 2 ^ 32), nat (start mod 2 ^ 32), of_int part_size, of_int kid)
   | _ \<Rightarrow> None)"

definition trace_elems :: "ttrace \<Rightarrow> krd_error + elem list" where
  "trace_elems t = (case data_ids t of
     Buffer cap f \<Rightarrow> if num_elems t \<le> cap then Inr (map f [0..<num_elems t]) else Inl Fault
   | _ \<Rightarrow> if num_elems t = 0 then Inr [] else Inl Fault)"

definition histo_tool ::
    "bool \<Rightarrow> bool \<Rightarrow> int list \<Rightarrow> bool list \<Rightarrow> files \<Rightarrow> hist_files \<Rightarrow> int list \<Rightarrow> (krd_error + (int \<times> hist_files)) option" where
  "histo_tool calloc_ok mmap_ok rs writes_ok fs hfs argv =
     (case histo_args argv of
        None \<Rightarrow> Some (Inr (-1, hfs))
      | Some (model, tid, newid, warmup, start, part_size, kid) \<Rightarrow>
          (case krd_init_index calloc_ok mmap_ok tid (int TRACE_LENGTH * 16) krd_initial of
             Inl e \<Rightarrow> Some (Inl e)
           | Inr (_, st1) \<Rightarrow>
               (case krd_read_coherent_trace rs tid fs st1 of
                  None \<Rightarrow> None
                | Some (Inl e) \<Rightarrow> Some (Inl e)
                | Some (Inr (False, st2)) \<Rightarrow> Some (Inr (1, hfs))
                | Some (Inr (True, st2)) \<Rightarrow>
                    (case ebind (get_trace tid st2) trace_elems of
                       Inl e \<Rightarrow> Some (Inl e)
                     | Inr xs \<Rightarrow>
                         (case do_one_histogram_mem (krd_trace_magic st2) model xs warmup start part_size kid [] no_hist of
                            None \<Rightarrow> None
                          | Some (Inl e) \<Rightarrow> Some (Inl e)
                          | Some (Inr r) \<Rightarrow>
                              Some (ebind (write_one_histogram writes_ok (counters r) newid hfs) (\<lambda>hfs'. Inr (0, hfs'))))))))"

fun read_histograms :: "(int \<Rightarrow> bool list) \<Rightarrow> hist_files \<Rightarrow> int list \<Rightarrow> (int \<Rightarrow> hist) \<Rightarrow> krd_error + (int \<Rightarrow> hist)" where
  "read_histograms ok hfs [] hs = Inr hs"
| "read_histograms ok hfs (i # is) hs =
     (if 0 \<le> i \<and> i < LOI_MAXTHREADS
      then ebind (read_one_histogram (ok i) i hfs (hs i)) (\<lambda>h. read_histograms ok hfs is (hs(i := h)))
      else if hfs i = None then read_histograms ok hfs is hs else Inl Fault)"

text \<open>The sums the accumulation tool prints.\<close>

definition accum_tool :: "(int \<Rightarrow> bool list) \<Rightarrow> hist_files \<Rightarrow> int list \<Rightarrow> krd_error + totals" where
  "accum_tool ok hfs argv =
     (if argv = [] then Inl Exit1
      else ebind (read_histograms ok hfs argv (\<lambda>_. no_hist)) (\<lambda>hs.
        Inr (accum_vectors hs \<lparr>hist_total = no_hist, total_refs = 0\<rparr>)))"

end
