(* ===== verification/Krd_Reuse.thy ===== *)
theory Krd_Reuse
  imports Krd_Histogram
begin

unbundle bit_operations_syntax

text \<open>
  What the histograms are: the logarithm, the reuse distances of a trace of whole blocks
  against a reference that looks back in the trace, histogram files, and three inputs on
  which the counts are off.
\<close>

section \<open>The logarithm\<close>

lemma unat_drop_bit: "unat (drop_bit k x) = unat x div 2 ^ k" for x :: "64 word"
  by (metis drop_bit_eq_div unat_drop_bit_eq)

lemma drop_bit_zero: "drop_bit k x = 0 \<longleftrightarrow> unat x < 2 ^ k" for x :: "64 word"
  by (simp add: unat_eq_0 [symmetric] unat_drop_bit div_eq_0_iff del: unat_eq_0)

lemma and_high:
  fixes x :: "64 word"
  assumes "unat x < 2 ^ (2 * j)" "m = push_bit j (mask j)" "2 * j \<le> 64"
  shows "x AND m = 0 \<longleftrightarrow> unat x < 2 ^ j"
proof -
  have "drop_bit (2 * j) x = 0" using assms(1) by (simp add: drop_bit_zero)
  then have high: "\<not> bit x (2 * j + n)" for n by (metis bit_0_eq bit_drop_bit_eq bot_apply bot_bool_def comp_apply)
  have bm: "bit m n \<longleftrightarrow> j \<le> n \<and> n < 2 * j" for n
    using assms(3) by (auto simp: assms(2) bit_simps)
  have "x AND m = 0 \<longleftrightarrow> (\<forall>n. \<not> (bit x n \<and> j \<le> n \<and> n < 2 * j))"
  proof -
    have "x AND m = 0 \<longleftrightarrow> (\<forall>n<64. \<not> (bit x n \<and> j \<le> n \<and> n < 2 * j))"
      by (auto simp: bit_eq_iff bit_and_iff bm)
    then show ?thesis using assms(3) by (metis less_le_trans)
  qed
  also have "\<dots> \<longleftrightarrow> (\<forall>n. \<not> bit x (j + n))"
  proof safe
    fix n assume a: "\<forall>n. \<not> (bit x n \<and> j \<le> n \<and> n < 2 * j)" and b: "bit x (j + n)"
    show False
    proof (cases "j + n < 2 * j")
      case False
      then have "j + n = 2 * j + (n - j)" by simp
      then show False using b high by metis
    qed (use a [rule_format, of "j + n"] b in auto)
  next
    fix n assume "\<forall>n. \<not> bit x (j + n)" "bit x n" "j \<le> n" "n < 2 * j"
    then show False by (metis le_add_diff_inverse)
  qed
  also have "\<dots> \<longleftrightarrow> drop_bit j x = 0"
  proof -
    have "n < 64" if "bit x (j + n)" for n using bit_imp_le_length [OF that] by simp
    then show ?thesis by (auto simp: bit_eq_iff bit_simps)
  qed
  finally show ?thesis by (simp add: drop_bit_zero)
qed

text \<open>The masks select the upper half of \<open>2 * j\<close> bits, for \<open>j\<close> from a power of 2 down to 1.\<close>

fun halving :: "nat \<Rightarrow> (64 word \<times> nat) list \<Rightarrow> bool" where
  "halving w [] = (w = 1)"
| "halving w ((m, j) # ts) = (w = 2 * j \<and> w \<le> 64 \<and> m = push_bit j (mask j) \<and> halving j ts)"

lemma halving_masks: "halving 64 log2_masks"
  by (simp add: log2_masks_def mask_eq_exp_minus_1 push_bit_eq_mult)

lemma log2_loop_floor:
  "halving w ts \<Longrightarrow> 0 < unat x \<Longrightarrow> unat x < 2 ^ w \<Longrightarrow>
   \<exists>k. (\<forall>y. log2_loop ts x y = y + k) \<and> 2 ^ k \<le> unat x \<and> unat x < 2 ^ (k + 1)"
proof (induction ts arbitrary: w x)
  case Nil
  then show ?case by (intro exI [of _ 0]) auto
next
  case (Cons t ts)
  obtain m j where t: "t = (m, j)" by (cases t)
  then have w: "w = 2 * j" "2 * j \<le> 64" "m = push_bit j (mask j)" "halving j ts" using Cons.prems(1) by auto
  have a: "x AND m = 0 \<longleftrightarrow> unat x < 2 ^ j" by (rule and_high) (use Cons.prems w in auto)
  show ?case
  proof (cases "unat x < 2 ^ j")
    case True
    then show ?thesis using Cons.IH [OF w(4) Cons.prems(2) True] a by (simp add: t)
  next
    case False
    have "unat (drop_bit j x) < 2 ^ j"
      using Cons.prems(3) w(1) by (simp add: unat_drop_bit less_mult_imp_div_less mult_2 power_add)
    moreover have pos: "0 < unat (drop_bit j x)" using False by (simp add: unat_drop_bit div_greater_zero_iff)
    ultimately obtain k where k: "\<forall>y. log2_loop ts (drop_bit j x) y = y + k"
        "2 ^ k \<le> unat x div 2 ^ j" "unat x div 2 ^ j < 2 ^ (k + 1)"
      using Cons.IH [OF w(4) pos] by (auto simp: unat_drop_bit)
    have "2 ^ (j + k) \<le> unat x"
      using k(2) by (simp add: less_eq_div_iff_mult_less_eq power_add mult.commute)
    moreover have "unat x < 2 ^ (j + k + 1)"
      using k(3) by (simp add: div_less_iff_less_mult power_add mult.commute mult.left_commute)
    ultimately show ?thesis using k(1) False a by (intro exI [of _ "j + k"]) (simp add: t)
  qed
qed

lemma bit_at_floor:
  assumes "2 ^ k \<le> unat x" "unat x < 2 ^ (k + 1)"
  shows "bit (x :: 64 word) k"
proof -
  have "unat x div 2 ^ k = 1" using assms by (intro div_nat_eqI) auto
  then have "bit (unat x) k" by (simp add: bit_nat_def)
  then show ?thesis by (simp add: bit_unsigned_iff)
qed

text \<open>The logarithm, rounded up.\<close>

lemma ceil_log2_correct:
  assumes "x \<noteq> 0"
  shows "unat x \<le> 2 ^ ceil_log2 x \<and> 2 ^ ceil_log2 x < 2 * unat x"
proof -
  have pos: "0 < unat x" using assms by (simp add: unat_gt_0)
  have "unat x < 2 ^ 64" using unsigned_less [of x, where 'a = nat] by simp
  then obtain k where k: "\<forall>y. log2_loop log2_masks x y = y + k" "2 ^ k \<le> unat x" "unat x < 2 ^ (k + 1)"
    using log2_loop_floor [OF halving_masks pos] by auto
  have um: "unat (x - 1) = unat x - 1" using assms by (simp add: unat_minus_one)
  show ?thesis
  proof (cases "unat x = 2 ^ k")
    case True
    have "unat (x AND (x - 1)) = 2 ^ k AND (2 ^ k - 1)" by (simp add: unsigned_and_eq um True)
    also have "\<dots> = take_bit k (2 ^ k)" by (simp only: take_bit_eq_mask mask_eq_exp_minus_1)
    also have "\<dots> = 0" by (simp add: take_bit_eq_mod)
    finally have "x AND (x - 1) = 0" by (simp add: unat_eq_zero)
    then show ?thesis using k(1) True by (simp add: ceil_log2_def)
  next
    case False
    then have "2 ^ k \<le> unat (x - 1)" "unat (x - 1) < 2 ^ (k + 1)" using k um by auto
    then have "bit (x AND (x - 1)) k" using bit_at_floor k(2,3) by (simp add: bit_and_iff)
    then have "x AND (x - 1) \<noteq> 0" by (metis bit_0_eq bot_apply bot_bool_def)
    then show ?thesis using k False by (simp add: ceil_log2_def)
  qed
qed

section \<open>Reuse distances\<close>

text \<open>
  The reference: the bytes of the different blocks accessed from the last access of \<open>a\<close> on,
  and the sums over a trace of block addresses, for this and other measures \<open>dist\<close> of a distance.
  \<open>counted_bytes\<close> is what the program, with its 32-bit sum, makes of the distance.
\<close>

definition reuse_bytes :: "(64 word \<Rightarrow> 32 word) \<Rightarrow> 64 word list \<Rightarrow> 64 word \<Rightarrow> nat" where
  "reuse_bytes sz pre a = unat (sz a) + (\<Sum>b\<in>set (takeWhile (\<lambda>b. b \<noteq> a) (rev pre)). unat (sz b))"

definition counted_bytes :: "(64 word \<Rightarrow> 32 word) \<Rightarrow> 64 word list \<Rightarrow> 64 word \<Rightarrow> nat" where
  "counted_bytes sz pre a = max (reuse_bytes sz pre a mod 2 ^ 32) (unat (sz a))"

definition reuses :: "(64 word list \<Rightarrow> 64 word \<Rightarrow> nat) \<Rightarrow> (64 word \<Rightarrow> 32 word) \<Rightarrow> 64 word list \<Rightarrow> nat \<Rightarrow> int" where
  "reuses dist sz ids b = (\<Sum>i<length ids. if ids ! i \<in> set (take i ids)
     \<and> ceil_log2 (of_nat (dist (take i ids) (ids ! i))) = b then words4 (sz (ids ! i)) else 0)"

definition first_uses :: "(64 word \<Rightarrow> 32 word) \<Rightarrow> 64 word list \<Rightarrow> int" where
  "first_uses sz ids = (\<Sum>i<length ids. if ids ! i \<in> set (take i ids) then 0 else words4 (sz (ids ! i)))"

lemma reuses_snoc:
  "reuses dist sz (ids @ [a]) b = reuses dist sz ids b + (if a \<in> set ids \<and> ceil_log2 (of_nat (dist ids a)) = b then words4 (sz a) else 0)"
proof -
  have "(\<Sum>i<length ids. if (ids @ [a]) ! i \<in> set (take i (ids @ [a]))
      \<and> ceil_log2 (of_nat (dist (take i (ids @ [a])) ((ids @ [a]) ! i))) = b then words4 (sz ((ids @ [a]) ! i)) else 0)
    = reuses dist sz ids b"
    unfolding reuses_def by (intro sum.cong) (auto simp: nth_append)
  then show ?thesis by (simp add: reuses_def)
qed

lemma first_uses_snoc:
  "first_uses sz (ids @ [a]) = first_uses sz ids + (if a \<in> set ids then 0 else words4 (sz a))"
proof -
  have "(\<Sum>i<length ids. if (ids @ [a]) ! i \<in> set (take i (ids @ [a])) then 0 else words4 (sz ((ids @ [a]) ! i)))
    = first_uses sz ids"
    unfolding first_uses_def by (intro sum.cong) (auto simp: nth_append)
  then show ?thesis by (simp add: first_uses_def)
qed

text \<open>The stack: the blocks in the order of their last accesses.\<close>

lemma remdups_snoc: "remdups (xs @ [a]) = filter (\<lambda>b. b \<noteq> a) (remdups xs) @ [a]"
  by (induction xs) auto

lemma filter_notin: "a \<notin> set xs \<Longrightarrow> filter (\<lambda>b. b \<noteq> a) xs = xs"
  by (induction xs) auto

lemma takeWhile_filter_other:
  "c \<noteq> a \<Longrightarrow> takeWhile (\<lambda>b. b \<noteq> a) (filter (\<lambda>b. b \<noteq> c) xs) = filter (\<lambda>b. b \<noteq> c) (takeWhile (\<lambda>b. b \<noteq> a) xs)"
  by (induction xs) auto

lemma since_lru: "set (takeWhile (\<lambda>b. b \<noteq> a) (rev (remdups pre))) = set (takeWhile (\<lambda>b. b \<noteq> a) (rev pre))"
proof (induction pre rule: rev_induct)
  case (snoc c pre)
  then show ?case
    by (cases "c = a") (auto simp: remdups_snoc rev_filter takeWhile_filter_other)
qed simp

lemma reuse_bytes_lru:
  assumes "rev (remdups pre) = us @ a # vs"
  shows "reuse_bytes sz pre a = (\<Sum>b\<leftarrow>us. unat (sz b)) + unat (sz a)"
proof -
  have d: "distinct (us @ a # vs)" unfolding assms [symmetric] by simp
  then have "a \<notin> set us" by auto
  then have "takeWhile (\<lambda>b. b \<noteq> a) (us @ a # vs) = us" by (induction us) auto
  then have "set (takeWhile (\<lambda>b. b \<noteq> a) (rev pre)) = set us" using since_lru [of a pre] assms by simp
  then show ?thesis using d by (simp add: reuse_bytes_def sum_list_distinct_conv_sum_set)
qed

text \<open>The loop on such a stack.\<close>

lemma whole_match:
  assumes "se_elem s = pr_elem p" "se_size s = pr_size p"
  shows "superset s (pr_elem p) (pr_size p)" "matching_bytes (pr_elem p) (pr_size p) (pr_elem p) (pr_size p) = pr_size p"
  using assms by (simp_all add: superset_def matching_bytes_def)

lemma access_miss:
  assumes "filtered model" "pending \<noteq> 0"
  shows "pr_elem p \<notin> se_elem ` set rest \<Longrightarrow>
    access_loop model warm tracked p before rest pending d h = Some (head_entry p # before @ rest, cold_miss warm pending h)"
proof (induction rest arbitrary: before d)
  case Nil
  then show ?case using assms(2) by (subst access_loop.simps) simp
next
  case (Cons s rest)
  then have "overlap model (se_elem s) (se_size s) (pr_elem p) (pr_size p) = None"
    using assms(1) by (auto simp: overlap_def filtered_def)
  then show ?case using Cons assms(2) by (subst access_loop.simps) simp
qed

lemma access_hit:
  assumes "filtered model" "pr_size p \<noteq> 0" "se_elem s = pr_elem p" "se_size s = pr_size p"
  shows "pr_elem p \<notin> se_elem ` set us \<Longrightarrow> d' = d + (\<Sum>u\<leftarrow>us. se_size u) + pr_size p \<Longrightarrow>
    access_loop model warm tracked p before (us @ s # vs) (pr_size p) d h = Some (head_entry p # before @ us @ vs,
      count_match warm tracked s (pr_core p) (if d' > pr_size p then d' else pr_size p) (pr_size p) h)"
proof (induction us arbitrary: before d)
  case Nil
  have "overlap model (pr_elem p) (pr_size p) (pr_elem p) (pr_size p) = Some (pr_elem p, pr_size p)"
    using assms(1) by (auto simp: overlap_def filtered_def)
  then show ?case using Nil assms whole_match [OF assms(3,4)] by (subst access_loop.simps) (simp add: Let_def)
next
  case (Cons u us)
  then have "overlap model (se_elem u) (se_size u) (pr_elem p) (pr_size p) = None"
    using assms(1) by (auto simp: overlap_def filtered_def)
  then show ?case using Cons assms(2) by (subst access_loop.simps) (simp add: add.assoc)
qed

text \<open>A trace of accesses to whole blocks: the size of a block depends on its address.\<close>

definition block_trace :: "(64 word \<Rightarrow> 32 word) \<Rightarrow> elem list \<Rightarrow> bool" where
  "block_trace sz xs = (\<forall>x\<in>set xs. el_size x = sz (el_id x) \<and> 0 < el_bytes x)"

definition lru_run :: "(64 word \<Rightarrow> 32 word) \<Rightarrow> elem list \<Rightarrow> run \<Rightarrow> bool" where
  "lru_run sz pre r = (map se_elem (stack r) = rev (remdups (map el_id pre))
     \<and> (\<forall>s\<in>set (stack r). se_size s = sz (se_elem s) \<and> \<not> se_inv s)
     \<and> (\<forall>x\<in>set pre. bloom_hash r (hash_addr (el_id x))) \<and> \<not> warmup_phase r
     \<and> distance_vector (counters r) = reuses (counted_bytes sz) sz (map el_id pre)
     \<and> cold_misses (counters r) = first_uses sz (map el_id pre))"

lemma of_nat_sum_list: "of_nat (\<Sum>x\<leftarrow>xs. unat (f x)) = (\<Sum>x\<leftarrow>xs. f x)" for f :: "'a \<Rightarrow> 32 word"
  by (induction xs) simp_all

lemma reuse_bytes_bound:
  "reuse_bytes sz pre a \<le> (\<Sum>b\<in>insert a (set pre). unat (sz b))"
proof -
  have a: "a \<notin> set (takeWhile (\<lambda>b. b \<noteq> a) (rev pre))" by (metis (mono_tags) set_takeWhileD)
  have "set (takeWhile (\<lambda>b. b \<noteq> a) (rev pre)) \<subseteq> set pre" using set_takeWhileD by fastforce
  then have "(\<Sum>b\<in>insert a (set (takeWhile (\<lambda>b. b \<noteq> a) (rev pre))). unat (sz b)) \<le> (\<Sum>b\<in>insert a (set pre). unat (sz b))"
    by (intro sum_mono2) auto
  then show ?thesis using a by (simp add: reuse_bytes_def)
qed

lemma positive_block:
  assumes "0 < el_bytes x"
  shows "pr_size (probe_of x) = el_size x" "el_size x \<noteq> 0"
  using assms by (auto simp: probe_of_def el_bytes_def)

text \<open>The state after an access, given what the loop makes of the stack and the counters.\<close>

definition after_access :: "elem \<Rightarrow> run \<Rightarrow> stack_entry list \<Rightarrow> hist \<Rightarrow> run" where
  "after_access x r st h = r\<lparr>total_bytes := total_bytes r + ucast (pr_size (probe_of x)),
     bloom_hash := (bloom_hash r)(hash_addr (el_id x) := True), stack := st, counters := h\<rparr>"

lemma access_path_loop:
  assumes "filtered model" "\<not> warmup_phase r"
    and "access_loop model False True (probe_of x) (if bloom_hash r (hash_addr (el_id x)) then [] else stack r)
      (if bloom_hash r (hash_addr (el_id x)) then stack r else []) (pr_size (probe_of x)) 0 (counters r) = Some (st, h)"
  shows "access_path model whole True (probe_of x) r = Some (False, after_access x r st h)"
proof -
  have "\<not> whole < t" for t by (simp add: whole_def not_less)
  moreover have "(bloom_hash r)(hash_addr (el_id x) := True) = bloom_hash r" if "bloom_hash r (hash_addr (el_id x))"
    using that by (simp add: fun_upd_idem)
  moreover have "pr_elem (probe_of x) = el_id x" by (simp add: probe_of_def)
  ultimately show ?thesis using assms
    by (cases "bloom_hash r (hash_addr (el_id x))") (simp_all add: access_path_def Let_def after_access_def)
qed

lemma lru_run_access:
  assumes inv: "lru_run sz pre r" and p: "pr_size (probe_of x) = sz (el_id x)"
    and st: "map se_elem st = filter (\<lambda>b. b \<noteq> el_id x) (rev (remdups (map el_id pre)))"
      "\<forall>s\<in>set st. se_size s = sz (se_elem s) \<and> \<not> se_inv s"
    and h: "distance_vector h = reuses (counted_bytes sz) sz (map el_id pre @ [el_id x])" "cold_misses h = first_uses sz (map el_id pre @ [el_id x])"
  shows "lru_run sz (pre @ [x]) (after_access x r (head_entry (probe_of x) # st) h)"
proof -
  have "pr_elem (probe_of x) = el_id x" by (simp add: probe_of_def)
  then show ?thesis using assms
    by (simp add: lru_run_def after_access_def head_entry_def remdups_snoc rev_filter)
qed

lemma access_path_first:
  assumes inv: "lru_run sz pre r" and m: "filtered model" and p: "pr_size (probe_of x) = sz (el_id x)" "sz (el_id x) \<noteq> 0"
    and new: "el_id x \<notin> el_id ` set pre"
  shows "\<exists>r'. access_path model whole True (probe_of x) r = Some (False, r') \<and> lru_run sz (pre @ [x]) r'"
proof -
  let ?p = "probe_of x"
  let ?h = "cold_miss False (pr_size ?p) (counters r)"
  have pe: "pr_elem ?p = el_id x" by (simp add: probe_of_def)
  have el: "map se_elem (stack r) = rev (remdups (map el_id pre))" using inv by (simp add: lru_run_def)
  have ids: "se_elem ` set (stack r) = el_id ` set pre" using arg_cong [OF el, of set] by simp
  have path: "access_path model whole True ?p r = Some (False, after_access x r (head_entry ?p # stack r) ?h)"
  proof (rule access_path_loop [OF m])
    show "\<not> warmup_phase r" using inv by (simp add: lru_run_def)
    show "access_loop model False True ?p (if bloom_hash r (hash_addr (el_id x)) then [] else stack r)
        (if bloom_hash r (hash_addr (el_id x)) then stack r else []) (pr_size ?p) 0 (counters r)
      = Some (head_entry ?p # stack r, ?h)"
      using access_miss [OF m, of "pr_size ?p" ?p "stack r" False True "[]"]
        access_miss [OF m, of "pr_size ?p" ?p "[]" False True "stack r"] p pe ids new by simp
  qed
  have "el_id x \<notin> set (rev (remdups (map el_id pre)))" using new by simp
  then have "map se_elem (stack r) = filter (\<lambda>b. b \<noteq> el_id x) (rev (remdups (map el_id pre)))"
    using el filter_notin by metis
  moreover have "distance_vector ?h = reuses (counted_bytes sz) sz (map el_id pre @ [el_id x])"
    using inv new by (auto simp: lru_run_def cold_miss_def reuses_snoc fun_eq_iff)
  moreover have "cold_misses ?h = first_uses sz (map el_id pre @ [el_id x])"
    using inv new p by (auto simp: lru_run_def cold_miss_def first_uses_snoc)
  ultimately have "lru_run sz (pre @ [x]) (after_access x r (head_entry ?p # stack r) ?h)"
    using inv p by (intro lru_run_access) (auto simp: lru_run_def)
  then show ?thesis using path by blast
qed

text \<open>The distance of a block that is on the stack, as the loop adds it up.\<close>

lemma loop_distance:
  assumes el: "rev (remdups ids) = map se_elem us @ a # vs" and us: "\<forall>u\<in>set us. se_size u = sz (se_elem u)"
    and d_def: "d = (\<Sum>u\<leftarrow>us. se_size u) + sz a"
  shows "(if d > sz a then d else sz a) = of_nat (counted_bytes sz ids a)"
proof -
  let ?n = "reuse_bytes sz ids a"
  have *: "map (\<lambda>u. unat (se_size u)) us = map (\<lambda>u. unat (sz (se_elem u))) us"
    using us by (intro map_cong) auto
  have n: "(\<Sum>u\<leftarrow>us. unat (se_size u)) + unat (sz a) = ?n"
    unfolding * using reuse_bytes_lru [OF el, of sz] by (simp add: comp_def)
  have d: "d = of_nat ?n" unfolding n [symmetric] d_def by (simp add: of_nat_sum_list)
  then have u: "unat d = ?n mod 2 ^ 32" by (simp add: unat_of_nat take_bit_eq_mod)
  show ?thesis
  proof (cases "d > sz a")
    case True
    then have "counted_bytes sz ids a = unat d" using u by (simp add: counted_bytes_def word_less_nat_alt)
    then show ?thesis using True by simp
  next
    case False
    then have "counted_bytes sz ids a = unat (sz a)" using u by (simp add: counted_bytes_def word_less_nat_alt max_def)
    then show ?thesis using False by simp
  qed
qed

lemma counted_bytes_bound: "counted_bytes sz pre a < 2 ^ 32"
  using unsigned_less [of "sz a", where 'a = nat] by (simp add: counted_bytes_def)

lemma counted_bytes_small:
  assumes "(\<Sum>b\<in>insert a (set pre). unat (sz b)) < 2 ^ 32"
  shows "counted_bytes sz pre a = reuse_bytes sz pre a"
proof -
  have "reuse_bytes sz pre a < 2 ^ 32" using reuse_bytes_bound [of sz pre a] assms by simp
  then show ?thesis by (simp add: counted_bytes_def) (simp add: reuse_bytes_def)
qed

lemma reuses_small:
  assumes "(\<Sum>b\<in>set ids. unat (sz b)) < 2 ^ 32"
  shows "reuses (counted_bytes sz) sz ids = reuses (reuse_bytes sz) sz ids"
proof
  fix b
  have "counted_bytes sz (take i ids) (ids ! i) = reuse_bytes sz (take i ids) (ids ! i)" if "i < length ids" for i
  proof (rule counted_bytes_small)
    have "(\<Sum>b\<in>insert (ids ! i) (set (take i ids)). unat (sz b)) \<le> (\<Sum>b\<in>set ids. unat (sz b))"
      using that set_take_subset [of i ids] by (intro sum_mono2) auto
    then show "(\<Sum>b\<in>insert (ids ! i) (set (take i ids)). unat (sz b)) < 2 ^ 32" using assms by simp
  qed
  then show "reuses (counted_bytes sz) sz ids b = reuses (reuse_bytes sz) sz ids b"
    unfolding reuses_def by (intro sum.cong) auto
qed

lemma access_path_again:
  assumes inv: "lru_run sz pre r" and m: "filtered model" and p: "pr_size (probe_of x) = sz (el_id x)" "sz (el_id x) \<noteq> 0"
    and old: "el_id x \<in> el_id ` set pre"
  shows "\<exists>r'. access_path model whole True (probe_of x) r = Some (False, r') \<and> lru_run sz (pre @ [x]) r'"
proof -
  let ?p = "probe_of x" let ?a = "el_id x" let ?n = "counted_bytes sz (map el_id pre) (el_id x)"
  have pe: "pr_elem ?p = ?a" by (simp add: probe_of_def)
  have el: "map se_elem (stack r) = rev (remdups (map el_id pre))" using inv by (simp add: lru_run_def)
  have "?a \<in> se_elem ` set (stack r)" using old arg_cong [OF el, of set] by simp
  then have "\<exists>s\<in>set (stack r). se_elem s = ?a" by force
  then obtain us s vs where st: "stack r = us @ s # vs" "se_elem s = ?a" "\<forall>u\<in>set us. se_elem u \<noteq> ?a"
    using split_list_first_prop [of "stack r" "\<lambda>s. se_elem s = ?a"] by blast
  have ss: "se_size s = sz ?a" "\<not> se_inv s" "\<forall>u\<in>set us. se_size u = sz (se_elem u)"
      "\<forall>u\<in>set (us @ vs). se_size u = sz (se_elem u) \<and> \<not> se_inv u"
    using inv st(1,2) by (auto simp: lru_run_def)
  have el': "rev (remdups (map el_id pre)) = map se_elem us @ ?a # map se_elem vs" using el st by simp
  define dw where "dw = (\<Sum>u\<leftarrow>us. se_size u) + sz ?a"
  note d = loop_distance [OF el' ss(3) dw_def]
  have d64: "ucast (of_nat ?n :: 32 word) = (of_nat ?n :: 64 word)"
    using counted_bytes_bound [of sz "map el_id pre" ?a]
    by (simp add: word_unat_eq_iff unsigned_ucast_eq unat_of_nat take_bit_eq_mod)
  let ?h = "count_match False True s (pr_core ?p) (of_nat ?n) (pr_size ?p) (counters r)"
  have notin: "pr_elem ?p \<notin> se_elem ` set us" using st(3) pe by auto
  have "access_loop model False True ?p [] (stack r) (pr_size ?p) 0 (counters r) = Some (head_entry ?p # us @ vs, ?h)"
  proof -
    have e: "dw = 0 + (\<Sum>u\<leftarrow>us. se_size u) + pr_size ?p" using p by (simp add: dw_def)
    have "access_loop model False True ?p [] (us @ s # vs) (pr_size ?p) 0 (counters r) = Some (head_entry ?p # [] @ us @ vs,
        count_match False True s (pr_core ?p) (if dw > pr_size ?p then dw else pr_size ?p) (pr_size ?p) (counters r))"
      by (rule access_hit [OF m _ _ _ notin e]) (use p pe st(2) ss(1) in simp_all)
    then show ?thesis unfolding st(1) d [folded p(1)] by simp
  qed
  moreover have "bloom_hash r (hash_addr ?a)" "\<not> warmup_phase r" using inv old by (auto simp: lru_run_def)
  ultimately have path: "access_path model whole True ?p r = Some (False, after_access x r (head_entry ?p # us @ vs) ?h)"
    using access_path_loop [OF m] by simp
  have "distinct (map se_elem us @ ?a # map se_elem vs)" unfolding el' [symmetric] by simp
  then have "?a \<notin> set (map se_elem us)" "?a \<notin> set (map se_elem vs)" by auto
  from this [THEN filter_notin] have "map se_elem (us @ vs) = filter (\<lambda>b. b \<noteq> ?a) (rev (remdups (map el_id pre)))"
    unfolding el' by simp
  moreover have "distance_vector ?h = reuses (counted_bytes sz) sz (map el_id pre @ [?a])" "cold_misses ?h = first_uses sz (map el_id pre @ [?a])"
    using inv old p ss(2) d64
    by (auto simp: lru_run_def count_match_def Let_def add_at_def reuses_snoc first_uses_snoc fun_eq_iff)
  ultimately have "lru_run sz (pre @ [x]) (after_access x r (head_entry ?p # us @ vs) ?h)"
    using inv p ss(4) by (intro lru_run_access) auto
  then show ?thesis using path by blast
qed

lemma block_trace_prefix: "block_trace sz (xs @ ys) \<Longrightarrow> block_trace sz xs"
  by (simp add: block_trace_def)

lemma access_path_lru:
  assumes inv: "lru_run sz pre r" and b: "block_trace sz (pre @ [x])" and m: "filtered model"
  shows "\<exists>r'. access_path model whole True (probe_of x) r = Some (False, r') \<and> lru_run sz (pre @ [x]) r'"
proof (cases "el_id x \<in> el_id ` set pre")
  have x: "el_size x = sz (el_id x)" "0 < el_bytes x" using b by (simp_all add: block_trace_def)
  then have p: "pr_size (probe_of x) = sz (el_id x)" "sz (el_id x) \<noteq> 0" using positive_block by auto
  {
    case True
    then show ?thesis by (rule access_path_again [OF inv m p])
  next
    case False
    then show ?thesis by (rule access_path_first [OF inv m p])
  }
qed

lemma histo_loop_lru:
  assumes "filtered model" "magic = RAW_TRACE_MAGIC \<or> magic = RWI_TRACE_MAGIC"
  shows "lru_run sz pre r \<Longrightarrow> block_trace sz (pre @ xs) \<Longrightarrow>
    \<exists>r'. histo_loop magic model 0 whole (-1) i xs r = Some (Inr r') \<and> lru_run sz (pre @ xs) r'"
proof (induction xs arbitrary: pre r i)
  case (Cons x xs)
  have b: "block_trace sz (pre @ [x])" using block_trace_prefix [of sz "pre @ [x]" xs] Cons.prems(2) by simp
  obtain r1 where r1: "access_path model whole True (probe_of x) r = Some (False, r1)" "lru_run sz (pre @ [x]) r1"
    using access_path_lru [OF Cons.prems(1) b assms(1)] by blast
  have "0 < el_bytes x" using b by (simp add: block_trace_def)
  then have "is_invalidation_probe magic (el_size x) = Inr False"
    using assms(2) by (auto simp: is_invalidation_probe_def el_bytes_def)
  moreover have "\<not> warmup_phase r" using Cons.prems(1) by (simp add: lru_run_def)
  ultimately have "histo_step magic model 0 whole (-1) i x r = Some (Inr (False, r1))"
    using r1(1) by (simp add: histo_step_def whole_def)
  then show ?case using Cons.IH [OF r1(2), of "i + 1"] Cons.prems(2) by simp
qed simp

text \<open>C31. For traces of whole blocks and the models that compare addresses, the histogram of a trace
  counts, under the logarithm of its distance, every access to a block accessed before, in words. As long as
  the different blocks of the trace have less than 4 GiB together, the
  distance is the bytes of the different blocks accessed since; in general the program counts this number
  modulo \<open>2 ^ 32\<close>, but at least the size of the block, so that in a larger trace a long distance can
  be counted as a short one. The first accesses are the cold misses, and the stack has the blocks in the
  order of their last use. The distances are those of a reference that looks back in the trace.\<close>

theorem histogram_counts_reuse_distances:
  assumes "filtered model" "magic = RAW_TRACE_MAGIC \<or> magic = RWI_TRACE_MAGIC" "block_trace sz xs"
  shows "\<exists>r. do_one_histogram_mem magic model xs 0 0 whole (-1) [] no_hist = Some (Inr r)
    \<and> distance_vector (counters r) = reuses (counted_bytes sz) sz (map el_id xs)
    \<and> ((\<Sum>a\<in>set (map el_id xs). unat (sz a)) < 2 ^ 32 \<longrightarrow> distance_vector (counters r) = reuses (reuse_bytes sz) sz (map el_id xs))
    \<and> cold_misses (counters r) = first_uses sz (map el_id xs)
    \<and> map se_elem (stack r) = rev (remdups (map el_id xs))"
proof -
  have "lru_run sz [] (run_start 0 0 [] no_hist)"
    by (simp add: lru_run_def run_start_def no_hist_def reuses_def first_uses_def fun_eq_iff)
  from histo_loop_lru [OF assms(1,2) this, of xs 0] assms(3) reuses_small [of sz "map el_id xs"] show ?thesis
    by (fastforce simp: do_one_histogram_mem_def lru_run_def)
qed

section \<open>Powers\<close>

lemma ipow_loop_power: "ipow_loop base e result = result * base ^ e"
proof (induction base e result rule: ipow_loop.induct)
  case (1 base e result)
  show ?case
  proof (cases "e = 0")
    case True
    then show ?thesis by (subst ipow_loop.simps) simp
  next
    case False
    have "base ^ e = base ^ (2 * (e div 2) + e mod 2)" by simp
    also have "\<dots> = (base * base) ^ (e div 2) * (if odd e then base else 1)"
      by (simp only: power_add power_mult power2_eq_square) (simp add: odd_iff_mod_2_eq_one)
    finally show ?thesis using 1 False by (subst ipow_loop.simps) (simp add: mult.assoc mult.commute mult.left_commute)
  qed
qed

text \<open>The power by repeated squaring is the power, modulo \<open>2 ^ 64\<close>.\<close>

theorem ipow_is_power: "ipow base e = base ^ e"
  by (simp add: ipow_def ipow_loop_power)

section \<open>Histogram files\<close>

lemma counter_bytes_length [simp]: "length (counter_bytes n) = 8"
  by (simp add: counter_bytes_def)

lemma bytes_counter_bytes:
  assumes "0 \<le> n" "n < 2 ^ 63"
  shows "bytes_counter (counter_bytes n) = n"
  using assms by (simp add: counter_bytes_def bytes_counter_def le_val_le_bytes nat_less_iff)

lemma take_le_bytes: "take k (le_bytes (k + j) n) = le_bytes k n"
  by (induction k arbitrary: n) simp_all

lemma drop_zero_counter: "drop k (counter_bytes 0) = replicate (8 - k) 0"
proof -
  have "le_bytes m 0 = replicate m 0" for m by (induction m) simp_all
  then show ?thesis by (simp add: counter_bytes_def)
qed

lemma le_val_zeros: "le_val (bs @ replicate m 0) = le_val bs"
proof (induction bs)
  case Nil
  then show ?case by (induction m) simp_all
qed simp

lemma overlay_whole:
  assumes "0 \<le> n" "n < 2 ^ 63"
  shows "overlay_counter (counter_bytes n) 0 = n"
  using assms by (simp add: overlay_counter_def bytes_counter_bytes)

lemma overlay_half:
  assumes "0 \<le> n" "n < 2 ^ 63"
  shows "overlay_counter (take 4 (counter_bytes n)) 0 = n mod 2 ^ 32"
proof -
  have "take 4 (counter_bytes n) = le_bytes 4 (nat n)"
    using assms take_le_bytes [of 4 4 "nat n"] by (simp add: counter_bytes_def)
  then have "int (le_val (take 4 (counter_bytes n) @ drop 4 (counter_bytes 0))) = n mod 2 ^ 32"
    using assms(1) by (simp only: drop_zero_counter le_val_zeros) (simp add: le_val_le_bytes zmod_int)
  moreover have "n mod 2 ^ 32 < 2 ^ 63" by (rule order_less_trans [of _ "2 ^ 32"]) simp_all
  ultimately show ?thesis by (simp add: overlay_counter_def bytes_counter_def)
qed

lemma overlay_nothing: "overlay_counter [] 0 = 0"
  by (simp add: overlay_counter_def bytes_counter_bytes)

lemma concat_counters_nth:
  "b < n \<Longrightarrow> take 8 (drop (8 * b) (concat (map (\<lambda>b. counter_bytes (v b)) [0..<n]))) = counter_bytes (v b)"
proof (induction n)
  case (Suc n)
  have len: "length (concat (map (\<lambda>b. counter_bytes (v b)) [0..<n])) = 8 * n" for n by (induction n) simp_all
  show ?case using Suc by (cases "b < n") (auto simp: less_Suc_eq len)
qed simp

text \<open>Half of a vector comes back: the entries below 64.\<close>

lemma overlay_vector_half:
  assumes "\<forall>b. 0 \<le> v b \<and> v b < 2 ^ 63" "\<forall>b\<ge>64. v b = 0"
  shows "overlay_vector (take (4 * 2 ^ HISTOGRAM_LEN) (vector_bytes v)) (\<lambda>_. 0) = v"
proof
  fix b
  have len: "length (vector_bytes v) = 1024"
    by (simp add: vector_bytes_def length_concat comp_def sum_list_triv HISTOGRAM_LEN_def)
  show "overlay_vector (take (4 * 2 ^ HISTOGRAM_LEN) (vector_bytes v)) (\<lambda>_. 0) b = v b"
  proof (cases "b < 64")
    case True
    have "take 8 (drop (8 * b) (vector_bytes v)) = counter_bytes (v b)"
      using concat_counters_nth [of b "2 ^ HISTOGRAM_LEN" v] True by (simp add: vector_bytes_def HISTOGRAM_LEN_def)
    moreover have "min 8 (512 - 8 * b) = 8" using True by simp
    ultimately have "take 8 (drop (8 * b) (take (4 * 2 ^ HISTOGRAM_LEN) (vector_bytes v))) = counter_bytes (v b)"
      by (simp add: drop_take HISTOGRAM_LEN_def)
    then show ?thesis using assms(1) by (simp add: overlay_vector_def overlay_whole)
  next
    case False
    then have "take 8 (drop (8 * b) (take (4 * 2 ^ HISTOGRAM_LEN) (vector_bytes v))) = []"
      using len by (simp add: HISTOGRAM_LEN_def)
    then show ?thesis using assms(2) False by (simp add: overlay_vector_def overlay_nothing)
  qed
qed

definition counted :: "hist \<Rightarrow> bool" where
  "counted h = (0 \<le> cold_misses h \<and> cold_misses h < 2 ^ 63 \<and> 0 \<le> inv_misses h \<and> inv_misses h < 2 ^ 63
     \<and> (\<forall>v\<in>{distance_vector h, shared_vector h, inv_miss_vector h}.
          (\<forall>b. 0 \<le> v b \<and> v b < 2 ^ 63) \<and> (\<forall>b\<ge>64. v b = 0)))"

text \<open>A histogram written and read back has the same vectors, because no distance has a logarithm
  of 64 or more, but of its two miss counters only the lower 32 bits.\<close>

theorem histogram_file_roundtrip:
  assumes "counted h"
  shows "\<exists>fs'. write_one_histogram (replicate 5 True) h i fs = Inr fs'
    \<and> read_one_histogram (replicate 5 True) i fs' no_hist
      = Inr (h\<lparr>cold_misses := cold_misses h mod 2 ^ 32, inv_misses := inv_misses h mod 2 ^ 32\<rparr>)"
proof -
  define parts where "parts v = take (4 * 2 ^ HISTOGRAM_LEN) (vector_bytes v)" for v
  have len: "length (parts v) = 4 * 2 ^ HISTOGRAM_LEN" for v
    by (simp add: parts_def vector_bytes_def length_concat comp_def sum_list_triv HISTOGRAM_LEN_def)
  define c m where "c = take 4 (counter_bytes (cold_misses h))" and "m = take 4 (counter_bytes (inv_misses h))"
  have cm: "length c = 4" "length m = 4" by (simp_all add: c_def m_def)
  have p: "hist_parts h = [c, m, parts (distance_vector h), parts (shared_vector h), parts (inv_miss_vector h)]"
    by (simp add: hist_parts_def c_def m_def parts_def)
  have v: "overlay_vector (parts v) (\<lambda>_. 0) = v" if "v \<in> {distance_vector h, shared_vector h, inv_miss_vector h}" for v
    unfolding parts_def using assms that by (intro overlay_vector_half) (auto simp: counted_def)
  have cc: "overlay_counter c 0 = cold_misses h mod 2 ^ 32" "overlay_counter m 0 = inv_misses h mod 2 ^ 32"
    unfolding c_def m_def using assms overlay_half [of "cold_misses h"] overlay_half [of "inv_misses h"]
    by (simp_all add: counted_def)
  show ?thesis
    using cm len v cc by (simp add: list_all_iff write_one_histogram_def read_one_histogram_def p no_hist_def Let_def)
qed

definition ex_hist :: hist where
  "ex_hist = no_hist\<lparr>cold_misses := 2 ^ 32 + 5, distance_vector := (\<lambda>b. if b = 3 then 7 else 0)\<rparr>"

theorem histogram_file_roundtrip_witness:
  "\<exists>fs'. write_one_histogram (replicate 5 True) ex_hist 2 Map.empty = Inr fs'
    \<and> read_one_histogram (replicate 5 True) 2 fs' no_hist = Inr (ex_hist\<lparr>cold_misses := 5, inv_misses := 0\<rparr>)"
  using histogram_file_roundtrip [of ex_hist 2 Map.empty] by (simp add: counted_def ex_hist_def no_hist_def)

section \<open>Where the counts are off\<close>

text \<open>
  An invalidation that ends a block in the middle goes on at the part it has just split off
  and counts it again: here it stops before the second block, which it covers.
\<close>

theorem invalidation_misses_a_block:
  fixes core :: "16 word"
  defines "blk a n v c \<equiv> \<lparr>se_elem = a, se_size = n, se_inv = v, se_core = c\<rparr>"
  shows "invalidate_loop ARRAY_PARTIAL \<lparr>pr_elem = 8, pr_size = 16, pr_core = core\<rparr> []
      [blk 0 16 False 0, blk 16 8 False 0] 16 = Some [blk 0 8 False 0, blk 8 8 True core, blk 16 8 False 0]"
proof -
  let ?p = "\<lparr>pr_elem = 8, pr_size = 16, pr_core = core\<rparr>"
  have "invalidate_loop ARRAY_PARTIAL ?p [] [blk 0 16 False 0, blk 16 8 False 0] 16
      = invalidate_loop ARRAY_PARTIAL ?p [blk 0 8 False 0] [blk 8 8 True core, blk 16 8 False 0] 8"
    by (subst invalidate_loop.simps)
      (simp add: blk_def overlap_def ARRAY_PARTIAL_def SPARSE_def ARRAY_DISJOINT_def split_invalidate_def superset_def Let_def)
  also have "\<dots> = Some [blk 0 8 False 0, blk 8 8 True core, blk 16 8 False 0]"
    by (subst invalidate_loop.simps)
      (simp add: blk_def overlap_def ARRAY_PARTIAL_def SPARSE_def ARRAY_DISJOINT_def split_invalidate_def superset_def Let_def)
  finally show ?thesis .
qed

text \<open>
  During the warm-up blocks are put on the stack but not into the filter, so the first access
  after it to a block on the stack is not found: a cold miss, and the block is there twice.
\<close>

theorem warm_blocks_are_cold:
  assumes "filtered model" "pr_size p \<noteq> 0" "warmup_phase r" "\<not> bloom_hash r (hash_addr (pr_elem p))"
    and "ucast (pr_size p) \<le> part_size" "total_bytes r = 0"
  shows "\<exists>r1 r2. access_path model part_size tracked p r = Some (False, r1) \<and> hd (stack r1) = head_entry p
    \<and> access_path model part_size tracked p (r1\<lparr>warmup_phase := False\<rparr>) = Some (False, r2)
    \<and> stack r2 = head_entry p # stack r1 \<and> cold_misses (counters r2) = cold_misses (counters r1) + words4 (pr_size p)"
proof -
  have miss: "access_loop model w tracked p (stack r) [] (pr_size p) 0 h = Some (head_entry p # stack r, cold_miss w (pr_size p) h)"
    for w h and r :: run
    using access_miss [OF assms(1,2), where p = p and rest = "[]" and warm = w and tracked = tracked and before = "stack r"] by simp
  let ?r1 = "r\<lparr>stack := head_entry p # stack r\<rparr>"
  have "access_path model part_size tracked p r = Some (False, ?r1)"
    using assms miss [of True r "counters r"] by (simp add: access_path_def Let_def cold_miss_def)
  moreover have "access_path model part_size tracked p (?r1\<lparr>warmup_phase := False\<rparr>) = Some (False,
      ?r1\<lparr>warmup_phase := False, total_bytes := ucast (pr_size p), bloom_hash := (bloom_hash r)(hash_addr (pr_elem p) := True),
        stack := head_entry p # stack ?r1, counters := cold_miss False (pr_size p) (counters r)\<rparr>)"
    using assms miss [of False ?r1 "counters r"] by (simp add: access_path_def Let_def)
  ultimately show ?thesis by (simp add: cold_miss_def)
qed

definition warm_run :: run where
  "warm_run = \<lparr>stack = [], counters = no_hist, bloom_hash = (\<lambda>_. False), warmup_phase = True, total_bytes = 0\<rparr>"

theorem warm_blocks_are_cold_witness:
  "\<exists>r1 r2. access_path SPARSE 100 True \<lparr>pr_elem = 64, pr_size = 32, pr_core = 0\<rparr> warm_run = Some (False, r1)
    \<and> hd (stack r1) = head_entry \<lparr>pr_elem = 64, pr_size = 32, pr_core = 0\<rparr>
    \<and> access_path SPARSE 100 True \<lparr>pr_elem = 64, pr_size = 32, pr_core = 0\<rparr> (r1\<lparr>warmup_phase := False\<rparr>) = Some (False, r2)
    \<and> stack r2 = head_entry \<lparr>pr_elem = 64, pr_size = 32, pr_core = 0\<rparr> # stack r1
    \<and> cold_misses (counters r2) = cold_misses (counters r1) + words4 32"
  using warm_blocks_are_cold [of SPARSE "\<lparr>pr_elem = 64, pr_size = 32, pr_core = 0\<rparr>" warm_run 100 True]
  by (simp add: filtered_def warm_run_def)

text \<open>The accesses of kernels that are not tracked count as cold misses all the same.\<close>

theorem cold_misses_of_other_kernels:
  assumes "filtered model" "pr_size p \<noteq> 0" "\<not> warmup_phase r" "\<not> bloom_hash r (hash_addr (pr_elem p))"
    and "total_bytes r + ucast (pr_size p) \<le> part_size"
  shows "\<exists>r'. access_path model part_size False p r = Some (False, r')
    \<and> cold_misses (counters r') = cold_misses (counters r) + words4 (pr_size p)"
  using assms access_miss [OF assms(1,2), where p = p and rest = "[]" and warm = False and tracked = False and before = "stack r"]
  by (simp add: access_path_def Let_def cold_miss_def)

text \<open>Two blocks of 16 and 32 bytes, accessed in turn.\<close>

definition ex_sz :: "64 word \<Rightarrow> 32 word" where
  "ex_sz a = (if a = 64 then 16 else 32)"

definition ex_access :: "64 word \<Rightarrow> elem" where
  "ex_access a = \<lparr>el_id = a, el_tsc = 1, el_size = ex_sz a, el_core = 0, el_kernel = 0\<rparr>"

theorem histogram_counts_reuse_distances_witness:
  "\<exists>r. do_one_histogram_mem RWI_TRACE_MAGIC SPARSE [ex_access 64, ex_access 128, ex_access 64] 0 0 whole (-1) [] no_hist = Some (Inr r)
    \<and> distance_vector (counters r) = reuses (reuse_bytes ex_sz) ex_sz [64, 128, 64] \<and> cold_misses (counters r) = first_uses ex_sz [64, 128, 64]
    \<and> map se_elem (stack r) = [64, 128]"
  using histogram_counts_reuse_distances [of SPARSE RWI_TRACE_MAGIC ex_sz "[ex_access 64, ex_access 128, ex_access 64]"]
  by (auto simp: filtered_def block_trace_def ex_access_def ex_sz_def el_bytes_def insert_commute [of 64 128])

lemma reuse_example: "reuse_bytes ex_sz [64, 128] 64 = 48"
  by (simp add: reuse_bytes_def ex_sz_def)

text \<open>Three blocks of nearly 2 GiB: the distance of 6 GiB is counted as one of 2 GiB.\<close>

lemma long_distance_wraps:
  "reuse_bytes (\<lambda>_. 2147483644) [1, 2, 3] 1 = 6442450932" "counted_bytes (\<lambda>_. 2147483644) [1, 2, 3] 1 = 2147483644"
  by (simp_all add: counted_bytes_def reuse_bytes_def)


end
