(* ===== verification/Krd_Partial.thy ===== *)
theory Krd_Partial
  imports Krd_Reuse
begin

unbundle bit_operations_syntax

text \<open>
  Reuse histograms of blocks that may overlap in part (the model \<open>ARRAY_PARTIAL\<close> of
  \<open>loi/krd.c\<close>). A stack stands for the list of the bytes of its entries. An access is a move to
  front of the bytes of its block, an invalidation only shortens the list at its end; every
  loop returns, and outside a warm-up every tracked word is counted exactly once.
\<close>

section \<open>Stacks as lists of bytes\<close>

definition block :: "stack_entry \<Rightarrow> nat list" where
  "block s = [unat (se_elem s)..<unat (se_elem s) + unat (se_size s)]"

definition in_block :: "probe \<Rightarrow> nat \<Rightarrow> bool" where
  "in_block p x = (unat (pr_elem p) \<le> x \<and> x < unat (pr_elem p) + unat (pr_size p))"

definition flat :: "stack_entry list \<Rightarrow> nat list" where
  "flat st = concat (map block st)"

definition entry_ok :: "nat \<Rightarrow> stack_entry \<Rightarrow> bool" where
  "entry_ok g s = (0 < se_size s \<and> unat (se_size s) \<le> 2 ^ 31 \<and> unat (se_elem s) + unat (se_size s) < 2 ^ 64 \<and>
     g dvd unat (se_elem s) \<and> g dvd unat (se_size s))"

definition probe_ok :: "nat \<Rightarrow> probe \<Rightarrow> bool" where
  "probe_ok g p = (0 < pr_size p \<and> unat (pr_size p) \<le> 2 ^ 31 \<and> unat (pr_elem p) + unat (pr_size p) < 2 ^ 64 \<and>
     g dvd unat (pr_elem p) \<and> g dvd unat (pr_size p))"

definition stack_ok :: "nat \<Rightarrow> stack_entry list \<Rightarrow> bool" where
  "stack_ok g st = (list_all (entry_ok g) st \<and> distinct (flat st))"

lemma unat_ucast_3264 [simp]: "unat (ucast (n :: 32 word) :: 64 word) = unat n"
  using unsigned_less [of n, where 'a = nat] by (simp add: unsigned_ucast_eq take_bit_nat_eq_self)

lemma unat_end: "unat a + unat (n :: 32 word) < 2 ^ 64 \<Longrightarrow> unat (a + ucast n :: 64 word) = unat a + unat n"
  by (simp add: unat_word_ariths)

lemma word_size_pos: "0 < (n :: 'a::len word) \<longleftrightarrow> 0 < unat n"
  by (simp add: word_less_nat_alt)

lemma unat_ucast_6432: "unat (a :: 64 word) < 2 ^ 32 \<Longrightarrow> unat (ucast a :: 32 word) = unat a"
  by (simp add: unsigned_ucast_eq take_bit_nat_eq_self)

lemma partial_overlap:
  assumes "entry_ok g s" "probe_ok g p"
  shows "case overlap ARRAY_PARTIAL (se_elem s) (se_size s) (pr_elem p) (pr_size p) of
      None \<Rightarrow> filter (in_block p) (block s) = []
    | Some (start, bytes) \<Rightarrow>
        unat start = max (unat (se_elem s)) (unat (pr_elem p)) \<and>
        unat start + unat bytes = min (unat (se_elem s) + unat (se_size s)) (unat (pr_elem p) + unat (pr_size p)) \<and>
        0 < unat bytes"
proof -
  define a n b m where "a = unat (se_elem s)" "n = unat (se_size s)" "b = unat (pr_elem p)" "m = unat (pr_size p)"
  note d = this [symmetric]
  have ub: "n < 2 ^ 32" "m < 2 ^ 32" using unsigned_less [of "se_size s"] unsigned_less [of "pr_size p"] by (simp_all add: a_n_b_m_def)
  have e: "unat (se_elem s + ucast (se_size s)) = a + n" "unat (pr_elem p + ucast (pr_size p)) = b + m" "0 < n" "0 < m"
     "a + n < 2 ^ 64" "b + m < 2 ^ 64"
    using assms by (simp_all add: entry_ok_def probe_ok_def unat_end a_n_b_m_def word_size_pos)
  show ?thesis
  proof (cases "b + m > a \<and> b < a + n")
    case False
    then show ?thesis
      using e by (auto simp: overlap_def ARRAY_PARTIAL_def SPARSE_def ARRAY_DISJOINT_def word_less_nat_alt d
        filter_empty_conv block_def in_block_def)
  next
    case True
    have le: "(if se_elem s > pr_elem p then se_elem s else pr_elem p) \<le> (if se_elem s + ucast (se_size s) < pr_elem p + ucast (pr_size p)
       then se_elem s + ucast (se_size s) else pr_elem p + ucast (pr_size p))"
      using True e by (auto simp: word_less_nat_alt word_le_nat_alt d)
    show ?thesis
      using True e ub
      by (auto simp: overlap_def ARRAY_PARTIAL_def SPARSE_def ARRAY_DISJOINT_def word_less_nat_alt word_le_nat_alt d Let_def
         unat_ucast_6432 unat_sub)
  qed
qed
lemma partial_overlap_Some:
  assumes "entry_ok g s" "probe_ok g p"
    and "overlap ARRAY_PARTIAL (se_elem s) (se_size s) (pr_elem p) (pr_size p) = Some (start, bytes)"
  shows "unat start = max (unat (se_elem s)) (unat (pr_elem p))"
    "unat start + unat bytes = min (unat (se_elem s) + unat (se_size s)) (unat (pr_elem p) + unat (pr_size p))"
    "0 < unat bytes" "unat start + unat bytes < 2 ^ 64" "unat (start + ucast bytes) = unat start + unat bytes"
    "g dvd unat start" "g dvd unat bytes"
proof -
  note o = partial_overlap [OF assms(1,2), unfolded assms(3) option.case prod.case]
  then show "unat start = max (unat (se_elem s)) (unat (pr_elem p))"
    "unat start + unat bytes = min (unat (se_elem s) + unat (se_size s)) (unat (pr_elem p) + unat (pr_size p))"
    "0 < unat bytes" by blast+
  show "unat start + unat bytes < 2 ^ 64" using o assms(1) unfolding entry_ok_def by linarith
  then show "unat (start + ucast bytes) = unat start + unat bytes" by (rule unat_end)
  show gs: "g dvd unat start" using o assms(1,2) by (simp add: max_def entry_ok_def probe_ok_def)
  have "g dvd min (unat (se_elem s) + unat (se_size s)) (unat (pr_elem p) + unat (pr_size p))"
    using assms(1,2) by (simp add: min_def entry_ok_def probe_ok_def)
  then have "g dvd unat start + unat bytes" using o by metis
  with gs show "g dvd unat bytes" by (simp add: dvd_add_right_iff)
qed

lemma partial_matched:
  assumes ok: "entry_ok g s" "probe_ok g p"
    and m: "overlap ARRAY_PARTIAL (se_elem s) (se_size s) (pr_elem p) (pr_size p) = Some (start, bytes)"
  shows "filter (in_block p) (block s) = [unat start..<unat start + unat bytes]"
    "matching_bytes start bytes (pr_elem p) (pr_size p) = bytes"
proof -
  note o = partial_overlap_Some [OF ok m]
  show "filter (in_block p) (block s) = [unat start..<unat start + unat bytes]"
    by (rule sorted_distinct_set_unique) (use o in \<open>auto simp: sorted_wrt_filter block_def in_block_def\<close>)
  show "matching_bytes start bytes (pr_elem p) (pr_size p) = bytes"
    using o ok by (simp add: matching_bytes_def word_less_nat_alt unat_end probe_ok_def)
qed

lemma flat_simps [simp]: "flat [] = []" "flat (s # st) = block s @ flat st" "flat (st @ st') = flat st @ flat st'"
  by (simp_all add: flat_def)

lemma filter_empty_not: "filter P xs = [] \<Longrightarrow> filter (\<lambda>x. \<not> P x) xs = xs"
  by (simp add: filter_empty_conv filter_id_conv)

definition invalid_part :: "probe \<Rightarrow> 64 word \<Rightarrow> 32 word \<Rightarrow> stack_entry" where
  "invalid_part p start bytes = \<lparr>se_elem = start, se_size = bytes, se_inv = True, se_core = pr_core p\<rparr>"

lemma partial_shape:
  assumes ok: "entry_ok g s" "probe_ok g p"
    and m: "overlap ARRAY_PARTIAL (se_elem s) (se_size s) (pr_elem p) (pr_size p) = Some (start, bytes)"
    and sup: "\<not> superset s start bytes"
  shows "\<exists>lo hi. split_access s start bytes = lo @ hi \<and> split_invalidate p s start bytes = lo @ invalid_part p start bytes # hi \<and>
    block s = flat lo @ [unat start..<unat start + unat bytes] @ flat hi \<and> list_all (entry_ok g) (lo @ hi) \<and>
    filter (in_block p) (flat (lo @ hi)) = [] \<and> length lo \<le> 1 \<and> length hi \<le> 1 \<and>
    (lo = [] \<or> hi = [] \<or> bytes = pr_size p) \<and> list_all (\<lambda>q. se_inv q = se_inv s) (lo @ hi)"
proof -
  define a n b m where "a = unat (se_elem s)" "n = unat (se_size s)" "b = unat (pr_elem p)" "m = unat (pr_size p)"
  note d = this [symmetric]
  note o = partial_overlap_Some [OF ok m, unfolded d]
  have ub: "n < 2 ^ 32" "m < 2 ^ 32" using unsigned_less [of "se_size s"] unsigned_less [of "pr_size p"] by (simp_all add: a_n_b_m_def)
  have e: "unat (se_elem s + ucast (se_size s)) = a + n" "0 < n" "0 < m" "a + n < 2 ^ 64" "b + m < 2 ^ 64"
      "n \<le> 2 ^ 31" "m \<le> 2 ^ 31" "g dvd a" "g dvd n" "g dvd b" "g dvd m" "g dvd a + n" "g dvd b + m"
    using ok by (simp_all add: entry_ok_def probe_ok_def unat_end a_n_b_m_def word_size_pos)
  note w = word_less_nat_alt word_le_nat_alt d unat_sub
  have s: "\<not> (b \<le> a \<and> a + n \<le> b + m)" using o e sup by (auto simp: superset_def w)
  have u: "[i..<k] = [i..<j] @ [j..<k]" if "i \<le> j" "j \<le> k" for i j k :: nat
    using upt_add_eq_append [OF that(1), of "k - j"] that by simp
  consider (inner) "a < b" "b + m < a + n" | (first) "b \<le> a" "b + m < a + n" | (last) "a < b" "a + n \<le> b + m"
    using s by linarith
  then show ?thesis
  proof cases
    case inner
    let ?lo = "s\<lparr>se_size := ucast (start - se_elem s)\<rparr>"
    let ?hi = "s\<lparr>se_elem := start + ucast bytes, se_size := ucast (se_elem s + ucast (se_size s) - (start + ucast bytes))\<rparr>"
    have p: "split_access s start bytes = [?lo] @ [?hi]" "split_invalidate p s start bytes = [?lo] @ invalid_part p start bytes # [?hi]"
      using inner o e sup by (simp_all add: split_access_def split_invalidate_def invalid_part_def w)
    have z: "unat (ucast (start - se_elem s) :: 32 word) = b - a"
      "unat (ucast (se_elem s + ucast (se_size s) - (start + ucast bytes)) :: 32 word) = a + n - (b + m)"
      using inner o e ub by (subst unat_ucast_6432; simp add: w)+
    then have k: "entry_ok g ?lo" "entry_ok g ?hi" "block ?lo = [a..<b]" "block ?hi = [b + m..<a + n]" "block s = [a..<b] @ [b..<b + m] @ [b + m..<a + n]"
      using inner o e u [of a b "a + n"] u [of b "b + m" "a + n"] by (simp_all add: entry_ok_def block_def w)
    have "bytes = pr_size p" using inner o by (intro word_unat_eq_iff [THEN iffD2]) (simp add: d)
    with k inner o p show ?thesis
      by - (rule exI [of _ "[?lo]"], rule exI [of _ "[?hi]"], auto simp: flat_def in_block_def d filter_empty_conv)
  next
    case first
    let ?hi = "s\<lparr>se_elem := start + ucast bytes, se_size := se_size s - bytes\<rparr>"
    have p: "split_access s start bytes = [] @ [?hi]" "split_invalidate p s start bytes = [] @ invalid_part p start bytes # [?hi]"
      using first o e sup by (auto simp: split_access_def split_invalidate_def invalid_part_def w word_unat_eq_iff)
    have z: "unat (se_size s - bytes) = a + n - (b + m)" using first o e by (auto simp: w)
    then have k: "entry_ok g ?hi" "block ?hi = [b + m..<a + n]" "block s = [a..<b + m] @ [b + m..<a + n]"
      using first o e u [of a "b + m" "a + n"] by (auto simp: entry_ok_def block_def w)
    with first o show ?thesis
      by - (rule exI [of _ "[]"], rule exI [of _ "[?hi]"], auto simp: p flat_def in_block_def d filter_empty_conv)
  next
    case last
    let ?lo = "s\<lparr>se_size := se_size s - bytes\<rparr>"
    have p: "split_access s start bytes = [?lo] @ []" "split_invalidate p s start bytes = [?lo] @ invalid_part p start bytes # []"
      using last o e sup by (auto simp: split_access_def split_invalidate_def invalid_part_def w word_unat_eq_iff)
    have z: "unat (se_size s - bytes) = b - a" using last o e by (auto simp: w)
    then have k: "entry_ok g ?lo" "block ?lo = [a..<b]" "block s = [a..<b] @ [b..<a + n]"
      using last o e u [of a b "a + n"] by (auto simp: entry_ok_def block_def w)
    with last o show ?thesis
      by - (rule exI [of _ "[?lo]"], rule exI [of _ "[]"], auto simp: p flat_def in_block_def d filter_empty_conv)
  qed
qed

lemma partial_pieces:
  assumes ok: "entry_ok g s" "probe_ok g p"
    and m: "overlap ARRAY_PARTIAL (se_elem s) (se_size s) (pr_elem p) (pr_size p) = Some (start, bytes)"
    and pieces: "pieces = (if superset s start bytes then [] else split_access s start bytes)"
  shows "flat pieces = filter (\<lambda>x. \<not> in_block p x) (block s) \<and> list_all (entry_ok g) pieces \<and> (length pieces \<le> 1 \<or> bytes = pr_size p)"
proof (cases "superset s start bytes")
  case True
  then have "filter (\<lambda>x. \<not> in_block p x) (block s) = []"
    using partial_overlap_Some [OF ok m] ok
    by (auto simp: superset_def block_def in_block_def filter_empty_conv word_le_nat_alt entry_ok_def unat_end)
  with True show ?thesis by (simp add: pieces)
next
  case False
  then obtain lo hi where p: "split_access s start bytes = lo @ hi" "list_all (entry_ok g) (lo @ hi)"
    "block s = flat lo @ [unat start..<unat start + unat bytes] @ flat hi" "length lo \<le> 1" "length hi \<le> 1"
    "lo = [] \<or> hi = [] \<or> bytes = pr_size p" "filter (in_block p) (flat (lo @ hi)) = []"
    using partial_shape [OF ok m] by blast
  have "filter (\<lambda>x. \<not> in_block p x) [unat start..<unat start + unat bytes] = []"
    using partial_overlap_Some [OF ok m] by (auto simp: in_block_def filter_empty_conv)
  then have "filter (\<lambda>x. \<not> in_block p x) (block s) = flat (lo @ hi)"
    using p(7) by (simp add: p(3) filter_empty_not)
  with p False show ?thesis by (auto simp: pieces)
qed

definition common :: "probe \<Rightarrow> stack_entry \<Rightarrow> nat" where
  "common p s = length (filter (in_block p) (block s))"

fun visits :: "probe \<Rightarrow> 32 word \<Rightarrow> stack_entry list \<Rightarrow> (stack_entry \<times> 32 word \<times> nat) list" where
  "visits p d [] = []"
| "visits p d (s # ss) = (s, d + se_size s, common p s) # visits p (d + se_size s) ss"

definition count_visit :: "bool \<Rightarrow> bool \<Rightarrow> probe \<Rightarrow> stack_entry \<times> 32 word \<times> nat \<Rightarrow> hist \<Rightarrow> hist" where
  "count_visit warm tracked p v h = (case v of (s, d, n) \<Rightarrow>
     count_match warm tracked s (pr_core p) (if d > pr_size p then d else pr_size p) (of_nat n) h)"

lemma add_at_0 [simp]: "add_at b 0 v = v"
  by (simp add: add_at_def)

lemma count_match_0 [simp]: "count_match warm tracked s core b 0 h = h"
  by (simp add: count_match_def words4_def add_at_def Let_def)

lemma cold_miss_0 [simp]: "cold_miss warm 0 h = h"
  by (simp add: cold_miss_def words4_def)

lemma count_visit_simp: "count_visit warm tracked p (s, d, n) h =
    count_match warm tracked s (pr_core p) (if d > pr_size p then d else pr_size p) (of_nat n) h"
  by (simp add: count_visit_def)

lemma unmatched_visits: "filter (in_block p) (flat st) = [] \<Longrightarrow> fold (count_visit warm tracked p) (visits p d st) h = h"
  by (induction st arbitrary: d) (simp_all add: common_def count_visit_simp)

lemma partial_access_loop:
  assumes "probe_ok g p" "list_all (entry_ok g) (before @ rest)" "filter (in_block p) (flat before) = []"
    "length (filter (in_block p) (flat rest)) \<le> unat pending" "pending \<le> pr_size p" "pending \<noteq> 0"
  shows "\<exists>st. access_loop ARRAY_PARTIAL warm tracked p before rest pending dist h =
      Some (head_entry p # st, cold_miss warm (pending - of_nat (length (filter (in_block p) (flat rest))))
        (fold (count_visit warm tracked p) (visits p dist rest) h)) \<and>
    flat st = flat before @ filter (\<lambda>x. \<not> in_block p x) (flat rest) \<and> list_all (entry_ok g) st"
  using assms
proof (induction rest arbitrary: before pending dist h)
  case Nil
  then show ?case by (subst access_loop.simps) simp
next
  case (Cons s after)
  let ?d = "dist + se_size s"
  show ?case
  proof (cases "overlap ARRAY_PARTIAL (se_elem s) (se_size s) (pr_elem p) (pr_size p)")
    case None
    then have none: "filter (in_block p) (block s) = []"
      using partial_overlap [of g s p] Cons.prems by simp
    then have "filter (in_block p) (flat (before @ [s])) = []" using Cons.prems by simp
    with Cons.IH [of "before @ [s]" pending ?d h] none None Cons.prems show ?thesis
      by (subst access_loop.simps) (simp add: Let_def count_visit_simp common_def filter_empty_not if_not_P)
  next
    case (Some m)
    obtain start bytes where m: "m = (start, bytes)" by (cases m)
    define pieces where "pieces = (if superset s start bytes then [] else split_access s start bytes)"
    have ok: "entry_ok g s" using Cons.prems by simp
    note match = partial_matched [OF ok Cons.prems(1) Some [unfolded m]]
    have pc: "flat pieces = filter (\<lambda>x. \<not> in_block p x) (block s)" "list_all (entry_ok g) pieces"
       "length pieces \<le> 1 \<or> bytes = pr_size p"
      using partial_pieces [OF ok Cons.prems(1) Some [unfolded m] pieces_def] by simp_all
    have c: "common p s = unat bytes" by (simp add: common_def match(1))
    have le: "unat bytes + length (filter (in_block p) (flat after)) \<le> unat pending" using Cons.prems(4) match(1) by simp
    have sub: "unat (pending - bytes) = unat pending - unat bytes" using le by (simp add: unat_sub word_le_nat_alt)
    define h' where "h' = count_visit warm tracked p (s, ?d, common p s) h"
    have step: "access_loop ARRAY_PARTIAL warm tracked p before (s # after) pending dist h =
       (if pending - bytes = 0 then Some (head_entry p # before @ pieces @ after, h')
        else access_loop ARRAY_PARTIAL warm tracked p (before @ take 1 pieces) (drop 1 pieces @ after) (pending - bytes) ?d h')"
      by (subst access_loop.simps) (simp add: Some m match(2) Let_def pieces_def h'_def count_visit_simp c)
    have fl: "filter (\<lambda>x. \<not> in_block p x) (flat (s # after)) = flat pieces @ filter (\<lambda>x. \<not> in_block p x) (flat after)"
      by (simp add: pc)
    show ?thesis
    proof (cases "pending - bytes = 0")
      case True
      then have none: "filter (in_block p) (flat after) = []" using le by (simp add: sub [symmetric])
      with True step fl pc Cons.prems show ?thesis
        by (auto simp: unmatched_visits h'_def filter_empty_not match(1))
    next
      case False
      have "bytes \<noteq> pr_size p"
      proof
        assume "bytes = pr_size p"
        then have "pending = bytes" using le Cons.prems(5) by (simp add: word_le_nat_alt word_unat_eq_iff)
        with False show False by simp
      qed
      then have d0: "drop 1 pieces = []" "take 1 pieces = pieces" using pc(3) by simp_all
      have "length (filter (in_block p) (flat after)) \<le> unat (pending - bytes)" using le sub by simp
      moreover have "pending - bytes \<le> pr_size p" using Cons.prems sub by (simp add: word_le_nat_alt)
      ultimately show ?thesis
        using Cons.IH [of "before @ pieces" "pending - bytes" ?d h'] False Cons.prems pc step fl d0
        by (auto simp: match(1) h'_def algebra_simps)
    qed
  qed
qed

text \<open>The valid bytes, and the steps an invalidation has left.\<close>

definition valid_bytes :: "stack_entry list \<Rightarrow> nat set" where
  "valid_bytes st = set (flat (filter (\<lambda>s. \<not> se_inv s) st))"

definition loses_only :: "probe \<Rightarrow> nat set \<Rightarrow> nat set \<Rightarrow> bool" where
  "loses_only p A B = (B \<subseteq> A \<and> {x \<in> A. \<not> in_block p x} \<subseteq> B)"

lemma valid_bytes_simps [simp]: "valid_bytes [] = {}"
  "valid_bytes (s # st) = (if se_inv s then {} else set (block s)) \<union> valid_bytes st"
  "valid_bytes (st @ st') = valid_bytes st \<union> valid_bytes st'"
  by (simp_all add: valid_bytes_def)

lemma loses_only_trans: "loses_only p A B \<Longrightarrow> loses_only p B C \<Longrightarrow> loses_only p A C"
  by (auto simp: loses_only_def)

lemma loses_only_Un: "loses_only p A B \<Longrightarrow> loses_only p (C \<union> A \<union> D) (C \<union> B \<union> D)"
  by (auto simp: loses_only_def)

lemma loses_only_refl [simp]: "loses_only p A A"
  by (simp add: loses_only_def)

definition weight :: "probe \<Rightarrow> stack_entry \<Rightarrow> nat" where
  "weight p s = (if 0 < common p s \<and> common p s < length (block s) then 3 else 1)"

definition weights :: "probe \<Rightarrow> stack_entry list \<Rightarrow> nat" where
  "weights p st = sum_list (map (weight p) st)"

lemma weight_uncovered: "filter (in_block p) (block s) = [] \<Longrightarrow> weight p s = 1"
  by (simp add: weight_def common_def)

lemma partial_invalid_pieces:
  assumes ok: "entry_ok g s" "probe_ok g p"
    and m: "overlap ARRAY_PARTIAL (se_elem s) (se_size s) (pr_elem p) (pr_size p) = Some (start, bytes)"
  shows "flat (split_invalidate p s start bytes) = block s" "list_all (entry_ok g) (split_invalidate p s start bytes)"
    "split_invalidate p s start bytes \<noteq> []" "weights p (drop 1 (split_invalidate p s start bytes)) < weight p s"
    "loses_only p (valid_bytes [s]) (valid_bytes (split_invalidate p s start bytes))"
proof -
  note o = partial_overlap_Some [OF ok m]
  have "flat (split_invalidate p s start bytes) = block s \<and> list_all (entry_ok g) (split_invalidate p s start bytes) \<and>
    split_invalidate p s start bytes \<noteq> [] \<and> weights p (drop 1 (split_invalidate p s start bytes)) < weight p s \<and>
    loses_only p (valid_bytes [s]) (valid_bytes (split_invalidate p s start bytes))"
  proof (cases "superset s start bytes")
    case True
    then have "\<forall>x\<in>set (block s). in_block p x"
      using o ok by (auto simp: superset_def block_def in_block_def word_le_nat_alt entry_ok_def unat_end)
    with True show ?thesis using ok
      by (auto simp: split_invalidate_def block_def entry_ok_def weights_def weight_def loses_only_def)
  next
    case False
    then obtain lo hi where p: "split_invalidate p s start bytes = lo @ invalid_part p start bytes # hi" "list_all (entry_ok g) (lo @ hi)"
      "block s = flat lo @ [unat start..<unat start + unat bytes] @ flat hi" "length lo \<le> 1" "length hi \<le> 1"
      "filter (in_block p) (flat (lo @ hi)) = []" "split_access s start bytes = lo @ hi"
      "list_all (\<lambda>q. se_inv q = se_inv s) (lo @ hi)"
      using partial_shape [OF ok m] by blast
    let ?v = "invalid_part p start bytes"
    have bv: "block ?v = [unat start..<unat start + unat bytes]" by (simp add: block_def invalid_part_def)
    have cv: "filter (in_block p) (block ?v) = block ?v"
      using o by (auto simp: bv in_block_def filter_id_conv)
    have "unat bytes \<le> 2 ^ 31" using o(1,2) ok unfolding entry_ok_def by linarith
    then have ev: "entry_ok g ?v" using o(3,4,6,7) by (simp add: entry_ok_def invalid_part_def word_size_pos)
    have wv: "weight p ?v = 1" by (simp add: weight_def common_def cv)
    have "filter (\<lambda>x. in_block p x) (block s) = block ?v" using p(6) cv by (simp add: p(3) bv)
    moreover have "lo @ hi \<noteq> []" using False o by (auto simp: p(7) [symmetric] split_access_def)
    then have "flat lo @ flat hi \<noteq> []" using p(2) by (auto simp: flat_def block_def entry_ok_def word_size_pos neq_Nil_conv)
    ultimately have ws: "weight p s = 3" using o by (auto simp: weight_def common_def bv p(3))
    have w1: "map (weight p) (lo @ hi) = map (\<lambda>_. 1) (lo @ hi)"
      using p(6) by (auto simp: flat_def filter_empty_conv weight_uncovered)
    have "valid_bytes l = (if se_inv s then {} else set (flat l))" if "list_all (\<lambda>q. se_inv q = se_inv s) l" for l
      using that by (induction l) auto
    then have "valid_bytes (lo @ hi) = (if se_inv s then {} else set (flat (lo @ hi)))" using p(8) by blast
    then have lo: "loses_only p (valid_bytes [s]) (valid_bytes (split_invalidate p s start bytes))"
      using o by (auto simp: loses_only_def p(1,3) invalid_part_def in_block_def split: if_splits)
    show ?thesis
    proof (cases lo)
      case Nil
      with p ev bv wv ws w1 lo show ?thesis by (cases hi) (auto simp: weights_def)
    next
      case (Cons l ls)
      with p ev bv wv ws w1 lo show ?thesis by (cases hi) (auto simp: weights_def)
    qed
  qed
  then show "flat (split_invalidate p s start bytes) = block s" "list_all (entry_ok g) (split_invalidate p s start bytes)"
    "split_invalidate p s start bytes \<noteq> []" "weights p (drop 1 (split_invalidate p s start bytes)) < weight p s"
    "loses_only p (valid_bytes [s]) (valid_bytes (split_invalidate p s start bytes))" by blast+
qed

lemma weights_simps [simp]: "weights p [] = 0" "weights p (s # st) = weight p s + weights p st" "weights p (st @ st') = weights p st + weights p st'"
  by (simp_all add: weights_def)

lemma weight_pos: "0 < weight p s"
  by (simp add: weight_def)

lemma partial_invalidate_loop:
  assumes "probe_ok g p" "list_all (entry_ok g) (before @ rest)"
  shows "\<exists>st k. invalidate_loop ARRAY_PARTIAL p before rest pending = Some st \<and>
    flat st = take k (flat (before @ rest)) \<and> list_all (entry_ok g) st \<and>
    loses_only p (valid_bytes (before @ rest)) (valid_bytes st)"
  using assms
proof (induction "weights p rest" arbitrary: before rest pending rule: less_induct)
  case less
  show ?case
  proof (cases rest)
    case Nil
    then show ?thesis using less.prems
      by (subst invalidate_loop.simps) (auto intro: exI [of _ "length (flat before)"])
  next
    case (Cons s after)
    define m where "m = overlap ARRAY_PARTIAL (se_elem s) (se_size s) (pr_elem p) (pr_size p)"
    define pieces where "pieces = (case m of None \<Rightarrow> [s] | Some (start, bytes) \<Rightarrow> split_invalidate p s start bytes)"
    define pending' where "pending' = (case m of None \<Rightarrow> pending | Some (start, bytes) \<Rightarrow> pending - bytes)"
    have ok: "entry_ok g s" using less.prems Cons by simp
    have pc: "flat pieces = block s" "list_all (entry_ok g) pieces" "pieces \<noteq> []" "weights p (drop 1 pieces) < weight p s"
      "loses_only p (valid_bytes [s]) (valid_bytes pieces)"
      using partial_invalid_pieces [OF ok less.prems(1)] ok weight_pos [of p s]
      by (auto simp: pieces_def m_def split: option.split)
    have lose: "loses_only p (valid_bytes (before @ rest)) (valid_bytes (before @ pieces @ after))"
      using loses_only_Un [OF pc(5), of "valid_bytes before" "valid_bytes after"] by (simp add: Cons Un_assoc)
    have step: "invalidate_loop ARRAY_PARTIAL p before rest pending =
       (if pending' = 0 then Some (before @ pieces @ after)
        else if drop 1 pieces @ after = [] \<and> before \<noteq> [] \<and> se_inv (hd pieces) then Some before
        else invalidate_loop ARRAY_PARTIAL p (before @ take 1 pieces) (drop 1 pieces @ after) pending')"
      by (subst invalidate_loop.simps) (simp only: Cons list.case Let_def m_def [symmetric] pieces_def [symmetric] pending'_def [symmetric])
    consider (fin) "pending' = 0" | (cut) "pending' \<noteq> 0" "drop 1 pieces @ after = [] \<and> before \<noteq> [] \<and> se_inv (hd pieces)"
      | (more) "pending' \<noteq> 0" "\<not> (drop 1 pieces @ after = [] \<and> before \<noteq> [] \<and> se_inv (hd pieces))" by blast
    then show ?thesis
    proof cases
      case fin
      then have "invalidate_loop ARRAY_PARTIAL p before rest pending = Some (before @ pieces @ after)" using step by simp
      then show ?thesis using less.prems Cons pc lose
        by (auto intro!: exI [of _ "length (flat (before @ rest))"])
    next
      case cut
      then obtain q where "pieces = [q]" "se_inv q" "after = []" using pc(3) by (cases pieces) auto
      then have "valid_bytes (before @ pieces @ after) = valid_bytes before" by simp
      with cut less.prems step lose show ?thesis by (auto intro!: exI [of _ "length (flat before)"])
    next
      case more
      obtain q qs where q: "pieces = q # qs" using pc(3) by (cases pieces) auto
      have fl: "flat ((before @ take 1 pieces) @ drop 1 pieces @ after) = flat (before @ rest)"
        using pc by (simp add: Cons q)
      have vl: "valid_bytes ((before @ take 1 pieces) @ drop 1 pieces @ after) = valid_bytes (before @ pieces @ after)"
        by (auto simp: q)
      have "list_all (entry_ok g) ((before @ take 1 pieces) @ drop 1 pieces @ after)"
        using pc(2) less.prems by (simp add: Cons q)
      moreover have "weights p (drop 1 pieces @ after) < weights p rest" using pc(4) by (simp add: Cons)
      ultimately show ?thesis
        using less.hyps [of "drop 1 pieces @ after" "before @ take 1 pieces" pending'] less.prems(1) more step fl vl loses_only_trans [OF lose]
        by (simp only: if_False) (metis append.assoc)
    qed
  qed
qed

lemma covered_length:
  assumes "distinct xs"
  shows "length (filter (in_block p) xs) \<le> unat (pr_size p)"
proof -
  have "set (filter (in_block p) xs) \<subseteq> {unat (pr_elem p)..<unat (pr_elem p) + unat (pr_size p)}"
    by (auto simp: in_block_def)
  then have "card (set (filter (in_block p) xs)) \<le> card {unat (pr_elem p)..<unat (pr_elem p) + unat (pr_size p)}"
    by (rule card_mono [rotated]) simp
  then show ?thesis using assms distinct_card [of "filter (in_block p) xs"] by simp
qed

lemma head_block: "block (head_entry p) = [unat (pr_elem p)..<unat (pr_elem p) + unat (pr_size p)]"
  by (simp add: block_def head_entry_def)

lemma partial_access:
  assumes "stack_ok g st" "probe_ok g p"
  shows "\<exists>st'. access_loop ARRAY_PARTIAL warm tracked p [] st (pr_size p) 0 h =
      Some (st', cold_miss warm (pr_size p - of_nat (length (filter (in_block p) (flat st))))
        (fold (count_visit warm tracked p) (visits p 0 st) h)) \<and>
    flat st' = block (head_entry p) @ filter (\<lambda>x. \<not> in_block p x) (flat st) \<and> stack_ok g st'"
proof -
  have "pr_size p \<noteq> 0" using assms(2) by (auto simp: probe_ok_def)
  then obtain st' where "access_loop ARRAY_PARTIAL warm tracked p [] st (pr_size p) 0 h =
      Some (head_entry p # st', cold_miss warm (pr_size p - of_nat (length (filter (in_block p) (flat st))))
        (fold (count_visit warm tracked p) (visits p 0 st) h))"
    "flat st' = filter (\<lambda>x. \<not> in_block p x) (flat st)" "list_all (entry_ok g) st'"
    using partial_access_loop [of g p "[]" st "pr_size p" warm tracked 0 h] assms covered_length [of "flat st" p]
    by (auto simp: stack_ok_def)
  moreover have "entry_ok g (head_entry p)" using assms(2) by (simp add: entry_ok_def probe_ok_def head_entry_def)
  moreover have "distinct (block (head_entry p) @ filter (\<lambda>x. \<not> in_block p x) (flat st))"
    using assms(1) by (auto simp: head_block in_block_def stack_ok_def)
  ultimately show ?thesis by (auto simp: stack_ok_def)
qed

lemma partial_invalidate:
  assumes "stack_ok g st" "probe_ok g p"
  shows "\<exists>st' k. invalidate_loop ARRAY_PARTIAL p [] st pending = Some st' \<and> flat st' = take k (flat st) \<and> stack_ok g st' \<and>
    loses_only p (valid_bytes st) (valid_bytes st')"
  using partial_invalidate_loop [of g p "[]" st pending] assms by (auto simp: stack_ok_def)

section \<open>Words counted\<close>

definition words_counted :: "hist \<Rightarrow> int" where
  "words_counted h = cold_misses h + (\<Sum>b\<le>32. distance_vector h b)"

lemma ceil_log2_size:
  assumes "n \<noteq> 0"
  shows "ceil_log2 (ucast (n :: 32 word)) \<le> 32"
proof -
  have "(ucast n :: 64 word) \<noteq> 0" using assms by (simp add: word_unat_eq_iff)
  then have "2 ^ ceil_log2 (ucast n) < 2 * unat n" using ceil_log2_correct [of "ucast n"] by simp
  also have "\<dots> < 2 ^ 33" using unsigned_less [of n, where 'a = nat] by simp
  finally have "(2::nat) ^ ceil_log2 (ucast n) < 2 ^ 33" .
  then show ?thesis using power_less_imp_less_exp [of "2::nat" "ceil_log2 (ucast n)" 33] by linarith
qed

lemma sum_add_at: "b \<le> n \<Longrightarrow> (\<Sum>i\<le>n. add_at b k v i) = (\<Sum>i\<le>n. v i) + k" for n b :: nat
proof (induction n)
  case 0
  then show ?case by (simp add: add_at_def)
next
  case (Suc n)
  show ?case
  proof (cases "b = Suc n")
    case True
    have "(\<Sum>i\<le>n. add_at b k v i) = (\<Sum>i\<le>n. v i)" by (rule sum.cong) (auto simp: add_at_def True)
    then show ?thesis by (simp add: True add_at_def)
  next
    case False
    with Suc show ?thesis by (simp add: add_at_def)
  qed
qed

lemma words4_of_nat: "n < 2 ^ 32 \<Longrightarrow> words4 (of_nat n) = int (n div 4)"
  by (simp add: words4_def uint_nat unsigned_of_nat take_bit_nat_eq_self zdiv_int)

lemma counted_visit:
  assumes "n < 2 ^ 32" "pr_size p \<noteq> 0"
  shows "words_counted (count_visit False True p (s, d, n) h) = words_counted h + int (n div 4)"
proof -
  have "(if d > pr_size p then d else pr_size p) \<noteq> 0" using assms(2) by auto
  then have "ceil_log2 (ucast (if d > pr_size p then d else pr_size p)) \<le> 32" by (rule ceil_log2_size)
  then show ?thesis using assms(1)
    by (simp add: count_visit_simp count_match_def Let_def words_counted_def words4_of_nat sum_add_at)
qed

lemma common_dvd:
  assumes "entry_ok g s" "probe_ok g p"
  shows "g dvd common p s"
proof (cases "overlap ARRAY_PARTIAL (se_elem s) (se_size s) (pr_elem p) (pr_size p)")
  case None
  with partial_overlap [OF assms] show ?thesis by (simp add: common_def)
next
  case (Some m)
  then obtain start bytes where m: "overlap ARRAY_PARTIAL (se_elem s) (se_size s) (pr_elem p) (pr_size p) = Some (start, bytes)"
    by (cases m) auto
  then have "common p s = unat bytes" using partial_matched(1) [OF assms m] by (simp add: common_def)
  with partial_overlap_Some(7) [OF assms m] show ?thesis by simp
qed

lemma common_small: "common p s < 2 ^ 32"
proof -
  have "common p s \<le> length (block s)" by (simp add: common_def)
  also have "\<dots> < 2 ^ 32" using unsigned_less [of "se_size s", where 'a = nat] by (simp add: block_def)
  finally show ?thesis .
qed

lemma counted_visits:
  assumes "list_all (entry_ok 4) st" "probe_ok 4 p"
  shows "words_counted (fold (count_visit False True p) (visits p d st) h) = words_counted h + int (length (filter (in_block p) (flat st)) div 4) \<and>
    4 dvd length (filter (in_block p) (flat st))"
  using assms
proof (induction st arbitrary: d h)
  case Nil
  then show ?case by simp
next
  case (Cons s st)
  have "pr_size p \<noteq> 0" using Cons.prems by (auto simp: probe_ok_def)
  moreover have dv: "4 dvd common p s" using Cons.prems by (intro common_dvd) simp_all
  moreover have "length (filter (in_block p) (flat (s # st))) = common p s + length (filter (in_block p) (flat st))"
    by (simp add: common_def)
  ultimately show ?case using Cons.IH [of "d + se_size s" "count_visit False True p (s, d + se_size s, common p s) h"] Cons.prems
    counted_visit [OF common_small [of p s], of p s "d + se_size s" h]
    by (auto simp: div_plus_div_distrib_dvd_left)
qed

lemma counted_cold: "words_counted (cold_miss False n h) = words_counted h + words4 n"
  by (simp add: words_counted_def cold_miss_def)

text \<open>A tracked access counts all its words.\<close>

lemma partial_access_counted:
  assumes "stack_ok 4 st" "probe_ok 4 p"
  shows "words_counted (cold_miss False (pr_size p - of_nat (length (filter (in_block p) (flat st))))
        (fold (count_visit False True p) (visits p 0 st) h)) = words_counted h + int (unat (pr_size p) div 4)"
proof -
  define n where "n = length (filter (in_block p) (flat st))"
  have "n \<le> unat (pr_size p)" using covered_length [of "flat st" p] assms(1) by (simp add: stack_ok_def n_def)
  moreover have "pr_size p - of_nat n = of_nat (unat (pr_size p) - n)" using calculation by simp
  moreover have "unat (pr_size p) < 2 ^ 32" using unsigned_less [of "pr_size p", where 'a = nat] by simp
  moreover have "4 dvd n" "words_counted (fold (count_visit False True p) (visits p 0 st) h) = words_counted h + int (n div 4)"
    using counted_visits [of st p 0 h] assms by (simp_all add: n_def stack_ok_def)
  moreover have "4 dvd unat (pr_size p)" using assms(2) by (simp add: probe_ok_def)
  moreover have "words4 (of_nat (unat (pr_size p) - n)) = int ((unat (pr_size p) - n) div 4)"
    using calculation by (intro words4_of_nat) linarith
  ultimately show ?thesis unfolding n_def [symmetric] counted_cold
    by (auto elim!: dvdE simp del: of_nat_diff_if)
qed

section \<open>Traces\<close>

lemma probe_bytes: "unat (pr_size (probe_of x)) = nat \<bar>el_bytes x\<bar>"
proof -
  have "-(2 ^ 31) \<le> el_bytes x" "el_bytes x < 2 ^ 31"
    using sint_ge [of "el_size x"] sint_lt [of "el_size x"] by (simp_all add: el_bytes_def)
  then show ?thesis by (simp add: probe_of_def unat_eq_nat_uint uint_word_of_int)
qed

definition block_elem :: "nat \<Rightarrow> elem \<Rightarrow> bool" where
  "block_elem g x = probe_ok g (probe_of x)"

definition known_magic :: "int \<Rightarrow> bool" where
  "known_magic magic = (magic = RAW_TRACE_MAGIC \<or> magic = RWI_TRACE_MAGIC)"

definition accessed_words :: "int \<Rightarrow> elem \<Rightarrow> int" where
  "accessed_words magic x = (if is_invalidation_probe magic (el_size x) = Inr True then 0 else \<bar>el_bytes x\<bar> div 4)"

lemma not_filtered [simp]: "\<not> filtered ARRAY_PARTIAL"
  by (simp add: filtered_def ARRAY_PARTIAL_def ARRAY_DISJOINT_def SPARSE_def)

lemma partial_access_path:
  assumes "stack_ok g (stack r)" "probe_ok g p"
  obtains ended r' where "access_path ARRAY_PARTIAL part_size tracked p r = Some (ended, r')"
    "stack_ok g (stack r')" "part_size = whole \<Longrightarrow> \<not> ended"
    "\<not> ended \<Longrightarrow> flat (stack r') = block (head_entry p) @ filter (\<lambda>x. \<not> in_block p x) (flat (stack r))"
    "\<not> ended \<Longrightarrow> tracked \<Longrightarrow> \<not> warmup_phase r \<Longrightarrow> g = 4 \<Longrightarrow> words_counted (counters r') = words_counted (counters r) + int (unat (pr_size p) div 4)"
    "warmup_phase r' = warmup_phase r"
proof (cases "\<not> warmup_phase r \<and> total_bytes r + ucast (pr_size p) > part_size")
  case True
  then have "part_size \<noteq> whole" by (auto simp: whole_def word_order.extremum_strict)
  with True show ?thesis using that [of True "r\<lparr>total_bytes := total_bytes r + ucast (pr_size p)\<rparr>"] assms
    by (simp add: access_path_def)
next
  case False
  let ?c = "cold_miss (warmup_phase r) (pr_size p - of_nat (length (filter (in_block p) (flat (stack r)))))
        (fold (count_visit (warmup_phase r) tracked p) (visits p 0 (stack r)) (counters r))"
  obtain st' where st': "access_loop ARRAY_PARTIAL (warmup_phase r) tracked p [] (stack r) (pr_size p) 0 (counters r) = Some (st', ?c)"
    "flat st' = block (head_entry p) @ filter (\<lambda>x. \<not> in_block p x) (flat (stack r))" "stack_ok g st'"
    using partial_access [OF assms, of "warmup_phase r" tracked "counters r"] by blast
  let ?r = "(if warmup_phase r then r else r\<lparr>total_bytes := total_bytes r + ucast (pr_size p)\<rparr>)\<lparr>stack := st', counters := ?c\<rparr>"
  have "access_path ARRAY_PARTIAL part_size tracked p r = Some (False, ?r)"
    using False st'(1) by (auto simp: access_path_def Let_def)
  moreover have "tracked \<Longrightarrow> \<not> warmup_phase r \<Longrightarrow> g = 4 \<Longrightarrow> words_counted ?c = words_counted (counters r) + int (unat (pr_size p) div 4)"
    using partial_access_counted [of "stack r" p "counters r"] assms by simp
  ultimately show ?thesis using that [of False ?r] st' by simp
qed

lemma partial_histo_step:
  assumes "stack_ok g (stack r)" "block_elem g x" "known_magic magic" "part_size \<noteq> 0"
  obtains ended r' where "histo_step magic ARRAY_PARTIAL start part_size kid i x r = Some (Inr (ended, r'))"
    "stack_ok g (stack r')" "part_size = whole \<Longrightarrow> \<not> ended"
    "\<not> ended \<Longrightarrow> is_invalidation_probe magic (el_size x) = Inr False \<Longrightarrow>
       flat (stack r') = block (head_entry (probe_of x)) @ filter (\<lambda>a. \<not> in_block (probe_of x) a) (flat (stack r))"
    "\<not> ended \<Longrightarrow> kid = -1 \<Longrightarrow> \<not> warmup_phase r \<Longrightarrow> g = 4 \<Longrightarrow>
       words_counted (counters r') = words_counted (counters r) + accessed_words magic x"
    "\<not> warmup_phase r \<Longrightarrow> \<not> warmup_phase r'"
proof -
  define r1 where "r1 = (if warmup_phase r \<and> i > start then r\<lparr>warmup_phase := False\<rparr> else r)"
  have r1: "stack r1 = stack r" "counters r1 = counters r" "\<not> warmup_phase r \<Longrightarrow> \<not> warmup_phase r1" by (simp_all add: r1_def)
  let ?t = "kid = -1 \<or> sint kid = uint (el_kernel x)"
  have p: "probe_ok g (probe_of x)" using assms(2) by (simp add: block_elem_def)
  obtain v where v: "is_invalidation_probe magic (el_size x) = Inr v"
    using assms(3) by (cases "magic = RAW_TRACE_MAGIC") (auto simp: is_invalidation_probe_def known_magic_def)
  show ?thesis
  proof (cases v)
    case True
    obtain st' k where "invalidate_loop ARRAY_PARTIAL (probe_of x) [] (stack r1) (pr_size (probe_of x)) = Some st'" "stack_ok g st'"
      using partial_invalidate [of g "stack r1" "probe_of x"] assms(1) p r1 by metis
    then show ?thesis
      by (intro that [of False "r1\<lparr>stack := st'\<rparr>"])
        (use v True assms(4) r1 in \<open>auto simp: histo_step_def Let_def r1_def [symmetric] invalidation_path_def accessed_words_def\<close>)
  next
    case False
    have w: "int (unat (pr_size (probe_of x)) div 4) = accessed_words magic x"
      using v False by (simp add: probe_bytes accessed_words_def zdiv_int)
    obtain ended r' where r': "access_path ARRAY_PARTIAL part_size ?t (probe_of x) r1 = Some (ended, r')"
      "stack_ok g (stack r')" "part_size = whole \<Longrightarrow> \<not> ended"
      "\<not> ended \<Longrightarrow> flat (stack r') = block (head_entry (probe_of x)) @ filter (\<lambda>a. \<not> in_block (probe_of x) a) (flat (stack r1))"
      "\<not> ended \<Longrightarrow> ?t \<Longrightarrow> \<not> warmup_phase r1 \<Longrightarrow> g = 4 \<Longrightarrow> words_counted (counters r') = words_counted (counters r1) + int (unat (pr_size (probe_of x)) div 4)"
      "warmup_phase r' = warmup_phase r1"
      using partial_access_path [of g r1 "probe_of x" part_size ?t] assms(1) p r1 by metis
    show ?thesis
      by (rule that [of ended r'])
        (use v False assms(4) r1 r' w in \<open>simp_all add: histo_step_def Let_def r1_def [symmetric]\<close>)
  qed
qed

lemma partial_histo_loop:
  assumes "stack_ok g (stack r)" "list_all (block_elem g) xs" "known_magic magic" "part_size \<noteq> 0"
  shows "\<exists>r'. histo_loop magic ARRAY_PARTIAL start part_size kid i xs r = Some (Inr r') \<and> stack_ok g (stack r') \<and>
    (part_size = whole \<and> (\<forall>x\<in>set xs. is_invalidation_probe magic (el_size x) = Inr False) \<longrightarrow> flat (stack r') =
      fold (\<lambda>x l. block (head_entry (probe_of x)) @ filter (\<lambda>a. \<not> in_block (probe_of x) a) l) xs (flat (stack r))) \<and>
    (part_size = whole \<and> kid = -1 \<and> \<not> warmup_phase r \<and> g = 4 \<longrightarrow>
      words_counted (counters r') = words_counted (counters r) + (\<Sum>x\<leftarrow>xs. accessed_words magic x))"
  using assms
proof (induction xs arbitrary: i r)
  case Nil
  then show ?case by simp
next
  case (Cons x xs)
  have b: "block_elem g x" "list_all (block_elem g) xs" using Cons.prems by simp_all
  obtain ended r1 where r1: "histo_step magic ARRAY_PARTIAL start part_size kid i x r = Some (Inr (ended, r1))"
    "stack_ok g (stack r1)" "part_size = whole \<Longrightarrow> \<not> ended"
    "\<not> ended \<Longrightarrow> is_invalidation_probe magic (el_size x) = Inr False \<Longrightarrow>
       flat (stack r1) = block (head_entry (probe_of x)) @ filter (\<lambda>a. \<not> in_block (probe_of x) a) (flat (stack r))"
    "\<not> ended \<Longrightarrow> kid = -1 \<Longrightarrow> \<not> warmup_phase r \<Longrightarrow> g = 4 \<Longrightarrow>
       words_counted (counters r1) = words_counted (counters r) + accessed_words magic x"
    "\<not> warmup_phase r \<Longrightarrow> \<not> warmup_phase r1"
    using partial_histo_step [OF Cons.prems(1) b(1) Cons.prems(3,4), of start kid i] by metis
  show ?case
  proof (cases ended)
    case True
    with r1 show ?thesis by auto
  next
    case False
    with r1 Cons.IH [OF r1(2) b(2) Cons.prems(3,4), of "i + 1"] show ?thesis by auto
  qed
qed

definition depth :: "stack_entry list \<Rightarrow> nat \<Rightarrow> nat" where
  "depth st i = length (flat (take (Suc i) st))"

definition bucket_of :: "probe \<Rightarrow> nat \<Rightarrow> nat" where
  "bucket_of p d = ceil_log2 (ucast (max (of_nat d) (pr_size p)))"

lemma block_length: "length (block s) = unat (se_size s)"
  by (simp add: block_def)

lemma visits_nth: "visits p (of_nat (length (flat pre))) st =
    map (\<lambda>i. (st ! i, of_nat (length (flat pre) + depth st i), common p (st ! i))) [0..<length st]"
proof (induction st arbitrary: pre)
  case Nil
  then show ?case by simp
next
  case (Cons s st)
  have "visits p (of_nat (length (flat pre)) + se_size s) st =
    map (\<lambda>i. (st ! i, of_nat (length (flat (pre @ [s])) + depth st i), common p (st ! i))) [0..<length st]"
    using Cons.IH [of "pre @ [s]"] by (simp add: block_length)
  moreover have "[0..<length (s # st)] = 0 # map Suc [0..<length st]"
    by (simp add: upt_conv_Cons map_Suc_upt del: upt_Suc)
  ultimately show ?case by (simp add: depth_def block_length algebra_simps comp_def del: upt_Suc)
qed

lemma fold_visits:
  "distance_vector (fold (count_visit False True p) vs h) b = distance_vector h b +
     (\<Sum>(s, d, n)\<leftarrow>vs. if \<not> se_inv s \<and> ceil_log2 (ucast (max d (pr_size p))) = b then words4 (of_nat n) else 0)"
  "cold_misses (fold (count_visit False True p) vs h) = cold_misses h + (\<Sum>(s, d, n)\<leftarrow>vs. if se_inv s then words4 (of_nat n) else 0)"
proof (induction vs arbitrary: h)
  case (Cons v vs)
  obtain s d n where v: "v = (s, d, n)" by (cases v)
  have m: "(if d > pr_size p then d else pr_size p) = max d (pr_size p)" by (auto simp: max_def not_less)
  { case 1 show ?case by (simp only: fold_Cons comp_def Cons.IH(1)) (simp add: v count_visit_simp m count_match_def add_at_def Let_def) }
  { case 2 show ?case by (simp only: fold_Cons comp_def Cons.IH(2)) (simp add: v count_visit_simp m count_match_def Let_def) }
qed simp_all

lemma sum_visits:
  "(\<Sum>(s, d, n)\<leftarrow>visits p 0 st. f s d n) = (\<Sum>i<length st. f (st ! i) (of_nat (depth st i)) (common p (st ! i)))" for f :: "_ \<Rightarrow> _ \<Rightarrow> _ \<Rightarrow> int"
  using visits_nth [of p "[]" st] by (simp add: comp_def interv_sum_list_conv_sum_set_nat atLeast0LessThan)

text \<open>What the stack is to be: the bytes in the order of their last use, the last used first.\<close>

definition last_used :: "elem list \<Rightarrow> nat list" where
  "last_used xs = fold (\<lambda>x l. block (head_entry (probe_of x)) @ filter (\<lambda>a. \<not> in_block (probe_of x) a) l) xs []"

section \<open>Properties\<close>

text \<open>Two adjacent blocks, a probe that overlaps both, and elements of a trace.\<close>

definition ex_stack :: "stack_entry list" where
  "ex_stack = [\<lparr>se_elem = 64, se_size = 8, se_inv = False, se_core = 0\<rparr>, \<lparr>se_elem = 72, se_size = 8, se_inv = False, se_core = 1\<rparr>]"

definition ex_probe :: probe where
  "ex_probe = \<lparr>pr_elem = 68, pr_size = 16, pr_core = 0\<rparr>"

lemmas ex_partial = ex_stack_def ex_probe_def stack_ok_def entry_ok_def probe_ok_def block_def in_block_def head_entry_def common_def depth_def

lemma ex_stack_ok: "stack_ok 1 ex_stack"
  by (simp add: ex_partial)

definition ex_part_access :: "64 word \<Rightarrow> 32 word \<Rightarrow> elem" where
  "ex_part_access a n = zero_elem\<lparr>el_id := a, el_size := n\<rparr>"

lemmas ex_trace = ex_part_access_def block_elem_def probe_of_def el_bytes_def

text \<open>C33. An access of a block outside a warm-up, on a stack of blocks that may overlap it in part, returns;
  the bytes of the block move to the front of the stack and the others keep their order. Each entry
  adds the words it shares with the block at the logarithm of its distance, which counts the bytes
  from the top of the stack down to its end (or the size of the block, if larger); shared words of an
  invalid entry and words found nowhere are cold misses.\<close>

theorem partial_access_distances:
  assumes "stack_ok 1 st" "probe_ok 1 p"
  shows "\<exists>st' h'. access_loop ARRAY_PARTIAL False True p [] st (pr_size p) 0 h = Some (st', h') \<and>
    flat st' = block (head_entry p) @ filter (\<lambda>x. \<not> in_block p x) (flat st) \<and>
    distance_vector h' b = distance_vector h b +
      (\<Sum>i<length st. if \<not> se_inv (st ! i) \<and> bucket_of p (depth st i) = b then int (common p (st ! i) div 4) else 0) \<and>
    cold_misses h' = cold_misses h + (\<Sum>i<length st. if se_inv (st ! i) then int (common p (st ! i) div 4) else 0) +
      int ((unat (pr_size p) - length (filter (in_block p) (flat st))) div 4)"
proof -
  define n where "n = length (filter (in_block p) (flat st))"
  let ?h = "fold (count_visit False True p) (visits p 0 st) h"
  obtain st' where st': "access_loop ARRAY_PARTIAL False True p [] st (pr_size p) 0 h =
      Some (st', cold_miss False (pr_size p - of_nat n) ?h)"
    "flat st' = block (head_entry p) @ filter (\<lambda>x. \<not> in_block p x) (flat st)"
    using partial_access [OF assms, of False True h] unfolding n_def by blast
  have n: "n \<le> unat (pr_size p)" using covered_length [of "flat st" p] assms(1) by (simp add: stack_ok_def n_def)
  then have "pr_size p - of_nat n = of_nat (unat (pr_size p) - n)" by simp
  moreover have "unat (pr_size p) - n < 2 ^ 32" using unsigned_less [of "pr_size p", where 'a = nat] by simp
  ultimately have c: "words4 (pr_size p - of_nat n) = int ((unat (pr_size p) - n) div 4)"
    using words4_of_nat by metis
  show ?thesis unfolding n_def [symmetric]
    by (rule exI [of _ st'], rule exI [of _ "cold_miss False (pr_size p - of_nat n) ?h"])
      (simp add: st' cold_miss_def c fold_visits sum_visits bucket_of_def words4_of_nat [OF common_small] cong: if_cong)
qed

theorem partial_access_distances_witness:
  "\<exists>st' h'. access_loop ARRAY_PARTIAL False True ex_probe [] ex_stack 16 0 no_hist = Some (st', h') \<and>
     flat st' = [68..<84] @ [64..<68] \<and> distance_vector h' 4 = 3 \<and> cold_misses h' = 1"
proof -
  have p: "probe_ok 1 ex_probe" by (simp add: ex_partial)
  have "bucket_of ex_probe 8 = 4" "bucket_of ex_probe 16 = 4" by code_simp+
  moreover have "depth ex_stack 0 = 8" "depth ex_stack 1 = 16" "common ex_probe (ex_stack ! 0) = 4" "common ex_probe (ex_stack ! 1) = 8"
    "length ex_stack = 2" "\<not> se_inv (ex_stack ! 0)" "\<not> se_inv (ex_stack ! 1)" by (simp_all add: ex_partial)
  ultimately have "(\<Sum>i<length ex_stack. if \<not> se_inv (ex_stack ! i) \<and> bucket_of ex_probe (depth ex_stack i) = 4
      then int (common ex_probe (ex_stack ! i) div 4) else 0) = 3" by (simp add: numeral_2_eq_2)
  moreover have "block (head_entry ex_probe) @ filter (\<lambda>x. \<not> in_block ex_probe x) (flat ex_stack) = [68..<84] @ [64..<68]" by (simp add: ex_partial)
  moreover have "(\<Sum>i<length ex_stack. if se_inv (ex_stack ! i) then int (common ex_probe (ex_stack ! i) div 4) else 0) = 0" by (simp add: ex_partial)
  moreover have "(unat (pr_size ex_probe) - length (filter (in_block ex_probe) (flat ex_stack))) div 4 = 1" "pr_size ex_probe = 16" by (simp_all add: ex_partial)
  ultimately show ?thesis using partial_access_distances [OF ex_stack_ok p, of no_hist 4] by (auto simp: no_hist_def)
qed

text \<open>An invalidation of a block returns on every stack of overlapping blocks: the stack still stands
  for the same bytes in the same order, except that some may be missing at its end; no byte becomes valid
  and no byte outside the block becomes invalid.\<close>

theorem invalidation_stays_in_its_block:
  assumes "stack_ok 1 st" "probe_ok 1 p"
  shows "\<exists>st' k. invalidate_loop ARRAY_PARTIAL p [] st pending = Some st' \<and> flat st' = take k (flat st) \<and> stack_ok 1 st' \<and>
    valid_bytes st' \<subseteq> valid_bytes st \<and> {x \<in> valid_bytes st. \<not> in_block p x} \<subseteq> valid_bytes st'"
  using partial_invalidate [OF assms, of pending] by (auto simp: loses_only_def)

theorem invalidation_stays_in_its_block_witness:
  "\<exists>st' k. invalidate_loop ARRAY_PARTIAL ex_probe [] ex_stack 16 = Some st' \<and> flat st' = take k [64..<80] \<and> stack_ok 1 st' \<and>
    {64..<68} \<subseteq> valid_bytes st'"
proof -
  have p: "probe_ok 1 ex_probe" by (simp add: ex_partial)
  have "flat ex_stack = [64..<80]" "{64..<68} \<subseteq> {x \<in> valid_bytes ex_stack. \<not> in_block ex_probe x}" by (auto simp: ex_partial)
  then show ?thesis using invalidation_stays_in_its_block [OF ex_stack_ok p, of 16] by fastforce
qed

text \<open>The histogram of a trace of blocks that may overlap in part is always produced, with
  any warm-up, partition and kernel, and leaves a well-formed stack.\<close>

theorem partial_histogram_returns:
  assumes "stack_ok 1 st" "list_all (block_elem 1) xs" "known_magic magic" "part_size \<noteq> 0"
  shows "\<exists>r. do_one_histogram_mem magic ARRAY_PARTIAL xs warmup start part_size kid st h = Some (Inr r) \<and> stack_ok 1 (stack r)"
proof -
  have "list_all (block_elem 1) (drop warmup xs)" using assms(2) by (auto simp: list_all_iff dest: in_set_dropD)
  with partial_histo_loop [of 1 "run_start warmup start st h" "drop warmup xs" magic part_size start kid warmup] assms
  show ?thesis by (auto simp: do_one_histogram_mem_def run_start_def)
qed

theorem partial_histogram_returns_witness:
  "\<exists>r. do_one_histogram_mem RWI_TRACE_MAGIC ARRAY_PARTIAL [ex_part_access 64 16, ex_part_access 66 (-8), ex_part_access 72 3] 1 2 100 5 ex_stack no_hist
     = Some (Inr r) \<and> stack_ok 1 (stack r)"
  by (rule partial_histogram_returns) (simp_all add: ex_stack_ok ex_trace ex_partial known_magic_def)

text \<open>C32. After a trace without invalidations (a raw trace, or one with invalidations, as the histogram tool
  reads, of which no size is negative) the stack stands for the bytes of its blocks, in the order of their
  last use, the last used first. The blocks are not empty and do not reach over the end of the address space; they may
  overlap in any way.\<close>

theorem partial_stack_is_lru:
  assumes "list_all (block_elem 1) xs"
    and "magic = RAW_TRACE_MAGIC \<or> magic = RWI_TRACE_MAGIC \<and> (\<forall>x\<in>set xs. 0 \<le> el_bytes x)"
  shows "\<exists>r. do_one_histogram_mem magic ARRAY_PARTIAL xs 0 0 whole kid [] no_hist = Some (Inr r) \<and>
    flat (stack r) = last_used xs"
proof -
  have "is_invalidation_probe magic (el_size x) = Inr False" if "x \<in> set xs" for x
    using assms(2) that by (auto simp: is_invalidation_probe_def el_bytes_def)
  then show ?thesis
    using partial_histo_loop [of 1 "run_start 0 0 [] no_hist" xs magic whole 0 kid 0] assms
    by (auto simp: do_one_histogram_mem_def run_start_def known_magic_def whole_def stack_ok_def last_used_def)
qed

theorem partial_stack_is_lru_witness:
  "\<exists>r. do_one_histogram_mem RWI_TRACE_MAGIC ARRAY_PARTIAL [ex_part_access 64 8, ex_part_access 68 8, ex_part_access 70 2] 0 0 whole 3 [] no_hist
     = Some (Inr r) \<and> flat (stack r) = [70..<72] @ [68..<70] @ [72..<76] @ [64..<68]"
proof -
  let ?xs = "[ex_part_access 64 8, ex_part_access 68 8, ex_part_access 70 2]"
  have "list_all (block_elem 1) ?xs" "\<forall>x\<in>set ?xs. 0 \<le> el_bytes x" by (simp_all add: ex_trace ex_partial)
  moreover have "last_used ?xs = [70..<72] @ [68..<70] @ [72..<76] @ [64..<68]"
    by (simp add: ex_trace ex_partial last_used_def)
  ultimately show ?thesis using partial_stack_is_lru [of ?xs RWI_TRACE_MAGIC 3] by simp
qed

text \<open>C34. In the histogram of a whole trace of aligned blocks, with invalidations or not, every word of every
  access is counted exactly once, as a reuse or as a cold miss.\<close>

theorem every_word_is_counted:
  assumes "list_all (block_elem 4) xs" "known_magic magic"
  shows "\<exists>r. do_one_histogram_mem magic ARRAY_PARTIAL xs 0 0 whole (-1) [] no_hist = Some (Inr r) \<and>
    cold_misses (counters r) + (\<Sum>b\<le>32. distance_vector (counters r) b) = (\<Sum>x\<leftarrow>xs. accessed_words magic x)"
  using partial_histo_loop [of 4 "run_start 0 0 [] no_hist" xs magic whole 0 "-1" 0] assms
  by (auto simp: do_one_histogram_mem_def run_start_def whole_def stack_ok_def words_counted_def no_hist_def)

theorem every_word_is_counted_witness:
  "\<exists>r. do_one_histogram_mem RWI_TRACE_MAGIC ARRAY_PARTIAL [ex_part_access 64 16, ex_part_access 72 (-8), ex_part_access 64 16] 0 0 whole (-1) [] no_hist
     = Some (Inr r) \<and> cold_misses (counters r) + (\<Sum>b\<le>32. distance_vector (counters r) b) = 8"
proof -
  let ?xs = "[ex_part_access 64 16, ex_part_access 72 (-8), ex_part_access 64 16]"
  have "list_all (block_elem 4) ?xs" "known_magic RWI_TRACE_MAGIC" by (simp_all add: ex_trace ex_partial known_magic_def)
  moreover have "(\<Sum>x\<leftarrow>?xs. accessed_words RWI_TRACE_MAGIC x) = 8"
    by (simp add: ex_trace accessed_words_def is_invalidation_probe_def RAW_TRACE_MAGIC_def RWI_TRACE_MAGIC_def)
  ultimately show ?thesis using every_word_is_counted [of ?xs RWI_TRACE_MAGIC] by (simp only:)
qed

end
