(* ===== verification/Krd_Heap.thy ===== *)
theory Krd_Heap
  imports Krd_Partial
begin

unbundle bit_operations_syntax

text \<open>
  The stack of the histogram tool as the code keeps it: a doubly linked list on the heap, with
  allocation and freeing (\<open>loi/krd.c\<close>). An access through a null pointer or to a freed entry is
  \<open>None\<close>. The loops are those of \<open>Krd_Histogram\<close> on pointers, and refine them: they reach
  the list of entries that the functions on lists give, and never a dangling pointer.
\<close>

section \<open>Memory\<close>

type_synonym addr = nat

record node =
  nd_entry :: stack_entry
  nd_next :: addr
  nd_prev :: addr

record memory =
  cells :: "addr \<rightharpoonup> node"
  stack_head :: addr

text \<open>What \<open>malloc\<close> returns depends on the entries that are allocated.\<close>

type_synonym allocator = "(addr \<rightharpoonup> node) \<Rightarrow> addr"

definition load :: "addr \<Rightarrow> memory \<Rightarrow> node option" where
  "load a m = (if a = 0 then None else cells m a)"

definition store :: "addr \<Rightarrow> (node \<Rightarrow> node) \<Rightarrow> memory \<Rightarrow> memory option" where
  "store a f m = do { n \<leftarrow> load a m; Some (m\<lparr>cells := (cells m)(a \<mapsto> f n)\<rparr>) }"

definition krd_malloc :: "allocator \<Rightarrow> node \<Rightarrow> memory \<Rightarrow> (addr \<times> memory) option" where
  "krd_malloc malloc n m =
     (let a = malloc (cells m) in if a = 0 then None else Some (a, m\<lparr>cells := (cells m)(a \<mapsto> n)\<rparr>))"

definition krd_free :: "addr \<Rightarrow> memory \<Rightarrow> memory option" where
  "krd_free a m = do { n \<leftarrow> load a m; Some (m\<lparr>cells := (cells m)(a := None)\<rparr>) }"

definition set_next :: "addr \<Rightarrow> addr \<Rightarrow> memory \<Rightarrow> memory option" where
  "set_next a b m = store a (\<lambda>n. n\<lparr>nd_next := b\<rparr>) m"

definition set_prev :: "addr \<Rightarrow> addr \<Rightarrow> memory \<Rightarrow> memory option" where
  "set_prev a b m = (if a \<noteq> 0 then store a (\<lambda>n. n\<lparr>nd_prev := b\<rparr>) m else Some m)"

section \<open>Operations\<close>

text \<open>Unlinking an entry that is found as a whole; the loop goes on at the entry before it.\<close>

definition remove_entry :: "addr \<Rightarrow> memory \<Rightarrow> (addr \<times> memory) option" where
  "remove_entry a m = do {
     s \<leftarrow> load a m;
     m \<leftarrow> (if a \<noteq> stack_head m then do {
            m \<leftarrow> set_next (nd_prev s) (nd_next s) m;
            s \<leftarrow> load a m;
            set_prev (nd_next s) (nd_prev s) m }
          else set_prev (nd_next s) 0 (m\<lparr>stack_head := nd_next s\<rparr>));
     s \<leftarrow> load a m;
     m \<leftarrow> krd_free a m;
     Some (nd_prev s, m) }"

text \<open>An entry \<open>a\<close> that becomes \<open>e\<close> and is followed by a new one, \<open>post\<close>.\<close>

definition insert_after :: "allocator \<Rightarrow> addr \<Rightarrow> stack_entry \<Rightarrow> stack_entry \<Rightarrow> memory \<Rightarrow> memory option" where
  "insert_after malloc a e post m = do {
     s \<leftarrow> load a m;
     (b, m) \<leftarrow> krd_malloc malloc \<lparr>nd_entry = post, nd_next = nd_next s, nd_prev = a\<rparr> m;
     m \<leftarrow> store a (\<lambda>n. n\<lparr>nd_entry := e, nd_next := b\<rparr>) m;
     s \<leftarrow> load b m;
     set_prev (nd_next s) b m }"

definition split_entry :: "allocator \<Rightarrow> addr \<Rightarrow> 64 word \<Rightarrow> 32 word \<Rightarrow> memory \<Rightarrow> memory option" where
  "split_entry malloc a start bytes m = do {
     n \<leftarrow> load a m;
     let s = nd_entry n in
     if start > se_elem s \<and> start + ucast bytes < se_elem s + ucast (se_size s)
     then insert_after malloc a (s\<lparr>se_size := ucast (start - se_elem s)\<rparr>)
       (s\<lparr>se_elem := start + ucast bytes, se_size := ucast (se_elem s + ucast (se_size s) - (start + ucast bytes))\<rparr>) m
     else if se_elem s = start
     then store a (\<lambda>n. n\<lparr>nd_entry := s\<lparr>se_size := se_size s - bytes, se_elem := start + ucast bytes\<rparr>\<rparr>) m
     else store a (\<lambda>n. n\<lparr>nd_entry := s\<lparr>se_size := se_size s - bytes\<rparr>\<rparr>) m }"

definition push_head :: "allocator \<Rightarrow> stack_entry \<Rightarrow> memory \<Rightarrow> memory option" where
  "push_head malloc e m = do {
     (a, m) \<leftarrow> krd_malloc malloc \<lparr>nd_entry = e, nd_next = stack_head m, nd_prev = 0\<rparr> m;
     m \<leftarrow> set_prev (stack_head m) a m;
     Some (m\<lparr>stack_head := a\<rparr>) }"

text \<open>The invalidation of a part of an entry, three new parts for one inside it.\<close>

definition invalidate_entry :: "allocator \<Rightarrow> probe \<Rightarrow> addr \<Rightarrow> 64 word \<Rightarrow> 32 word \<Rightarrow> memory \<Rightarrow> memory option" where
  "invalidate_entry malloc p a start bytes m = do {
     n \<leftarrow> load a m;
     let s = nd_entry n; inv_part = \<lparr>se_elem = start, se_size = bytes, se_inv = True, se_core = pr_core p\<rparr> in
     if superset s start bytes then store a (\<lambda>n. n\<lparr>nd_entry := s\<lparr>se_inv := True, se_core := pr_core p\<rparr>\<rparr>) m
     else if start > se_elem s \<and> start + ucast bytes < se_elem s + ucast (se_size s)
     then do {
       (post, m) \<leftarrow> krd_malloc malloc \<lparr>nd_entry = s\<lparr>se_elem := start + ucast bytes,
          se_size := ucast (se_elem s + ucast (se_size s) - (start + ucast bytes))\<rparr>, nd_next = nd_next n, nd_prev = 0\<rparr> m;
       (inv_addr, m) \<leftarrow> krd_malloc malloc \<lparr>nd_entry = inv_part, nd_next = post, nd_prev = a\<rparr> m;
       m \<leftarrow> store a (\<lambda>n. n\<lparr>nd_entry := s\<lparr>se_size := ucast (start - se_elem s)\<rparr>, nd_next := inv_addr\<rparr>) m;
       m \<leftarrow> set_prev post inv_addr m;
       k \<leftarrow> load post m;
       set_prev (nd_next k) post m }
     else if se_elem s = start
     then insert_after malloc a inv_part (s\<lparr>se_elem := start + ucast bytes, se_size := se_size s - bytes\<rparr>) m
     else insert_after malloc a (s\<lparr>se_size := se_size s - bytes\<rparr>) inv_part m }"

section \<open>The loops down the stack\<close>

text \<open>The update of an entry that overlaps the accessed block, and the entry to go on from.\<close>

definition heap_match :: "allocator \<Rightarrow> addr \<Rightarrow> stack_entry \<Rightarrow> 64 word \<Rightarrow> 32 word \<Rightarrow> memory \<Rightarrow> (addr \<times> memory) option" where
  "heap_match malloc a s start bytes m =
     (if superset s start bytes then remove_entry a m
      else do { m \<leftarrow> split_entry malloc a start bytes m; Some (a, m) })"

partial_function (option) heap_access_loop ::
    "allocator \<Rightarrow> int \<Rightarrow> bool \<Rightarrow> bool \<Rightarrow> probe \<Rightarrow> addr \<Rightarrow> memory \<Rightarrow> 32 word \<Rightarrow> 32 word \<Rightarrow> hist \<Rightarrow> (memory \<times> hist) option" where
  "heap_access_loop malloc model warm tracked p sentry m pending dist h =
     (if sentry = 0
      then (if pending \<noteq> 0 then do { m \<leftarrow> push_head malloc (head_entry p) m; Some (m, cold_miss warm pending h) } else Some (m, h))
      else do {
        n \<leftarrow> load sentry m;
        let s = nd_entry n; dist' = dist + se_size s; bounded = (if dist' > pr_size p then dist' else pr_size p) in
        do {
        (sentry', m, pending', h') \<leftarrow> (case overlap model (se_elem s) (se_size s) (pr_elem p) (pr_size p) of
            None \<Rightarrow> Some (sentry, m, pending, h)
          | Some (start, bytes) \<Rightarrow> do {
              (a, m) \<leftarrow> heap_match malloc sentry s start bytes m;
              Some (a, m, pending - bytes,
                count_match warm tracked s (pr_core p) bounded (matching_bytes start bytes (pr_elem p) (pr_size p)) h) });
        if pending' = 0 then do { m \<leftarrow> push_head malloc (head_entry p) m; Some (m, h') }
        else do {
          a \<leftarrow> (if sentry' = 0 then Some (stack_head m) else map_option nd_next (load sentry' m));
          heap_access_loop malloc model warm tracked p a m pending' dist' h' } } })"

partial_function (option) heap_invalidate_loop ::
    "allocator \<Rightarrow> int \<Rightarrow> probe \<Rightarrow> addr \<Rightarrow> memory \<Rightarrow> 32 word \<Rightarrow> memory option" where
  "heap_invalidate_loop malloc model p sentry m pending =
     (if sentry = 0 then Some m
      else do {
        n \<leftarrow> load sentry m;
        (m, pending') \<leftarrow> (case overlap model (se_elem (nd_entry n)) (se_size (nd_entry n)) (pr_elem p) (pr_size p) of
            None \<Rightarrow> Some (m, pending)
          | Some (start, bytes) \<Rightarrow> do { m \<leftarrow> invalidate_entry malloc p sentry start bytes m; Some (m, pending - bytes) });
        if pending' = 0 then Some m
        else do {
          n \<leftarrow> load sentry m;
          if nd_next n = 0 \<and> nd_prev n \<noteq> 0 \<and> se_inv (nd_entry n)
          then do { m \<leftarrow> set_next (nd_prev n) 0 m; krd_free sentry m }
          else heap_invalidate_loop malloc model p (nd_next n) m pending' } })"

section \<open>The histogram of a trace\<close>

text \<open>The stack is in the memory, so the field \<open>stack\<close> of the other variables is not used.\<close>

definition heap_access_path :: "allocator \<Rightarrow> int \<Rightarrow> 64 word \<Rightarrow> bool \<Rightarrow> probe \<Rightarrow> memory \<Rightarrow> run \<Rightarrow> (bool \<times> memory \<times> run) option" where
  "heap_access_path malloc model part_size tracked p m r =
     (let r1 = (if warmup_phase r then r else r\<lparr>total_bytes := total_bytes r + ucast (pr_size p)\<rparr>) in
      if \<not> warmup_phase r \<and> total_bytes r1 > part_size then Some (True, m, r1)
      else let a = hash_addr (pr_elem p); absent = filtered model \<and> \<not> bloom_hash r1 a;
               r2 = (if absent \<and> \<not> warmup_phase r then r1\<lparr>bloom_hash := (bloom_hash r1)(a := True)\<rparr> else r1)
        in map_option (\<lambda>(m, h). (False, m, r2\<lparr>counters := h\<rparr>))
             (heap_access_loop malloc model (warmup_phase r) tracked p (if absent then 0 else stack_head m) m (pr_size p) 0 (counters r2)))"

definition heap_invalidation_path :: "allocator \<Rightarrow> int \<Rightarrow> probe \<Rightarrow> memory \<Rightarrow> run \<Rightarrow> memory option" where
  "heap_invalidation_path malloc model p m r =
     (if filtered model \<and> \<not> bloom_hash r (hash_addr (pr_elem p)) then Some m
      else heap_invalidate_loop malloc model p (stack_head m) m (pr_size p))"

definition heap_step ::
    "allocator \<Rightarrow> int \<Rightarrow> int \<Rightarrow> nat \<Rightarrow> 64 word \<Rightarrow> 16 word \<Rightarrow> nat \<Rightarrow> elem \<Rightarrow> memory \<Rightarrow> run \<Rightarrow> (krd_error + (bool \<times> memory \<times> run)) option" where
  "heap_step malloc magic model start_histo part_size kid i x m r =
     (case is_invalidation_probe magic (el_size x) of
        Inl e \<Rightarrow> Some (Inl e)
      | Inr inv_probe \<Rightarrow>
          let r1 = (if warmup_phase r \<and> i > start_histo then r\<lparr>warmup_phase := False\<rparr> else r);
              tracked = (kid = -1 \<or> sint kid = uint (el_kernel x))
          in (case (if inv_probe then map_option (\<lambda>m. (False, m, r1)) (heap_invalidation_path malloc model (probe_of x) m r1)
                    else heap_access_path malloc model part_size tracked (probe_of x) m r1) of
                None \<Rightarrow> None
              | Some (ended, m, r2) \<Rightarrow>
                  Some (if \<not> ended \<and> part_size = 0 then Inl Fault else Inr (ended, m, r2))))"

fun heap_histo_loop ::
    "allocator \<Rightarrow> int \<Rightarrow> int \<Rightarrow> nat \<Rightarrow> 64 word \<Rightarrow> 16 word \<Rightarrow> nat \<Rightarrow> elem list \<Rightarrow> memory \<Rightarrow> run \<Rightarrow> (krd_error + (memory \<times> run)) option" where
  "heap_histo_loop malloc magic model start_histo part_size kid i [] m r = Some (Inr (m, r))"
| "heap_histo_loop malloc magic model start_histo part_size kid i (x # xs) m r =
     (case heap_step malloc magic model start_histo part_size kid i x m r of
        None \<Rightarrow> None
      | Some (Inl e) \<Rightarrow> Some (Inl e)
      | Some (Inr (ended, m, r)) \<Rightarrow>
          if ended then Some (Inr (m, r)) else heap_histo_loop malloc magic model start_histo part_size kid (i + 1) xs m r)"

definition heap_histogram ::
    "allocator \<Rightarrow> int \<Rightarrow> int \<Rightarrow> elem list \<Rightarrow> nat \<Rightarrow> nat \<Rightarrow> 64 word \<Rightarrow> 16 word \<Rightarrow> memory \<Rightarrow> hist \<Rightarrow> (krd_error + (memory \<times> run)) option" where
  "heap_histogram malloc magic model xs warmup start_histo part_size kid m h =
     heap_histo_loop malloc magic model start_histo part_size kid warmup (drop warmup xs) m (run_start warmup start_histo [] h)"

text \<open>
  The checks for debugging: the number of links back that do not fit, and the entries with their
  numbers and addresses. Both look at one entry more than their limit, \<open>k\<close>.
\<close>

fun consistency_loop :: "nat \<Rightarrow> addr \<Rightarrow> memory \<Rightarrow> nat option" where
  "consistency_loop k a m =
     (if a = 0 then Some 0
      else do {
        n \<leftarrow> load a m;
        bad \<leftarrow> (if nd_next n \<noteq> 0 then map_option (\<lambda>l. nd_prev l \<noteq> a) (load (nd_next n) m) else Some False);
        rest \<leftarrow> (case k of 0 \<Rightarrow> Some 0 | Suc j \<Rightarrow> consistency_loop j (nd_next n) m);
        Some (of_bool bad + rest) })"

definition check_trace_consistency :: "memory \<Rightarrow> nat option" where
  "check_trace_consistency m = consistency_loop 1000000 (stack_head m) m"

fun debug_loop :: "nat \<Rightarrow> nat \<Rightarrow> addr \<Rightarrow> memory \<Rightarrow> (nat \<times> addr \<times> node) list option" where
  "debug_loop k i a m =
     (if a = 0 then Some []
      else do {
        n \<leftarrow> load a m;
        rest \<leftarrow> (case k of 0 \<Rightarrow> Some [] | Suc j \<Rightarrow> debug_loop j (i + 1) (nd_next n) m);
        Some ((i, a, n) # rest) })"

declare consistency_loop.simps [simp del] debug_loop.simps [simp del]

definition hist_print_debug :: "memory \<Rightarrow> (nat \<times> addr \<times> node) list option" where
  "hist_print_debug m = debug_loop 1000000 0 (stack_head m) m"

section \<open>The memory of a list of entries\<close>

text \<open>
  A list of entries with their addresses, as a segment from \<open>p\<close> (the address before it) to \<open>q\<close> (the
  one after it). The memory of a stack holds its entries and nothing else.
\<close>

type_synonym cell_list = "(addr \<times> stack_entry) list"

definition first :: "cell_list \<Rightarrow> addr \<Rightarrow> addr" where
  "first xs q = (case xs of [] \<Rightarrow> q | x # _ \<Rightarrow> fst x)"

definition final :: "cell_list \<Rightarrow> addr \<Rightarrow> addr" where
  "final xs p = (if xs = [] then p else fst (last xs))"

fun seg :: "addr \<Rightarrow> cell_list \<Rightarrow> addr \<Rightarrow> (addr \<times> node) list" where
  "seg p [] q = []"
| "seg p ((a, s) # xs) q = (a, \<lparr>nd_entry = s, nd_next = first xs q, nd_prev = p\<rparr>) # seg a xs q"

definition heap_of :: "(addr \<times> node) list \<Rightarrow> addr \<Rightarrow> memory" where
  "heap_of ns h = \<lparr>cells = map_of ns, stack_head = h\<rparr>"

definition mem_of :: "cell_list \<Rightarrow> memory" where
  "mem_of xs = heap_of (seg 0 xs 0) (first xs 0)"

definition sound :: "cell_list \<Rightarrow> bool" where
  "sound xs = (distinct (map fst xs) \<and> 0 \<notin> set (map fst xs))"

definition malloc_ok :: "allocator \<Rightarrow> bool" where
  "malloc_ok malloc = (\<forall>c. finite (dom c) \<longrightarrow> malloc c \<noteq> 0 \<and> c (malloc c) = None)"

lemma first_simps [simp]: "first [] q = q" "first (x # xs) q = fst x" "first (xs @ ys) q = first xs (first ys q)"
  by (simp_all add: first_def split: list.splits)

lemma final_simps [simp]: "final [] p = p" "final (x # xs) p = final xs (fst x)" "final (xs @ ys) p = final ys (final xs p)"
  by (simp_all add: final_def)

lemma seg_append [simp]: "seg p (xs @ ys) q = seg p xs (first ys q) @ seg (final xs p) ys q"
  by (induction xs arbitrary: p) auto

lemma fst_seg [simp]: "fst ` set (seg p xs q) = fst ` set xs" "map fst (seg p xs q) = map fst xs"
  by (induction p xs q rule: seg.induct) auto

lemma sound_simps [simp]:
  "sound []" "sound (x # xs) \<longleftrightarrow> fst x \<noteq> 0 \<and> fst x \<notin> fst ` set xs \<and> sound xs"
  "sound (xs @ ys) \<longleftrightarrow> sound xs \<and> sound ys \<and> fst ` set xs \<inter> fst ` set ys = {}"
  by (auto simp: sound_def)

lemma heap_of_simps [simp]:
  "stack_head (heap_of ns h) = h" "(heap_of ns h)\<lparr>stack_head := h'\<rparr> = heap_of ns h'" "cells (heap_of ns h) = map_of ns"
  by (simp_all add: heap_of_def)

lemma map_of_middle:
  assumes "a \<notin> fst ` set xs"
  shows "map_of (xs @ (a, n) # ys) a = Some n" "(map_of (xs @ (a, n) # ys))(a \<mapsto> n') = map_of (xs @ (a, n') # ys)"
    "(map_of (xs @ ys))(a \<mapsto> n) = map_of (xs @ (a, n) # ys)"
    "a \<notin> fst ` set ys \<Longrightarrow> (map_of (xs @ (a, n) # ys))(a := None) = map_of (xs @ ys)"
proof -
  have x: "map_of xs a = None" using assms by (simp add: map_of_eq_None_iff)
  show "map_of (xs @ (a, n) # ys) a = Some n" "(map_of (xs @ (a, n) # ys))(a \<mapsto> n') = map_of (xs @ (a, n') # ys)"
    "(map_of (xs @ ys))(a \<mapsto> n) = map_of (xs @ (a, n) # ys)"
    using x by (auto simp: fun_eq_iff map_add_def split: option.splits)
  assume "a \<notin> fst ` set ys"
  then have "map_of ys a = None" by (simp add: map_of_eq_None_iff)
  then show "(map_of (xs @ (a, n) # ys))(a := None) = map_of (xs @ ys)"
    using x by (auto simp: fun_eq_iff map_add_def split: option.splits)
qed

lemma load_at: "a \<noteq> 0 \<Longrightarrow> a \<notin> fst ` set xs \<Longrightarrow> load a (heap_of (xs @ (a, n) # ys) h) = Some n"
  using map_of_middle(1) [of a xs n ys] by (simp add: load_def)

lemma store_at:
  assumes "a \<noteq> 0" "a \<notin> fst ` set xs"
  shows "store a f (heap_of (xs @ (a, n) # ys) h) = Some (heap_of (xs @ (a, f n) # ys) h)"
  using load_at [OF assms] map_of_middle(2) [OF assms(2)] by (simp add: store_def heap_of_def)

lemma free_at:
  assumes "a \<noteq> 0" "a \<notin> fst ` set xs" "a \<notin> fst ` set ys"
  shows "krd_free a (heap_of (xs @ (a, n) # ys) h) = Some (heap_of (xs @ ys) h)"
  using load_at [OF assms(1,2)] map_of_middle(4) [OF assms(2,3)] by (simp add: krd_free_def heap_of_def)

lemma malloc_at:
  assumes "malloc_ok malloc"
  obtains a where "a \<noteq> 0" "a \<notin> fst ` set xs" "a \<notin> fst ` set ys"
    "krd_malloc malloc n (heap_of (xs @ ys) h) = Some (a, heap_of (xs @ (a, n) # ys) h)"
proof
  let ?a = "malloc (map_of (xs @ ys))"
  have a: "?a \<noteq> 0" "map_of (xs @ ys) ?a = None"
    using assms finite_dom_map_of [of "xs @ ys"] unfolding malloc_ok_def by blast+
  then have "?a \<notin> fst ` set (xs @ ys)" by (simp only: map_of_eq_None_iff) simp
  then show f: "?a \<noteq> 0" "?a \<notin> fst ` set xs" "?a \<notin> fst ` set ys" using a by auto
  show "krd_malloc malloc n (heap_of (xs @ ys) h) = Some (?a, heap_of (xs @ (?a, n) # ys) h)"
    using a(1) map_of_middle(3) [OF f(2)] by (simp add: krd_malloc_def heap_of_def Let_def)
qed

text \<open>The links at the two ends of a segment.\<close>

lemma set_next_final:
  assumes "sound xs" "xs \<noteq> []"
  shows "set_next (final xs 0) q' (heap_of (seg p xs q @ ys) h) = Some (heap_of (seg p xs q' @ ys) h)"
proof -
  obtain zs a s where xs: "xs = zs @ [(a, s)]" using assms(2) by (metis append_butlast_last_id prod.collapse)
  then show ?thesis using assms(1) store_at [of a "seg p zs a"] by (simp add: set_next_def)
qed

lemma set_prev_first:
  assumes "sound xs" "fst ` set ys \<inter> fst ` set xs = {}"
  shows "set_prev (first xs 0) p' (heap_of (ys @ seg p xs q) h) = Some (heap_of (ys @ seg p' xs q) h)"
proof (cases xs)
  case (Cons x zs)
  then show ?thesis using assms store_at [of "fst x" ys] by (cases x) (auto simp: set_prev_def)
qed (simp add: set_prev_def)

lemma load_in:
  assumes "sound (b @ (a, s) # c)"
  shows "load a (mem_of (b @ (a, s) # c)) = Some \<lparr>nd_entry = s, nd_next = first c 0, nd_prev = final b 0\<rparr>"
  using assms by (simp add: mem_of_def load_at)

section \<open>What the operations do to the list\<close>

lemma remove_entry_list:
  assumes "sound (b @ (a, s) # c)"
  shows "remove_entry a (mem_of (b @ (a, s) # c)) = Some (final b 0, mem_of (b @ c))"
proof -
  let ?n = "\<lambda>p. (a, \<lparr>nd_entry = s, nd_next = first c 0, nd_prev = p\<rparr>)"
  note L = load_in [OF assms]
  show ?thesis
  proof (cases "b = []")
    case True
    have "set_prev (first c 0) 0 (heap_of ([?n 0] @ seg a c 0) (first c 0)) = Some (heap_of ([?n 0] @ seg 0 c 0) (first c 0))"
      by (rule set_prev_first) (use assms True in auto)
    moreover have "load a (heap_of ([] @ ?n 0 # seg 0 c 0) (first c 0)) = Some (snd (?n 0))"
      by (subst load_at) (use assms True in auto)
    moreover have "krd_free a (heap_of ([] @ ?n 0 # seg 0 c 0) (first c 0)) = Some (heap_of ([] @ seg 0 c 0) (first c 0))"
      by (rule free_at) (use assms True in auto)
    ultimately show ?thesis using L assms True by (simp add: remove_entry_def mem_of_def)
  next
    case False
    let ?h = "first b a" and ?p = "final b 0"
    have ne: "a \<noteq> ?h" using False assms by (cases b) auto
    have h: "first b (first c 0) = ?h" using False by (cases b) auto
    have "set_next ?p (first c 0) (heap_of (seg 0 b a @ ?n ?p # seg a c 0) ?h) = Some (heap_of (seg 0 b (first c 0) @ ?n ?p # seg a c 0) ?h)"
      by (rule set_next_final) (use assms False in auto)
    moreover have "load a (heap_of (seg 0 b (first c 0) @ ?n ?p # seg x c 0) ?h) = Some (snd (?n ?p))" for x
      by (subst load_at) (use assms in auto)
    moreover have "set_prev (first c 0) ?p (heap_of ((seg 0 b (first c 0) @ [?n ?p]) @ seg a c 0) ?h)
        = Some (heap_of ((seg 0 b (first c 0) @ [?n ?p]) @ seg ?p c 0) ?h)"
      by (rule set_prev_first) (use assms in auto)
    moreover have "krd_free a (heap_of (seg 0 b (first c 0) @ ?n ?p # seg ?p c 0) ?h) = Some (heap_of (seg 0 b (first c 0) @ seg ?p c 0) ?h)"
      by (rule free_at) (use assms in auto)
    ultimately show ?thesis using L ne h by (simp add: remove_entry_def mem_of_def)
  qed
qed

lemma set_entry_list:
  assumes "sound (b @ (a, s) # c)"
  shows "store a (\<lambda>n. n\<lparr>nd_entry := e\<rparr>) (mem_of (b @ (a, s) # c)) = Some (mem_of (b @ (a, e) # c))"
  using assms by (simp add: mem_of_def store_at)

lemma insert_after_list:
  assumes "sound (b @ (a, s) # c)" "malloc_ok malloc"
  obtains d where "sound (b @ (a, e) # (d, post) # c)"
    "insert_after malloc a e post (mem_of (b @ (a, s) # c)) = Some (mem_of (b @ (a, e) # (d, post) # c))"
proof -
  let ?h = "first b a" and ?n = "(a, \<lparr>nd_entry = s, nd_next = first c 0, nd_prev = final b 0\<rparr>)"
  let ?m = "\<lambda>d. (a, \<lparr>nd_entry = e, nd_next = d, nd_prev = final b 0\<rparr>)"
  let ?d = "\<lparr>nd_entry = post, nd_next = first c 0, nd_prev = a\<rparr>"
  obtain d where d: "d \<noteq> 0" "d \<notin> fst ` set (seg 0 b a @ [?n])" "d \<notin> fst ` set (seg a c 0)"
    "krd_malloc malloc ?d (heap_of ((seg 0 b a @ [?n]) @ seg a c 0) ?h) = Some (d, heap_of ((seg 0 b a @ [?n]) @ (d, ?d) # seg a c 0) ?h)"
    by (rule malloc_at [OF assms(2)])
  have snd: "sound (b @ (a, e) # (d, post) # c)" using assms(1) d(1-3) by auto
  have "store a (\<lambda>n. n\<lparr>nd_entry := e, nd_next := d\<rparr>) (heap_of (seg 0 b a @ ?n # (d, ?d) # seg a c 0) ?h)
      = Some (heap_of (seg 0 b a @ ?m d # (d, ?d) # seg a c 0) ?h)"
    by (subst store_at) (use assms(1) in auto)
  moreover have "load d (heap_of ((seg 0 b a @ [?m d]) @ (d, ?d) # seg a c 0) ?h) = Some ?d"
    by (rule load_at) (use d in auto)
  moreover have "set_prev (first c 0) d (heap_of ((seg 0 b a @ [?m d, (d, ?d)]) @ seg a c 0) ?h)
      = Some (heap_of ((seg 0 b a @ [?m d, (d, ?d)]) @ seg d c 0) ?h)"
    by (rule set_prev_first) (use assms(1) d in auto)
  ultimately have "insert_after malloc a e post (mem_of (b @ (a, s) # c)) = Some (mem_of (b @ (a, e) # (d, post) # c))"
    using load_in [OF assms(1)] d(4) by (simp add: insert_after_def mem_of_def)
  with snd that show thesis by blast
qed

lemma push_head_list:
  assumes "sound xs" "malloc_ok malloc"
  obtains d where "sound ((d, e) # xs)" "push_head malloc e (mem_of xs) = Some (mem_of ((d, e) # xs))"
proof -
  let ?h = "first xs 0"
  let ?d = "\<lparr>nd_entry = e, nd_next = ?h, nd_prev = 0\<rparr>"
  obtain d where d: "d \<noteq> 0" "d \<notin> fst ` set (seg 0 xs 0)"
    "krd_malloc malloc ?d (heap_of ([] @ seg 0 xs 0) ?h) = Some (d, heap_of ([] @ (d, ?d) # seg 0 xs 0) ?h)"
    by (rule malloc_at [OF assms(2)])
  have "set_prev ?h d (heap_of ([(d, ?d)] @ seg 0 xs 0) ?h) = Some (heap_of ([(d, ?d)] @ seg d xs 0) ?h)"
    by (rule set_prev_first) (use assms(1) d in auto)
  then have "push_head malloc e (mem_of xs) = Some (mem_of ((d, e) # xs))"
    using d(3) by (simp add: push_head_def mem_of_def)
  with d(1,2) assms(1) that show thesis by simp
qed

lemma split_entry_list:
  assumes "sound (b @ (a, s) # c)" "malloc_ok malloc"
  obtains x ys where "sound (b @ (a, x) # ys @ c)" "x # map snd ys = split_access s start bytes"
    "split_entry malloc a start bytes (mem_of (b @ (a, s) # c)) = Some (mem_of (b @ (a, x) # ys @ c))"
proof -
  note L = load_in [OF assms(1)]
  let ?inside = "start > se_elem s \<and> start + ucast bytes < se_elem s + ucast (se_size s)"
  let ?e = "s\<lparr>se_size := ucast (start - se_elem s)\<rparr>"
  let ?post = "s\<lparr>se_elem := start + ucast bytes, se_size := ucast (se_elem s + ucast (se_size s) - (start + ucast bytes))\<rparr>"
  show thesis
  proof (cases ?inside)
    case True
    obtain d where d: "sound (b @ (a, ?e) # (d, ?post) # c)"
      "insert_after malloc a ?e ?post (mem_of (b @ (a, s) # c)) = Some (mem_of (b @ (a, ?e) # (d, ?post) # c))"
      by (rule insert_after_list [OF assms])
    show thesis
      by (rule that [of ?e "[(d, ?post)]"]) (use d True L in \<open>simp_all add: split_access_def split_entry_def Let_def\<close>)
  next
    case False
    let ?f = "if se_elem s = start then s\<lparr>se_size := se_size s - bytes, se_elem := start + ucast bytes\<rparr> else s\<lparr>se_size := se_size s - bytes\<rparr>"
    show thesis
      by (rule that [of ?f "[]"]) (use assms(1) False L set_entry_list [OF assms(1)] in \<open>auto simp: split_access_def split_entry_def Let_def\<close>)
  qed
qed

lemma invalidate_entry_list:
  assumes "sound (b @ (a, s) # c)" "malloc_ok malloc"
  obtains x ys where "sound (b @ (a, x) # ys @ c)" "x # map snd ys = split_invalidate p s start bytes"
    "invalidate_entry malloc p a start bytes (mem_of (b @ (a, s) # c)) = Some (mem_of (b @ (a, x) # ys @ c))"
proof -
  note L = load_in [OF assms(1)]
  let ?inv = "\<lparr>se_elem = start, se_size = bytes, se_inv = True, se_core = pr_core p\<rparr>"
  let ?inside = "start > se_elem s \<and> start + ucast bytes < se_elem s + ucast (se_size s)"
  let ?e = "s\<lparr>se_size := ucast (start - se_elem s)\<rparr>"
  let ?post = "s\<lparr>se_elem := start + ucast bytes, se_size := ucast (se_elem s + ucast (se_size s) - (start + ucast bytes))\<rparr>"
  consider "superset s start bytes" | "\<not> superset s start bytes" "?inside"
    | "\<not> superset s start bytes" "\<not> ?inside" "se_elem s = start" | "\<not> superset s start bytes" "\<not> ?inside" "se_elem s \<noteq> start" by blast
  then show thesis
  proof cases
    case 1
    show thesis
      by (rule that [of "s\<lparr>se_inv := True, se_core := pr_core p\<rparr>" "[]"])
        (use assms(1) 1 L set_entry_list [OF assms(1)] in \<open>simp_all add: split_invalidate_def invalidate_entry_def Let_def\<close>)
  next
    case 2
    let ?h = "first b a" and ?n = "(a, \<lparr>nd_entry = s, nd_next = first c 0, nd_prev = final b 0\<rparr>)"
    let ?d = "\<lambda>q. \<lparr>nd_entry = ?post, nd_next = first c 0, nd_prev = q\<rparr>"
    obtain d where d: "d \<noteq> 0" "d \<notin> fst ` set (seg 0 b a @ [?n])" "d \<notin> fst ` set (seg a c 0)"
      "krd_malloc malloc (?d 0) (heap_of ((seg 0 b a @ [?n]) @ seg a c 0) ?h) = Some (d, heap_of ((seg 0 b a @ [?n]) @ (d, ?d 0) # seg a c 0) ?h)"
      by (rule malloc_at [OF assms(2)])
    let ?i = "\<lparr>nd_entry = ?inv, nd_next = d, nd_prev = a\<rparr>"
    obtain i where i: "i \<noteq> 0" "i \<notin> fst ` set (seg 0 b a @ [?n])" "i \<notin> fst ` set ((d, ?d 0) # seg a c 0)"
      "krd_malloc malloc ?i (heap_of ((seg 0 b a @ [?n]) @ (d, ?d 0) # seg a c 0) ?h)
        = Some (i, heap_of ((seg 0 b a @ [?n]) @ (i, ?i) # (d, ?d 0) # seg a c 0) ?h)"
      by (rule malloc_at [OF assms(2)])
    let ?m = "(a, \<lparr>nd_entry = ?e, nd_next = i, nd_prev = final b 0\<rparr>)"
    have snd: "sound (b @ (a, ?e) # [(i, ?inv), (d, ?post)] @ c)" using assms(1) d(1-3) i(1-3) by auto
    have "store a (\<lambda>n. n\<lparr>nd_entry := ?e, nd_next := i\<rparr>) (heap_of (seg 0 b a @ ?n # (i, ?i) # (d, ?d 0) # seg a c 0) ?h)
        = Some (heap_of (seg 0 b a @ ?m # (i, ?i) # (d, ?d 0) # seg a c 0) ?h)"
      by (subst store_at) (use assms(1) in auto)
    moreover have "set_prev d i (heap_of ((seg 0 b a @ [?m, (i, ?i)]) @ (d, ?d 0) # seg a c 0) ?h)
        = Some (heap_of ((seg 0 b a @ [?m, (i, ?i)]) @ (d, ?d i) # seg a c 0) ?h)"
      unfolding set_prev_def using d i by (subst store_at) auto
    moreover have "load d (heap_of ((seg 0 b a @ [?m, (i, ?i)]) @ (d, ?d i) # seg a c 0) ?h) = Some (?d i)"
      by (rule load_at) (use d i in auto)
    moreover have "set_prev (first c 0) d (heap_of ((seg 0 b a @ [?m, (i, ?i), (d, ?d i)]) @ seg a c 0) ?h)
        = Some (heap_of ((seg 0 b a @ [?m, (i, ?i), (d, ?d i)]) @ seg d c 0) ?h)"
      by (rule set_prev_first) (use assms(1) d i in auto)
    ultimately have "invalidate_entry malloc p a start bytes (mem_of (b @ (a, s) # c))
        = Some (mem_of (b @ (a, ?e) # [(i, ?inv), (d, ?post)] @ c))"
      using 2 L d(4) i(4) by (simp add: invalidate_entry_def Let_def mem_of_def)
    moreover have "?e # map snd [(i, ?inv), (d, ?post)] = split_invalidate p s start bytes"
      using 2 by (simp add: split_invalidate_def Let_def)
    ultimately show thesis using snd that by blast
  next
    case 3
    let ?q = "s\<lparr>se_elem := start + ucast bytes, se_size := se_size s - bytes\<rparr>"
    obtain d where d: "sound (b @ (a, ?inv) # (d, ?q) # c)"
      "insert_after malloc a ?inv ?q (mem_of (b @ (a, s) # c)) = Some (mem_of (b @ (a, ?inv) # (d, ?q) # c))"
      by (rule insert_after_list [OF assms])
    show thesis
      by (rule that [of ?inv "[(d, ?q)]"]) (use d 3 L in \<open>simp_all add: split_invalidate_def invalidate_entry_def Let_def\<close>)
  next
    case 4
    let ?q = "s\<lparr>se_size := se_size s - bytes\<rparr>"
    obtain d where d: "sound (b @ (a, ?q) # (d, ?inv) # c)"
      "insert_after malloc a ?q ?inv (mem_of (b @ (a, s) # c)) = Some (mem_of (b @ (a, ?q) # (d, ?inv) # c))"
      by (rule insert_after_list [OF assms])
    show thesis
      by (rule that [of ?q "[(d, ?inv)]"])
        (use d(1) in \<open>simp_all add: d(2) 4 L split_invalidate_def invalidate_entry_def Let_def\<close>)
  qed
qed

lemma drop_tail_list:
  assumes "sound (b @ [(a, s)])" "b \<noteq> []"
  shows "do { m \<leftarrow> set_next (final b 0) 0 (mem_of (b @ [(a, s)])); krd_free a m } = Some (mem_of b)"
proof -
  let ?n = "(a, \<lparr>nd_entry = s, nd_next = 0, nd_prev = final b 0\<rparr>)" and ?h = "first b a"
  have h: "first b a = first b 0" using assms(2) by (cases b) auto
  have "set_next (final b 0) 0 (heap_of (seg 0 b a @ [?n]) ?h) = Some (heap_of (seg 0 b 0 @ [?n]) ?h)"
    by (rule set_next_final) (use assms in auto)
  moreover have "krd_free a (heap_of (seg 0 b 0 @ ?n # []) ?h) = Some (heap_of (seg 0 b 0 @ []) ?h)"
    by (rule free_at) (use assms(1) in auto)
  ultimately show ?thesis by (simp add: mem_of_def h)
qed

text \<open>The entry after the one before the position is the one at it.\<close>

lemma next_of_final:
  assumes "sound (b @ c)"
  shows "(if final b 0 = 0 then Some (stack_head (mem_of (b @ c))) else map_option nd_next (load (final b 0) (mem_of (b @ c)))) = Some (first c 0)"
proof (cases "b = []")
  case True
  then show ?thesis by (simp add: mem_of_def)
next
  case False
  then obtain zs a s where b: "b = zs @ [(a, s)]" by (metis append_butlast_last_id prod.collapse)
  then show ?thesis using assms load_in [of zs a s c] by auto
qed

section \<open>The loops refine those on lists\<close>

lemma match_list:
  assumes "sound (b @ (a, s) # c)" "malloc_ok malloc"
  defines "pieces \<equiv> \<lambda>start bytes. if superset s start bytes then [] else split_access s start bytes"
  obtains b' c' where "sound (b' @ c')" "map snd b' = map snd b @ take 1 (pieces start bytes)"
    "map snd c' = drop 1 (pieces start bytes) @ map snd c"
    "heap_match malloc a s start bytes (mem_of (b @ (a, s) # c)) = Some (final b' 0, mem_of (b' @ c'))"
proof (cases "superset s start bytes")
  case True
  show thesis
    by (rule that [of b c])
      (use assms(1) True remove_entry_list [OF assms(1)] in \<open>simp_all add: pieces_def heap_match_def\<close>)
next
  case False
  obtain x ys where x: "sound (b @ (a, x) # ys @ c)" "x # map snd ys = split_access s start bytes"
    "split_entry malloc a start bytes (mem_of (b @ (a, s) # c)) = Some (mem_of (b @ (a, x) # ys @ c))"
    by (rule split_entry_list [OF assms(1,2)])
  show thesis
    by (rule that [of "b @ [(a, x)]" "ys @ c"]) (use x(1,3) False in \<open>simp_all add: pieces_def heap_match_def flip: x(2)\<close>)
qed

text \<open>What the loop does after it has dealt with an entry.\<close>

lemma go_on_list:
  assumes "sound (b @ c)" "malloc_ok malloc" "w = 0 \<Longrightarrow> y = (e # map snd (b @ c), g)"
    and "w \<noteq> 0 \<Longrightarrow> \<exists>ys. sound ys \<and> map snd ys = fst y \<and> loop (first c 0) (mem_of (b @ c)) = Some (mem_of ys, snd y)"
  shows "\<exists>ys. sound ys \<and> map snd ys = fst y \<and> (if w = 0 then do { m \<leftarrow> push_head malloc e (mem_of (b @ c)); Some (m, g) }
    else do {
      a \<leftarrow> (if final b 0 = 0 then Some (stack_head (mem_of (b @ c))) else map_option nd_next (load (final b 0) (mem_of (b @ c))));
      loop a (mem_of (b @ c)) }) = Some (mem_of ys, snd y)"
proof (cases "w = 0")
  case True
  obtain d where "sound ((d, e) # b @ c)" "push_head malloc e (mem_of (b @ c)) = Some (mem_of ((d, e) # b @ c))"
    by (rule push_head_list [OF assms(1,2)])
  then show ?thesis using assms(3) True by (intro exI [of _ "(d, e) # b @ c"]) auto
next
  case False
  then show ?thesis using assms(4) next_of_final [OF assms(1)] by simp
qed

lemma heap_access_refines:
  assumes "access_loop model warm tracked p before rest pending dist h = Some y"
    and "malloc_ok malloc" "sound (b @ c)" "map snd b = before" "map snd c = rest"
  shows "\<exists>ys. sound ys \<and> map snd ys = fst y \<and>
    heap_access_loop malloc model warm tracked p (first c 0) (mem_of (b @ c)) pending dist h = Some (mem_of ys, snd y)"
proof -
  let ?P = "\<lambda>model warm tracked p before rest pending dist h y. \<forall>b c. sound (b @ c) \<and> map snd b = before \<and> map snd c = rest \<longrightarrow>
    (\<exists>ys. sound ys \<and> map snd ys = fst y \<and>
      heap_access_loop malloc model warm tracked p (first c 0) (mem_of (b @ c)) pending dist h = Some (mem_of ys, snd y))"
  have "?P model warm tracked p before rest pending dist h y"
  proof (rule access_loop.raw_induct [OF _ assms(1), where P = ?P], intro allI impI)
    fix f :: "int \<Rightarrow> bool \<Rightarrow> bool \<Rightarrow> probe \<Rightarrow> stack_entry list \<Rightarrow> stack_entry list \<Rightarrow> 32 word \<Rightarrow> 32 word \<Rightarrow> hist \<Rightarrow> (stack_entry list \<times> hist) option"
      and model :: int and warm tracked and p :: probe and before rest pending dist h y and b c :: cell_list
    assume IH: "\<And>model warm tracked p before rest pending dist h y. f model warm tracked p before rest pending dist h = Some y \<Longrightarrow>
        ?P model warm tracked p before rest pending dist h y"
      and step: "(case rest of
        [] \<Rightarrow> Some (if pending \<noteq> 0 then (head_entry p # before, cold_miss warm pending h) else (before, h))
      | s # after \<Rightarrow>
          (let dist' = dist + se_size s in
           case overlap model (se_elem s) (se_size s) (pr_elem p) (pr_size p) of
             None \<Rightarrow>
               if pending = 0 then Some (head_entry p # before @ s # after, h)
               else f model warm tracked p (before @ [s]) after pending dist' h
           | Some m \<Rightarrow>
               (let start = fst m; bytes = snd m;
                    bounded = (if dist' > pr_size p then dist' else pr_size p);
                    h' = count_match warm tracked s (pr_core p) bounded
                           (matching_bytes start bytes (pr_elem p) (pr_size p)) h;
                    pieces = (if superset s start bytes then [] else split_access s start bytes)
                in if pending - bytes = 0 then Some (head_entry p # before @ pieces @ after, h')
                   else f model warm tracked p (before @ take 1 pieces) (drop 1 pieces @ after)
                          (pending - bytes) dist' h'))) = Some y"
      and bc: "sound (b @ c) \<and> map snd b = before \<and> map snd c = rest"
    have b: "sound (b @ c)" "before = map snd b" "rest = map snd c" using bc by auto
    show "\<exists>ys. sound ys \<and> map snd ys = fst y \<and>
      heap_access_loop malloc model warm tracked p (first c 0) (mem_of (b @ c)) pending dist h = Some (mem_of ys, snd y)"
    proof (cases c)
      case Nil
      obtain d where "sound ((d, head_entry p) # b)" "push_head malloc (head_entry p) (mem_of b) = Some (mem_of ((d, head_entry p) # b))"
        by (rule push_head_list [OF _ assms(2)]) (use b Nil in auto)
      then show ?thesis
        using step b Nil by (subst heap_access_loop.simps) (auto split: if_splits intro: exI [of _ b] exI [of _ "(d, head_entry p) # b"])
    next
      case (Cons x c')
      obtain a s where c: "c = (a, s) # c'" using Cons by (cases x) auto
      then have a: "a \<noteq> 0" and snd: "sound (b @ (a, s) # c')" using b by auto
      note L = load_in [OF snd]
      show ?thesis
      proof (cases "overlap model (se_elem s) (se_size s) (pr_elem p) (pr_size p)")
        case None
        let ?b = "b @ [(a, s)]"
        have "\<exists>ys. sound ys \<and> map snd ys = fst y \<and> (if pending = 0 then do { m \<leftarrow> push_head malloc (head_entry p) (mem_of (?b @ c')); Some (m, h) }
          else do {
            x \<leftarrow> (if final ?b 0 = 0 then Some (stack_head (mem_of (?b @ c'))) else map_option nd_next (load (final ?b 0) (mem_of (?b @ c'))));
            heap_access_loop malloc model warm tracked p x (mem_of (?b @ c')) pending (dist + se_size s) h }) = Some (mem_of ys, snd y)"
          by (rule go_on_list [OF _ assms(2)])
            (use snd step None b(2,3) c IH [of model warm tracked p "before @ [s]" "map snd c'" pending "dist + se_size s" h y, rule_format, of ?b c'] in
              \<open>auto simp: Let_def split: if_splits\<close>)
        then show ?thesis
          using None a L c by (subst heap_access_loop.simps) (cases "pending = 0"; simp add: Let_def)
      next
        case (Some m)
        obtain start bytes where m: "m = (start, bytes)" by fastforce
        let ?dist = "dist + se_size s" and ?pcs = "if superset s start bytes then [] else split_access s start bytes"
        let ?g = "count_match warm tracked s (pr_core p) (if ?dist > pr_size p then ?dist else pr_size p)
          (matching_bytes start bytes (pr_elem p) (pr_size p)) h"
        obtain b' c'' where bc': "sound (b' @ c'')" "map snd b' = map snd b @ take 1 ?pcs" "map snd c'' = drop 1 ?pcs @ map snd c'"
          "heap_match malloc a s start bytes (mem_of (b @ (a, s) # c')) = Some (final b' 0, mem_of (b' @ c''))"
          by (rule match_list [OF snd assms(2), of start bytes])
        have "map snd (b' @ c'') = before @ ?pcs @ map snd c'"
          using bc'(2,3) b(2) by (simp flip: append_assoc) (simp add: append_assoc)
        then have "\<exists>ys. sound ys \<and> map snd ys = fst y \<and> (if pending - bytes = 0 then do { m \<leftarrow> push_head malloc (head_entry p) (mem_of (b' @ c'')); Some (m, ?g) }
          else do {
            x \<leftarrow> (if final b' 0 = 0 then Some (stack_head (mem_of (b' @ c''))) else map_option nd_next (load (final b' 0) (mem_of (b' @ c''))));
            heap_access_loop malloc model warm tracked p x (mem_of (b' @ c'')) (pending - bytes) ?dist ?g }) = Some (mem_of ys, snd y)"
          by (intro go_on_list [OF bc'(1) assms(2)])
            (use step Some m b(2,3) c bc'(1-3) IH [of model warm tracked p "map snd b'" "map snd c''" "pending - bytes" ?dist ?g y] in
              \<open>auto simp: Let_def split: if_splits\<close>)
        then show ?thesis
          using Some m a L c bc'(4) by (subst heap_access_loop.simps) (simp add: Let_def cong: if_cong split del: if_split)
      qed
    qed
  qed
  then show ?thesis using assms(3-5) by blast
qed

lemma first_0: "sound c \<Longrightarrow> first c 0 = 0 \<longleftrightarrow> c = []"
  by (cases c) auto

lemma final_0: "sound b \<Longrightarrow> final b 0 = 0 \<longleftrightarrow> b = []"
  by (cases b rule: rev_cases) auto

text \<open>What the loop of an invalidation does after it has dealt with an entry.\<close>

lemma invalidated_list:
  assumes "sound (b @ (a, x) # c)" "w = 0 \<Longrightarrow> y = map snd (b @ (a, x) # c)"
    and "w \<noteq> 0 \<Longrightarrow> c = [] \<Longrightarrow> b \<noteq> [] \<Longrightarrow> se_inv x \<Longrightarrow> y = map snd b"
    and "w \<noteq> 0 \<Longrightarrow> \<not> (c = [] \<and> b \<noteq> [] \<and> se_inv x) \<Longrightarrow>
      \<exists>ys. sound ys \<and> map snd ys = y \<and> loop (first c 0) (mem_of (b @ (a, x) # c)) = Some (mem_of ys)"
  shows "\<exists>ys. sound ys \<and> map snd ys = y \<and> (if w = 0 then Some (mem_of (b @ (a, x) # c))
    else do {
      n \<leftarrow> load a (mem_of (b @ (a, x) # c));
      if nd_next n = 0 \<and> nd_prev n \<noteq> 0 \<and> se_inv (nd_entry n)
      then do { m \<leftarrow> set_next (nd_prev n) 0 (mem_of (b @ (a, x) # c)); krd_free a m }
      else loop (nd_next n) (mem_of (b @ (a, x) # c)) }) = Some (mem_of ys)"
proof -
  have s: "sound b" "sound c" using assms(1) by auto
  consider "w = 0" | "w \<noteq> 0" "c = []" "b \<noteq> []" "se_inv x" | "w \<noteq> 0" "\<not> (c = [] \<and> b \<noteq> [] \<and> se_inv x)" by blast
  then show ?thesis
  proof cases
    case 1
    then show ?thesis using assms(1,2) by (intro exI [of _ "b @ (a, x) # c"]) auto
  next
    case 2
    then show ?thesis
      using assms(1,3) drop_tail_list [of b a x] load_in [OF assms(1)] first_0 [OF s(2)] final_0 [OF s(1)]
      by (intro exI [of _ b]) auto
  next
    case 3
    then show ?thesis using assms(4) load_in [OF assms(1)] first_0 [OF s(2)] final_0 [OF s(1)] by auto
  qed
qed

lemma heap_invalidate_refines:
  assumes "invalidate_loop model p before rest pending = Some y"
    and "malloc_ok malloc" "sound (b @ c)" "map snd b = before" "map snd c = rest"
  shows "\<exists>ys. sound ys \<and> map snd ys = y \<and>
    heap_invalidate_loop malloc model p (first c 0) (mem_of (b @ c)) pending = Some (mem_of ys)"
proof -
  let ?P = "\<lambda>model p before rest pending y. \<forall>b c. sound (b @ c) \<and> map snd b = before \<and> map snd c = rest \<longrightarrow>
    (\<exists>ys. sound ys \<and> map snd ys = y \<and> heap_invalidate_loop malloc model p (first c 0) (mem_of (b @ c)) pending = Some (mem_of ys))"
  have "?P model p before rest pending y"
  proof (rule invalidate_loop.raw_induct [OF _ assms(1), where P = ?P], intro allI impI)
    fix f :: "int \<Rightarrow> probe \<Rightarrow> stack_entry list \<Rightarrow> stack_entry list \<Rightarrow> 32 word \<Rightarrow> stack_entry list option"
      and model :: int and p :: probe and before rest pending y and b c :: cell_list
    assume IH: "\<And>model p before rest pending y. f model p before rest pending = Some y \<Longrightarrow> ?P model p before rest pending y"
      and step: "(case rest of
        [] \<Rightarrow> Some before
      | s # after \<Rightarrow>
          (let m = overlap model (se_elem s) (se_size s) (pr_elem p) (pr_size p);
               pending' = (case m of None \<Rightarrow> pending | Some (start, bytes) \<Rightarrow> pending - bytes);
               pieces = (case m of None \<Rightarrow> [s] | Some (start, bytes) \<Rightarrow> split_invalidate p s start bytes);
               next_ones = drop 1 pieces @ after
           in if pending' = 0 then Some (before @ pieces @ after)
              else if next_ones = [] \<and> before \<noteq> [] \<and> se_inv (hd pieces) then Some before
              else f model p (before @ take 1 pieces) next_ones pending')) = Some y"
      and bc: "sound (b @ c) \<and> map snd b = before \<and> map snd c = rest"
    have b: "sound (b @ c)" "before = map snd b" "rest = map snd c" using bc by auto
    show "\<exists>ys. sound ys \<and> map snd ys = y \<and> heap_invalidate_loop malloc model p (first c 0) (mem_of (b @ c)) pending = Some (mem_of ys)"
    proof (cases c)
      case Nil
      then show ?thesis using step b by (subst heap_invalidate_loop.simps) auto
    next
      case (Cons x c')
      obtain a s where c: "c = (a, s) # c'" using Cons by (cases x) auto
      then have a: "a \<noteq> 0" and snd: "sound (b @ (a, s) # c')" using b by auto
      let ?m = "overlap model (se_elem s) (se_size s) (pr_elem p) (pr_size p)"
      let ?w = "case ?m of None \<Rightarrow> pending | Some (start, bytes) \<Rightarrow> pending - bytes"
      obtain x ys where x: "sound (b @ (a, x) # ys @ c')"
        "x # map snd ys = (case ?m of None \<Rightarrow> [s] | Some (start, bytes) \<Rightarrow> split_invalidate p s start bytes)"
        "(case ?m of None \<Rightarrow> Some (mem_of (b @ (a, s) # c'), pending)
          | Some (start, bytes) \<Rightarrow> do { m \<leftarrow> invalidate_entry malloc p a start bytes (mem_of (b @ (a, s) # c')); Some (m, pending - bytes) })
         = Some (mem_of (b @ (a, x) # ys @ c'), ?w)"
      proof (cases ?m)
        case None
        show thesis by (rule that [of s "[]"]) (use None snd in auto)
      next
        case (Some m)
        obtain start bytes where m: "m = (start, bytes)" by fastforce
        obtain x ys where "sound (b @ (a, x) # ys @ c')" "x # map snd ys = split_invalidate p s start bytes"
          "invalidate_entry malloc p a start bytes (mem_of (b @ (a, s) # c')) = Some (mem_of (b @ (a, x) # ys @ c'))"
          by (rule invalidate_entry_list [OF snd assms(2)])
        then show thesis using Some m by (intro that [of x ys]) auto
      qed
      have E: "heap_invalidate_loop malloc model p (first c 0) (mem_of (b @ c)) pending =
        (if ?w = 0 then Some (mem_of (b @ (a, x) # ys @ c'))
        else do {
          n \<leftarrow> load a (mem_of (b @ (a, x) # ys @ c'));
          if nd_next n = 0 \<and> nd_prev n \<noteq> 0 \<and> se_inv (nd_entry n)
          then do { m \<leftarrow> set_next (nd_prev n) 0 (mem_of (b @ (a, x) # ys @ c')); krd_free a m }
          else heap_invalidate_loop malloc model p (nd_next n) (mem_of (b @ (a, x) # ys @ c')) ?w })"
        unfolding c first_simps fst_conv by (subst heap_invalidate_loop.simps) (simp add: a load_in [OF snd] x(3))
      show ?thesis
        unfolding E by (rule invalidated_list [OF x(1)])
          (use x(1) step b(2,3) c IH [of model p "before @ [x]" "map snd (ys @ c')" ?w y, rule_format, of "b @ [(a, x)]" "ys @ c'"] in
            \<open>auto simp: Let_def simp flip: x(2) split: if_splits\<close>)
    qed
  qed
  then show ?thesis using assms(3-5) by blast
qed

text \<open>Whole traces: the variables on the heap and those of the model on lists.\<close>

definition same_run :: "memory \<Rightarrow> run \<Rightarrow> run \<Rightarrow> bool" where
  "same_run m r' r = (\<exists>ys. sound ys \<and> m = mem_of ys \<and> r = r'\<lparr>stack := map snd ys\<rparr>)"

lemma same_runI: "sound ys \<Longrightarrow> r = r'\<lparr>stack := map snd ys\<rparr> \<Longrightarrow> same_run (mem_of ys) r' r"
  by (auto simp: same_run_def)

lemma head_of_mem: "stack_head (mem_of xs) = first xs 0"
  by (simp add: mem_of_def)

lemma heap_access_path_refines:
  assumes "access_path model part_size tracked p r = Some (ended, r1)" "same_run m r' r" "malloc_ok malloc"
  shows "\<exists>m1 r1'. heap_access_path malloc model part_size tracked p m r' = Some (ended, m1, r1') \<and> same_run m1 r1' r1"
proof -
  obtain ys where ys: "sound ys" "m = mem_of ys" "r = r'\<lparr>stack := map snd ys\<rparr>" using assms(2) by (auto simp: same_run_def)
  let ?q = "if warmup_phase r' then r' else r'\<lparr>total_bytes := total_bytes r' + ucast (pr_size p)\<rparr>"
  let ?absent = "filtered model \<and> \<not> bloom_hash r' (hash_addr (pr_elem p))"
  let ?q2 = "if ?absent \<and> \<not> warmup_phase r' then ?q\<lparr>bloom_hash := (bloom_hash r')(hash_addr (pr_elem p) := True)\<rparr> else ?q"
  show ?thesis
  proof (cases "\<not> warmup_phase r' \<and> total_bytes ?q > part_size")
    case True
    then show ?thesis using assms(1) ys by (auto simp: access_path_def heap_access_path_def Let_def intro!: same_runI [OF ys(1)])
  next
    case False
    obtain st h where a: "access_loop model (warmup_phase r') tracked p (if ?absent then map snd ys else []) (if ?absent then [] else map snd ys)
        (pr_size p) 0 (counters r') = Some (st, h)" and r1: "\<not> ended" "r1 = ?q2\<lparr>stack := st, counters := h\<rparr>"
      using assms(1) False ys by (auto simp: access_path_def Let_def split: option.splits if_splits)
    have "\<exists>zs. sound zs \<and> map snd zs = fst (st, h) \<and> heap_access_loop malloc model (warmup_phase r') tracked p
        (first (if ?absent then [] else ys) 0) (mem_of ((if ?absent then ys else []) @ (if ?absent then [] else ys))) (pr_size p) 0 (counters r')
        = Some (mem_of zs, snd (st, h))"
      by (rule heap_access_refines [OF a assms(3)]) (use ys(1) in auto)
    then obtain zs where zs: "sound zs" "map snd zs = st"
      "heap_access_loop malloc model (warmup_phase r') tracked p (if ?absent then 0 else stack_head m) m (pr_size p) 0 (counters r') = Some (mem_of zs, h)"
      using ys(2) by (auto simp: head_of_mem split: if_splits)
    have "heap_access_path malloc model part_size tracked p m r' = Some (False, mem_of zs, ?q2\<lparr>counters := h\<rparr>)"
      using False zs(3) by (auto simp: heap_access_path_def Let_def)
    moreover have "same_run (mem_of zs) (?q2\<lparr>counters := h\<rparr>) r1"
      by (rule same_runI [OF zs(1)]) (use zs(2) r1(2) in auto)
    moreover have "ended = False" using r1(1) by simp
    ultimately show ?thesis by blast
  qed
qed

lemma heap_invalidation_path_refines:
  assumes "invalidation_path model p r = Some r1" "same_run m r' r" "malloc_ok malloc"
  shows "\<exists>m1. heap_invalidation_path malloc model p m r' = Some m1 \<and> same_run m1 r' r1"
proof -
  obtain ys where ys: "sound ys" "m = mem_of ys" "r = r'\<lparr>stack := map snd ys\<rparr>" using assms(2) by (auto simp: same_run_def)
  show ?thesis
  proof (cases "filtered model \<and> \<not> bloom_hash r' (hash_addr (pr_elem p))")
    case True
    then show ?thesis using assms(1,2) ys by (auto simp: invalidation_path_def heap_invalidation_path_def)
  next
    case False
    then obtain st where st: "invalidate_loop model p [] (map snd ys) (pr_size p) = Some st" "r1 = r'\<lparr>stack := st\<rparr>"
      using assms(1) ys(3) by (auto simp: invalidation_path_def split: if_splits)
    from heap_invalidate_refines [OF st(1) assms(3), of "[]" ys] ys(1) obtain zs where
      "sound zs" "map snd zs = st" "heap_invalidate_loop malloc model p (first ys 0) (mem_of ys) (pr_size p) = Some (mem_of zs)" by auto
    then show ?thesis using False ys(2) st(2) by (auto simp: heap_invalidation_path_def head_of_mem same_run_def)
  qed
qed

lemma heap_step_refines:
  assumes "histo_step magic model start ps kid i x r = Some res" "same_run m r' r" "malloc_ok malloc"
  shows "(\<exists>e. res = Inl e \<and> heap_step malloc magic model start ps kid i x m r' = Some (Inl e))
    \<or> (\<exists>ended r1 m1 r1'. res = Inr (ended, r1) \<and> same_run m1 r1' r1
        \<and> heap_step malloc magic model start ps kid i x m r' = Some (Inr (ended, m1, r1')))"
proof (cases "is_invalidation_probe magic (el_size x)")
  case (Inl e)
  then show ?thesis using assms(1) by (simp add: histo_step_def heap_step_def)
next
  case (Inr inv_probe)
  let ?f = "\<lambda>r. if warmup_phase r \<and> i > start then r\<lparr>warmup_phase := False\<rparr> else r"
  let ?t = "kid = -1 \<or> sint kid = uint (el_kernel x)"
  have s: "same_run m (?f r') (?f r)" using assms(2) by (auto simp: same_run_def)
  obtain ended r2 where p: "(if inv_probe then map_option (\<lambda>r. (False, r)) (invalidation_path model (probe_of x) (?f r))
      else access_path model ps ?t (probe_of x) (?f r)) = Some (ended, r2)"
    and res: "res = (if \<not> ended \<and> ps = 0 then Inl Fault else Inr (ended, r2))"
    using assms(1) Inr by (auto simp: histo_step_def Let_def split: option.splits)
  have "\<exists>m1 r1'. (if inv_probe then map_option (\<lambda>m. (False, m, ?f r')) (heap_invalidation_path malloc model (probe_of x) m (?f r'))
      else heap_access_path malloc model ps ?t (probe_of x) m (?f r')) = Some (ended, m1, r1') \<and> same_run m1 r1' r2"
  proof (cases inv_probe)
    case True
    then show ?thesis using p heap_invalidation_path_refines [OF _ s assms(3), of model "probe_of x" r2] by auto
  next
    case False
    then show ?thesis using p heap_access_path_refines [OF _ s assms(3), of model ps ?t "probe_of x" ended r2] by auto
  qed
  then show ?thesis using res Inr by (auto simp: heap_step_def Let_def)
qed

lemma heap_histo_loop_refines:
  assumes "histo_loop magic model start ps kid i xs r = Some res" "same_run m r' r" "malloc_ok malloc"
  shows "(\<exists>e. res = Inl e \<and> heap_histo_loop malloc magic model start ps kid i xs m r' = Some (Inl e))
    \<or> (\<exists>r1 m1 r1'. res = Inr r1 \<and> same_run m1 r1' r1 \<and> heap_histo_loop malloc magic model start ps kid i xs m r' = Some (Inr (m1, r1')))"
  using assms(1,2)
proof (induction xs arbitrary: i r m r')
  case Nil
  then show ?case by auto
next
  case (Cons x xs)
  obtain y where y: "histo_step magic model start ps kid i x r = Some y" using Cons.prems(1) by (auto split: option.splits)
  from heap_step_refines [OF y Cons.prems(2) assms(3)] show ?case
  proof (elim disjE exE conjE)
    fix e assume "y = Inl e" "heap_step malloc magic model start ps kid i x m r' = Some (Inl e)"
    then show ?thesis using Cons.prems(1) y by auto
  next
    fix ended r1 m1 r1'
    assume s: "y = Inr (ended, r1)" "same_run m1 r1' r1" "heap_step malloc magic model start ps kid i x m r' = Some (Inr (ended, m1, r1'))"
    show ?thesis
    proof (cases ended)
      case True
      then show ?thesis using Cons.prems(1) y s by auto
    next
      case False
      then show ?thesis using Cons.prems(1) y s Cons.IH [of "i + 1" r1 m1 r1'] by auto
    qed
  qed
qed

lemma consistent_list: "sound (b @ c) \<Longrightarrow> consistency_loop k (first c 0) (mem_of (b @ c)) = Some 0"
proof (induction c arbitrary: b k)
  case (Cons x c)
  obtain a s where x: "x = (a, s)" by fastforce
  have l: "load a (mem_of (b @ (a, s) # c)) = Some \<lparr>nd_entry = s, nd_next = first c 0, nd_prev = final b 0\<rparr>"
    using load_in [of b a s c] Cons.prems x by simp
  have "map_option (\<lambda>l. nd_prev l \<noteq> a) (load (first c 0) (mem_of (b @ (a, s) # c))) = Some False" if N: "first c 0 \<noteq> 0"
  proof -
    obtain d t c' where "c = (d, t) # c'" using N by (cases c) auto
    then show ?thesis using load_in [of "b @ [(a, s)]" d t c'] Cons.prems x by simp
  qed
  moreover have "consistency_loop j (first c 0) (mem_of (b @ (a, s) # c)) = Some 0" for j
    using Cons.IH [of "b @ [(a, s)]" j] Cons.prems x by simp
  ultimately show ?case using l x Cons.prems by (subst consistency_loop.simps) (auto split: nat.splits)
qed (simp add: consistency_loop.simps)

text \<open>The debug print shows the entries of the list, up to its limit.\<close>

lemma debug_list:
  assumes "sound (b @ c)"
  shows "\<exists>ls. debug_loop k i (first c 0) (mem_of (b @ c)) = Some ls \<and> map (\<lambda>(i, a, n). (a, nd_entry n)) ls = take (Suc k) c"
  using assms
proof (induction c arbitrary: b k i)
  case (Cons x c)
  obtain a s where x: "x = (a, s)" by fastforce
  have l: "load a (mem_of (b @ (a, s) # c)) = Some \<lparr>nd_entry = s, nd_next = first c 0, nd_prev = final b 0\<rparr>"
    using load_in [of b a s c] Cons.prems x by simp
  show ?case
  proof (cases k)
    case 0
    then show ?thesis using l x Cons.prems by (subst debug_loop.simps) auto
  next
    case (Suc j)
    then show ?thesis using Cons.IH [of "b @ [(a, s)]" j "i + 1"] l x Cons.prems by (subst debug_loop.simps) auto
  qed
qed (simp add: debug_loop.simps)

section \<open>Properties\<close>

text \<open>C35. The doubly linked stack implements the list of entries. Whatever addresses \<open>malloc\<close> returns, as long as they
  are not in use: the histogram of a trace on the heap returns or ends the program exactly as on
  lists, with the same counters; no pointer that is followed is null or freed; at the end the memory
  holds the entries of the list and nothing else, and all links back fit.\<close>

theorem heap_implements_the_stack:
  assumes "malloc_ok malloc" "do_one_histogram_mem magic model xs warmup start ps kid [] h = Some res"
  shows "case res of
      Inl e \<Rightarrow> heap_histogram malloc magic model xs warmup start ps kid (mem_of []) h = Some (Inl e)
    | Inr r \<Rightarrow> \<exists>ys r'. heap_histogram malloc magic model xs warmup start ps kid (mem_of []) h = Some (Inr (mem_of ys, r')) \<and>
        sound ys \<and> map snd ys = stack r \<and> r = r'\<lparr>stack := stack r\<rparr> \<and> check_trace_consistency (mem_of ys) = Some 0"
proof -
  have "same_run (mem_of []) (run_start warmup start [] h) (run_start warmup start [] h)"
    by (rule same_runI) (simp_all add: run_start_def)
  from heap_histo_loop_refines [OF assms(2) [unfolded do_one_histogram_mem_def] this assms(1)] show ?thesis
  proof (elim disjE exE conjE)
    fix r m r'
    assume r: "res = Inr r" "same_run m r' r"
      and l: "heap_histo_loop malloc magic model start ps kid warmup (drop warmup xs) (mem_of []) (run_start warmup start [] h) = Some (Inr (m, r'))"
    obtain ys where ys: "sound ys" "m = mem_of ys" "r = r'\<lparr>stack := map snd ys\<rparr>" using r(2) by (auto simp: same_run_def)
    have "check_trace_consistency (mem_of ys) = Some 0"
      using consistent_list [of "[]" ys 1000000] ys(1) by (simp add: check_trace_consistency_def head_of_mem)
    moreover have "map snd ys = stack r \<and> r = r'\<lparr>stack := stack r\<rparr>" using ys(3) by simp
    ultimately show ?thesis using r(1) l ys(1,2) unfolding heap_histogram_def by auto
  qed (simp add: heap_histogram_def)
qed

definition bump :: allocator where
  "bump c = Suc (Max (insert 0 (dom c)))"

lemma bump_ok: "malloc_ok bump"
proof -
  have "c (bump c) = None" if "finite (dom c)" for c
  proof (rule ccontr)
    assume "c (bump c) \<noteq> None"
    then have "bump c \<le> Max (insert 0 (dom c))" using that by (intro Max_ge) auto
    then show False by (simp add: bump_def)
  qed
  then show ?thesis by (auto simp: malloc_ok_def bump_def)
qed

theorem heap_implements_the_stack_witness:
  "\<exists>ys r'. heap_histogram bump RWI_TRACE_MAGIC ARRAY_PARTIAL [ex_part_access 64 16, ex_part_access 66 (-8), ex_part_access 72 3] 0 0 whole 5 (mem_of []) no_hist
     = Some (Inr (mem_of ys, r')) \<and> sound ys"
proof -
  let ?xs = "[ex_part_access 64 16, ex_part_access 66 (-8), ex_part_access 72 3]"
  have "list_all (block_elem 1) ?xs" by (simp add: ex_trace ex_partial)
  then obtain r where "do_one_histogram_mem RWI_TRACE_MAGIC ARRAY_PARTIAL ?xs 0 0 whole 5 [] no_hist = Some (Inr r)"
    using partial_histogram_returns [of "[]" ?xs RWI_TRACE_MAGIC whole 0 0 5 no_hist]
    by (auto simp: stack_ok_def known_magic_def whole_def)
  from heap_implements_the_stack [OF bump_ok this] show ?thesis by auto
qed

end
