(* ===== verification/Loi.thy ===== *)
theory Loi
  imports Krd_Trace Complex_Main "HOL-Library.Signed_Division"
begin

unbundle bit_operations_syntax

text \<open>
  The instrumentation of the profiler (\<open>loi/loi.h\<close>, \<open>loi/loi.c\<close>, \<open>loi/krd_bench.c\<close>): time stamps,
  the profile of kernels and phases, the macros around a kernel, initialisation, the
  statistics and the two benchmarks. Readings of the time stamp counter, the core id that comes with
  them, \<open>threadid()\<close>, the clock and random numbers are arguments; a \<open>double\<close> is a real number or
  \<open>None\<close> (infinite or not a number), and \<open>rnd\<close> is its rounding.
\<close>

section \<open>State\<close>

definition NUM_KERNELS :: int where "NUM_KERNELS = 20"
definition NUM_PHASES :: int where "NUM_PHASES = 20"

record loi_kernel_info =
  num_kernels :: int
  num_phases :: int
  kname :: "int \<Rightarrow> string"
  phases :: "int \<Rightarrow> string"
  phase_kernels :: "int \<Rightarrow> 64 word"

record loi_kernel_stats =
  cycles :: "int \<Rightarrow> 64 word"
  num :: "int \<Rightarrow> 64 word"

text \<open>The global variables; \<open>exectime\<close> is the only member of \<open>phasestats\<close>.\<close>

record loi =
  kernelstats :: "int \<Rightarrow> loi_kernel_stats"
  exectime :: "int \<Rightarrow> 64 word"
  TSCFREQ :: "64 word"
  traces :: krd

definition loi_initial :: loi where
  "loi_initial = \<lparr>kernelstats = (\<lambda>_. \<lparr>cycles = (\<lambda>_. 0), num = (\<lambda>_. 0)\<rparr>), exectime = (\<lambda>_. 0), TSCFREQ = 0,
     traces = krd_initial\<rparr>"

section \<open>Time stamps and threads\<close>

definition CORE :: "32 word \<Rightarrow> 32 word" where "CORE i = i AND 0xfff"
definition NUMA :: "32 word \<Rightarrow> 32 word" where "NUMA i = drop_bit 12 i AND 0xff"

text \<open>The value from the two registers; \<open>rdtscp\<close> also gives the core id, if there is a place for it.\<close>

definition rdtsc_clock_gettime :: "32 word \<Rightarrow> 32 word \<Rightarrow> 64 word" where
  "rdtsc_clock_gettime low high = push_bit 32 (ucast high) OR ucast low"

definition rdtsc_clock_gettime_serial_id :: "32 word \<Rightarrow> 32 word \<Rightarrow> 32 word \<Rightarrow> 32 word option \<Rightarrow> 64 word \<times> 32 word option" where
  "rdtsc_clock_gettime_serial_id low high aux i =
     (case i of None \<Rightarrow> (0, None) | Some old \<Rightarrow> (rdtsc_clock_gettime low high, Some aux))"

text \<open>Without the core id, and the reading around which the frequency is measured.\<close>

definition rdtsc_clock_gettime_serial :: "32 word \<Rightarrow> 32 word \<Rightarrow> 32 word \<Rightarrow> 64 word" where
  "rdtsc_clock_gettime_serial low high aux = push_bit 32 (ucast high) OR ucast low"

definition vt_pform_wtime :: "32 word \<Rightarrow> 32 word \<Rightarrow> 64 word" where
  "vt_pform_wtime low high = push_bit 32 (ucast high) OR ucast low"

text \<open>The index of the current thread, with \<open>RDTSCP_ID\<close> and without.\<close>

definition thread_index :: "bool \<Rightarrow> 32 word \<Rightarrow> int \<Rightarrow> int" where
  "thread_index rdtscp_id coreid threadid =
     (if rdtscp_id then uint (CORE coreid) else (threadid smod LOI_MAXTHREADS) AND 0x3ff)"

definition in_profile :: "int \<Rightarrow> int \<Rightarrow> bool" where
  "in_profile kid t = (0 \<le> kid \<and> kid < NUM_KERNELS \<and> 0 \<le> t \<and> t < LOI_MAXTHREADS)"

definition Ktime :: "int \<Rightarrow> int \<Rightarrow> loi \<Rightarrow> 64 word" where "Ktime kid t st = cycles (kernelstats st t) kid"
definition Knum :: "int \<Rightarrow> int \<Rightarrow> loi \<Rightarrow> 64 word" where "Knum kid t st = num (kernelstats st t) kid"

definition set_Kernel :: "int \<Rightarrow> int \<Rightarrow> 64 word \<Rightarrow> 64 word \<Rightarrow> loi \<Rightarrow> loi" where
  "set_Kernel kid t c n st = st\<lparr>kernelstats := (kernelstats st)
     (t := \<lparr>cycles = (cycles (kernelstats st t))(kid := c), num = (num (kernelstats st t))(kid := n)\<rparr>)\<rparr>"

section \<open>Kernels and phases\<close>

text \<open>\<open>kernel_profile_stop\<close>, with the start of the kernel; also the index that the traces use.\<close>

definition kernel_profile_stop :: "bool \<Rightarrow> 64 word \<Rightarrow> 64 word \<Rightarrow> 32 word \<Rightarrow> int \<Rightarrow> int \<Rightarrow> loi \<Rightarrow> krd_error + (int \<times> loi)" where
  "kernel_profile_stop rdtscp_id kstart kstop coreid threadid kindex st =
     (let ndx = thread_index rdtscp_id coreid threadid in
      if in_profile kindex ndx
      then Inr (ndx, set_Kernel kindex ndx (Ktime kindex ndx st + (kstop - kstart)) (Knum kindex ndx st + 1) st)
      else Inl Fault)"

text \<open>The last run of a phase counts.\<close>

definition phase_profile_stop :: "64 word \<Rightarrow> 64 word \<Rightarrow> int \<Rightarrow> loi \<Rightarrow> krd_error + loi" where
  "phase_profile_stop pstart pstop phase st =
     (if 0 \<le> phase \<and> phase < NUM_PHASES then Inr (st\<lparr>exectime := (exectime st)(phase := pstop - pstart)\<rparr>) else Inl Fault)"

definition KREAD :: "32 word \<Rightarrow> 32 word" where "KREAD b = b"
definition KWRITE :: "32 word \<Rightarrow> 32 word" where "KWRITE b = (-1) * b"

type_synonym access = "64 word \<times> 32 word"

definition trace_access :: "int \<Rightarrow> 64 word \<Rightarrow> 16 word \<Rightarrow> access \<Rightarrow> loi \<Rightarrow> krd_error + loi" where
  "trace_access ndx kstart kid a st =
     ebind (TTrace_add_and_incr ndx (fst a) kstart (snd a) kid (traces st)) (\<lambda>k. Inr (st\<lparr>traces := k\<rparr>))"

definition kernel_trace1 :: "int \<Rightarrow> 64 word \<Rightarrow> 16 word \<Rightarrow> access \<Rightarrow> loi \<Rightarrow> krd_error + loi" where
  "kernel_trace1 ndx kstart kid a st = trace_access ndx kstart kid a st"

definition kernel_trace2 :: "int \<Rightarrow> 64 word \<Rightarrow> 16 word \<Rightarrow> access \<Rightarrow> access \<Rightarrow> loi \<Rightarrow> krd_error + loi" where
  "kernel_trace2 ndx kstart kid a b st =
     ebind (trace_access ndx kstart kid a st) (trace_access ndx kstart kid b)"

definition kernel_trace3 :: "int \<Rightarrow> 64 word \<Rightarrow> 16 word \<Rightarrow> access \<Rightarrow> access \<Rightarrow> access \<Rightarrow> loi \<Rightarrow> krd_error + loi" where
  "kernel_trace3 ndx kstart kid a b c st =
     ebind (trace_access ndx kstart kid a st) (\<lambda>st. ebind (trace_access ndx kstart kid b st) (trace_access ndx kstart kid c))"

text \<open>What an instrumented program does: a kernel that runs once, with its accesses, or a phase.\<close>

datatype ktrace = No_trace | Trace1 access | Trace2 access access | Trace3 access access access

record kernel_run =
  kr_kernel :: "16 word"
  kr_start :: "64 word"
  kr_stop :: "64 word"
  kr_core :: "32 word"
  kr_thread :: int
  kr_trace :: ktrace

datatype loi_event = Kernel kernel_run | Phase int "64 word" "64 word"

definition run_trace :: "int \<Rightarrow> 64 word \<Rightarrow> 16 word \<Rightarrow> ktrace \<Rightarrow> loi \<Rightarrow> krd_error + loi" where
  "run_trace ndx kstart kid t st = (case t of
     No_trace \<Rightarrow> Inr st
   | Trace1 a \<Rightarrow> kernel_trace1 ndx kstart kid a st
   | Trace2 a b \<Rightarrow> kernel_trace2 ndx kstart kid a b st
   | Trace3 a b c \<Rightarrow> kernel_trace3 ndx kstart kid a b c st)"

definition run_event :: "bool \<Rightarrow> loi_event \<Rightarrow> loi \<Rightarrow> krd_error + loi" where
  "run_event rdtscp_id e st = (case e of
     Kernel k \<Rightarrow> ebind (kernel_profile_stop rdtscp_id (kr_start k) (kr_stop k) (kr_core k) (kr_thread k) (sint (kr_kernel k)) st)
       (\<lambda>(ndx, st'). run_trace ndx (kr_start k) (kr_kernel k) (kr_trace k) st')
   | Phase p b e \<Rightarrow> phase_profile_stop b e p st)"

fun run_events :: "bool \<Rightarrow> loi_event list \<Rightarrow> loi \<Rightarrow> krd_error + loi" where
  "run_events rdtscp_id [] st = Inr st"
| "run_events rdtscp_id (e # es) st = ebind (run_event rdtscp_id e st) (run_events rdtscp_id es)"

section \<open>Initialisation\<close>

text \<open>
  The frequency of the counter: four readings of it and two of \<open>gettimeofday\<close>, in microseconds,
  around a call of \<open>nanosleep\<close>. The conversion of an infinite quotient is undefined.
\<close>

definition timestamp_us :: "int \<Rightarrow> int \<Rightarrow> 64 word" where
  "timestamp_us tv_sec tv_usec = of_int (tv_sec * 1000000 + tv_usec)"

text \<open>The argument of \<open>nanosleep\<close> is built before the default value is set.\<close>

definition nsleeptime :: "int \<Rightarrow> int \<times> int" where "nsleeptime nsleep_time = (0, nsleep_time)"

definition cycle_counter_frequency ::
    "(real \<Rightarrow> real) \<Rightarrow> 64 word \<Rightarrow> int \<times> int \<Rightarrow> 64 word \<Rightarrow> 64 word \<Rightarrow> int \<times> int \<Rightarrow> 64 word \<Rightarrow> krd_error + 64 word" where
  "cycle_counter_frequency rnd start1 tv1 start2 end1 tv2 end2 =
     (let start_time = timestamp_us (fst tv1) (snd tv1); end_time = timestamp_us (fst tv2) (snd tv2);
          start_cycles = (start1 + start2) div 2; end_cycles = (end1 + end2) div 2;
          dcycles = rnd (of_nat (unat (end_cycles - start_cycles))); dtime = rnd (of_nat (unat (end_time - start_time)));
          f = rnd (rnd (1000000 * dcycles) / dtime)
      in if dtime = 0 \<or> f \<ge> 2 ^ 64 then Inl Fault else Inr (of_int \<lfloor>f\<rfloor>))"

section \<open>Benchmarks\<close>

text \<open>
  The readings of an iteration: the counter, the core id, \<open>threadid()\<close>, and a random number. The code
  makes \<open>10^5\<close> iterations, or \<open>range\<close> for sequential positions.
\<close>

record reading =
  rd_tsc :: "64 word"
  rd_core :: "32 word"
  rd_thread :: int
  rd_random :: int

definition bench_iterations :: nat where "bench_iterations = 100000"

fun loi_bench_loop :: "bool \<Rightarrow> 64 word \<Rightarrow> reading list \<Rightarrow> int \<Rightarrow> loi \<Rightarrow> krd_error + (int \<times> loi)" where
  "loi_bench_loop rdtscp_id tstart [] ndx st = Inr (ndx, st)"
| "loi_bench_loop rdtscp_id tstart (x # xs) ndx st =
     ebind (kernel_profile_stop rdtscp_id tstart (rd_tsc x) (rd_core x) (rd_thread x) 0 st)
       (\<lambda>(n, st'). loi_bench_loop rdtscp_id tstart xs n st')"

text \<open>The counters of kernel 0 are cleared for the last thread seen. Without an iteration there is none.\<close>

definition loi_bench :: "bool \<Rightarrow> 64 word \<Rightarrow> reading list \<Rightarrow> loi \<Rightarrow> krd_error + loi" where
  "loi_bench rdtscp_id tstart xs st =
     (if xs = [] then Inl Fault
      else ebind (loi_bench_loop rdtscp_id tstart xs 0 st) (\<lambda>(ndx, st'). Inr (set_Kernel 0 ndx 0 0 st')))"

definition bench_core :: "bool \<Rightarrow> 32 word \<Rightarrow> 32 word" where
  "bench_core rdtscp_id aux = (if rdtscp_id then aux else 0)"

definition bench_entry :: "bool \<Rightarrow> 64 word \<Rightarrow> reading \<Rightarrow> int \<Rightarrow> loi \<Rightarrow> krd_error + (int \<times> loi)" where
  "bench_entry rdtscp_id tstart x entry st =
     (let ndx = thread_index rdtscp_id (rd_core x) (rd_thread x) in
      if entry < 0 then Inl Fault
      else ebind (TTrace_add_and_incr_entry ndx (ucast (bench_core rdtscp_id (rd_core x))) tstart 1 (nat entry) 0 (traces st))
        (\<lambda>k. Inr (ndx, st\<lparr>traces := k\<rparr>)))"

fun bench_loop :: "bool \<Rightarrow> 64 word \<Rightarrow> (nat \<Rightarrow> reading \<Rightarrow> int) \<Rightarrow> nat \<Rightarrow> reading list \<Rightarrow> int \<Rightarrow> loi \<Rightarrow> krd_error + (int \<times> loi)" where
  "bench_loop rdtscp_id tstart entry i [] ndx st = Inr (ndx, st)"
| "bench_loop rdtscp_id tstart entry i (x # xs) ndx st =
     ebind (bench_entry rdtscp_id tstart x (entry i x) st) (\<lambda>(n, st'). bench_loop rdtscp_id tstart entry (i + 1) xs n st')"

definition reset_trace :: "int \<Rightarrow> krd \<Rightarrow> krd_error + krd" where
  "reset_trace ndx k = ebind (get_trace ndx k) (\<lambda>t. Inr (put_trace ndx (t\<lparr>num_elems := 0, tindex := 0\<rparr>) k))"

definition krd_bench_range_rand :: "bool \<Rightarrow> 64 word \<Rightarrow> int \<Rightarrow> reading list \<Rightarrow> loi \<Rightarrow> krd_error + loi" where
  "krd_bench_range_rand rdtscp_id tstart rng xs st =
     (if xs = [] then Inl Fault
      else ebind (bench_loop rdtscp_id tstart (\<lambda>i x. rd_random x mod rng) 0 xs 0 st) (\<lambda>(ndx, st').
        ebind (reset_trace ndx (traces st')) (\<lambda>k. Inr (st'\<lparr>traces := k\<rparr>))))"

definition krd_bench_range_seq :: "bool \<Rightarrow> 64 word \<Rightarrow> reading list \<Rightarrow> loi \<Rightarrow> krd_error + loi" where
  "krd_bench_range_seq rdtscp_id tstart xs st =
     (if xs = [] then Inl Fault
      else ebind (bench_loop rdtscp_id tstart (\<lambda>i x. int i) 0 xs 0 st) (\<lambda>(ndx, st').
        ebind (reset_trace ndx (traces st')) (\<lambda>k. Inr (st'\<lparr>traces := k\<rparr>))))"

definition bench_ranges :: "nat list" where "bench_ranges = [100, 1000, 10000, 100000, 1000000, 10000000]"

text \<open>The \<open>k\<close>-th of the twelve measurements, with its readings.\<close>

fun bench_each :: "(nat \<Rightarrow> loi \<Rightarrow> krd_error + loi) \<Rightarrow> nat list \<Rightarrow> loi \<Rightarrow> krd_error + loi" where
  "bench_each f [] st = Inr st"
| "bench_each f (r # rs) st = ebind (f r st) (bench_each f rs)"

definition krd_bench :: "bool \<Rightarrow> (bool \<Rightarrow> nat \<Rightarrow> 64 word) \<Rightarrow> (bool \<Rightarrow> nat \<Rightarrow> nat \<Rightarrow> reading) \<Rightarrow> loi \<Rightarrow> krd_error + loi" where
  "krd_bench rdtscp_id tstart rd st =
     ebind (bench_each (\<lambda>r. krd_bench_range_rand rdtscp_id (tstart True r) (int r) (map (rd True r) [0..<bench_iterations])) bench_ranges st)
       (bench_each (\<lambda>r. krd_bench_range_seq rdtscp_id (tstart False r) (map (rd False r) [0..<r])) bench_ranges)"

text \<open>\<open>loi_init\<close>, with the readings of the benchmarks if they are compiled in (\<open>DO_BENCH\<close>).\<close>

record bench_readings =
  br_tstart :: "64 word"
  br_profile :: "reading list"
  br_trace_start :: "bool \<Rightarrow> nat \<Rightarrow> 64 word"
  br_trace :: "bool \<Rightarrow> nat \<Rightarrow> nat \<Rightarrow> reading"

definition loi_init :: "nat \<Rightarrow> bool \<Rightarrow> (int \<Rightarrow> bool) \<Rightarrow> bool \<Rightarrow> krd_error + 64 word \<Rightarrow> bench_readings option \<Rightarrow> loi \<Rightarrow> krd_error + (int \<times> loi)" where
  "loi_init numthreads calloc_ok mmap_ok rdtscp_id freq do_bench st =
     ebind freq (\<lambda>f. ebind (krd_init_block calloc_ok mmap_ok numthreads TRACE_LENGTH (traces st)) (\<lambda>k.
       let st' = st\<lparr>TSCFREQ := f, traces := k\<rparr> in
       case do_bench of
         None \<Rightarrow> Inr (0, st')
       | Some b \<Rightarrow> ebind (loi_bench rdtscp_id (br_tstart b) (br_profile b) st') (\<lambda>st1.
           ebind (krd_bench rdtscp_id (br_trace_start b) (br_trace b) st1) (\<lambda>st2. Inr (0, st2)))))"

section \<open>Statistics\<close>

text \<open>Numbers of type \<open>double\<close>.\<close>

type_synonym dbl = "real option"

definition ddiv :: "(real \<Rightarrow> real) \<Rightarrow> dbl \<Rightarrow> dbl \<Rightarrow> dbl" where
  "ddiv rnd a b = (case (a, b) of (Some x, Some y) \<Rightarrow> if y = 0 then None else Some (rnd (x / y)) | _ \<Rightarrow> None)"

definition dop :: "(real \<Rightarrow> real) \<Rightarrow> (real \<Rightarrow> real \<Rightarrow> real) \<Rightarrow> dbl \<Rightarrow> dbl \<Rightarrow> dbl" where
  "dop rnd f a b = (case (a, b) of (Some x, Some y) \<Rightarrow> Some (rnd (f x y)) | _ \<Rightarrow> None)"

definition dsqrt :: "(real \<Rightarrow> real) \<Rightarrow> dbl \<Rightarrow> dbl" where
  "dsqrt rnd a = map_option (\<lambda>x. rnd (sqrt x)) a"

definition dword :: "(real \<Rightarrow> real) \<Rightarrow> 64 word \<Rightarrow> dbl" where
  "dword rnd w = Some (rnd (of_nat (unat w)))"

text \<open>Seconds from cycles. The comparison with 0 also holds if the quotient is infinite.\<close>

definition CTR :: "(real \<Rightarrow> real) \<Rightarrow> loi \<Rightarrow> 64 word \<Rightarrow> dbl" where
  "CTR rnd st a = ddiv rnd (dword rnd a) (dword rnd (TSCFREQ st))"

definition CTR_positive :: "(real \<Rightarrow> real) \<Rightarrow> loi \<Rightarrow> 64 word \<Rightarrow> bool" where
  "CTR_positive rnd st a = (case CTR rnd st a of Some x \<Rightarrow> x > 0 | None \<Rightarrow> a \<noteq> 0)"

datatype loi_line =
    Thread_line string int "64 word" dbl dbl
  | Average_line string dbl dbl dbl
  | Total_line string dbl
  | Detected_line int
  | Phase_line string dbl dbl dbl dbl

text \<open>The threads that ran a kernel, the sum of their times, the time of one execution in a thread.\<close>

definition kernel_threads :: "(real \<Rightarrow> real) \<Rightarrow> loi \<Rightarrow> int \<Rightarrow> int list" where
  "kernel_threads rnd st k = filter (\<lambda>i. CTR_positive rnd st (Ktime k i st)) [0..LOI_MAXTHREADS - 1]"

definition kernel_time :: "(real \<Rightarrow> real) \<Rightarrow> loi \<Rightarrow> int \<Rightarrow> dbl" where
  "kernel_time rnd st k = fold (\<lambda>i t. dop rnd (+) t (CTR rnd st (Ktime k i st))) (kernel_threads rnd st k) (Some 0)"

definition pertask :: "(real \<Rightarrow> real) \<Rightarrow> loi \<Rightarrow> int \<Rightarrow> dbl" where
  "pertask rnd st k = ddiv rnd
     (fold (\<lambda>i t. dop rnd (+) t (ddiv rnd (CTR rnd st (Ktime k i st)) (dword rnd (Knum k i st)))) (kernel_threads rnd st k) (Some 0))
     (Some (of_nat (length (kernel_threads rnd st k))))"

definition nsec :: "(real \<Rightarrow> real) \<Rightarrow> dbl \<Rightarrow> dbl" where
  "nsec rnd a = dop rnd (*) (Some 1000000000) a"

definition thread_nsec :: "(real \<Rightarrow> real) \<Rightarrow> loi \<Rightarrow> int \<Rightarrow> int \<Rightarrow> dbl" where
  "thread_nsec rnd st k i = ddiv rnd (nsec rnd (CTR rnd st (Ktime k i st))) (dword rnd (Knum k i st))"

definition stddev :: "(real \<Rightarrow> real) \<Rightarrow> loi \<Rightarrow> int \<Rightarrow> dbl" where
  "stddev rnd st k = (let avg = nsec rnd (pertask rnd st k) in
     dsqrt rnd (ddiv rnd
       (fold (\<lambda>i t. let d = dop rnd (-) (thread_nsec rnd st k i) avg in dop rnd (+) t (dop rnd (*) d d))
          (kernel_threads rnd st k) (Some 0))
       (Some (of_nat (length (kernel_threads rnd st k))))))"

definition kernel_lines :: "(real \<Rightarrow> real) \<Rightarrow> loi_kernel_info \<Rightarrow> int \<Rightarrow> loi \<Rightarrow> int \<Rightarrow> loi_line list" where
  "kernel_lines rnd kinfo total_threads st k =
     (let ts = kernel_threads rnd st k; avg = nsec rnd (pertask rnd st k); sd = stddev rnd st k in
      map (\<lambda>i. Thread_line (kname kinfo k) i (Knum k i st) (CTR rnd st (Ktime k i st)) (thread_nsec rnd st k i)) ts
      @ [Average_line (kname kinfo k) avg sd (ddiv rnd (dop rnd (*) (Some 100) sd) avg),
         Total_line (kname kinfo k) (kernel_time rnd st k)]
      @ (if int (length ts) \<noteq> total_threads then [Detected_line (int (length ts))] else []))"

text \<open>The kernels of a phase: 63 of the 64 bits are looked at. An index behind the kernels is out of the array.\<close>

definition phase_members :: "loi_kernel_info \<Rightarrow> int \<Rightarrow> nat list" where
  "phase_members kinfo ph = filter (\<lambda>b. phase_kernels kinfo ph AND push_bit b 1 \<noteq> 0) [0..<63]"

definition phase_line :: "(real \<Rightarrow> real) \<Rightarrow> loi_kernel_info \<Rightarrow> int \<Rightarrow> loi \<Rightarrow> int \<Rightarrow> krd_error + loi_line" where
  "phase_line rnd kinfo total_threads st ph =
     (if list_ex (\<lambda>b. int b \<ge> num_kernels kinfo) (phase_members kinfo ph) then Inl Fault
      else let accum = fold (\<lambda>b t. dop rnd (+) t (kernel_time rnd st (int b))) (phase_members kinfo ph) (Some 0);
        all = ddiv rnd (dop rnd (*) (Some (of_int total_threads)) (dword rnd (exectime st ph))) (dword rnd (TSCFREQ st));
        over = dop rnd (-) all accum; rel = ddiv rnd over all
      in Inr (Phase_line (phases kinfo ph) (CTR rnd st (exectime st ph)) over (dop rnd (*) (Some 100) rel)
           (ddiv rnd (Some 1) (dop rnd (-) (Some 1) rel))))"

fun phase_lines :: "(real \<Rightarrow> real) \<Rightarrow> loi_kernel_info \<Rightarrow> int \<Rightarrow> loi \<Rightarrow> int list \<Rightarrow> krd_error + loi_line list" where
  "phase_lines rnd kinfo total_threads st [] = Inr []"
| "phase_lines rnd kinfo total_threads st (p # ps) =
     ebind (phase_line rnd kinfo total_threads st p) (\<lambda>l. ebind (phase_lines rnd kinfo total_threads st ps) (\<lambda>ls. Inr (l # ls)))"

definition loi_statistics :: "(real \<Rightarrow> real) \<Rightarrow> loi_kernel_info \<Rightarrow> int \<Rightarrow> loi \<Rightarrow> krd_error + loi_line list" where
  "loi_statistics rnd kinfo total_threads st =
     (if num_kernels kinfo > NUM_KERNELS \<or> num_phases kinfo > NUM_PHASES then Inl Fault
      else ebind (phase_lines rnd kinfo total_threads st [0..num_phases kinfo - 1]) (\<lambda>ls.
        Inr (concat (map (kernel_lines rnd kinfo total_threads st) [0..num_kernels kinfo - 1]) @ ls)))"

end
