(* ===== verification/Loi_Profile.thy ===== *)
theory Loi_Profile
  imports Loi
begin

unbundle bit_operations_syntax

text \<open>
  What the profile, the traces and the statistics of an instrumented program are, which runs fail,
  and what the benchmarks leave behind.
\<close>

section \<open>The profile of a run\<close>

lemma set_Kernel_same [simp]:
  "Ktime k t (set_Kernel k t c n st) = c" "Knum k t (set_Kernel k t c n st) = n"
  by (simp_all add: Ktime_def Knum_def set_Kernel_def)

lemma set_Kernel_other [simp]:
  "(k, t) \<noteq> (k', t') \<Longrightarrow> Ktime k t (set_Kernel k' t' c n st) = Ktime k t st"
  "(k, t) \<noteq> (k', t') \<Longrightarrow> Knum k t (set_Kernel k' t' c n st) = Knum k t st"
  by (auto simp: Ktime_def Knum_def set_Kernel_def)

lemma set_Kernel_rest [simp]: "exectime (set_Kernel k t c n st) = exectime st" "TSCFREQ (set_Kernel k t c n st) = TSCFREQ st"
    "traces (set_Kernel k t c n st) = traces st"
  by (simp_all add: set_Kernel_def)

lemma profile_stop_result:
  "kernel_profile_stop c b e core thr k st = Inr (ndx, st') \<longleftrightarrow>
     ndx = thread_index c core thr \<and> in_profile k ndx \<and>
     st' = set_Kernel k ndx (Ktime k ndx st + (e - b)) (Knum k ndx st + 1) st"
  by (auto simp: kernel_profile_stop_def Let_def)

definition same_profile :: "loi \<Rightarrow> loi \<Rightarrow> bool" where
  "same_profile st st' = (kernelstats st' = kernelstats st \<and> exectime st' = exectime st \<and> TSCFREQ st' = TSCFREQ st)"

lemma trace_access_profile: "trace_access ndx b k a st = Inr st' \<Longrightarrow> same_profile st st'"
  by (auto simp: trace_access_def ebind_Inr same_profile_def)

lemma run_trace_profile: "run_trace ndx b k t st = Inr st' \<Longrightarrow> same_profile st st'"
  by (cases t) (fastforce simp: run_trace_def kernel_trace1_def kernel_trace2_def kernel_trace3_def ebind_Inr same_profile_def
      dest!: trace_access_profile)+

text \<open>The runs of a kernel on a thread, the cycles they took, and the last run of a phase.\<close>

fun runs_of :: "bool \<Rightarrow> int \<Rightarrow> int \<Rightarrow> loi_event list \<Rightarrow> kernel_run list" where
  "runs_of c k t [] = []"
| "runs_of c k t (Phase p b e # es) = runs_of c k t es"
| "runs_of c k t (Kernel r # es) =
     (if sint (kr_kernel r) = k \<and> thread_index c (kr_core r) (kr_thread r) = t then [r] else []) @ runs_of c k t es"

fun last_phase :: "int \<Rightarrow> loi_event list \<Rightarrow> 64 word option" where
  "last_phase p [] = None"
| "last_phase p (Kernel r # es) = last_phase p es"
| "last_phase p (Phase q b e # es) = (case last_phase p es of None \<Rightarrow> if p = q then Some (e - b) else None | Some d \<Rightarrow> Some d)"

definition run_cycles :: "kernel_run list \<Rightarrow> 64 word" where
  "run_cycles rs = (\<Sum>r\<leftarrow>rs. kr_stop r - kr_start r)"

lemma run_events_profile:
  "run_events c es st = Inr st' \<Longrightarrow>
     Ktime k t st' = Ktime k t st + run_cycles (runs_of c k t es) \<and>
     Knum k t st' = Knum k t st + of_nat (length (runs_of c k t es)) \<and>
     exectime st' p = (case last_phase p es of None \<Rightarrow> exectime st p | Some d \<Rightarrow> d) \<and> TSCFREQ st' = TSCFREQ st"
proof (induction es arbitrary: st)
  case Nil
  then show ?case by (simp add: run_cycles_def)
next
  case (Cons x es)
  then obtain st1 where st1: "run_event c x st = Inr st1" "run_events c es st1 = Inr st'" by (auto simp: ebind_Inr)
  note IH = Cons.IH [OF st1(2)]
  show ?case
  proof (cases x)
    case (Kernel r)
    then obtain ndx st0 where p: "kernel_profile_stop c (kr_start r) (kr_stop r) (kr_core r) (kr_thread r) (sint (kr_kernel r)) st = Inr (ndx, st0)"
      "run_trace ndx (kr_start r) (kr_kernel r) (kr_trace r) st0 = Inr st1"
      using st1(1) by (auto simp: run_event_def ebind_Inr)
    have "same_profile st0 st1" by (rule run_trace_profile [OF p(2)])
    then have "Ktime k t st1 = Ktime k t st0" "Knum k t st1 = Knum k t st0" "exectime st1 = exectime st0" "TSCFREQ st1 = TSCFREQ st0"
      by (simp_all add: same_profile_def Ktime_def Knum_def)
    with p(1) IH show ?thesis
      by (cases "(k, t) = (sint (kr_kernel r), ndx)") (auto simp: Kernel profile_stop_result run_cycles_def cong: option.case_cong)
  next
    case (Phase q b e)
    then have "st1 = st\<lparr>exectime := (exectime st)(q := e - b)\<rparr>"
      using st1(1) by (auto simp: run_event_def phase_profile_stop_def split: if_splits)
    with IH show ?thesis by (auto simp: Phase Ktime_def Knum_def split: option.splits)
  qed
qed

lemma words_add_up:
  "(\<Sum>x\<leftarrow>xs. unat (f x)) < 2 ^ 64 \<Longrightarrow> unat (\<Sum>x\<leftarrow>xs. f x) = (\<Sum>x\<leftarrow>xs. unat (f x))" for f :: "'a \<Rightarrow> 64 word"
proof (induction xs)
  case (Cons x xs)
  then have "unat (f x) + unat (\<Sum>x\<leftarrow>xs. f x) < 2 ^ 64" by simp
  with Cons show ?case by (simp add: unat_word_ariths)
qed simp

definition cycles_taken :: "kernel_run list \<Rightarrow> nat" where
  "cycles_taken rs = (\<Sum>r\<leftarrow>rs. unat (kr_stop r) - unat (kr_start r))"

definition forward :: "kernel_run list \<Rightarrow> bool" where
  "forward rs = list_all (\<lambda>r. kr_start r \<le> kr_stop r) rs"

lemma run_cycles_exact:
  assumes "forward rs" "cycles_taken rs < 2 ^ 64"
  shows "unat (run_cycles rs) = cycles_taken rs"
proof -
  have "(\<Sum>r\<leftarrow>rs. unat (kr_stop r - kr_start r)) = cycles_taken rs"
    unfolding cycles_taken_def using assms(1)
    by (intro arg_cong [where f = sum_list] map_cong refl) (auto simp: forward_def list_all_iff unat_sub)
  with words_add_up [of "\<lambda>r. kr_stop r - kr_start r" rs] assms(2) show ?thesis by (simp add: run_cycles_def)
qed

definition no_profile :: "loi \<Rightarrow> bool" where
  "no_profile st = (kernelstats st = (\<lambda>_. \<lparr>cycles = (\<lambda>_. 0), num = (\<lambda>_. 0)\<rparr>))"

text \<open>C38. After the execution of an instrumented program that starts with an empty profile, the counters of a
  kernel and thread hold the number of its runs and the sum of their cycles, as long as it fits 64 bits;
  of a phase that ran more than once, only the last run is kept.\<close>

theorem profile_of_a_run:
  assumes "run_events c es st = Inr st'" "no_profile st"
    and "forward (runs_of c k t es)" "cycles_taken (runs_of c k t es) < 2 ^ 64" "length (runs_of c k t es) < 2 ^ 64"
  shows "unat (Ktime k t st') = cycles_taken (runs_of c k t es) \<and> unat (Knum k t st') = length (runs_of c k t es) \<and>
    exectime st' p = (case last_phase p es of None \<Rightarrow> exectime st p | Some d \<Rightarrow> d)"
  using run_events_profile [OF assms(1), of k t p] run_cycles_exact [OF assms(3,4)] assms(2,5)
  by (simp add: no_profile_def Ktime_def Knum_def unsigned_of_nat take_bit_nat_eq_self)

text \<open>Indices\<close>

lemma and_0x3ff: "0 \<le> i AND 0x3ff \<and> i AND 0x3ff < 1024" for i :: int
proof -
  have "i AND 0x3ff = take_bit 10 i" by (simp add: take_bit_eq_mask mask_eq_exp_minus_1)
  then show ?thesis using take_bit_int_less_exp [of 10 i] by simp
qed

lemma core_bound: "uint (CORE i) < 4096"
proof -
  have "CORE i = take_bit 12 i" by (simp add: CORE_def take_bit_eq_mask mask_eq_exp_minus_1)
  then have "uint (CORE i) = take_bit 12 (uint i)" by (simp add: unsigned_take_bit_eq)
  then show ?thesis using take_bit_int_less_exp [of 12 "uint i"] by simp
qed

text \<open>The thread index that is computed from \<open>threadid()\<close> is always an index of the profile, even for
  a negative id; the one that is computed from the core id may be up to four times too large.\<close>

theorem thread_index_bounds:
  "0 \<le> thread_index False coreid thread \<and> thread_index False coreid thread < LOI_MAXTHREADS \<and>
   0 \<le> thread_index True coreid thread \<and> thread_index True coreid thread < 4 * LOI_MAXTHREADS"
  using and_0x3ff [of "thread smod LOI_MAXTHREADS"] core_bound [of coreid] by (simp add: thread_index_def LOI_MAXTHREADS_def)

definition in_range :: "bool \<Rightarrow> loi_event \<Rightarrow> bool" where
  "in_range c e = (case e of
     Kernel r \<Rightarrow> in_profile (sint (kr_kernel r)) (thread_index c (kr_core r) (kr_thread r))
   | Phase p _ _ \<Rightarrow> 0 \<le> p \<and> p < NUM_PHASES)"

lemma rdtsc_value: "unat (rdtsc_clock_gettime low high) = unat high * 2 ^ 32 + unat low"
proof -
  have "push_bit 32 (ucast high :: 64 word) OR ucast low = push_bit 32 (ucast high) + ucast low"
    by (rule disjunctive_add_eq_or [symmetric]) (rule bit_eqI, auto simp: bit_simps dest: bit_imp_le_length)
  moreover have "unat high < 2 ^ 32" "unat low < 2 ^ 32" using unsigned_less [of high, where 'a = nat] unsigned_less [of low, where 'a = nat] by simp_all
  ultimately show ?thesis
    by (simp add: rdtsc_clock_gettime_def unsigned_push_bit_eq unat_word_ariths push_bit_eq_mult unsigned_ucast_eq take_bit_nat_eq_self)
qed

section \<open>Traces\<close>

fun accesses :: "ktrace \<Rightarrow> access list" where
  "accesses No_trace = []"
| "accesses (Trace1 a) = [a]"
| "accesses (Trace2 a b) = [a, b]"
| "accesses (Trace3 a b c) = [a, b, c]"

text \<open>The thread whose profile and trace a run goes to: the core id of 12 bits, or \<open>threadid()\<close> of 10 bits.\<close>

definition thread_of :: "bool \<Rightarrow> kernel_run \<Rightarrow> int" where
  "thread_of c r = (if c then uint (kr_core r) mod 4096 else kr_thread r mod 1024)"

lemma thread_of_index: "thread_index c (kr_core r) (kr_thread r) = thread_of c r"
proof -
  have "uint (CORE i) = uint i mod 4096" for i
  proof -
    have "CORE i = take_bit 12 i" by (simp add: CORE_def take_bit_eq_mask mask_eq_exp_minus_1)
    then show ?thesis by (simp add: unsigned_take_bit_eq) (simp add: take_bit_eq_mod)
  qed
  moreover have "(n smod LOI_MAXTHREADS) AND 0x3ff = n mod 1024" for n
  proof -
    have "(n smod LOI_MAXTHREADS) AND 0x3ff = take_bit 10 (n smod 1024)"
      by (simp add: take_bit_eq_mask mask_eq_exp_minus_1 LOI_MAXTHREADS_def)
    also have "\<dots> = (n smod 1024) mod 1024" by (simp add: take_bit_eq_mod)
    also have "\<dots> = (n - n sdiv 1024 * 1024) mod 1024" by (simp only: minus_sdiv_mult_eq_smod)
    also have "\<dots> = (n - n sdiv 1024 * 1024 + n sdiv 1024 * 1024) mod 1024" by (simp only: mod_mult_self1)
    finally show ?thesis by simp
  qed
  ultimately show ?thesis by (simp add: thread_index_def thread_of_def)
qed

text \<open>The accesses of one thread, in order, each with the start and the kernel of its run.\<close>

fun accesses_of :: "bool \<Rightarrow> int \<Rightarrow> loi_event list \<Rightarrow> (64 word \<times> 64 word \<times> 32 word \<times> 16 word) list" where
  "accesses_of c t [] = []"
| "accesses_of c t (Phase p b e # es) = accesses_of c t es"
| "accesses_of c t (Kernel r # es) =
     (if thread_of c r = t
      then map (\<lambda>a. (fst a, kr_start r, snd a, kr_kernel r)) (accesses (kr_trace r)) else []) @ accesses_of c t es"

lemma record_events_append: "record_events t (xs @ ys) k = ebind (record_events t xs k) (record_events t ys)"
proof (induction xs arbitrary: k)
  case Nil
  then show ?case by simp
next
  case (Cons x xs)
  obtain a b c d where "x = (a, b, c, d)" by (cases x)
  with Cons show ?case by (cases "TTrace_add_and_incr t a b c d k") simp_all
qed

lemma ebind_assoc: "ebind (ebind m f) g = ebind m (\<lambda>x. ebind (f x) g)"
  by (cases m) simp_all

lemma ebind_Inr_id [simp]: "ebind m Inr = m"
  by (cases m) simp_all

lemma record_events_Nil: "record_events t [] = Inr"
  by (rule ext) simp

lemma record_events_Cons:
  "record_events t ((x, time, sz, kid) # evs) = (\<lambda>k. ebind (TTrace_add_and_incr t x time sz kid k) (record_events t evs))"
  by (rule ext) simp

lemma run_trace_records:
  "ebind (run_trace ndx b kid tr st) (\<lambda>st'. Inr (traces st')) =
     record_events ndx (map (\<lambda>a. (fst a, b, snd a, kid)) (accesses tr)) (traces st)"
  by (cases tr) (simp_all add: run_trace_def kernel_trace1_def kernel_trace2_def kernel_trace3_def trace_access_def ebind_assoc
    record_events_Nil record_events_Cons)

text \<open>What a trace becomes depends on it alone.\<close>

lemma add_other:
  assumes "TTrace_add_and_incr t x time sz kid k = Inr k'" "i \<noteq> t"
  shows "get_trace i k' = get_trace i k"
  using assms by (auto simp: TTrace_add_and_incr_def ebind_Inr get_put_trace split: if_splits)

lemma add_same:
  assumes "TTrace_add_and_incr t x time sz kid k = Inr k1" "get_trace t k' = get_trace t k"
  shows "\<exists>k1'. TTrace_add_and_incr t x time sz kid k' = Inr k1' \<and> get_trace t k1' = get_trace t k1"
proof -
  obtain a where a: "get_trace t k = Inr a" using assms(1) by (auto simp: TTrace_add_and_incr_def ebind_Inr)
  then show ?thesis using assms by (cases "num_elems a < TRACE_LENGTH") (auto simp: TTrace_add_and_incr_def ebind_Inr)
qed

lemma record_other: "record_events t evs k = Inr k' \<Longrightarrow> i \<noteq> t \<Longrightarrow> get_trace i k' = get_trace i k"
proof (induction evs arbitrary: k)
  case (Cons x evs)
  obtain a b c d where x: "x = (a, b, c, d)" by (cases x)
  with Cons show ?case by (auto simp: ebind_Inr add_other)
qed simp

lemma record_same:
  "record_events t evs k = Inr k1 \<Longrightarrow> get_trace t k' = get_trace t k \<Longrightarrow>
     \<exists>k1'. record_events t evs k' = Inr k1' \<and> get_trace t k1' = get_trace t k1"
proof (induction evs arbitrary: k k')
  case (Cons x evs)
  obtain a b c d where x: "x = (a, b, c, d)" by (cases x)
  with Cons.prems obtain k0 where k0: "TTrace_add_and_incr t a b c d k = Inr k0" "record_events t evs k0 = Inr k1" by (auto simp: ebind_Inr)
  obtain k0' where "TTrace_add_and_incr t a b c d k' = Inr k0'" "get_trace t k0' = get_trace t k0"
    using add_same [OF k0(1) Cons.prems(2)] by blast
  with Cons.IH [OF k0(2)] show ?case by (auto simp: x)
qed simp

lemma run_event_traces:
  assumes "run_event c e st = Inr st1"
  shows "\<exists>k. record_events t (accesses_of c t [e]) (traces st) = Inr k \<and> get_trace t k = get_trace t (traces st1)"
proof (cases e)
  case (Phase p b q)
  with assms show ?thesis by (auto simp: run_event_def phase_profile_stop_def split: if_splits)
next
  case (Kernel r)
  let ?n = "thread_index c (kr_core r) (kr_thread r)"
  let ?evs = "map (\<lambda>a. (fst a, kr_start r, snd a, kr_kernel r)) (accesses (kr_trace r))"
  obtain n st0 where p: "kernel_profile_stop c (kr_start r) (kr_stop r) (kr_core r) (kr_thread r) (sint (kr_kernel r)) st = Inr (n, st0)"
      "run_trace n (kr_start r) (kr_kernel r) (kr_trace r) st0 = Inr st1"
    using assms by (auto simp: run_event_def Kernel ebind_Inr)
  then have st0: "traces st0 = traces st" "run_trace ?n (kr_start r) (kr_kernel r) (kr_trace r) st0 = Inr st1"
    by (auto simp: profile_stop_result)
  then have rec: "record_events ?n ?evs (traces st) = Inr (traces st1)"
    using run_trace_records [of ?n "kr_start r" "kr_kernel r" "kr_trace r" st0] by simp
  then show ?thesis using record_other [OF rec, of t] by (auto simp: Kernel thread_of_index [symmetric])
qed

lemma run_events_record:
  assumes "run_events c es st = Inr st'"
  shows "\<exists>k. record_events t (accesses_of c t es) (traces st) = Inr k \<and> get_trace t (traces st') = get_trace t k"
  using assms
proof (induction es arbitrary: st)
  case (Cons e es)
  then obtain st1 where st1: "run_event c e st = Inr st1" "run_events c es st1 = Inr st'" by (auto simp: ebind_Inr)
  obtain k1 where k1: "record_events t (accesses_of c t [e]) (traces st) = Inr k1" "get_trace t k1 = get_trace t (traces st1)"
    using run_event_traces [OF st1(1)] by blast
  obtain k2 where k2: "record_events t (accesses_of c t es) (traces st1) = Inr k2" "get_trace t (traces st') = get_trace t k2"
    using Cons.IH [OF st1(2)] by blast
  obtain k3 where "record_events t (accesses_of c t es) k1 = Inr k3" "get_trace t k3 = get_trace t k2"
    using record_same [OF k2(1) k1(2)] by blast
  moreover have "accesses_of c t (e # es) = accesses_of c t [e] @ accesses_of c t es" by (cases e) simp_all
  ultimately show ?case using k1 k2 by (auto simp: record_events_append)
qed simp

text \<open>C37. The accesses of an instrumented program go to the trace of the thread that ran the kernel
  (\<open>thread_of\<close>), whatever the other threads do between them: after a run the trace of a thread, whose buffer holds
  \<open>TRACE_LENGTH\<close> elements, has the elements it had, followed by one element for each access of its own, in the order
  of the program, with the address, the size, the kernel, and the start of the kernel as its time; the fields
  that are not recorded are as they were. When the trace is full, further accesses are dropped.\<close>

theorem instrumented_run_records:
  assumes "run_events c es st = Inr st'" and "evs = accesses_of c t es"
    and "get_trace t (traces st) = Inr a" and "data_ids a = Buffer cap f" and "num_elems a \<le> TRACE_LENGTH" and "TRACE_LENGTH \<le> cap"
  shows "\<exists>a' g. get_trace t (traces st') = Inr a' \<and> data_ids a' = Buffer cap g
    \<and> num_elems a' = min TRACE_LENGTH (num_elems a + length evs)
    \<and> (\<forall>j<num_elems a. g j = f j)
    \<and> (\<forall>j. num_elems a + j < num_elems a' \<longrightarrow> (case evs ! j of (address, time, bytes, kid) \<Rightarrow>
         g (num_elems a + j) = \<lparr>el_id = address, el_tsc = time, el_size = bytes,
           el_core = el_core (f (num_elems a + j)), el_kernel = kid\<rparr>))"
proof -
  obtain k where k: "record_events t evs (traces st) = Inr k" "get_trace t (traces st') = get_trace t k"
    using run_events_record [OF assms(1)] assms(2) by blast
  obtain k' a' g where r: "record_events t evs (traces st) = Inr k'" "get_trace t k' = Inr a'" "data_ids a' = Buffer cap g"
    "num_elems a' = min TRACE_LENGTH (num_elems a + length evs)"
    "\<forall>j. g j = (if num_elems a \<le> j \<and> j < num_elems a' then event_elem (evs ! (j - num_elems a)) (f j) else f j)"
    using recording_keeps_the_first_events [OF assms(3-6)] by blast
  have fields: "event_elem (x, time, sz, kid) e = \<lparr>el_id = x, el_tsc = time, el_size = sz, el_core = el_core e, el_kernel = kid\<rparr>"
    for x time sz kid e by (cases e) (simp add: event_elem_def)
  have "\<forall>j. num_elems a + j < num_elems a' \<longrightarrow> g (num_elems a + j) = event_elem (evs ! j) (f (num_elems a + j))"
    using r(5) by simp
  then show ?thesis using k r by (intro exI [of _ a'] exI [of _ g]) (auto simp: fields split: prod.splits)
qed

section \<open>Which runs fail\<close>

definition untraced :: "loi_event \<Rightarrow> bool" where
  "untraced e = (case e of Kernel r \<Rightarrow> kr_trace r = No_trace | Phase _ _ _ \<Rightarrow> True)"

lemma in_range_of_run: "run_event c e st = Inr st' \<Longrightarrow> in_range c e"
  by (cases e) (auto simp: run_event_def in_range_def ebind_Inr profile_stop_result phase_profile_stop_def split: if_splits)

lemma runs_in_range: "run_events c es st = Inr st' \<Longrightarrow> list_all (in_range c) es"
  by (induction es arbitrary: st) (auto simp: ebind_Inr in_range_of_run)

text \<open>Every thread has a buffer of at least \<open>TRACE_LENGTH\<close> elements, as \<open>loi_init\<close> allocates them.\<close>

definition traceable :: "krd \<Rightarrow> bool" where
  "traceable k = (\<forall>t\<in>{0..<LOI_MAXTHREADS}. \<exists>a cap f. get_trace t k = Inr a \<and> data_ids a = Buffer cap f \<and> TRACE_LENGTH \<le> cap)"

lemma traceable_put:
  assumes "traceable k" "data_ids a = Buffer cap f" "TRACE_LENGTH \<le> cap" "get_trace t k = Inr b"
  shows "traceable (put_trace t a k)"
  unfolding traceable_def
proof
  fix i assume i: "i \<in> {0..<LOI_MAXTHREADS}"
  from bspec [OF assms(1) [unfolded traceable_def] i] assms(2,3)
  show "\<exists>a' cap f. get_trace i (put_trace t a k) = Inr a' \<and> data_ids a' = Buffer cap f \<and> TRACE_LENGTH \<le> cap"
    by (auto simp: get_put_trace [OF assms(4)])
qed

lemma add_traceable:
  assumes "traceable k" "t \<in> {0..<LOI_MAXTHREADS}"
  shows "\<exists>k'. TTrace_add_and_incr t x time sz kid k = Inr k' \<and> traceable k'"
proof -
  obtain a cap f where a: "get_trace t k = Inr a" "data_ids a = Buffer cap f" "TRACE_LENGTH \<le> cap"
    using bspec [OF assms(1) [unfolded traceable_def] assms(2)] by blast
  show ?thesis
  proof (cases "num_elems a < TRACE_LENGTH")
    case True
    then show ?thesis using add_and_incr [OF a(1,2) True a(3)] traceable_put [OF assms(1) _ a(3,1)] by simp
  next
    case False
    then show ?thesis using add_full [OF a(1)] assms(1) by simp
  qed
qed

lemma record_traceable:
  assumes "t \<in> {0..<LOI_MAXTHREADS}"
  shows "traceable k \<Longrightarrow> \<exists>k'. record_events t evs k = Inr k' \<and> traceable k'"
proof (induction evs arbitrary: k)
  case (Cons e evs)
  obtain x time sz kid where e: "e = (x, time, sz, kid)" by (cases e)
  obtain k1 where "TTrace_add_and_incr t x time sz kid k = Inr k1" "traceable k1"
    using add_traceable [OF Cons.prems assms] by blast
  with Cons.IH [of k1] show ?case by (simp add: e)
qed simp

lemma run_event_ok:
  assumes "in_range c e" "untraced e \<or> traceable (traces st)"
  shows "\<exists>st'. run_event c e st = Inr st' \<and> (traceable (traces st) \<longrightarrow> traceable (traces st'))"
proof (cases e)
  case (Phase p b q)
  with assms(1) show ?thesis by (auto simp: run_event_def phase_profile_stop_def in_range_def)
next
  case (Kernel r)
  let ?n = "thread_index c (kr_core r) (kr_thread r)"
  obtain st0 where p: "kernel_profile_stop c (kr_start r) (kr_stop r) (kr_core r) (kr_thread r) (sint (kr_kernel r)) st = Inr (?n, st0)"
      "traces st0 = traces st" "?n \<in> {0..<LOI_MAXTHREADS}"
    using assms(1) by (auto simp: Kernel in_range_def kernel_profile_stop_def Let_def in_profile_def)
  have "\<exists>st'. run_trace ?n (kr_start r) (kr_kernel r) (kr_trace r) st0 = Inr st' \<and> (traceable (traces st) \<longrightarrow> traceable (traces st'))"
  proof (cases "traceable (traces st)")
    case True
    let ?evs = "map (\<lambda>a. (fst a, kr_start r, snd a, kr_kernel r)) (accesses (kr_trace r))"
    obtain k' where k: "record_events ?n ?evs (traces st0) = Inr k'" "traceable k'"
      using record_traceable [OF p(3), of "traces st0"] True p(2) by auto
    then obtain st' where "run_trace ?n (kr_start r) (kr_kernel r) (kr_trace r) st0 = Inr st'" "traces st' = k'"
      using run_trace_records [of ?n "kr_start r" "kr_kernel r" "kr_trace r" st0] by (auto simp: ebind_Inr)
    then show ?thesis using k(2) by blast
  next
    case False
    then have "kr_trace r = No_trace" using assms(2) by (simp add: Kernel untraced_def)
    then show ?thesis using False by (simp add: run_trace_def)
  qed
  then show ?thesis using p(1) by (auto simp: run_event_def Kernel)
qed

lemma run_events_ok:
  "list_all (in_range c) es \<Longrightarrow> list_all untraced es \<or> traceable (traces st) \<Longrightarrow> \<exists>st'. run_events c es st = Inr st'"
proof (induction es arbitrary: st)
  case (Cons e es)
  obtain st1 where st1: "run_event c e st = Inr st1" "traceable (traces st) \<longrightarrow> traceable (traces st1)"
    using run_event_ok [of c e st] Cons.prems by auto
  with Cons.IH [of st1] Cons.prems show ?case by auto
qed simp

lemma in_range_bounds:
  "in_range c (Kernel r) \<longleftrightarrow> 0 \<le> sint (kr_kernel r) \<and> sint (kr_kernel r) < 20 \<and> (c \<longrightarrow> uint (kr_core r) mod 4096 < 1024)"
  "in_range c (Phase p b e) \<longleftrightarrow> 0 \<le> p \<and> p < 20"
  by (auto simp: in_range_def in_profile_def thread_of_index thread_of_def NUM_KERNELS_def NUM_PHASES_def LOI_MAXTHREADS_def)

text \<open>C39. Which instrumented programs run without a fault: if nothing is traced, or the traces of all threads have
  been allocated, exactly those whose kernels have numbers from 0 to 19 and whose phases have numbers from 0 to 19 and,
  when the thread is taken from the core id, run their kernels on cores whose lower 12 bits are below 1024.
  The result of \<open>threadid()\<close> never makes a run fail, not even a negative one.\<close>

theorem run_fails_out_of_range:
  assumes "(\<forall>r. Kernel r \<in> set es \<longrightarrow> kr_trace r = No_trace) \<or> traceable (traces st)"
  shows "(\<exists>st'. run_events c es st = Inr st') \<longleftrightarrow>
    (\<forall>r. Kernel r \<in> set es \<longrightarrow> 0 \<le> sint (kr_kernel r) \<and> sint (kr_kernel r) < 20 \<and> (c \<longrightarrow> uint (kr_core r) mod 4096 < 1024))
    \<and> (\<forall>p b e. Phase p b e \<in> set es \<longrightarrow> 0 \<le> p \<and> p < 20)"
proof -
  have "list_all untraced es \<or> traceable (traces st)"
    using assms by (auto simp: list_all_iff untraced_def split: loi_event.splits)
  then have "(\<exists>st'. run_events c es st = Inr st') \<longleftrightarrow> list_all (in_range c) es"
    using runs_in_range run_events_ok by blast
  also have "\<dots> \<longleftrightarrow> (\<forall>r. Kernel r \<in> set es \<longrightarrow> in_range c (Kernel r)) \<and> (\<forall>p b e. Phase p b e \<in> set es \<longrightarrow> in_range c (Phase p b e))"
    unfolding list_all_iff by (metis loi_event.exhaust)
  finally show ?thesis unfolding in_range_bounds .
qed

section \<open>The statistics of a run\<close>

text \<open>All runs of a kernel, on any thread.\<close>

fun kernel_runs :: "int \<Rightarrow> loi_event list \<Rightarrow> kernel_run list" where
  "kernel_runs k [] = []"
| "kernel_runs k (Phase p b e # es) = kernel_runs k es"
| "kernel_runs k (Kernel r # es) = (if sint (kr_kernel r) = k then [r] else []) @ kernel_runs k es"

lemma cycles_taken_simps [simp]: "cycles_taken [] = 0"
    "cycles_taken (r # rs) = unat (kr_stop r) - unat (kr_start r) + cycles_taken rs"
    "cycles_taken (rs @ rs') = cycles_taken rs + cycles_taken rs'"
  by (simp_all add: cycles_taken_def)

lemma runs_of_part: "cycles_taken (runs_of c k t es) \<le> cycles_taken (kernel_runs k es) \<and> set (runs_of c k t es) \<subseteq> set (kernel_runs k es)"
  by (induction c k t es rule: runs_of.induct) auto

lemma cycles_by_thread:
  "list_all (in_range c) es \<Longrightarrow> (\<Sum>t = 0..<LOI_MAXTHREADS. cycles_taken (runs_of c k t es)) = cycles_taken (kernel_runs k es)"
proof (induction es)
  case (Cons e es)
  show ?case
  proof (cases e)
    case (Kernel r)
    let ?n = "thread_index c (kr_core r) (kr_thread r)"
    let ?d = "if sint (kr_kernel r) = k then unat (kr_stop r) - unat (kr_start r) else 0"
    have n: "?n \<in> {0..<LOI_MAXTHREADS}" using Cons.prems by (simp add: Kernel in_range_def in_profile_def)
    have "cycles_taken (runs_of c k t (e # es)) = (if t = ?n then ?d else 0) + cycles_taken (runs_of c k t es)" for t
      by (simp add: Kernel)
    then have "(\<Sum>t = 0..<LOI_MAXTHREADS. cycles_taken (runs_of c k t (e # es))) =
        (\<Sum>t = 0..<LOI_MAXTHREADS. if t = ?n then ?d else 0) + (\<Sum>t = 0..<LOI_MAXTHREADS. cycles_taken (runs_of c k t es))"
      by (simp add: sum.distrib)
    also have "(\<Sum>t = 0..<LOI_MAXTHREADS. if t = ?n then ?d else 0) = ?d" using n by (subst sum.delta) auto
    finally show ?thesis using Cons by (simp add: Kernel)
  qed (use Cons in simp)
qed simp

text \<open>Exact arithmetic.\<close>

lemma unsigned_real_pos: "w \<noteq> 0 \<Longrightarrow> 0 < (unsigned w :: real)" for w :: "64 word"
proof -
  assume "w \<noteq> 0"
  then have "0 < real (unat w)" using unat_gt_0 [of w] of_nat_0_less_iff by blast
  then show ?thesis by simp
qed

lemma exact_ctr: "TSCFREQ st \<noteq> 0 \<Longrightarrow> CTR (\<lambda>x. x) st a = Some (real (unat a) / real (unat (TSCFREQ st)))"
  using unsigned_real_pos [of "TSCFREQ st"] by (auto simp: CTR_def ddiv_def dword_def)

lemma fold_add: "fold (\<lambda>i t. dop (\<lambda>x. x) (+) t (Some (f i))) xs (Some z) = Some (z + (\<Sum>i\<leftarrow>xs. f i))"
  by (induction xs arbitrary: z) (simp_all add: dop_def)

lemma sum_list_filter_zero: "(\<And>x. \<not> P x \<Longrightarrow> f x = 0) \<Longrightarrow> (\<Sum>x\<leftarrow>filter P xs. f x) = (\<Sum>x\<leftarrow>xs. f x)" for f :: "'a \<Rightarrow> real"
  by (induction xs) auto

lemma exact_positive:
  "TSCFREQ st \<noteq> 0 \<Longrightarrow> CTR_positive (\<lambda>x. x) st a \<longleftrightarrow> a \<noteq> 0"
  using unsigned_real_pos [of a] unsigned_real_pos [of "TSCFREQ st"] by (auto simp: CTR_positive_def exact_ctr)

lemma sum_list_upto: "(\<Sum>t\<leftarrow>[0..n - 1]. f t) = (\<Sum>t = 0..<n. f t)" for f :: "int \<Rightarrow> real" and n :: int
proof -
  have "{0..n - 1} = {0..<n}" by auto
  then show ?thesis by (simp add: sum_list_distinct_conv_sum_set)
qed

lemma kernel_time_exact:
  assumes "run_events c es st = Inr st'" "no_profile st" "TSCFREQ st \<noteq> 0"
    and "forward (kernel_runs k es)" "cycles_taken (kernel_runs k es) < 2 ^ 64"
  shows "kernel_time (\<lambda>x. x) st' k = Some (real (cycles_taken (kernel_runs k es)) / real (unat (TSCFREQ st)))"
proof -
  let ?F = "real (unat (TSCFREQ st))"
  have f: "TSCFREQ st' = TSCFREQ st" using run_events_profile [OF assms(1)] by blast
  have t: "unat (Ktime k t st') = cycles_taken (runs_of c k t es)" for t
  proof -
    have "forward (runs_of c k t es)" "cycles_taken (runs_of c k t es) < 2 ^ 64"
      using runs_of_part [of c k t es] assms(4,5) by (auto simp: forward_def list_all_iff)
    then show ?thesis
      using run_events_profile [OF assms(1), of k t] run_cycles_exact [of "runs_of c k t es"] assms(2)
      by (simp add: no_profile_def Ktime_def)
  qed
  have "kernel_time (\<lambda>x. x) st' k = Some (\<Sum>i\<leftarrow>kernel_threads (\<lambda>x. x) st' k. real (unat (Ktime k i st')) / ?F)"
    using fold_add [of "\<lambda>i. real (unat (Ktime k i st')) / ?F" "kernel_threads (\<lambda>x. x) st' k" 0] assms(3)
    by (simp add: kernel_time_def exact_ctr f)
  also have "(\<Sum>i\<leftarrow>kernel_threads (\<lambda>x. x) st' k. real (unat (Ktime k i st')) / ?F) =
      (\<Sum>i\<leftarrow>[0..LOI_MAXTHREADS - 1]. real (unat (Ktime k i st')) / ?F)"
    unfolding kernel_threads_def using assms(3) by (intro sum_list_filter_zero) (simp add: exact_positive f)
  also have "\<dots> = (\<Sum>i = 0..<LOI_MAXTHREADS. real (unat (Ktime k i st')) / ?F)" by (rule sum_list_upto)
  also have "\<dots> = real (\<Sum>i = 0..<LOI_MAXTHREADS. cycles_taken (runs_of c k i es)) / ?F"
    by (simp add: t sum_divide_distrib [symmetric])
  finally show ?thesis by (simp only: cycles_by_thread [OF runs_in_range [OF assms(1)]])
qed

text \<open>The statistics of a phase after an instrumented run, in exact arithmetic: the time of its last run, the
  time of all threads less that of all runs of its kernels, this overhead in percent, and the
  quotient of both as the inflation.\<close>

theorem phase_statistics_of_a_run:
  assumes "run_events c es st = Inr st'" "no_profile st" "TSCFREQ st \<noteq> 0"
    and "\<forall>b\<in>set (phase_members kinfo ph). int b < num_kernels kinfo \<and> forward (kernel_runs (int b) es)
      \<and> cycles_taken (kernel_runs (int b) es) < 2 ^ 64"
    and "last_phase ph es = Some d" "d \<noteq> 0" "0 < total_threads"
  defines "exec \<equiv> real (unat d) / real (unat (TSCFREQ st))"
    and "kernels \<equiv> (\<Sum>b\<leftarrow>phase_members kinfo ph. real (cycles_taken (kernel_runs (int b) es)) / real (unat (TSCFREQ st)))"
  shows "phase_line (\<lambda>x. x) kinfo total_threads st' ph = Inr (Phase_line (phases kinfo ph) (Some exec)
    (Some (total_threads * exec - kernels)) (Some (100 * (1 - kernels / (total_threads * exec))))
    (if kernels = 0 then None else Some (total_threads * exec / kernels)))"
proof -
  let ?id = "\<lambda>x. x :: real"
  let ?all = "total_threads * exec"
  have st': "exectime st' ph = d" "TSCFREQ st' = TSCFREQ st" using run_events_profile [OF assms(1), of _ _ ph] assms(5) by auto
  have F: "0 < real (unat (TSCFREQ st))" using unsigned_real_pos [OF assms(3)] by simp
  have "0 < real (unat d)" using unsigned_real_pos [OF assms(6)] by simp
  then have pos: "0 < ?all" using F assms(7) by (simp add: exec_def)
  have "fold (\<lambda>b t. dop ?id (+) t (kernel_time ?id st' (int b))) (phase_members kinfo ph) (Some 0) =
      fold (\<lambda>b t. dop ?id (+) t (Some (real (cycles_taken (kernel_runs (int b) es)) / real (unat (TSCFREQ st))))) (phase_members kinfo ph) (Some 0)"
    using assms(4) by (intro fold_cong refl) (simp add: kernel_time_exact [OF assms(1-3)])
  then have accum: "fold (\<lambda>b t. dop ?id (+) t (kernel_time ?id st' (int b))) (phase_members kinfo ph) (Some 0) = Some kernels"
    by (simp only: fold_add kernels_def) simp
  have all: "ddiv ?id (dop ?id (*) (Some (of_int total_threads)) (dword ?id (exectime st' ph))) (dword ?id (TSCFREQ st')) = Some ?all"
    using F by (simp add: st' dop_def dword_def ddiv_def exec_def)
  have "\<not> list_ex (\<lambda>b. num_kernels kinfo \<le> int b) (phase_members kinfo ph)" using assms(4) by (auto simp: list_ex_iff)
  moreover have "1 - (?all - kernels) / ?all = kernels / ?all" "(?all - kernels) / ?all = 1 - kernels / ?all"
    using less_imp_neq [OF pos] by (simp_all add: diff_divide_distrib)
  ultimately show ?thesis
    unfolding phase_line_def accum all Let_def using less_imp_neq [OF pos] assms(3)
    by (simp add: st' exact_ctr) (auto simp: dop_def ddiv_def exec_def)
qed

section \<open>The benchmark of the profile\<close>

lemma set_Kernel_twice: "set_Kernel k t c n (set_Kernel k t c' n' st) = set_Kernel k t c n st"
  by (simp add: set_Kernel_def)

lemma set_Kernel_id: "Ktime k t st = c \<Longrightarrow> Knum k t st = n \<Longrightarrow> set_Kernel k t c n st = st"
  by (auto simp: set_Kernel_def Ktime_def Knum_def fun_upd_idem)

lemma loi_bench_loop_one:
  assumes "list_all (\<lambda>x. thread_index c (rd_core x) (rd_thread x) = t) xs" "in_profile 0 t"
  shows "\<exists>u v. loi_bench_loop c tstart xs ndx st = Inr (if xs = [] then ndx else t, if xs = [] then st else set_Kernel 0 t u v st)"
  using assms
proof (induction xs arbitrary: ndx st)
  case (Cons x xs)
  obtain st1 u v where st1: "kernel_profile_stop c tstart (rd_tsc x) (rd_core x) (rd_thread x) 0 st = Inr (t, st1)" "st1 = set_Kernel 0 t u v st"
    using Cons.prems by (simp add: kernel_profile_stop_def Let_def)
  obtain u' v' where "loi_bench_loop c tstart xs t st1 = Inr (t, if xs = [] then st1 else set_Kernel 0 t u' v' st1)"
    using Cons.IH [of t st1] Cons.prems by auto
  then have "loi_bench_loop c tstart xs t st1 = Inr (t, set_Kernel 0 t (if xs = [] then u else u') (if xs = [] then v else v') st)"
    using st1(2) by (simp add: set_Kernel_twice)
  with st1(1) Cons.prems show ?case
    by (intro exI [of _ "if xs = [] then u else u'"] exI [of _ "if xs = [] then v else v'"]) simp
qed simp

theorem benchmark_restores_the_profile:
  assumes "list_all (\<lambda>x. thread_index c (rd_core x) (rd_thread x) = t) xs" "xs \<noteq> []" "in_profile 0 t"
    and "Ktime 0 t st = 0" "Knum 0 t st = 0"
  shows "loi_bench c tstart xs st = Inr st"
  using loi_bench_loop_one [OF assms(1,3), of tstart 0 st] assms(2,4,5)
  by (auto simp: loi_bench_def set_Kernel_twice set_Kernel_id)

lemma frequency_exact:
  assumes "start1 = of_nat (c0 - e)" "start2 = of_nat (c0 + e)" "end1 = of_nat (c0 + n * f - e')" "end2 = of_nat (c0 + n * f + e')"
    and "e \<le> c0" "e' \<le> c0" "2 * (c0 + n * f) < 2 ^ 64" "0 < n" "n < 2 ^ 64" "f * 1000000 < 2 ^ 64"
    and "timestamp_us s2 u2 = timestamp_us s1 u1 + of_nat n"
  shows "cycle_counter_frequency (\<lambda>x. x) start1 (s1, u1) start2 end1 (s2, u2) end2 = Inr (of_nat (1000000 * f))"
proof -
  have s: "start1 + start2 = of_nat (2 * c0)" unfolding assms(1,2) using assms(5) by (simp only: of_nat_add [symmetric]) simp
  have "c0 + n * f - e' + (c0 + n * f + e') = 2 * (c0 + n * f)" using assms(6) by simp
  then have t: "end1 + end2 = of_nat (2 * (c0 + n * f))" unfolding assms(3,4) by (simp only: of_nat_add [symmetric])
  have half: "(of_nat (2 * m) :: 64 word) div 2 = of_nat m" if "2 * m < 2 ^ 64" for m
    using that by (simp add: word_unat_eq_iff unat_div unsigned_of_nat take_bit_nat_eq_self del: of_nat_mult)
  have "2 * c0 < 2 ^ 64" using assms(7) by simp
  then have "(end1 + end2) div 2 = of_nat (c0 + n * f)" "(start1 + start2) div 2 = of_nat c0"
    by (simp_all only: s t half [OF assms(7)] half)
  then have d: "(end1 + end2) div 2 - (start1 + start2) div 2 = of_nat (n * f)" by simp
  have "n * f < 2 ^ 64" using assms(7) by simp
  then have x: "unat ((end1 + end2) div 2 - (start1 + start2) div 2) = n * f" by (simp only: d) (simp add: unsigned_of_nat take_bit_nat_eq_self del: of_nat_mult)
  have y: "unat (timestamp_us s2 u2 - timestamp_us s1 u1) = n" using assms(9,11) by (simp add: unsigned_of_nat take_bit_nat_eq_self)
  have "real f * 1000000 < 2 ^ 64" using assms(10) by (metis of_nat_less_iff of_nat_mult of_nat_numeral of_nat_power)
  moreover have "1000000 * real (n * f) / real n = real (1000000 * f)" using assms(8) by simp
  moreover have "\<lfloor>1000000 * real f\<rfloor> = int (1000000 * f)" using floor_of_nat [of "1000000 * f"] by simp
  ultimately show ?thesis using assms(8)
    by (simp only: cycle_counter_frequency_def Let_def fst_conv snd_conv x y) simp
qed

section \<open>The benchmark of the traces\<close>

text \<open>Empty traces of the default length for all threads.\<close>

definition ready :: "krd \<Rightarrow> bool" where
  "ready k = (\<forall>t\<in>{0..<LOI_MAXTHREADS}. \<exists>f i. get_trace t k = Inr \<lparr>num_elems = 0, tindex = i, data_ids = Buffer TRACE_LENGTH f\<rparr>)"

lemma ready_get: "ready k \<Longrightarrow> t \<in> {0..<LOI_MAXTHREADS} \<Longrightarrow>
    \<exists>f i. get_trace t k = Inr \<lparr>num_elems = 0, tindex = i, data_ids = Buffer TRACE_LENGTH f\<rparr>"
  unfolding ready_def by (rule bspec)

lemma ready_put:
  assumes "ready k" "t \<in> {0..<LOI_MAXTHREADS}"
  shows "ready (put_trace t \<lparr>num_elems = 0, tindex = i, data_ids = Buffer TRACE_LENGTH f\<rparr> k)"
proof -
  obtain f' i' where "get_trace t k = Inr \<lparr>num_elems = 0, tindex = i', data_ids = Buffer TRACE_LENGTH f'\<rparr>"
    using ready_get [OF assms] by blast
  then show ?thesis using assms(1) by (auto simp: ready_def get_put_trace)
qed

lemma bench_entry_ready:
  assumes "ready (traces st)" "thread_index c (rd_core x) (rd_thread x) \<in> {0..<LOI_MAXTHREADS}" "0 \<le> entry" "entry < int TRACE_LENGTH"
  shows "\<exists>st'. bench_entry c tstart x entry st = Inr (thread_index c (rd_core x) (rd_thread x), st') \<and> ready (traces st') \<and>
    same_profile st st'"
proof -
  let ?t = "thread_index c (rd_core x) (rd_thread x)"
  obtain f i where "get_trace ?t (traces st) = Inr \<lparr>num_elems = 0, tindex = i, data_ids = Buffer TRACE_LENGTH f\<rparr>"
    using ready_get [OF assms(1,2)] by blast
  moreover have "nat entry < TRACE_LENGTH" "0 < TRACE_LENGTH" using assms(3,4) by (auto simp: TRACE_LENGTH_def)
  ultimately show ?thesis using assms
    by (auto simp: bench_entry_def TTrace_add_and_incr_entry_def buf_get_def buf_put_def ready_put same_profile_def Let_def)
qed

lemma bench_loop_ready:
  assumes "ready (traces st)" "list_all (\<lambda>x. thread_index c (rd_core x) (rd_thread x) \<in> {0..<LOI_MAXTHREADS}) xs"
    and "\<forall>j x. x \<in> set xs \<and> i \<le> j \<and> j < i + length xs \<longrightarrow> 0 \<le> entry j x \<and> entry j x < int TRACE_LENGTH" "ndx \<in> {0..<LOI_MAXTHREADS}"
  shows "\<exists>n st'. bench_loop c tstart entry i xs ndx st = Inr (n, st') \<and> n \<in> {0..<LOI_MAXTHREADS} \<and> ready (traces st') \<and> same_profile st st'"
  using assms
proof (induction xs arbitrary: i ndx st)
  case (Cons x xs)
  have "0 \<le> entry i x" "entry i x < int TRACE_LENGTH" using Cons.prems(3) by auto
  then obtain st1 where st1: "bench_entry c tstart x (entry i x) st = Inr (thread_index c (rd_core x) (rd_thread x), st1)"
    "ready (traces st1)" "same_profile st st1"
    using bench_entry_ready [of st c x "entry i x" tstart] Cons.prems by auto
  obtain n st' where "bench_loop c tstart entry (i + 1) xs (thread_index c (rd_core x) (rd_thread x)) st1 = Inr (n, st')"
    "n \<in> {0..<LOI_MAXTHREADS}" "ready (traces st')" "same_profile st1 st'"
    using Cons.IH [OF st1(2), of "i + 1" "thread_index c (rd_core x) (rd_thread x)"] Cons.prems by fastforce
  with st1 show ?case by (auto simp: same_profile_def)
qed (simp add: same_profile_def)

lemma reset_ready: "ready k \<Longrightarrow> t \<in> {0..<LOI_MAXTHREADS} \<Longrightarrow> \<exists>k'. reset_trace t k = Inr k' \<and> ready k'"
  using ready_get [of k t] by (auto simp: reset_trace_def ready_put)

definition benched :: "loi \<Rightarrow> krd_error + loi \<Rightarrow> bool" where
  "benched st r = (\<exists>st'. r = Inr st' \<and> ready (traces st') \<and> same_profile st st')"

lemma range_benched:
  assumes "ready (traces st)" "list_all (\<lambda>x. thread_index c (rd_core x) (rd_thread x) \<in> {0..<LOI_MAXTHREADS}) xs" "xs \<noteq> []"
  shows "0 < rng \<Longrightarrow> rng \<le> int TRACE_LENGTH \<Longrightarrow> benched st (krd_bench_range_rand c tstart rng xs st)"
    "length xs \<le> TRACE_LENGTH \<Longrightarrow> benched st (krd_bench_range_seq c tstart xs st)"
proof -
  have z: "(0::int) \<in> {0..<LOI_MAXTHREADS}" by (simp add: LOI_MAXTHREADS_def)
  { assume r: "0 < rng" "rng \<le> int TRACE_LENGTH"
    then have "0 \<le> rd_random x mod rng \<and> rd_random x mod rng < int TRACE_LENGTH" for x
      using pos_mod_bound [of rng "rd_random x"] pos_mod_sign [of rng "rd_random x"] by linarith
    then obtain n st1 where "bench_loop c tstart (\<lambda>i x. rd_random x mod rng) 0 xs 0 st = Inr (n, st1)"
      "n \<in> {0..<LOI_MAXTHREADS}" "ready (traces st1)" "same_profile st st1"
      using bench_loop_ready [OF assms(1,2) _ z, of 0 "\<lambda>i x. rd_random x mod rng" tstart] by auto
    with assms(3) show "benched st (krd_bench_range_rand c tstart rng xs st)"
      using reset_ready by (fastforce simp: krd_bench_range_rand_def benched_def same_profile_def) }
  { assume r: "length xs \<le> TRACE_LENGTH"
    obtain n st1 where "bench_loop c tstart (\<lambda>i x. int i) 0 xs 0 st = Inr (n, st1)"
      "n \<in> {0..<LOI_MAXTHREADS}" "ready (traces st1)" "same_profile st st1"
      using bench_loop_ready [OF assms(1,2) _ z, of 0 "\<lambda>i x. int i" tstart] r by auto
    with assms(3) show "benched st (krd_bench_range_seq c tstart xs st)"
      using reset_ready by (fastforce simp: krd_bench_range_seq_def benched_def same_profile_def) }
qed

lemma bench_each_benched:
  assumes "\<And>r st. r \<in> set rs \<Longrightarrow> ready (traces st) \<Longrightarrow> benched st (f r st)" "ready (traces st)"
  shows "benched st (bench_each f rs st)"
  using assms
proof (induction rs arbitrary: st)
  case Nil
  then show ?case by (simp add: benched_def same_profile_def)
next
  case (Cons r rs)
  have "benched st (f r st)" using Cons.prems by simp
  then obtain st1 where st1: "f r st = Inr st1" "ready (traces st1)" "same_profile st st1" by (auto simp: benched_def)
  with Cons.IH [of st1] Cons.prems show ?case by (auto simp: benched_def same_profile_def)
qed

theorem krd_bench_leaves_traces_empty:
  assumes "ready (traces st)" "\<forall>b r i. thread_index c (rd_core (rd b r i)) (rd_thread (rd b r i)) \<in> {0..<LOI_MAXTHREADS}"
  shows "\<exists>st'. krd_bench c tstart rd st = Inr st' \<and> ready (traces st') \<and> same_profile st st'"
proof -
  have rs: "\<forall>r\<in>set bench_ranges. 0 < r \<and> r \<le> TRACE_LENGTH" by (simp add: bench_ranges_def TRACE_LENGTH_def)
  have l: "list_all (\<lambda>x. thread_index c (rd_core x) (rd_thread x) \<in> {0..<LOI_MAXTHREADS}) (map (rd b r) [0..<n])" for b r n
    using assms(2) by (simp add: list_all_iff)
  have "benched st (bench_each (\<lambda>r. krd_bench_range_rand c (tstart True r) (int r) (map (rd True r) [0..<bench_iterations])) bench_ranges st)"
    using rs by (intro bench_each_benched assms(1) range_benched(1) l) (auto simp: bench_iterations_def)
  then obtain st1 where st1: "bench_each (\<lambda>r. krd_bench_range_rand c (tstart True r) (int r) (map (rd True r) [0..<bench_iterations])) bench_ranges st = Inr st1"
    "ready (traces st1)" "same_profile st st1" by (auto simp: benched_def)
  have "benched st1 (bench_each (\<lambda>r. krd_bench_range_seq c (tstart False r) (map (rd False r) [0..<r])) bench_ranges st1)"
    using rs by (intro bench_each_benched st1(2) range_benched(2) l) auto
  with st1 show ?thesis by (auto simp: krd_bench_def benched_def same_profile_def)
qed

section \<open>Examples\<close>

definition ex_run :: "16 word \<Rightarrow> 64 word \<Rightarrow> 64 word \<Rightarrow> int \<Rightarrow> ktrace \<Rightarrow> loi_event" where
  "ex_run k b e t tr = Kernel \<lparr>kr_kernel = k, kr_start = b, kr_stop = e, kr_core = 0, kr_thread = t, kr_trace = tr\<rparr>"

definition ex_events :: "loi_event list" where
  "ex_events = [ex_run 1 10 30 2 No_trace, ex_run 1 50 55 2 No_trace, ex_run 0 40 60 3 No_trace, Phase 0 0 100]"

definition ex_loi :: loi where
  "ex_loi = loi_initial\<lparr>TSCFREQ := 10\<rparr>"

lemma ex_threads: "thread_index False 0 2 = 2" "thread_index False 0 3 = 3" "thread_index False 0 5 = 5"
  by (simp_all add: thread_index_def LOI_MAXTHREADS_def signed_modulo_int_def)

lemmas ex_run_events = ex_events_def ex_run_def run_event_def kernel_profile_stop_def phase_profile_stop_def run_trace_def
  ex_threads in_profile_def NUM_KERNELS_def NUM_PHASES_def LOI_MAXTHREADS_def

lemma ex_events_run: "\<exists>st'. run_events False ex_events st = Inr st'"
  by (simp add: ex_run_events)

lemma ex_no_profile: "no_profile ex_loi" "TSCFREQ ex_loi \<noteq> 0"
  by (simp_all add: no_profile_def ex_loi_def loi_initial_def)

theorem profile_of_a_run_witness:
  "\<exists>st'. run_events False ex_events ex_loi = Inr st' \<and> unat (Ktime 1 2 st') = 25 \<and> unat (Knum 1 2 st') = 2 \<and> exectime st' 0 = 100"
proof -
  obtain st' where st': "run_events False ex_events ex_loi = Inr st'" using ex_events_run by blast
  have "runs_of False 1 2 ex_events = [\<lparr>kr_kernel = 1, kr_start = 10, kr_stop = 30, kr_core = 0, kr_thread = 2, kr_trace = No_trace\<rparr>,
      \<lparr>kr_kernel = 1, kr_start = 50, kr_stop = 55, kr_core = 0, kr_thread = 2, kr_trace = No_trace\<rparr>]"
    by (simp add: ex_events_def ex_run_def ex_threads)
  moreover have "last_phase 0 ex_events = Some 100" by (simp add: ex_events_def ex_run_def)
  ultimately show ?thesis using profile_of_a_run [OF st' ex_no_profile(1), of 1 2 0]
    by (auto simp: st' forward_def)
qed

text \<open>A kernel on core 1024 of a thread with a negative id, which counts as thread 1023.\<close>

definition ex_far_core :: "loi_event list" where
  "ex_far_core = [Kernel \<lparr>kr_kernel = 1, kr_start = 0, kr_stop = 1, kr_core = 0x400, kr_thread = -1, kr_trace = No_trace\<rparr>]"

theorem run_fails_out_of_range_witness:
  "(\<exists>st'. run_events False ex_far_core ex_loi = Inr st') \<and> \<not> (\<exists>st'. run_events True ex_far_core ex_loi = Inr st')
    \<and> \<not> (\<exists>st'. run_events False [ex_run (-1) 0 1 0 No_trace] ex_loi = Inr st')"
  using run_fails_out_of_range [of ex_far_core ex_loi False] run_fails_out_of_range [of ex_far_core ex_loi True]
    run_fails_out_of_range [of "[ex_run (-1) 0 1 0 No_trace]" ex_loi False]
  by (simp add: ex_far_core_def ex_run_def)

definition ex_empty_traces :: krd where
  "ex_empty_traces = \<lparr>threadtraces = Some (\<lambda>_. \<lparr>num_elems = 0, tindex = 0, data_ids = Buffer TRACE_LENGTH (\<lambda>_. zero_elem)\<rparr>), krd_trace_magic = -1\<rparr>"

definition ex_traced :: "loi_event list" where
  "ex_traced = [ex_run 1 10 30 2 (Trace2 (64, 8) (128, KWRITE 4)), ex_run 0 20 40 3 (Trace1 (64, 8)), ex_run 1 50 55 2 (Trace1 (72, 8))]"

lemma ex_traced_run: "\<exists>st'. run_events False ex_traced (ex_loi\<lparr>traces := ex_empty_traces\<rparr>) = Inr st'"
  by (simp add: ex_traced_def ex_run_def run_event_def kernel_profile_stop_def run_trace_def kernel_trace1_def kernel_trace2_def trace_access_def
    ex_threads in_profile_def NUM_KERNELS_def LOI_MAXTHREADS_def TTrace_add_and_incr_def get_trace_def put_trace_def ex_empty_traces_def set_Kernel_def
    TRACE_LENGTH_def buf_get_def buf_put_def)

text \<open>The trace of thread 2: both accesses of its first run and the one of its second.\<close>

theorem instrumented_run_records_witness:
  "\<exists>st' a g. run_events False ex_traced (ex_loi\<lparr>traces := ex_empty_traces\<rparr>) = Inr st' \<and> get_trace 2 (traces st') = Inr a
     \<and> num_elems a = 3 \<and> data_ids a = Buffer TRACE_LENGTH g
     \<and> g 0 = zero_elem\<lparr>el_id := 64, el_tsc := 10, el_size := 8, el_kernel := 1\<rparr>
     \<and> g 1 = zero_elem\<lparr>el_id := 128, el_tsc := 10, el_size := -4, el_kernel := 1\<rparr>
     \<and> g 2 = zero_elem\<lparr>el_id := 72, el_tsc := 50, el_size := 8, el_kernel := 1\<rparr>"
proof -
  let ?st = "ex_loi\<lparr>traces := ex_empty_traces\<rparr>" and ?a = "\<lparr>num_elems = 0, tindex = 0, data_ids = Buffer TRACE_LENGTH (\<lambda>_. zero_elem)\<rparr>"
  obtain st' where st': "run_events False ex_traced ?st = Inr st'" using ex_traced_run by blast
  have evs: "accesses_of False 2 ex_traced = [(64, 10, 8, 1), (128, 10, -4, 1), (72, 50, 8, 1)]"
    by (simp add: ex_traced_def ex_run_def thread_of_def KWRITE_def)
  have "get_trace 2 (traces ?st) = Inr ?a" by (simp add: ex_empty_traces_def get_trace_def LOI_MAXTHREADS_def)
  from instrumented_run_records [OF st' refl this, of TRACE_LENGTH "\<lambda>_. zero_elem"] obtain a g where
    "get_trace 2 (traces st') = Inr a" "data_ids a = Buffer TRACE_LENGTH g" "num_elems a = 3"
    "\<forall>j<3. case accesses_of False 2 ex_traced ! j of (address, time, bytes, kid) \<Rightarrow>
       g j = zero_elem\<lparr>el_id := address, el_tsc := time, el_size := bytes, el_kernel := kid\<rparr>"
    by (auto simp: evs TRACE_LENGTH_def zero_elem_def)
  then show ?thesis using st' by (auto simp: evs dest: spec [of _ 0] spec [of _ 1] spec [of _ 2])
qed

definition ex_kinfo :: loi_kernel_info where
  "ex_kinfo = \<lparr>num_kernels = 2, num_phases = 1, kname = (\<lambda>_. ''k''), phases = (\<lambda>_. ''p''), phase_kernels = (\<lambda>_. 3)\<rparr>"

lemma ex_members: "phase_members ex_kinfo 0 = [0, 1]"
  by code_simp

theorem phase_statistics_of_a_run_witness:
  "\<exists>st'. run_events False ex_events ex_loi = Inr st' \<and>
     phase_line (\<lambda>x. x) ex_kinfo 2 st' 0 = Inr (Phase_line ''p'' (Some 10) (Some (31 / 2)) (Some (155 / 2)) (Some (40 / 9)))"
proof -
  obtain st' where st': "run_events False ex_events ex_loi = Inr st'" using ex_events_run by blast
  have k: "kernel_runs 0 ex_events = [\<lparr>kr_kernel = 0, kr_start = 40, kr_stop = 60, kr_core = 0, kr_thread = 3, kr_trace = No_trace\<rparr>]"
    "kernel_runs 1 ex_events = [\<lparr>kr_kernel = 1, kr_start = 10, kr_stop = 30, kr_core = 0, kr_thread = 2, kr_trace = No_trace\<rparr>,
      \<lparr>kr_kernel = 1, kr_start = 50, kr_stop = 55, kr_core = 0, kr_thread = 2, kr_trace = No_trace\<rparr>]"
    by (simp_all add: ex_events_def ex_run_def)
  have "\<forall>b\<in>set (phase_members ex_kinfo 0). int b < num_kernels ex_kinfo \<and> forward (kernel_runs (int b) ex_events)
      \<and> cycles_taken (kernel_runs (int b) ex_events) < 2 ^ 64"
    unfolding ex_members by (simp add: k forward_def ex_kinfo_def)
  moreover have "last_phase 0 ex_events = Some 100" by (simp add: ex_events_def ex_run_def)
  moreover have "TSCFREQ ex_loi = 10" "phases ex_kinfo 0 = ''p''" by (simp_all add: ex_loi_def ex_kinfo_def)
  ultimately show ?thesis
    using phase_statistics_of_a_run [OF st' ex_no_profile, of ex_kinfo 0 100 2] st' by (simp add: ex_members k)
qed

end
