(* ===== verification/Reports.thy ===== *)
theory Reports
  imports Krd_Partial Loi_Profile Runtime_Api
begin

unbundle bit_operations_syntax

text \<open>
  What the program prints, as data: the global histogram and the size of the stack
  (\<open>loi/krd.c\<close>), the dump of a trace (\<open>loi/krd_trace.c\<close>), the performance tables and the
  layout (\<open>src/xitao_ptt.cpp\<close>) and the timers (\<open>include/xitao_timer.h\<close>). Formats and
  widths of fields are left out.
\<close>

section \<open>The global histogram\<close>

text \<open>A printed count with its percentage of all references.\<close>

definition percent :: "(real \<Rightarrow> real) \<Rightarrow> int \<Rightarrow> int \<Rightarrow> dbl" where
  "percent rnd refs n = ddiv rnd (Some (rnd (100 * of_int n))) (Some (rnd (of_int refs)))"

type_synonym cell = "int \<times> dbl"

datatype hist_line =
    Range_line "64 word" cell cell cell cell cell cell
  | Cold_line "64 word" int dbl dbl dbl cell

record row_sums =
  accum :: int
  accum_shared :: int
  accum_inv :: int
  last_range :: nat

text \<open>
  The loop over the ranges. It also looks at the range after the current one: at the last one
  this is the word behind the array, \<open>behind\<close>.
\<close>

definition range_shown :: "int \<Rightarrow> (nat \<Rightarrow> int) \<Rightarrow> nat \<Rightarrow> bool" where
  "range_shown behind v i = ((if i + 1 < 2 ^ HISTOGRAM_LEN then v (i + 1) else behind) > 0 \<or> v i > 0)"

fun range_loop :: "(real \<Rightarrow> real) \<Rightarrow> int \<Rightarrow> totals \<Rightarrow> nat list \<Rightarrow> row_sums \<Rightarrow> hist_line list \<times> row_sums" where
  "range_loop rnd behind a [] s = ([], s)"
| "range_loop rnd behind a (i # is) s =
     (let h = hist_total a; c = (\<lambda>n. (n, percent rnd (total_refs a) n)) in
      if range_shown behind (distance_vector h) i
      then let s' = \<lparr>accum = accum s + distance_vector h i, accum_shared = accum_shared s + shared_vector h i,
                     accum_inv = accum_inv s + inv_miss_vector h i, last_range = i\<rparr>;
               rest = range_loop rnd behind a is s'
           in (Range_line (ipow 2 i) (c (distance_vector h i)) (c (shared_vector h i)) (c (accum s')) (c (accum_shared s'))
                 (c (inv_miss_vector h i)) (c (accum_inv s')) # fst rest, snd rest)
      else range_loop rnd behind a is s)"

definition print_histogram :: "(real \<Rightarrow> real) \<Rightarrow> int \<Rightarrow> totals \<Rightarrow> hist_line list" where
  "print_histogram rnd behind a =
     (let r = range_loop rnd behind a [0..<2 ^ HISTOGRAM_LEN] \<lparr>accum = 0, accum_shared = 0, accum_inv = 0, last_range = 0\<rparr>;
          s = snd r; h = hist_total a; pc = percent rnd (total_refs a)
      in fst r @ [Cold_line (ipow 2 (last_range s + 1)) (inv_misses h) (pc (accum s)) (pc (inv_misses h)) (pc (cold_misses h))
           (accum s + inv_misses h, pc (accum s + inv_misses h))])"

section \<open>The stack\<close>

definition print_trace_data :: "stack_entry list \<Rightarrow> 64 word" where
  "print_trace_data st = fold (\<lambda>s d. d + of_int \<bar>sint (se_size s)\<bar>) st 0"

section \<open>The dump of a trace\<close>

text \<open>
  The name of the kind of trace and the elements. The number of elements asked for is not
  compared with that of the trace.
\<close>

fun dump_elems :: "int \<Rightarrow> krd \<Rightarrow> nat list \<Rightarrow> krd_error + elem list" where
  "dump_elems i st [] = Inr []"
| "dump_elems i st (j # js) =
     ebind (get_trace i st) (\<lambda>t. ebind (buf_get j (data_ids t)) (\<lambda>e. ebind (dump_elems i st js) (\<lambda>es. Inr (e # es))))"

definition dump_tool :: "bool \<Rightarrow> bool \<Rightarrow> int list \<Rightarrow> int list \<Rightarrow> files \<Rightarrow> int list \<Rightarrow> (krd_error + (string \<times> elem list)) option" where
  "dump_tool calloc_ok mmap_ok rs rs' fs argv =
     (case argv of
        [i, n] \<Rightarrow>
          (case krd_init_index calloc_ok mmap_ok i (int TRACE_LENGTH * 16) krd_initial of
             Inl e \<Rightarrow> Some (Inl e)
           | Inr (_, st1) \<Rightarrow>
               (case krd_read_one_trace rs i fs st1 of
                  None \<Rightarrow> None
                | Some (Inl e) \<Rightarrow> Some (Inl e)
                | Some (Inr (_, st2)) \<Rightarrow>
                    (case krd_read_coherent_trace rs' i fs st2 of
                       None \<Rightarrow> None
                     | Some (Inl e) \<Rightarrow> Some (Inl e)
                     | Some (Inr (_, st3)) \<Rightarrow>
                         Some (ebind (dump_elems i st3 [0..<nat n]) (\<lambda>es.
                           Inr (if krd_trace_magic st3 = RAW_TRACE_MAGIC then ''RAW'' else ''RWI'', es))))))
      | _ \<Rightarrow> Some (Inl Exit1))"

section \<open>Performance tables\<close>

text \<open>
  A row of a table: the width, its time and the quotient of the time of the first width and this
  one, in parentheses if the width is not used well. An index behind the table is \<open>None\<close>.
\<close>

datatype scaling = First | Unknown | Efficient real | Inefficient real

datatype ptt_line = Leader_line int | Width_line int real scaling

definition table_at :: "perf_data \<Rightarrow> int \<Rightarrow> int \<Rightarrow> real option" where
  "table_at d ldr w = (if ptt_index_valid ldr w then Some (get_timetable d ldr w) else None)"

definition scaling_of :: "(real \<Rightarrow> real) \<Rightarrow> real \<Rightarrow> int \<Rightarrow> real \<Rightarrow> scaling" where
  "scaling_of rnd first w v =
     (let q = rnd (first / v); efficiency = rnd (q / of_int w) in
      if efficiency < 0.6 \<or> efficiency > 1.3 then Inefficient q else Efficient q)"

fun print_row :: "(real \<Rightarrow> real) \<Rightarrow> perf_data \<Rightarrow> int \<Rightarrow> int \<Rightarrow> (nat \<times> int) list \<Rightarrow> ptt_line list option" where
  "print_row rnd d ldr w0 [] = Some []"
| "print_row rnd d ldr w0 ((i, w) # ws) =
     (if w \<le> 0 then print_row rnd d ldr w0 ws
      else do {
        v \<leftarrow> table_at d ldr w;
        c \<leftarrow> (if i = 0 then Some First
             else if v \<noteq> 0 then map_option (\<lambda>f. scaling_of rnd f w v) (table_at d ldr w0)
             else Some Unknown);
        ls \<leftarrow> print_row rnd d ldr w0 ws;
        Some (Width_line w v c # ls) })"

definition print_leader :: "(real \<Rightarrow> real) \<Rightarrow> perf_data \<Rightarrow> int \<Rightarrow> int list \<Rightarrow> ptt_line list option" where
  "print_leader rnd d ldr widths =
     (let row = sort widths in
      map_option (\<lambda>ls. Leader_line ldr # ls) (print_row rnd d ldr (if row = [] then 0 else hd row) (enumerate 0 row)))"

fun print_leaders :: "(real \<Rightarrow> real) \<Rightarrow> perf_data \<Rightarrow> (nat \<times> int list) list \<Rightarrow> ptt_line list option" where
  "print_leaders rnd d [] = Some []"
| "print_leaders rnd d ((l, ws) # rest) = do {
     a \<leftarrow> print_leader rnd d (int l) ws;
     b \<leftarrow> print_leaders rnd d rest;
     Some (a @ b) }"

definition print_table :: "(real \<Rightarrow> real) \<Rightarrow> layout \<Rightarrow> perf_data \<Rightarrow> ptt_line list option" where
  "print_table rnd L d = print_leaders rnd d (take (nat (xitao_nthreads L)) (enumerate 0 (ptt_layout L)))"

text \<open>The table of a task type and hint, which need not exist; looking it up does not create it.\<close>

definition print_table_of :: "(real \<Rightarrow> real) \<Rightarrow> layout \<Rightarrow> ptt_store \<Rightarrow> nat \<Rightarrow> 64 word \<Rightarrow> ptt_line list option option" where
  "print_table_of rnd L st ty hint =
     (case ptables st \<lparr>key_hint = hint, key_type = ty\<rparr> of
        None \<Rightarrow> Some None
      | Some h \<Rightarrow> (case pheap st h of None \<Rightarrow> None | Some d \<Rightarrow> map_option Some (print_table rnd L d)))"

text \<open>Per entry of the resource mapper: the core, the widths of the thread and the places that contain it.\<close>

definition print_ptt_debug_info :: "layout \<Rightarrow> (int \<times> int list \<times> place list) list option" where
  "print_ptt_debug_info L =
     (if length (static_resource_mapper L) \<le> length (ptt_layout L) \<and> length (static_resource_mapper L) \<le> length (inclusive_partitions L)
      then Some (map (\<lambda>i. (static_resource_mapper L ! i, ptt_layout L ! i, inclusive_partitions L ! i)) [0..<length (static_resource_mapper L)])
      else None)"

section \<open>Timers\<close>

text \<open>Seconds and microseconds of \<open>gettimeofday\<close> by event; an event that was never started counts from 0.\<close>

type_synonym timers = "string \<Rightarrow> (int \<times> int) option"

definition start_timer :: "string \<Rightarrow> int \<times> int \<Rightarrow> timers \<Rightarrow> timers" where
  "start_timer event now tm = tm(event \<mapsto> now)"

definition stop_timer :: "(real \<Rightarrow> real) \<Rightarrow> string \<Rightarrow> int \<times> int \<Rightarrow> timers \<Rightarrow> real \<times> timers" where
  "stop_timer rnd event now tm =
     (let t = (case tm event of None \<Rightarrow> (0, 0) | Some t \<Rightarrow> t) in
      (rnd (of_int (fst now - fst t) + rnd (of_int (snd now - snd t) * rnd (1 / 1000000))), tm(event \<mapsto> t)))"

section \<open>The sums of the histogram\<close>

definition references :: "hist \<Rightarrow> int" where
  "references h = (\<Sum>b<2 ^ HISTOGRAM_LEN. distance_vector h b) + cold_misses h"

lemma fold_add_at:
  "fold (\<lambda>j v. add_at j (f j) v) [0..<n] v = (\<lambda>j. if j < n then v j + f j else v j)"
  by (induction n) (auto simp: add_at_def fun_eq_iff)

lemma fold_sum: "fold (\<lambda>j n. n + f j) [0..<n] z = z + (\<Sum>j<n. f j)" for z :: int
  by (induction n) (simp_all add: algebra_simps)

lemma accum_one_references:
  "total_refs a = references (hist_total a) \<Longrightarrow> total_refs (accum_one h a) = references (hist_total (accum_one h a))"
  by (simp add: accum_one_def Let_def references_def fold_add_at fold_sum sum.distrib del: upt_Suc)

lemma fold_keeps: "(\<And>x a. P a \<Longrightarrow> P (f x a)) \<Longrightarrow> P a \<Longrightarrow> P (fold f xs a)"
  by (induction xs arbitrary: a) auto

lemma accum_vectors_references:
  assumes "total_refs a = references (hist_total a)"
  shows "total_refs (accum_vectors hs a) = references (hist_total (accum_vectors hs a))"
  unfolding accum_vectors_def by (rule fold_keeps [of _ "\<lambda>tid. accum_one (hs (int tid))"]) (simp_all add: accum_one_references assms)

lemma accum_vectors_nonneg:
  assumes "\<And>t b. 0 \<le> distance_vector (hs t) b" "\<And>b. 0 \<le> distance_vector (hist_total a) b"
  shows "0 \<le> distance_vector (hist_total (accum_vectors hs a)) b"
proof -
  have "\<forall>b. 0 \<le> distance_vector (hist_total (accum_vectors hs a)) b"
    unfolding accum_vectors_def
    by (rule fold_keeps [of _ "\<lambda>tid. accum_one (hs (int tid))"]) (simp_all add: accum_one_def Let_def fold_add_at assms del: upt_Suc)
  then show ?thesis by blast
qed

text \<open>Ranges that are not shown have nothing to add.\<close>

lemma range_loop_sums:
  assumes "\<And>b. 0 \<le> distance_vector (hist_total a) b"
  shows "accum (snd (range_loop rnd behind a is s)) = accum s + (\<Sum>i\<leftarrow>is. distance_vector (hist_total a) i)"
proof (induction "is" arbitrary: s)
  case (Cons i "is")
  show ?case
  proof (cases "range_shown behind (distance_vector (hist_total a)) i")
    case False
    then have "distance_vector (hist_total a) i = 0" using assms [of i] by (auto simp: range_shown_def)
    with False Cons show ?thesis by simp
  qed (simp add: Cons Let_def)
qed simp

text \<open>In the last line of the global histogram, the percentages of all reuses and of the cold misses add up
  to 100, whatever ranges are left out (in exact arithmetic, and without overflow of the counters).\<close>

theorem printed_percentages_add_up:
  assumes "\<forall>t b. 0 \<le> distance_vector (hs t) b"
  defines "a \<equiv> accum_vectors hs \<lparr>hist_total = no_hist, total_refs = 0\<rparr>"
  assumes "total_refs a \<noteq> 0"
  shows "\<exists>ls r reuses cold inv n c. print_histogram (\<lambda>x. x) behind a = ls @ [Cold_line r n (Some reuses) inv (Some cold) c] \<and>
    reuses + cold = 100"
proof -
  have nn: "0 \<le> distance_vector (hist_total a) b" for b
    unfolding a_def using assms(1) by (intro accum_vectors_nonneg) (simp_all add: no_hist_def)
  have refs: "total_refs a = references (hist_total a)"
    unfolding a_def by (rule accum_vectors_references) (simp add: references_def no_hist_def)
  have s: "accum (snd (range_loop (\<lambda>x. x) behind a [0..<2 ^ HISTOGRAM_LEN] \<lparr>accum = 0, accum_shared = 0, accum_inv = 0, last_range = 0\<rparr>)) =
      (\<Sum>b<2 ^ HISTOGRAM_LEN. distance_vector (hist_total a) b)"
    by (simp add: range_loop_sums [OF nn] interv_sum_list_conv_sum_set_nat atLeast0LessThan)
  have "100 * real_of_int x / t + 100 * real_of_int y / t = 100" if "t = x + y" "t \<noteq> 0" for x y t :: int
  proof -
    have "100 * real_of_int x + 100 * real_of_int y = 100 * real_of_int t" using that(1) by simp
    then show ?thesis using that(2) by (simp only: add_divide_distrib [symmetric]) simp
  qed
  then have sum: "100 * real_of_int (\<Sum>b<2 ^ HISTOGRAM_LEN. distance_vector (hist_total a) b) / total_refs a +
      100 * real_of_int (cold_misses (hist_total a)) / total_refs a = 100"
    using assms(3) refs unfolding references_def by blast
  have pc: "percent (\<lambda>x. x) (total_refs a) n = Some (100 * real_of_int n / total_refs a)" for n
    using assms(3) by (simp add: percent_def ddiv_def)
  show ?thesis
    unfolding print_histogram_def Let_def s pc by (intro exI conjI, rule refl, rule sum)
qed

section \<open>The size of the stack\<close>

lemma last_used_snoc: "last_used (xs @ [x]) = block (head_entry (probe_of x)) @ filter (\<lambda>a. \<not> in_block (probe_of x) a) (last_used xs)"
  by (simp add: last_used_def)

definition bytes_of :: "elem \<Rightarrow> nat set" where
  "bytes_of x = {unat (el_id x)..<unat (el_id x) + nat \<bar>el_bytes x\<bar>}"

lemma block_bytes: "set (block (head_entry (probe_of x))) = bytes_of x"
  using probe_bytes [of x] by (simp add: head_block bytes_of_def) (simp add: probe_of_def)

lemma in_block_bytes: "in_block (probe_of x) a \<longleftrightarrow> a \<in> bytes_of x"
  using probe_bytes [of x] by (simp add: in_block_def bytes_of_def) (simp add: probe_of_def)

lemma set_last_used: "set (last_used xs) = (\<Union>x\<in>set xs. bytes_of x)"
  by (induction xs rule: rev_induct) (auto simp: last_used_snoc block_bytes in_block_bytes, simp add: last_used_def)

lemma print_trace_data_sum:
  assumes "list_all (entry_ok 1) st"
  shows "print_trace_data st = of_nat (length (flat st))"
proof -
  have "fold (\<lambda>s d. d + of_int \<bar>sint (se_size s)\<bar>) st d = d + of_nat (length (flat st))" for d :: "64 word"
    using assms
  proof (induction st arbitrary: d)
    case (Cons s st)
    have "unat (se_size s) \<le> 2 ^ 31" using Cons.prems by (simp add: entry_ok_def)
    then have "int (unat (se_size s)) \<le> int (2 ^ 31)" by (rule of_nat_mono)
    then have "\<bar>sint (se_size s)\<bar> = uint (se_size s)"
      by (cases "uint (se_size s) = 2 ^ 31")
        (simp_all add: sint_uint signed_take_bit_eq_take_bit_shift take_bit_int_eq_self take_bit_eq_mod)
    then have "(of_int \<bar>sint (se_size s)\<bar> :: 64 word) = of_nat (length (block s))" by (simp add: block_length)
    with Cons show ?case by (simp add: algebra_simps)
  qed simp
  then show ?thesis by (simp add: print_trace_data_def)
qed

text \<open>The size of the stack printed after a trace without invalidations is the number of distinct
  bytes that the trace accesses.\<close>

theorem stack_data_is_the_footprint:
  assumes "list_all (block_elem 1) xs"
  shows "\<exists>r. do_one_histogram_mem RAW_TRACE_MAGIC ARRAY_PARTIAL xs 0 0 whole kid [] no_hist = Some (Inr r) \<and>
    unat (print_trace_data (stack r)) = card (\<Union>x\<in>set xs. bytes_of x)"
proof -
  obtain r where r: "do_one_histogram_mem RAW_TRACE_MAGIC ARRAY_PARTIAL xs 0 0 whole kid [] no_hist = Some (Inr r)"
    "stack_ok 1 (stack r)" "flat (stack r) = last_used xs"
    using partial_histo_loop [of 1 "run_start 0 0 [] no_hist" xs RAW_TRACE_MAGIC whole 0 kid 0] assms
    by (auto simp: do_one_histogram_mem_def run_start_def known_magic_def whole_def stack_ok_def last_used_def is_invalidation_probe_def)
  have "length (flat (stack r)) = card (set (flat (stack r)))" using r(2) by (simp add: stack_ok_def distinct_card)
  then have len: "length (flat (stack r)) = card (\<Union>x\<in>set xs. bytes_of x)" by (simp add: r(3) set_last_used)
  have "set (flat (stack r)) \<subseteq> {0..<2 ^ 64 - 1}"
    using r(2) by (fastforce simp: stack_ok_def flat_def block_def entry_ok_def list_all_iff)
  then have "card (set (flat (stack r))) \<le> card {0..<(2::nat) ^ 64 - 1}" by (rule card_mono [rotated]) simp
  then have "length (flat (stack r)) < 2 ^ 64" using r(2) by (simp add: stack_ok_def distinct_card)
  moreover have "print_trace_data (stack r) = of_nat (length (flat (stack r)))"
    using r(2) by (intro print_trace_data_sum) (simp add: stack_ok_def)
  ultimately have "unat (print_trace_data (stack r)) = length (flat (stack r))"
    by (simp add: unsigned_of_nat take_bit_nat_eq_self)
  with r(1) len show ?thesis by auto
qed

section \<open>Tables and dumps\<close>

fun line_width :: "ptt_line \<Rightarrow> int option" where
  "line_width (Leader_line l) = None"
| "line_width (Width_line w v c) = Some w"

lemma table_at_valid: "0 \<le> ldr \<Longrightarrow> ldr < 64 \<Longrightarrow> 1 \<le> w \<Longrightarrow> w \<le> 64 \<Longrightarrow> table_at d ldr w = Some (get_timetable d ldr w)"
  by (simp add: table_at_def ptt_index_valid_def ptt_index_def)

lemma print_row_total:
  assumes "\<forall>w\<in>snd ` set row. 1 \<le> w \<and> w \<le> 64" "1 \<le> w0" "w0 \<le> 64" "0 \<le> ldr" "ldr < 64"
  shows "\<exists>ls. print_row rnd d ldr w0 row = Some ls \<and> map line_width ls = map (\<lambda>x. Some (snd x)) row"
  using assms
proof (induction row)
  case (Cons x row)
  obtain i w where x: "x = (i, w)" by (cases x)
  with Cons obtain ls where "print_row rnd d ldr w0 row = Some ls" "map line_width ls = map (\<lambda>x. Some (snd x)) row" by auto
  with Cons.prems show ?case by (auto simp: x table_at_valid)
qed simp

lemma print_leader_total:
  assumes "\<forall>w\<in>set ws. 1 \<le> w \<and> w \<le> 64" "0 \<le> ldr" "ldr < 64"
  shows "\<exists>ls. print_leader rnd d ldr ws = Some (Leader_line ldr # ls) \<and> map line_width ls = map Some (sort ws)"
proof (cases "sort ws = []")
  case True
  then show ?thesis by (simp add: print_leader_def enumerate_simps)
next
  case False
  then have "hd (sort ws) \<in> set ws" using hd_in_set [OF False] by simp
  then have "1 \<le> hd (sort ws)" "hd (sort ws) \<le> 64" using assms(1) by auto
  moreover have "snd ` set (enumerate 0 (sort ws)) = set ws" by (metis list.set_map map_snd_enumerate set_sort)
  ultimately obtain ls where "print_row rnd d ldr (hd (sort ws)) (enumerate 0 (sort ws)) = Some ls"
    "map line_width ls = map (\<lambda>x. Some (snd x)) (enumerate 0 (sort ws))"
    using print_row_total [of "enumerate 0 (sort ws)" "hd (sort ws)" ldr rnd d] assms by auto
  moreover have "map (\<lambda>x. Some (snd x)) (enumerate 0 (sort ws)) = map Some (sort ws)"
  proof -
    have "map (\<lambda>x. Some (snd x)) (enumerate 0 (sort ws)) = map Some (map snd (enumerate 0 (sort ws)))" by (simp only: map_map comp_def)
    then show ?thesis by (simp only: map_snd_enumerate)
  qed
  ultimately show ?thesis using False by (simp add: print_leader_def Let_def)
qed

lemma print_leaders_total:
  assumes "\<forall>(l, ws)\<in>set rows. l < 64 \<and> (\<forall>w\<in>set ws. 1 \<le> w \<and> w \<le> 64)"
  shows "\<exists>ls. print_leaders rnd d rows = Some ls \<and>
    map line_width ls = concat (map (\<lambda>(l, ws). None # map Some (sort ws)) rows)"
  using assms
proof (induction rows)
  case (Cons x rows)
  obtain l ws where x: "x = (l, ws)" by (cases x)
  obtain a where "print_leader rnd d (int l) ws = Some (Leader_line (int l) # a)" "map line_width a = map Some (sort ws)"
    using print_leader_total [of ws "int l" rnd d] Cons.prems by (auto simp: x)
  moreover obtain ls where "print_leaders rnd d rows = Some ls" "map line_width ls = concat (map (\<lambda>(l, ws). None # map Some (sort ws)) rows)"
    using Cons by auto
  ultimately show ?case by (simp add: x)
qed simp

text \<open>With widths from 1 to 64 the table of every leader is printed, a line per width, in ascending order.\<close>

theorem print_table_is_total:
  assumes "length (ptt_layout L) = 64" "\<forall>ws\<in>set (ptt_layout L). \<forall>w\<in>set ws. 1 \<le> w \<and> w \<le> 64"
  shows "\<exists>ls. print_table rnd L d = Some ls \<and>
    map line_width ls = concat (map (\<lambda>ws. None # map Some (sort ws)) (take (nat (xitao_nthreads L)) (ptt_layout L)))"
proof -
  let ?rows = "take (nat (xitao_nthreads L)) (enumerate 0 (ptt_layout L))"
  have "\<forall>(l, ws)\<in>set ?rows. l < 64 \<and> (\<forall>w\<in>set ws. 1 \<le> w \<and> w \<le> 64)"
  proof clarify
    fix l ws
    assume "(l, ws) \<in> set ?rows"
    then have "(l, ws) \<in> set (enumerate 0 (ptt_layout L))" by (rule in_set_takeD)
    then have l: "l < length (ptt_layout L)" "ptt_layout L ! l = ws" by (simp_all add: in_set_enumerate_eq)
    have "l < 64" using l(1) unfolding assms(1) .
    moreover have "ws \<in> set (ptt_layout L)" using nth_mem [OF l(1)] unfolding l(2) .
    ultimately show "l < 64 \<and> (\<forall>w\<in>set ws. 1 \<le> w \<and> w \<le> 64)" by (rule conjI [OF _ bspec [OF assms(2)]])
  qed
  then obtain ls where "print_leaders rnd d ?rows = Some ls" "map line_width ls = concat (map (\<lambda>(l, ws). None # map Some (sort ws)) ?rows)"
    using print_leaders_total [of ?rows rnd d] by blast
  moreover have "map (\<lambda>(l, ws). None # map Some (sort ws)) ?rows =
      map (\<lambda>ws. None # map Some (sort ws)) (take (nat (xitao_nthreads L)) (ptt_layout L))"
  proof -
    have "map (\<lambda>(l, ws). None # map Some (sort ws)) ?rows = map (\<lambda>ws. None # map Some (sort ws)) (map snd ?rows)"
      by (simp add: comp_def split_beta)
    then show ?thesis by (simp add: take_map [symmetric])
  qed
  ultimately show ?thesis by (simp add: print_table_def)
qed

text \<open>The dump prints the buffer, also beyond the elements of the trace.\<close>

lemma dump_elems_prefix:
  assumes "get_trace i st = Inr t" "data_ids t = Buffer cap f"
  shows "dump_elems i st js = (if list_all (\<lambda>j. j < cap) js then Inr (map f js) else Inl Fault)"
  by (induction js) (auto simp: assms buf_get_def)

lemma stop_after_start:
  "stop_timer (\<lambda>x. x) event (s, us) (start_timer event (s0, us0) tm) =
     (real_of_int (s - s0) + real_of_int (us - us0) / 1000000, tm(event \<mapsto> (s0, us0)))"
  by (simp add: stop_timer_def start_timer_def)

section \<open>Examples\<close>

lemma fold_nothing: "fold (\<lambda>j n. n) xs z = z"
  by (induction xs) simp_all

theorem stack_data_is_the_footprint_witness:
  "\<exists>r. do_one_histogram_mem RAW_TRACE_MAGIC ARRAY_PARTIAL [ex_part_access 64 8, ex_part_access 68 8] 0 0 whole 3 [] no_hist = Some (Inr r) \<and>
    unat (print_trace_data (stack r)) = 12"
proof -
  have "list_all (block_elem 1) [ex_part_access 64 8, ex_part_access 68 8]" by (simp add: ex_trace ex_partial)
  moreover have "(\<Union>x\<in>set [ex_part_access 64 8, ex_part_access 68 8]. bytes_of x) = {64..<76}"
    by (auto simp: bytes_of_def ex_trace)
  ultimately show ?thesis using stack_data_is_the_footprint [of "[ex_part_access 64 8, ex_part_access 68 8]" 3] by simp
qed

theorem printed_percentages_add_up_witness:
  "\<exists>ls r reuses cold inv n c. print_histogram (\<lambda>x. x) 0
      (accum_vectors (\<lambda>_. no_hist\<lparr>cold_misses := 1\<rparr>) \<lparr>hist_total = no_hist, total_refs = 0\<rparr>)
     = ls @ [Cold_line r n (Some reuses) inv (Some cold) c] \<and> reuses + cold = 100"
proof -
  let ?a = "accum_vectors (\<lambda>_. no_hist\<lparr>cold_misses := 1\<rparr>) \<lparr>hist_total = no_hist, total_refs = 0\<rparr>"
  have "total_refs (fold (\<lambda>tid. accum_one (no_hist\<lparr>cold_misses := 1\<rparr>)) ts a) = total_refs a + int (length ts)" for ts :: "nat list" and a
    by (induction ts arbitrary: a) (simp_all add: accum_one_def Let_def fold_sum no_hist_def fold_nothing del: upt_Suc)
  then have "total_refs ?a = 1024" by (simp add: accum_vectors_def LOI_MAXTHREADS_def)
  moreover have "\<forall>t b. 0 \<le> distance_vector ((\<lambda>_. no_hist\<lparr>cold_misses := 1\<rparr>) t) b" by (simp add: no_hist_def)
  ultimately show ?thesis using printed_percentages_add_up [of "\<lambda>_. no_hist\<lparr>cold_misses := 1\<rparr>" 0] by simp
qed

end
