(* ===== verification/Spec2Isabelle.thy ===== *)
theory Spec2Isabelle
  imports Fibonacci Merge_Sort Loop_Regions Drain Api_Protocol Lfq Barriers Locks Krd_Tools Krd_Heap Reports
begin

text \<open>
  XiTAO, a task-based runtime in C++ with its profiling library LOI in C.

  The program. A program builds a graph of tasks (\<open>src/poly_task.cpp\<close>, \<open>include/tao.h\<close>), gives
  its first tasks to the runtime (\<open>xitao_push\<close>) and starts one worker per thread
  (\<open>src/tao_sched.cpp\<close>). A worker takes a ready task, from its own queue or by stealing, chooses
  a place for it (a leader and a width, from the layout and the performance tables) and puts it
  into the assembly queues of all threads of the place. Each of these threads takes its part when
  the task is at the head of its queue, waits for the others, executes its share, and the last one
  to finish completes the task: its successors lose a reference, and those without references
  become ready. The runtime ends when all tasks are counted as completed. The library LOI counts the
  cycles of kernels and records their memory accesses, and its tools turn the traces into reuse
  histograms.

  Theories and code. Each theory imports the ones its code calls.
  \<^item> \<open>Prelude\<close>: string conversions of the C library, sums over worker threads, shared lemmas.
  \<^item> \<open>Config\<close>: \<open>config\<close> (\<open>src/config.cpp\<close>) as a record, and the command line.
  \<^item> \<open>Layout\<close>: the places (\<open>ptt_layout\<close>, \<open>inclusive_partitions\<close>), default and from a file
    (\<open>src/xitao_ptt.cpp\<close>).
  \<^item> \<open>Ptt\<close>: the performance tables, their keys and cells (\<open>src/xitao_ptt.cpp\<close>, \<open>src/xitao_ptt_key.cpp\<close>,
    \<open>PolyTask::get_timetable\<close>, \<open>set_timetable\<close>).
  \<^item> \<open>Tasks\<close>: \<open>PolyTask\<close> as the record \<open>poly_task\<close>, the shared state of \<open>src/xitao_workspace.cpp\<close>
    as the record \<open>rt\<close>, constructors, affinities, edges.
  \<^item> \<open>Perf_Model\<close>: the search for a place and the update of the tables (\<open>include/perf_model.h\<close>).
  \<^item> \<open>Queue_Manager\<close>: ready and assembly queues (\<open>include/queue_manager.h\<close>), and the locking of
    concurrent insertions.
  \<^item> \<open>Wakeup\<close>: \<open>PolyTask::commit_and_wakeup\<close>. \<open>Stats\<close>: \<open>src/runtime_stats.cpp\<close>.
  \<^item> \<open>Sched_Model\<close>: \<open>worker_loop\<close> as the step relation \<open>sched_step\<close> of any number of workers on one
    \<open>rt\<close>, one step per access to shared state. \<open>Sched_Inv\<close>, \<open>Sched_Count\<close>: its invariants.
    \<open>Scheduler\<close>: what they give. \<open>Sched_Refine\<close>: the steps of a completion against \<open>Wakeup\<close>.
  \<^item> \<open>Runtime_Api\<close>: the functions of \<open>src/tao_sched.cpp\<close> a program calls. \<open>Api_Protocol\<close>: the order
    of the calls. \<open>Vec_Tasks\<close>: data-parallel loops (\<open>ParForTask\<close>, \<open>include/xitao_api.h\<close>,
    \<open>include/xitao_macros.h\<close>).
  \<^item> \<open>Drain\<close>: \<open>xitao_drain\<close> beside the workers, its mutex and condition variable as \<open>drain_step\<close>.
  \<^item> \<open>Programs\<close>: the scheduler with task bodies, \<open>prog_step\<close>, and when a program's result is
    independent of the schedule. Programs: \<open>Fibonacci\<close> and \<open>Merge_Sort\<close> (\<open>benchmarks/fibonacci\<close>,
    \<open>benchmarks/merge_sort\<close>), \<open>Loop_Programs\<close> (graphs of static data-parallel loops), \<open>Loop_Regions\<close> (the
    macros of parallel regions, from the call that creates and pushes the tasks to the runs of the body).
  \<^item> \<open>Lfq\<close>: \<open>include/lfq-fifo.h\<close>. \<open>Barriers\<close>: \<open>src/barriers.cpp\<close>. \<open>Locks\<close>: \<open>LOCK_ACQUIRE\<close> and
    \<open>LOCK_RELEASE\<close> (\<open>include/xitao_workspace.h\<close>).
  \<^item> \<open>Krd_Trace\<close>: traces and trace files (\<open>loi/krd.h\<close>, \<open>loi/krd_common.c\<close>, \<open>loi/krd_trace.c\<close>).
    \<open>Krd_Tools\<close>: the tools on them. \<open>Krd_Histogram\<close>: \<open>loi/krd.c\<close>. \<open>Krd_Reuse\<close>, \<open>Krd_Partial\<close>: what
    its histograms are, for whole blocks and for blocks that overlap in part. \<open>Krd_Heap\<close>: its doubly
    linked list on the heap.
  \<^item> \<open>Loi\<close>: the profile of kernels and phases, the macros of an instrumented program, the statistics
    and benchmarks (\<open>loi/loi.h\<close>, \<open>loi/loi.c\<close>, \<open>loi/krd_bench.c\<close>). \<open>Loi_Profile\<close>: what they record.
  \<^item> \<open>Reports\<close>: what is printed of histograms, traces and performance tables, as data, and the timers.

  How the model follows the code. A class or the set of global variables of a file is a record, an
  operation a function on it with the name it has in the code. A failing assertion, an index out of
  range, a null pointer, \<open>exit\<close> and a loop without end are values (\<open>None\<close>, or an error of a sum
  type). What the program reads from outside (environment, files, results of system calls, random
  numbers, clocks, the rounding of \<open>float\<close>) is a parameter. Integers of the runtime are \<open>int\<close> or
  \<open>nat\<close> where they only count or index, and words where they wrap (hashes, the counters of the
  barriers, everything in a trace). Where a sum of the \<open>int\<close>s a caller chooses can leave the type (the bounds and
  blocks of a loop, the weight of the old time) the model checks it, and the overflow is an error; the atomic
  counter of a dynamic loop wraps around. Functions that run concurrently are step relations: \<open>sched_step\<close>
  with critical sections as single steps (which \<open>Locks\<close> justifies), \<open>qm_step\<close> with the locks, \<open>spin_step\<close>, \<open>cxx_step\<close>,
  \<open>dyn_step\<close>, \<open>drain_step\<close>. In \<open>prog_step\<close> the steps of \<open>sched_step\<close> that execute a task
  also run its body on the program's data; a body that faults ends the run.

  What the lemmas show. For the scheduler, over every reachable state: a task begins only when its
  predecessors are finished, every thread of its place runs it once, the threads of an assembly
  run it together, the end is only seen when all tasks are finished, no ready task is lost, and no task is deleted twice; the
  proofs count tokens, edges and parts over the workers. The assembly queues are in one order and
  their locking has no deadlock, so a rendezvous is always possible. \<open>Sched_Refine\<close> and the first
  section below tie the sequential functions to the steps. The interfaces are locales, each
  interpreted on the code's model: \<open>barrier_contract\<close> by both barriers, \<open>fifo_queue\<close> by the linked
  queue, \<open>lock_contract\<close> by the spinning lock, \<open>emitter\<close> (the merge of sorted traces) by the merge
  tool and the coherence tool,
  \<open>task_program\<close> and \<open>total_task_program\<close> by the three programs. A program that
  keeps the laws of these (a task's body needs the results of its predecessors, and tasks
  that are not ordered leave each other's data alone) has its results when the workers may
  leave, on every schedule: the Fibonacci number, the sorted array, each loop index once. The
  histogram of a trace of whole blocks equals a reference that looks back in the trace, with its distances
  modulo \<open>2 ^ 32\<close>, and so exactly when the blocks have less than 4 GiB together. For blocks
  that overlap in part, the stack stands for a list of bytes (\<open>flat\<close>), of which every operation is a
  function: an access moves its bytes to the front, an invalidation keeps the order. The linked
  list on the heap refines the lists, with no dangling pointer. The profile and
  the traces of an instrumented program are functions of what its threads did. The phases of
  the interface are a type system for sequences of calls, proved sound for programs without a layout file; what
  \<open>xitao_push\<close> chooses and does is stated below, and is a step of \<open>sched_step\<close>.

  Bounds. There are up to 64 workers (\<open>XITAO_MAXTHREADS\<close>) and any number of tasks. No fuel is used:
  loops are structural or have a measure, and those that may not end are \<open>partial_function\<close>, with
  the exact condition of their end proved where it is claimed (\<open>push_queue_search\<close>,
  \<open>victim_choice_ends\<close>). The lists of results of \<open>read\<close> and \<open>write\<close> bound the number of calls; the
  theorems on files hold for every list that transfers the data. A \<open>float\<close> is a real number: what is proved of
  computed ones is for a rounding with a relative error of \<open>2 ^ -24\<close> on the normal numbers, and for operands
  whose results stay there.

  Not modelled. Debug messages, the progress lines of log files and the formats and field widths of
  what is printed. The
  bodies of tasks are a parameter; a body is one step, so what bodies that may run at the same
  time do to the same data is not interleaved. Their \<open>cleanup\<close> is empty. The memory model is
  sequential consistency. The OpenMP
  variants of the profiling macros differ from the others in pragmas. Of the benchmarks,
  which are programs that use the library, two are modelled; the others (breadth-first
  search, dot product, random graphs, matrix multiplication, stencils, sparse LU and so on)
  build graphs with the same operations.
\<close>

section \<open>Pushing and restarting\<close>

lemma push_queue_chosen:
  assumes "push_queue rand cpu a c p qu = Some (Inr q)"
    and "0 < xitao_nthreads (alay a)" and "xitao_nthreads (alay a) \<le> int (length (inclusive_partitions (alay a)))"
  shows "if resources_runtime_controlled a
    then q = (if 0 \<le> wanted_queue c cpu p qu \<and> wanted_queue c cpu p qu < int (length (runtime_resource_mapper a))
              then wanted_queue c cpu p qu else int (rand mod length (runtime_resource_mapper a)))
    else \<exists>k. q = candidate (xitao_nthreads (alay a)) (wanted_queue c cpu p qu) k
           \<and> inclusive_partitions (alay a) ! nat q \<noteq> []
           \<and> (\<forall>j<k. inclusive_partitions (alay a) ! nat (candidate (xitao_nthreads (alay a)) (wanted_queue c cpu p qu) j) = [])"
proof (cases "resources_runtime_controlled a")
  case True
  with assms(1) show ?thesis
    by (auto simp: push_queue_def check_and_get_available_queue_def Let_def split: if_splits)
next
  case False
  with assms(1) have "find_queue (inclusive_partitions (alay a)) (xitao_nthreads (alay a)) (wanted_queue c cpu p qu) = Some (Inr q)"
    by (simp add: push_queue_def Let_def)
  from find_queue_first [OF assms(2,3) this] False show ?thesis by auto
qed

lemma push_succeeds:
  assumes "xitao_push rand cpu a t qu r = Some (Inr r')"
  obtains q where "push_queue rand cpu a (conf r) (tasks r t) qu = Some (Inr (int q))" "q < 64"
    "r' = insert_in_ready_queue t q (if use_performance_modeling (conf r) then attach_ptt t r else r)"
proof -
  from assms obtain q where "push_queue rand cpu a (conf r) (tasks r t) qu = Some (Inr q)" "0 \<le> q" "q < 64"
    "r' = insert_in_ready_queue t (nat q) (if use_performance_modeling (conf r) then attach_ptt t r else r)"
    by (auto simp: xitao_push_def Let_def XITAO_MAXTHREADS_def split: option.splits sum.splits if_splits)
  then show ?thesis by (intro that [of "nat q"]) simp_all
qed

lemma attach_ptt_tasks: "\<exists>h. tasks (attach_ptt t r) = (tasks r)(t := (tasks r t)\<lparr>ptt_handle := Some h\<rparr>)"
  by (auto simp: attach_ptt_def upd_task_def split: prod.splits)

text \<open>C11.
  What a successful \<open>xitao_push\<close> of a task without predecessors does. The wanted queue is the argument,
  unless it is -1: then the task's affinity, if it has one and \<open>sta\<close> is on, and else the CPU of the
  caller. With a mask the task goes to the wanted queue if that is below the number of CPUs of
  the mask, and else to a random one of them; without a mask it goes to the first queue whose thread is in some
  place, from the wanted one upwards and cyclically below the number of threads. It is appended to this one
  queue, and no other queue and no other task changes; with the performance model on, the task has its
  time table afterwards. All this is one step of the master in the scheduler's
  model, so what the scheduler guarantees covers the pushed task.
\<close>

theorem push_is_a_master_step:
  assumes "xitao_push rand cpu a t qu (rts s) = Some (Inr r)" and "unpushed s t"
    and "n = xitao_nthreads (alay a)" and "0 < n" and "n \<le> 64"
    and parts: "parts = inclusive_partitions (alay a)" "length parts = 64"
    and wanted: "w = (if qu \<noteq> -1 then qu
      else if affinity_queue (tasks (rts s) t) \<noteq> -1 \<and> sta (conf (rts s)) \<noteq> 0 then affinity_queue (tasks (rts s) t) else cpu)"
  shows "sched_step rnd N s (s\<lparr>rts := r, unpushed := (unpushed s)(t := False)\<rparr>)
    \<and> (\<exists>q<64.
      (if resources_runtime_controlled a
       then int q = (if 0 \<le> w \<and> w < int (length (runtime_resource_mapper a)) then w
                     else int (rand mod length (runtime_resource_mapper a)))
       else \<exists>k. int q = (if k = 0 then w else (w + int k) mod n) \<and> parts ! q \<noteq> []
              \<and> (\<forall>j<k. parts ! nat (if j = 0 then w else (w + int j) mod n) = []))
      \<and> ready_q r = (ready_q (rts s))(q := ready_q (rts s) q @ [t])
      \<and> assembly_q r = assembly_q (rts s) \<and> pending_tasks r = pending_tasks (rts s)
      \<and> (if use_performance_modeling (conf (rts s))
         then \<exists>h. tasks r = (tasks (rts s))(t := (tasks (rts s) t)\<lparr>ptt_handle := Some h\<rparr>)
         else tasks r = tasks (rts s)))"
proof -
  let ?r = "if use_performance_modeling (conf (rts s)) then attach_ptt t (rts s) else rts s"
  obtain q where q: "push_queue rand cpu a (conf (rts s)) (tasks (rts s) t) qu = Some (Inr (int q))" "q < 64"
    "r = insert_in_ready_queue t q ?r" using push_succeeds [OF assms(1)] by metis
  have w: "wanted_queue (conf (rts s)) cpu (tasks (rts s) t) qu = w" using wanted by (simp add: wanted_queue_def)
  have "q < XITAO_MAXTHREADS" using q(2) by (simp add: XITAO_MAXTHREADS_def)
  from sched_step.master_push [OF assms(2) this refl, of rnd N] q(3)
  have step: "sched_step rnd N s (s\<lparr>rts := r, unpushed := (unpushed s)(t := False)\<rparr>)" by simp
  have "ready_q r = (ready_q (rts s))(q := ready_q (rts s) q @ [t])" "assembly_q r = assembly_q (rts s)"
    "pending_tasks r = pending_tasks (rts s)" "tasks r = tasks ?r"
    unfolding q(3) insert_in_ready_queue_def by (simp_all add: attach_ptt_def split: prod.splits)
  moreover have layout: "0 < xitao_nthreads (alay a)" "xitao_nthreads (alay a) \<le> int (length (inclusive_partitions (alay a)))"
    using assms(3-5) parts by simp_all
  have "if resources_runtime_controlled a
       then int q = (if 0 \<le> w \<and> w < int (length (runtime_resource_mapper a)) then w
                     else int (rand mod length (runtime_resource_mapper a)))
       else \<exists>k. int q = (if k = 0 then w else (w + int k) mod n) \<and> parts ! q \<noteq> []
              \<and> (\<forall>j<k. parts ! nat (if j = 0 then w else (w + int j) mod n) = [])"
    using push_queue_chosen [OF q(1) layout] unfolding w candidate_def assms(3) parts(1) nat_int .
  ultimately show ?thesis using attach_ptt_tasks [of t "rts s"] step q(2)
    by (intro conjI exI [of _ q]) (simp_all split del: if_split, simp)
qed

definition two_api :: api where
  "two_api = init_api\<lparr>alay := init_layout\<lparr>xitao_nthreads := 2, inclusive_partitions := (replicate 64 [])[1 := [(1, 1)]]\<rparr>\<rparr>"

lemma two_api_sel [simp]:
  "xitao_nthreads (alay two_api) = 2" "inclusive_partitions (alay two_api) = (replicate 64 [])[1 := [(1, 1)]]"
  "\<not> resources_runtime_controlled two_api"
  by (simp_all add: two_api_def init_api_def)

text \<open>The first task of a graph of two, pushed without a queue from CPU 5: only thread 1 is in a place.\<close>

theorem push_is_a_master_step_witness:
  "\<exists>r. xitao_push 0 5 two_api 0 (-1) two_rt = Some (Inr r) \<and> ready_q r 1 = ready_q two_rt 1 @ [0]
     \<and> sched_step (\<lambda>x. x) 2 (boot two_rt) ((boot two_rt)\<lparr>rts := r, unpushed := (unpushed (boot two_rt))(0 := False)\<rparr>)"
proof -
  have conf: "affinity_queue (tasks two_rt 0) = -1" "unpushed (boot two_rt) 0" by code_simp+
  have "(replicate 64 [])[Suc 0 := [(1, 1)]] ! Suc 0 = [(1::int, 1::int)]" by (subst nth_list_update_eq) simp_all
  then have "push_queue 0 5 two_api (conf two_rt) (tasks two_rt 0) (-1) = Some (Inr 1)"
    using conf(1) by (simp add: push_queue_def wanted_queue_def Let_def find_queue.simps signed_modulo_int_def)
  then obtain r where r: "xitao_push 0 5 two_api 0 (-1) (rts (boot two_rt)) = Some (Inr r)"
    by (auto simp: xitao_push_def Let_def boot_def XITAO_MAXTHREADS_def)
  have "(replicate 64 [])[1 := [(1, 1)]] ! q = [] \<or> q = 1" if "q < 64" for q :: nat
    using that by (cases "q = 1") simp_all
  then have "q = 1" if "q < 64" "inclusive_partitions (alay two_api) ! q \<noteq> []" for q using that by simp blast
  moreover obtain q where q: "q < 64" "inclusive_partitions (alay two_api) ! q \<noteq> []"
    "ready_q r = (ready_q two_rt)(q := ready_q two_rt q @ [0])"
    and "sched_step (\<lambda>x. x) 2 (boot two_rt) ((boot two_rt)\<lparr>rts := r, unpushed := (unpushed (boot two_rt))(0 := False)\<rparr>)"
    using push_is_a_master_step [OF r conf(2) refl _ _ refl _ refl, of "\<lambda>x. x" 2] by (auto simp: boot_def)
  ultimately show ?thesis using r by (auto simp: boot_def)
qed

text \<open>
  The calls of a program that uses the runtime twice, and a runtime without tasks; for two
  threads, without mask and without layout file.
\<close>

definition again :: "(api \<Rightarrow> api_error + api) \<Rightarrow> api_error + api \<Rightarrow> api_error + api" where
  "again f x = (case x of Inl e \<Rightarrow> Inl e | Inr a \<Rightarrow> f a)"

definition start_twice :: "api_error + api" where
  "start_twice =
     (let init = xitao_init_hw (\<lambda>_. None) (\<lambda>_. None) 2 0 1
      in again xitao_start (again init (again xitao_fini (again xitao_start (init init_api)))))"

definition idle_rt :: "api \<Rightarrow> rt" where
  "idle_rt a = init_rt two_conf (alay a) blank_task"

lemma again_Inr [simp]: "again f (Inr a) = f a"
  by (simp add: again_def)

lemma again_result: "again f x = Inr b \<longleftrightarrow> (\<exists>a. x = Inr a \<and> f a = Inr b)"
  by (cases x) (simp_all add: again_def)

lemma start_keeps_exit: "xitao_start a = Inr b \<Longrightarrow> gotao_can_exit b = gotao_can_exit a"
  by (auto simp: xitao_start_def split: if_splits)

lemma fini_sets_exit: "xitao_fini a = Inr b \<Longrightarrow> gotao_can_exit b"
  by (auto simp: xitao_fini_def Let_def split: sum.splits)

text \<open>The exit flag survives a restart. After any initialisation, start and end, a second
  initialisation and start leave \<open>gotao_can_exit\<close> set: it is never cleared. A worker whose
  flag is set leaves its loop as soon as nothing is pending, so with tasks that are created
  only after the second start both workers of the two-thread runtime end before any of them
  is pushed, whereas after the first start they stay.
\<close>

theorem restart_keeps_exit_flag:
  "(\<forall>getenv files n1 n2 a0 a1 a2 a3 a4 a5. xitao_init_hw getenv files n1 0 1 a0 = Inr a1 \<and> xitao_start a1 = Inr a2
      \<and> xitao_fini a2 = Inr a3 \<and> xitao_init_hw getenv files n2 0 1 a3 = Inr a4 \<and> xitao_start a4 = Inr a5
      \<longrightarrow> gotao_can_exit a5)
   \<and> (\<exists>a s. start_twice = Inr a \<and> threads a ! 0 = Created \<and> threads a ! 1 = Created
      \<and> run 2 (replicate 6 (Worker 0) @ replicate 6 (Worker 1)) ((boot (idle_rt a))\<lparr>can_exit := gotao_can_exit a\<rparr>) = Some s
      \<and> pcs s 0 = PDone \<and> pcs s 1 = PDone)
   \<and> (\<exists>a s. again xitao_start (xitao_init_hw (\<lambda>_. None) (\<lambda>_. None) 2 0 1 init_api) = Inr a
      \<and> run 2 (replicate 6 (Worker 0) @ replicate 6 (Worker 1)) ((boot (idle_rt a))\<lparr>can_exit := gotao_can_exit a\<rparr>) = Some s
      \<and> pcs s 0 = PTop None \<and> pcs s 1 = PTop None)"
proof (intro conjI)
  show "\<forall>getenv files n1 n2 a0 a1 a2 a3 a4 a5. xitao_init_hw getenv files n1 0 1 a0 = Inr a1 \<and> xitao_start a1 = Inr a2
      \<and> xitao_fini a2 = Inr a3 \<and> xitao_init_hw getenv files n2 0 1 a3 = Inr a4 \<and> xitao_start a4 = Inr a5
      \<longrightarrow> gotao_can_exit a5"
    using fini_sets_exit init_hw_tables start_keeps_exit by metis
  have "(case start_twice of Inl e \<Rightarrow> False | Inr a \<Rightarrow> threads a ! 0 = Created \<and> threads a ! 1 = Created
      \<and> (case run 2 (replicate 6 (Worker 0) @ replicate 6 (Worker 1)) ((boot (idle_rt a))\<lparr>can_exit := gotao_can_exit a\<rparr>) of
           None \<Rightarrow> False | Some s \<Rightarrow> pcs s 0 = PDone \<and> pcs s 1 = PDone))" by code_simp
  then show "\<exists>a s. start_twice = Inr a \<and> threads a ! 0 = Created \<and> threads a ! 1 = Created
      \<and> run 2 (replicate 6 (Worker 0) @ replicate 6 (Worker 1)) ((boot (idle_rt a))\<lparr>can_exit := gotao_can_exit a\<rparr>) = Some s
      \<and> pcs s 0 = PDone \<and> pcs s 1 = PDone" by (auto split: sum.splits option.splits)
  have "(case again xitao_start (xitao_init_hw (\<lambda>_. None) (\<lambda>_. None) 2 0 1 init_api) of Inl e \<Rightarrow> False | Inr a \<Rightarrow>
      (case run 2 (replicate 6 (Worker 0) @ replicate 6 (Worker 1)) ((boot (idle_rt a))\<lparr>can_exit := gotao_can_exit a\<rparr>) of
           None \<Rightarrow> False | Some s \<Rightarrow> pcs s 0 = PTop None \<and> pcs s 1 = PTop None))" by code_simp
  then show "\<exists>a s. again xitao_start (xitao_init_hw (\<lambda>_. None) (\<lambda>_. None) 2 0 1 init_api) = Inr a
      \<and> run 2 (replicate 6 (Worker 0) @ replicate 6 (Worker 1)) ((boot (idle_rt a))\<lparr>can_exit := gotao_can_exit a\<rparr>) = Some s
      \<and> pcs s 0 = PTop None \<and> pcs s 1 = PTop None" by (auto split: sum.splits option.splits)
qed

theorem restart_keeps_exit_flag_witness: "\<exists>a. start_twice = Inr a \<and> gotao_can_exit a"
proof -
  have "(case start_twice of Inl e \<Rightarrow> False | Inr a \<Rightarrow> True)" by code_simp
  then obtain a where a: "start_twice = Inr a" by (auto split: sum.splits)
  then obtain a1 a2 a3 a4 where "xitao_init_hw (\<lambda>_. None) (\<lambda>_. None) 2 0 1 init_api = Inr a1" "xitao_start a1 = Inr a2"
    "xitao_fini a2 = Inr a3" "xitao_init_hw (\<lambda>_. None) (\<lambda>_. None) 2 0 1 a3 = Inr a4" "xitao_start a4 = Inr a"
    by (auto simp: start_twice_def Let_def again_result)
  with restart_keeps_exit_flag a show ?thesis by blast
qed

end
